(* ===== verification/Int128.thy ===== *)
theory Int128
  imports QPrelude
begin

unbundle bit_operations_syntax

text \<open>
  The 128-bit integers of \<open>int128.h\<close>: a pair of an unsigned low and a signed high 64-bit
  half. The high half is kept as the 64-bit pattern that C's \<open>int64_t\<close> has and read with
  \<open>sint\<close>. The lemmas below show that every operation computes the integer operation of its
  name on the values, as long as the exact result has a 128-bit representation; the memory
  API uses the integers themselves, through the interface at the end of this theory.
\<close>

section \<open>The operations of int128.h\<close>

record Int128 =
  i_lo :: u64
  i_hi :: u64

definition int128_make64 :: "u64 \<Rightarrow> Int128" where
  "int128_make64 a = \<lparr>i_lo = a, i_hi = 0\<rparr>"

definition int128_get64 :: "Int128 \<Rightarrow> u64 option" where
  "int128_get64 a = do { c_assert (i_hi a = 0); Some (i_lo a) }"

definition int128_zero :: Int128 where
  "int128_zero = int128_make64 0"

definition int128_one :: Int128 where
  "int128_one = int128_make64 1"

definition int128_2_64 :: Int128 where
  "int128_2_64 = \<lparr>i_lo = 0, i_hi = 1\<rparr>"

definition int128_add :: "Int128 \<Rightarrow> Int128 \<Rightarrow> Int128" where
  "int128_add a b =
     (let r = \<lparr>i_lo = i_lo a + i_lo b, i_hi = i_hi a + i_hi b\<rparr>
      in r\<lparr>i_hi := i_hi r + (if i_lo r < i_lo a \<or> i_lo r < i_lo b then 1 else 0)\<rparr>)"

definition int128_neg :: "Int128 \<Rightarrow> Int128" where
  "int128_neg a =
     (let a = a\<lparr>i_lo := NOT (i_lo a)\<rparr>; a = a\<lparr>i_hi := NOT (i_hi a)\<rparr>
      in int128_add a int128_one)"

definition int128_sub :: "Int128 \<Rightarrow> Int128 \<Rightarrow> Int128" where
  "int128_sub a b = int128_add a (int128_neg b)"

definition int128_nonneg :: "Int128 \<Rightarrow> bool" where
  "int128_nonneg a \<longleftrightarrow> sint (i_hi a) \<ge> 0"

definition int128_eq :: "Int128 \<Rightarrow> Int128 \<Rightarrow> bool" where
  "int128_eq a b \<longleftrightarrow> i_lo a = i_lo b \<and> i_hi a = i_hi b"

definition int128_ne :: "Int128 \<Rightarrow> Int128 \<Rightarrow> bool" where
  "int128_ne a b \<longleftrightarrow> \<not> int128_eq a b"

definition int128_ge :: "Int128 \<Rightarrow> Int128 \<Rightarrow> bool" where
  "int128_ge a b \<longleftrightarrow> int128_nonneg (int128_sub a b)"

definition int128_lt :: "Int128 \<Rightarrow> Int128 \<Rightarrow> bool" where
  "int128_lt a b \<longleftrightarrow> \<not> int128_ge a b"

definition int128_le :: "Int128 \<Rightarrow> Int128 \<Rightarrow> bool" where
  "int128_le a b \<longleftrightarrow> int128_ge b a"

definition int128_gt :: "Int128 \<Rightarrow> Int128 \<Rightarrow> bool" where
  "int128_gt a b \<longleftrightarrow> \<not> int128_le a b"

definition int128_nz :: "Int128 \<Rightarrow> bool" where
  "int128_nz a \<longleftrightarrow> i_lo a \<noteq> 0 \<or> i_hi a \<noteq> 0"

definition int128_min :: "Int128 \<Rightarrow> Int128 \<Rightarrow> Int128" where
  "int128_min a b = (if int128_le a b then a else b)"

definition int128_max :: "Int128 \<Rightarrow> Int128 \<Rightarrow> Int128" where
  "int128_max a b = (if int128_ge a b then a else b)"

definition int128_addto :: "Int128 \<Rightarrow> Int128 \<Rightarrow> Int128" where
  "int128_addto a b = int128_add a b"

definition int128_subfrom :: "Int128 \<Rightarrow> Int128 \<Rightarrow> Int128" where
  "int128_subfrom a b = int128_sub a b"

section \<open>The value of a pair and the exactness of the operations\<close>

definition int128_val :: "Int128 \<Rightarrow> int" where
  "int128_val a = sint (i_hi a) * 2 ^ 64 + uint (i_lo a)"

definition in_int128 :: "int \<Rightarrow> bool" where
  "in_int128 x \<longleftrightarrow> - (2 ^ 127) \<le> x \<and> x < 2 ^ 127"

definition wrap128 :: "int \<Rightarrow> int" where
  "wrap128 x = (x + 2 ^ 127) mod 2 ^ 128 - 2 ^ 127"

lemma wrap128_id: "in_int128 x \<Longrightarrow> wrap128 x = x"
  by (simp add: wrap128_def in_int128_def)

lemma sint64_range: "- (2 ^ 63) \<le> sint (x :: u64) \<and> sint x < 2 ^ 63"
  using sint_ge [of x] sint_lt [of x] by simp

lemma sint_add64: "sint (x + y :: u64) = (sint x + sint y + 2 ^ 63) mod 2 ^ 64 - 2 ^ 63"
  by (simp add: sint_word_ariths signed_take_bit_eq_take_bit_shift take_bit_eq_mod)

lemma in_int128_val [simp]: "in_int128 (int128_val a)"
proof -
  have "- (2 ^ 63) \<le> x \<Longrightarrow> x < 2 ^ 63 \<Longrightarrow> 0 \<le> y \<Longrightarrow> y < 2 ^ 64 \<Longrightarrow> in_int128 (x * 2 ^ 64 + y)"
    for x y :: int
    by (simp add: in_int128_def)
  then show ?thesis
    unfolding int128_val_def
    using sint64_range [of "i_hi a"] uint64_lt [of "i_lo a"] uint64_ge [of "i_lo a"] by blast
qed

lemma mod_add_carry:
  fixes x y :: int
  assumes "0 \<le> x" "x < M" "0 \<le> y" "y < M"
  shows "(x + y) mod M = (if M \<le> x + y then x + y - M else x + y)"
proof (cases "M \<le> x + y")
  case True
  then have "(x + y) mod M = (x + y - M) mod M" by simp
  also have "\<dots> = x + y - M"
    using assms True by (intro mod_pos_pos_trivial) auto
  finally show ?thesis using True by simp
next
  case False
  then show ?thesis using assms by simp
qed

lemma uint_add64_carry:
  "uint (a + b :: u64) = (if 2 ^ 64 \<le> uint a + uint b then uint a + uint b - 2 ^ 64 else uint a + uint b)"
  unfolding uint_add64
  by (rule mod_add_carry) (use uint64_lt uint64_ge in auto)

lemma carry_iff:
  fixes a b :: u64
  shows "(a + b < a \<or> a + b < b) \<longleftrightarrow> 2 ^ 64 \<le> uint a + uint b"
proof -
  note bounds = uint64_lt [of a] uint64_lt [of b] uint64_ge [of a] uint64_ge [of b]
  show ?thesis
    unfolding word_less_def uint_add64_carry using bounds by (cases "2 ^ 64 \<le> uint a + uint b") auto
qed

text \<open>Addition: exact up to the wrap-around of the 128-bit result.\<close>

lemma wrap128_split:
  fixes h l :: int
  assumes "0 \<le> l" "l < 2 ^ 64"
  shows "((h + 2 ^ 63) mod 2 ^ 64 - 2 ^ 63) * 2 ^ 64 + l = wrap128 (h * 2 ^ 64 + l)"
proof -
  have "(h * 2 ^ 64 + l + 2 ^ 127) mod 2 ^ 128 = ((h + 2 ^ 63) * 2 ^ 64 + l) mod (2 ^ 64 * 2 ^ 64)"
    by (simp add: algebra_simps)
  also have "\<dots> = 2 ^ 64 * ((((h + 2 ^ 63) * 2 ^ 64 + l) div 2 ^ 64) mod 2 ^ 64)
      + ((h + 2 ^ 63) * 2 ^ 64 + l) mod 2 ^ 64"
    by (rule zmod_zmult2_eq) simp
  also have "((h + 2 ^ 63) * 2 ^ 64 + l) div 2 ^ 64 = h + 2 ^ 63"
    using assms by simp
  also have "((h + 2 ^ 63) * 2 ^ 64 + l) mod 2 ^ 64 = l"
    using assms by (simp only: mod_mult_self3) simp
  finally show ?thesis by (simp add: wrap128_def)
qed

lemma sint_add64_wrap: "sint (x + y + (if c then 1 else 0) :: u64)
    = (sint x + sint y + (if c then 1 else 0) + 2 ^ 63) mod 2 ^ 64 - 2 ^ 63"
proof (cases c)
  case True
  have "sint (x + y + 1 :: u64) = ((sint x + sint y + 2 ^ 63) mod 2 ^ 64 + 1) mod 2 ^ 64 - 2 ^ 63"
    by (simp add: sint_add64 [of "x + y" 1] sint_add64 [of x y]) (simp add: add.commute)
  also have "\<dots> = (sint x + sint y + 1 + 2 ^ 63) mod 2 ^ 64 - 2 ^ 63"
    by (simp add: mod_simps algebra_simps)
  finally show ?thesis using True by simp
next
  case False
  then show ?thesis by (simp add: sint_add64)
qed

lemma int128_add_val: "int128_val (int128_add a b) = wrap128 (int128_val a + int128_val b)"
proof -
  let ?c = "i_lo a + i_lo b < i_lo a \<or> i_lo a + i_lo b < i_lo b"
  let ?l = "uint (i_lo a + i_lo b)"
  have l: "?l = uint (i_lo a) + uint (i_lo b) - (if ?c then 2 ^ 64 else 0)"
    unfolding carry_iff uint_add64_carry by simp
  have "int128_val (int128_add a b)
      = ((sint (i_hi a) + sint (i_hi b) + (if ?c then 1 else 0) + 2 ^ 63) mod 2 ^ 64 - 2 ^ 63) * 2 ^ 64 + ?l"
    unfolding int128_val_def int128_add_def Let_def sint_add64_wrap [symmetric] by simp
  also have "\<dots> = wrap128 ((sint (i_hi a) + sint (i_hi b) + (if ?c then 1 else 0)) * 2 ^ 64 + ?l)"
    by (rule wrap128_split) (use uint64_lt uint64_ge in auto)
  also have "(sint (i_hi a) + sint (i_hi b) + (if ?c then 1 else 0)) * 2 ^ 64 + ?l
      = int128_val a + int128_val b"
    unfolding l int128_val_def by (simp add: algebra_simps)
  finally show ?thesis .
qed

lemma sint_not64: "sint (NOT x :: u64) = - 1 - sint x"
proof -
  have "sint (NOT x) = signed_take_bit 64 (- sint x - 1)"
    by (simp only: signed_not_eq) (simp add: not_eq_complement)
  also have "\<dots> = - sint x - 1"
    using sint64_range [of x] by (intro signed_take_bit_int_eq_self) auto
  finally show ?thesis by simp
qed

lemma uint_not64: "uint (NOT x :: u64) = 2 ^ 64 - 1 - uint x"
  using uint64_lt [of x]
  by (simp add: unsigned_not_eq take_bit_not_eq_mask_diff mask_eq_exp_minus_1 take_bit_int_eq_self)

lemma int128_neg_val: "int128_val (int128_neg a) = wrap128 (- int128_val a)"
proof -
  have "int128_val (a\<lparr>i_lo := NOT (i_lo a), i_hi := NOT (i_hi a)\<rparr>) = - 1 - int128_val a"
    by (simp add: int128_val_def sint_not64 uint_not64 algebra_simps)
  moreover have "int128_val int128_one = 1"
    by (simp add: int128_val_def int128_one_def int128_make64_def)
  ultimately show ?thesis
    by (simp add: int128_neg_def int128_add_val)
qed

lemma wrap128_add_right: "wrap128 (x + wrap128 y) = wrap128 (x + y)"
proof -
  have "(x + ((y + 2 ^ 127) mod 2 ^ 128 - 2 ^ 127) + 2 ^ 127) mod 2 ^ 128
      = (x + (y + 2 ^ 127) mod 2 ^ 128) mod 2 ^ 128" by simp
  also have "\<dots> = (x + (y + 2 ^ 127)) mod 2 ^ 128" by (simp only: mod_simps)
  finally show ?thesis by (simp add: wrap128_def add.assoc)
qed

lemma int128_sub_val: "int128_val (int128_sub a b) = wrap128 (int128_val a - int128_val b)"
  by (simp add: int128_sub_def int128_add_val int128_neg_val wrap128_add_right)

lemma int128_eq_val: "int128_eq a b \<longleftrightarrow> int128_val a = int128_val b"
proof
  assume "int128_val a = int128_val b"
  then have v: "sint (i_hi a) * 2 ^ 64 + uint (i_lo a) = sint (i_hi b) * 2 ^ 64 + uint (i_lo b)"
    by (simp only: int128_val_def)
  have div: "(h * 2 ^ 64 + uint l) div 2 ^ 64 = h" and mod: "(h * 2 ^ 64 + uint l) mod 2 ^ 64 = uint l"
    for h and l :: u64
    using uint64_lt [of l] uint64_ge [of l] by simp_all
  have "sint (i_hi a) = sint (i_hi b)" using v div by metis
  moreover have "uint (i_lo a) = uint (i_lo b)" using v mod by metis
  ultimately show "int128_eq a b" by (simp add: int128_eq_def unsigned_word_eqI signed_word_eqI)
qed (auto simp: int128_eq_def int128_val_def)

lemma int128_nonneg_val: "int128_nonneg a \<longleftrightarrow> 0 \<le> int128_val a"
proof -
  have "0 \<le> h \<longleftrightarrow> 0 \<le> h * 2 ^ 64 + l" if "0 \<le> l" "l < 2 ^ 64" for h l :: int
    using that by auto
  then show ?thesis
    unfolding int128_nonneg_def int128_val_def using uint64_lt uint64_ge by blast
qed

lemma int128_ge_val:
  "in_int128 (int128_val a - int128_val b) \<Longrightarrow> int128_ge a b \<longleftrightarrow> int128_val b \<le> int128_val a"
  by (simp add: int128_ge_def int128_nonneg_val int128_sub_val wrap128_id)

lemma int128_nz_val: "int128_nz a \<longleftrightarrow> int128_val a \<noteq> 0"
proof -
  have "int128_nz a \<longleftrightarrow> \<not> int128_eq a int128_zero"
    by (simp add: int128_nz_def int128_eq_def int128_zero_def int128_make64_def)
  then show ?thesis
    by (simp add: int128_eq_val) (simp add: int128_val_def int128_zero_def int128_make64_def)
qed

lemma int128_make64_val [simp]: "int128_val (int128_make64 a) = uint a"
  by (simp add: int128_val_def int128_make64_def)

lemma int128_2_64_val [simp]: "int128_val int128_2_64 = 2 ^ 64"
  by (simp add: int128_val_def int128_2_64_def)

lemma int128_get64_val: "int128_get64 a = Some r \<longleftrightarrow> int128_val a = uint r"
proof -
  have "int128_get64 a = Some r \<longleftrightarrow> int128_eq a (int128_make64 r)"
    by (auto simp: int128_get64_def int128_eq_def int128_make64_def)
  then show ?thesis by (simp add: int128_eq_val)
qed

section \<open>The interface the memory API relies on\<close>

text \<open>
  What a client needs of the 128-bit arithmetic: a reading of the values as integers, a set
  of representable integers, and operations that are exact while the result is representable.
\<close>

locale exact_arith =
  fixes val :: "'n \<Rightarrow> int"
    and repr :: "int \<Rightarrow> bool"
    and add :: "'n \<Rightarrow> 'n \<Rightarrow> 'n"
    and sub :: "'n \<Rightarrow> 'n \<Rightarrow> 'n"
    and ge :: "'n \<Rightarrow> 'n \<Rightarrow> bool"
    and eq :: "'n \<Rightarrow> 'n \<Rightarrow> bool"
  assumes val_add: "repr (val a + val b) \<Longrightarrow> val (add a b) = val a + val b"
    and val_sub: "repr (val a - val b) \<Longrightarrow> val (sub a b) = val a - val b"
    and val_ge: "repr (val a - val b) \<Longrightarrow> ge a b \<longleftrightarrow> val b \<le> val a"
    and val_eq: "eq a b \<longleftrightarrow> val a = val b"
begin

lemma val_min:
  "repr (val b - val a) \<Longrightarrow> val (if ge b a then a else b) = min (val a) (val b)"
  by (auto simp: val_ge min_def)

lemma val_max:
  "repr (val a - val b) \<Longrightarrow> val (if ge a b then a else b) = max (val a) (val b)"
  by (auto simp: val_ge max_def)

lemma contains_iff:
  assumes "repr (val x - val s)" "repr (val s + val n)" "repr (val x - (val s + val n))"
  shows "ge x s \<and> \<not> ge x (add s n) \<longleftrightarrow> val s \<le> val x \<and> val x < val s + val n"
  using assms by (auto simp: val_ge val_add)

end

interpretation int128: exact_arith int128_val in_int128 int128_add int128_sub int128_ge int128_eq
  by unfold_locales
    (simp_all add: int128_add_val int128_sub_val int128_ge_val int128_eq_val wrap128_id)

text \<open>
  Addition, subtraction and negation of 128-bit integers compute the integer result
  reduced to the signed 128-bit range, so they are exact whenever the result fits.
\<close>

theorem int128_arith_exact:
  "int128_val (int128_add a b) = wrap128 (int128_val a + int128_val b) \<and>
   int128_val (int128_sub a b) = wrap128 (int128_val a - int128_val b) \<and>
   int128_val (int128_neg a) = wrap128 (- int128_val a)"
  by (simp add: int128_add_val int128_sub_val int128_neg_val)

text \<open>
  The comparisons of 128-bit integers, and the minimum and maximum built on them, agree
  with the order of the integers whenever the difference of the operands fits in 128 bits.
\<close>

theorem int128_order:
  assumes "in_int128 (int128_val a - int128_val b)" and "in_int128 (int128_val b - int128_val a)"
  shows "(int128_lt a b \<longleftrightarrow> int128_val a < int128_val b) \<and>
    (int128_le a b \<longleftrightarrow> int128_val a \<le> int128_val b) \<and>
    (int128_gt a b \<longleftrightarrow> int128_val a > int128_val b) \<and>
    int128_val (int128_min a b) = min (int128_val a) (int128_val b) \<and>
    int128_val (int128_max a b) = max (int128_val a) (int128_val b)"
  using assms int128.val_min [of b a] int128.val_max [of a b]
  by (simp add: int128_lt_def int128_le_def int128_gt_def int128_min_def int128_max_def
      int128_ge_val not_le)

end
