(* ===== verification/Addr_Range.thy ===== *)
theory Addr_Range
  imports Int128
begin

text \<open>
  Address ranges (\<open>AddrRange\<close> of \<open>memory.c\<close>), twice: the source's functions over pairs of
  \<^const>\<open>int128_add\<close>-style integers, and the same ranges over mathematical integers, which
  is what the flat views of the memory API are built from. The two agree on every range that
  stays well inside 128 bits.
\<close>

section \<open>The functions of the source\<close>

record AddrRange =
  ar_start :: Int128
  ar_size :: Int128

definition addrrange_make :: "Int128 \<Rightarrow> Int128 \<Rightarrow> AddrRange" where
  "addrrange_make st sz = \<lparr>ar_start = st, ar_size = sz\<rparr>"

definition addrrange_equal :: "AddrRange \<Rightarrow> AddrRange \<Rightarrow> bool" where
  "addrrange_equal r1 r2 \<longleftrightarrow> int128_eq (ar_start r1) (ar_start r2) \<and> int128_eq (ar_size r1) (ar_size r2)"

definition addrrange_end :: "AddrRange \<Rightarrow> Int128" where
  "addrrange_end r = int128_add (ar_start r) (ar_size r)"

definition addrrange_shift :: "AddrRange \<Rightarrow> Int128 \<Rightarrow> AddrRange" where
  "addrrange_shift r delta = r\<lparr>ar_start := int128_addto (ar_start r) delta\<rparr>"

definition addrrange_contains :: "AddrRange \<Rightarrow> Int128 \<Rightarrow> bool" where
  "addrrange_contains r addr \<longleftrightarrow>
     int128_ge addr (ar_start r) \<and> int128_lt addr (addrrange_end r)"

definition addrrange_intersects :: "AddrRange \<Rightarrow> AddrRange \<Rightarrow> bool" where
  "addrrange_intersects r1 r2 \<longleftrightarrow>
     addrrange_contains r1 (ar_start r2) \<or> addrrange_contains r2 (ar_start r1)"

definition addrrange_intersection :: "AddrRange \<Rightarrow> AddrRange \<Rightarrow> AddrRange" where
  "addrrange_intersection r1 r2 =
     (let st = int128_max (ar_start r1) (ar_start r2);
          en = int128_min (addrrange_end r1) (addrrange_end r2)
      in addrrange_make st (int128_sub en st))"

section \<open>Ranges of integers\<close>

record irange =
  rstart :: int
  rsize :: int

definition rend :: "irange \<Rightarrow> int" where
  "rend r = rstart r + rsize r"

definition rmake :: "int \<Rightarrow> int \<Rightarrow> irange" where
  "rmake st sz = \<lparr>rstart = st, rsize = sz\<rparr>"

definition rshift :: "irange \<Rightarrow> int \<Rightarrow> irange" where
  "rshift r d = r\<lparr>rstart := rstart r + d\<rparr>"

definition rcontains :: "irange \<Rightarrow> int \<Rightarrow> bool" where
  "rcontains r a \<longleftrightarrow> rstart r \<le> a \<and> a < rend r"

definition rintersects :: "irange \<Rightarrow> irange \<Rightarrow> bool" where
  "rintersects r1 r2 \<longleftrightarrow> rcontains r1 (rstart r2) \<or> rcontains r2 (rstart r1)"

definition rintersection :: "irange \<Rightarrow> irange \<Rightarrow> irange" where
  "rintersection r1 r2 =
     (let st = max (rstart r1) (rstart r2); en = min (rend r1) (rend r2)
      in rmake st (en - st))"

lemma rmake_simps [simp]: "rstart (rmake s n) = s" "rsize (rmake s n) = n" "rend (rmake s n) = s + n"
  by (simp_all add: rmake_def rend_def)

lemma rshift_simps [simp]:
  "rstart (rshift r d) = rstart r + d" "rsize (rshift r d) = rsize r" "rend (rshift r d) = rend r + d"
  by (simp_all add: rshift_def rend_def)

lemma rintersection_simps [simp]:
  "rstart (rintersection r1 r2) = max (rstart r1) (rstart r2)"
  "rend (rintersection r1 r2) = min (rend r1) (rend r2)"
  by (simp_all add: rintersection_def Let_def)

lemma rsize_rend: "rsize r = rend r - rstart r"
  by (simp add: rend_def)

lemma rcontains_rmake [simp]: "rcontains (rmake s n) a \<longleftrightarrow> s \<le> a \<and> a < s + n"
  by (simp add: rcontains_def)

lemma rcontains_rintersection [simp]:
  "rcontains (rintersection r1 r2) a \<longleftrightarrow> rcontains r1 a \<and> rcontains r2 a"
  by (auto simp: rcontains_def)

lemma rcontains_imp_rintersects:
  "rcontains r1 a \<Longrightarrow> rcontains r2 a \<Longrightarrow> rintersects r1 r2"
  by (auto simp: rintersects_def rcontains_def)

lemma rintersects_commute: "rintersects r1 r2 \<longleftrightarrow> rintersects r2 r1"
  by (auto simp: rintersects_def)

lemma rintersects_iff:
  "0 < rsize r1 \<Longrightarrow> 0 < rsize r2 \<Longrightarrow>
   rintersects r1 r2 \<longleftrightarrow> rstart r1 < rend r2 \<and> rstart r2 < rend r1"
  by (auto simp: rintersects_def rcontains_def rend_def)

lemma rintersection_size_nonneg:
  "rintersects r1 r2 \<Longrightarrow> 0 \<le> rsize r1 \<Longrightarrow> 0 \<le> rsize r2 \<Longrightarrow> 0 \<le> rsize (rintersection r1 r2)"
  by (auto simp: rintersects_def rcontains_def rsize_rend)

section \<open>The source's ranges implement the integer ranges\<close>

definition range_val :: "AddrRange \<Rightarrow> irange" where
  "range_val r = rmake (int128_val (ar_start r)) (int128_val (ar_size r))"

definition small_range :: "AddrRange \<Rightarrow> bool" where
  "small_range r \<longleftrightarrow>
     \<bar>int128_val (ar_start r)\<bar> \<le> 2 ^ 124 \<and> \<bar>int128_val (ar_size r)\<bar> \<le> 2 ^ 124"

lemma range_val_simps [simp]:
  "rstart (range_val r) = int128_val (ar_start r)" "rsize (range_val r) = int128_val (ar_size r)"
  "rend (range_val r) = int128_val (ar_start r) + int128_val (ar_size r)"
  by (simp_all add: range_val_def)

lemma range_val_eq:
  "range_val r1 = range_val r2 \<longleftrightarrow> addrrange_equal r1 r2"
  by (auto simp: range_val_def rmake_def addrrange_equal_def int128_eq_val)

lemma in_int128_small: "\<bar>x\<bar> \<le> 2 ^ 126 \<Longrightarrow> in_int128 x"
  by (auto simp: in_int128_def)

lemma addrrange_end_val:
  "small_range r \<Longrightarrow> int128_val (addrrange_end r) = rend (range_val r)"
  unfolding addrrange_end_def
  by (subst int128.val_add) (auto simp: small_range_def intro!: in_int128_small)

lemma addrrange_contains_val:
  assumes "small_range r" "\<bar>int128_val x\<bar> \<le> 2 ^ 124"
  shows "addrrange_contains r x \<longleftrightarrow> rcontains (range_val r) (int128_val x)"
proof -
  have "int128_ge x (ar_start r) \<longleftrightarrow> int128_val (ar_start r) \<le> int128_val x"
    using assms by (intro int128_ge_val in_int128_small) (auto simp: small_range_def)
  moreover have "int128_ge x (addrrange_end r) \<longleftrightarrow> rend (range_val r) \<le> int128_val x"
    unfolding addrrange_end_val [OF assms(1), symmetric]
    using assms addrrange_end_val [OF assms(1)]
    by (intro int128_ge_val in_int128_small) (auto simp: small_range_def)
  ultimately show ?thesis
    by (auto simp: addrrange_contains_def int128_lt_def rcontains_def)
qed

lemma addrrange_intersects_val:
  "small_range r1 \<Longrightarrow> small_range r2 \<Longrightarrow>
   addrrange_intersects r1 r2 \<longleftrightarrow> rintersects (range_val r1) (range_val r2)"
  by (auto simp: addrrange_intersects_def rintersects_def addrrange_contains_val small_range_def)

lemma addrrange_intersection_val:
  assumes "small_range r1" "small_range r2"
  shows "range_val (addrrange_intersection r1 r2) = rintersection (range_val r1) (range_val r2)"
proof -
  let ?st = "int128_max (ar_start r1) (ar_start r2)"
  let ?en = "int128_min (addrrange_end r1) (addrrange_end r2)"
  note ends = addrrange_end_val [OF assms(1)] addrrange_end_val [OF assms(2)]
  have st: "int128_val ?st = max (int128_val (ar_start r1)) (int128_val (ar_start r2))"
    unfolding int128_max_def using assms
    by (intro int128.val_max in_int128_small) (auto simp: small_range_def)
  have en: "int128_val ?en = min (rend (range_val r1)) (rend (range_val r2))"
    unfolding int128_min_def int128_le_def ends [symmetric] using assms ends
    by (intro int128.val_min in_int128_small) (auto simp: small_range_def)
  have "int128_val (int128_sub ?en ?st) = int128_val ?en - int128_val ?st"
    using assms by (intro int128.val_sub in_int128_small) (auto simp: st en small_range_def)
  then show ?thesis
    by (simp add: addrrange_intersection_def addrrange_make_def rintersection_def range_val_def
        st en Let_def rend_def)
qed

text \<open>
  On ranges of at most 2^124 in start and size, the range functions of \<open>memory.c\<close>
  compute the end, the containment of an address, the overlap and the intersection of the
  integer ranges that they stand for.
\<close>

theorem addrrange_refines_irange:
  assumes "small_range r1" and "small_range r2" and "\<bar>int128_val x\<bar> \<le> 2 ^ 124"
  shows "int128_val (addrrange_end r1) = rend (range_val r1) \<and>
    (addrrange_contains r1 x \<longleftrightarrow> rcontains (range_val r1) (int128_val x)) \<and>
    (addrrange_intersects r1 r2 \<longleftrightarrow> rintersects (range_val r1) (range_val r2)) \<and>
    range_val (addrrange_intersection r1 r2) = rintersection (range_val r1) (range_val r2) \<and>
    (addrrange_equal r1 r2 \<longleftrightarrow> range_val r1 = range_val r2)"
  using assms
  by (simp add: addrrange_end_val addrrange_contains_val addrrange_intersects_val
      addrrange_intersection_val range_val_eq)

end
