(* ===== verification/Memory_Types.thy ===== *)
theory Memory_Types
  imports Addr_Range
begin

text \<open>
  The data of the physical memory API (\<open>memory.h\<close> and the structures at the top of
  \<open>memory.c\<close>). A pointer to a memory region, to an event notifier or to a device's opaque
  state is a number; \<open>NULL\<close> is \<open>None\<close>. The callbacks of a region are functions over the
  state \<open>'d\<close> of the devices, which the API never inspects. Doubly linked lists are lists, and
  an array with its element count is a list. \<open>target_phys_addr_t\<close> and \<open>ram_addr_t\<close> are taken
  at 64 bits.
\<close>

type_synonym ptr = nat

datatype device_endian = DEVICE_NATIVE_ENDIAN | DEVICE_BIG_ENDIAN | DEVICE_LITTLE_ENDIAN

record 'd MemoryRegionPortio =
  mrp_offset :: u32
  mrp_len :: u32
  mrp_size :: nat
  mrp_read :: "(ptr \<Rightarrow> u32 \<Rightarrow> 'd \<Rightarrow> u32 \<times> 'd) option"
  mrp_write :: "(ptr \<Rightarrow> u32 \<Rightarrow> u32 \<Rightarrow> 'd \<Rightarrow> 'd) option"

record 'd MemoryRegionOps =
  ops_read :: "(ptr \<Rightarrow> u64 \<Rightarrow> nat \<Rightarrow> 'd \<Rightarrow> u64 \<times> 'd) option"
  ops_write :: "(ptr \<Rightarrow> u64 \<Rightarrow> u64 \<Rightarrow> nat \<Rightarrow> 'd \<Rightarrow> 'd) option"
  ops_endianness :: device_endian
  valid_min_access_size :: nat
  valid_max_access_size :: nat
  valid_unaligned :: bool
  valid_accepts :: "(ptr \<Rightarrow> u64 \<Rightarrow> nat \<Rightarrow> bool \<Rightarrow> 'd \<Rightarrow> bool) option"
  impl_min_access_size :: nat
  impl_max_access_size :: nat
  ops_old_portio :: "'d MemoryRegionPortio list option"
  old_mmio_read :: "(ptr \<Rightarrow> u64 \<Rightarrow> 'd \<Rightarrow> u32 \<times> 'd) option list"
  old_mmio_write :: "(ptr \<Rightarrow> u64 \<Rightarrow> u32 \<Rightarrow> 'd \<Rightarrow> 'd) option list"

record MemoryRegionIoeventfd =
  ioe_addr :: irange
  ioe_match_data :: bool
  ioe_data :: u64
  ioe_e :: ptr

datatype mr_destructor_kind =
  destructor_none | destructor_ram | destructor_ram_from_ptr | destructor_iomem
| destructor_rom_device

record 'd MemoryRegion =
  mr_ops :: "'d MemoryRegionOps option"
  mr_opaque :: ptr
  mr_parent :: "ptr option"
  mr_size :: int
  mr_addr :: u64
  mr_destructor :: mr_destructor_kind
  mr_ram_addr :: u64
  mr_subpage :: bool
  mr_terminates :: bool
  mr_readable :: bool
  mr_ram :: bool
  mr_readonly :: bool
  mr_enabled :: bool
  mr_rom_device :: bool
  mr_warning_printed :: bool
  mr_alias :: "ptr option"
  mr_alias_offset :: u64
  mr_priority :: u32
  mr_may_overlap :: bool
  mr_subregions :: "ptr list"
  mr_coalesced :: "irange list"
  mr_name :: string
  mr_dirty_log_mask :: u8
  mr_ioeventfds :: "MemoryRegionIoeventfd list"

record FlatRange =
  fr_mr :: ptr
  fr_offset_in_region :: u64
  fr_addr :: irange
  fr_dirty_log_mask :: u8
  fr_readable :: bool
  fr_readonly :: bool

record FlatView =
  fv_ranges :: "FlatRange list"
  fv_nr_allocated :: nat

abbreviation fv_nr :: "FlatView \<Rightarrow> nat" where
  "fv_nr view \<equiv> length (fv_ranges view)"

record MemoryRegionSection =
  sec_mr :: "ptr option"
  sec_address_space :: "ptr option"
  sec_offset_within_region :: u64
  sec_size :: u64
  sec_offset_within_address_space :: u64
  sec_readonly :: bool

record AddressSpace =
  as_root :: "ptr option"
  as_current_map :: FlatView
  as_ioeventfds :: "MemoryRegionIoeventfd list"

record MemoryListener =
  ml_self :: ptr
  ml_priority :: u32
  ml_address_space_filter :: "ptr option"

text \<open>
  What the API does to the rest of the program: the listener callbacks it calls, with the
  listener each call is made on, and the coalesced-MMIO registrations.
\<close>

datatype listener_event =
  Begin ptr
| Commit ptr
| Region_add ptr MemoryRegionSection
| Region_del ptr MemoryRegionSection
| Region_nop ptr MemoryRegionSection
| Log_start ptr MemoryRegionSection
| Log_stop ptr MemoryRegionSection
| Log_sync ptr MemoryRegionSection
| Log_global_start ptr
| Log_global_stop ptr
| Eventfd_add ptr MemoryRegionSection bool u64 ptr
| Eventfd_del ptr MemoryRegionSection bool u64 ptr
| Register_coalesced_mmio u64 u64
| Unregister_coalesced_mmio u64 u64

text \<open>The 128-bit to 64-bit conversion with its assertion, on integers.\<close>

definition get64 :: "int \<Rightarrow> u64 option" where
  "get64 x = do { c_assert (0 \<le> x \<and> x < 2 ^ 64); Some (of_int x) }"

lemma get64_Some [simp]: "0 \<le> x \<Longrightarrow> x < 2 ^ 64 \<Longrightarrow> get64 x = Some (of_int x)"
  by (simp add: get64_def)

lemma get64_eq_Some: "get64 x = Some w \<longleftrightarrow> 0 \<le> x \<and> x < 2 ^ 64 \<and> w = of_int x"
  by (auto simp: get64_def)

lemma uint_of_int64: "0 \<le> x \<Longrightarrow> x < 2 ^ 64 \<Longrightarrow> uint (of_int x :: u64) = x"
  by (simp add: unsigned_of_int take_bit_int_eq_self)

lemma get64_int128: "int128_get64 a = get64 (int128_val a)"
proof (cases "int128_get64 a")
  case None
  then have "int128_val a \<noteq> uint r" for r :: u64 by (metis int128_get64_val option.distinct(1))
  then have "\<not> (0 \<le> int128_val a \<and> int128_val a < 2 ^ 64)" by (metis uint_of_int64)
  then show ?thesis using None by (simp add: get64_def)
next
  case (Some r)
  then show ?thesis using int128_get64_val [of a r] uint64_lt [of r] by simp
qed

end
