(* ===== verification/Flat_View.thy ===== *)
theory Flat_View
  imports Memory_Types
begin

text \<open>
  Flat views (\<open>memory.c\<close>): the sorted array of the ranges that a hierarchy of memory regions
  shows to the guest, the insertion of a range, the merging of adjacent ranges, and the
  rendering of one region into the gaps that a view leaves.
\<close>

section \<open>Operations on views\<close>

definition flatrange_equal :: "FlatRange \<Rightarrow> FlatRange \<Rightarrow> bool" where
  "flatrange_equal a b \<longleftrightarrow>
     fr_mr a = fr_mr b \<and> fr_addr a = fr_addr b \<and>
     fr_offset_in_region a = fr_offset_in_region b \<and>
     fr_readable a = fr_readable b \<and> fr_readonly a = fr_readonly b"

definition flatview_init :: FlatView where
  "flatview_init = \<lparr>fv_ranges = [], fv_nr_allocated = 0\<rparr>"

definition flatview_insert :: "FlatView \<Rightarrow> nat \<Rightarrow> FlatRange \<Rightarrow> FlatView" where
  "flatview_insert view pos r =
     (let view = (if fv_nr view = fv_nr_allocated view
                  then view\<lparr>fv_nr_allocated := max (2 * fv_nr view) 10\<rparr> else view)
      in view\<lparr>fv_ranges := insert_at pos r (fv_ranges view)\<rparr>)"

definition can_merge :: "FlatRange \<Rightarrow> FlatRange \<Rightarrow> bool" where
  "can_merge r1 r2 \<longleftrightarrow>
     rend (fr_addr r1) = rstart (fr_addr r2) \<and> fr_mr r1 = fr_mr r2 \<and>
     uint (fr_offset_in_region r1) + rsize (fr_addr r1) = uint (fr_offset_in_region r2) \<and>
     fr_dirty_log_mask r1 = fr_dirty_log_mask r2 \<and>
     fr_readable r1 = fr_readable r2 \<and> fr_readonly r1 = fr_readonly r2"

definition fr_grow :: "FlatRange \<Rightarrow> int \<Rightarrow> FlatRange" where
  "fr_grow r n = r\<lparr>fr_addr := (fr_addr r)\<lparr>rsize := rsize (fr_addr r) + n\<rparr>\<rparr>"

text \<open>The inner loop of \<open>flatview_simplify\<close>: \<open>ranges[i]\<close> absorbs the run that follows it.\<close>

function simplify_inner :: "FlatRange list \<Rightarrow> nat \<Rightarrow> nat \<Rightarrow> FlatRange list \<times> nat" where
  "simplify_inner rs i j =
     (if j < length rs \<and> can_merge (rs ! (j - 1)) (rs ! j)
      then simplify_inner (rs[i := fr_grow (rs ! i) (rsize (fr_addr (rs ! j)))]) i (Suc j)
      else (rs, j))"
  by pat_completeness auto
termination
  by (relation "measure (\<lambda>(rs, i, j). length rs - j)") auto

declare simplify_inner.simps [simp del]

lemma simplify_inner_bounds:
  "simplify_inner rs i j = (rs', j') \<Longrightarrow> length rs' = length rs \<and> j \<le> j'"
proof (induction rs i j rule: simplify_inner.induct)
  case (1 rs i j)
  then show ?case
    by (subst (asm) simplify_inner.simps) (auto split: if_splits)
qed

function simplify_outer :: "FlatRange list \<Rightarrow> nat \<Rightarrow> FlatRange list" where
  "simplify_outer rs i =
     (if i < length rs
      then (case simplify_inner rs i (Suc i) of
              (rs', j) \<Rightarrow> simplify_outer (take (Suc i) rs' @ drop j rs') (Suc i))
      else rs)"
  by pat_completeness auto
termination
  by (relation "measure (\<lambda>(rs, i). length rs - i)")
    (auto dest!: sym [of _ "simplify_inner _ _ _"] dest: simplify_inner_bounds)

declare simplify_outer.simps [simp del]

definition flatview_simplify :: "FlatView \<Rightarrow> FlatView" where
  "flatview_simplify view = view\<lparr>fv_ranges := simplify_outer (fv_ranges view) 0\<rparr>"

section \<open>Rendering one region into the gaps of a view\<close>

text \<open>
  The last part of \<open>render_memory_region\<close>: what it inserts is described by the range without
  its address, here the region, its attributes and the read-only flag of the path.
\<close>

definition new_range :: "ptr \<Rightarrow> 'd MemoryRegion \<Rightarrow> bool \<Rightarrow> u64 \<Rightarrow> int \<Rightarrow> int \<Rightarrow> FlatRange" where
  "new_range p mr readonly off base now =
     \<lparr>fr_mr = p, fr_offset_in_region = off, fr_addr = rmake base now,
      fr_dirty_log_mask = mr_dirty_log_mask mr, fr_readable = mr_readable mr,
      fr_readonly = readonly\<rparr>"

definition gap_before ::
  "(u64 \<Rightarrow> int \<Rightarrow> int \<Rightarrow> FlatRange) \<Rightarrow> FlatView \<times> nat \<times> int \<times> u64 \<times> int \<Rightarrow>
   (FlatView \<times> nat \<times> int \<times> u64 \<times> int) option" where
  "gap_before mk = (\<lambda>(view, i, base, off, remain).
     if base < rstart (fr_addr (fv_ranges view ! i))
     then (let now = min remain (rstart (fr_addr (fv_ranges view ! i)) - base)
           in do { n64 \<leftarrow> get64 now;
                   Some (flatview_insert view i (mk off base now), Suc i, base + now,
                         off + n64, remain - now) })
     else Some (view, i, base, off, remain))"

definition skip_range ::
  "FlatView \<times> nat \<times> int \<times> u64 \<times> int \<Rightarrow> (FlatView \<times> nat \<times> int \<times> u64 \<times> int) option" where
  "skip_range = (\<lambda>(view, i, base, off, remain).
     if base = rstart (fr_addr (fv_ranges view ! i))
     then (let now = min remain (rsize (fr_addr (fv_ranges view ! i)))
           in do { n64 \<leftarrow> get64 now; Some (view, i, base + now, off + n64, remain - now) })
     else Some (view, i, base, off, remain))"

lemma gap_before_progress:
  "gap_before mk (view, i, base, off, remain) = Some (view', i', base', off', remain') \<Longrightarrow>
   i < fv_nr view \<Longrightarrow> fv_nr view' - i' = fv_nr view - i \<and> i' < fv_nr view'"
  by (auto simp: gap_before_def flatview_insert_def Let_def bind_eq_Some_conv split: if_splits)

lemma skip_range_same:
  "skip_range (view, i, base, off, remain) = Some (view', i', base', off', remain') \<Longrightarrow>
   view' = view \<and> i' = i"
  by (auto simp: skip_range_def Let_def bind_eq_Some_conv split: if_splits)

function render_gaps ::
  "(u64 \<Rightarrow> int \<Rightarrow> int \<Rightarrow> FlatRange) \<Rightarrow> FlatView \<Rightarrow> nat \<Rightarrow> int \<Rightarrow> u64 \<Rightarrow> int \<Rightarrow> FlatView option" where
  "render_gaps mk view i base off remain =
     (if i < fv_nr view \<and> remain \<noteq> 0
      then if base \<ge> rend (fr_addr (fv_ranges view ! i))
           then render_gaps mk view (Suc i) base off remain
           else (case gap_before mk (view, i, base, off, remain) of
                   None \<Rightarrow> None
                 | Some st \<Rightarrow>
                     (case skip_range st of
                        None \<Rightarrow> None
                      | Some (view', i', base', off', remain') \<Rightarrow>
                          render_gaps mk view' (Suc i') base' off' remain'))
      else if remain \<noteq> 0 then Some (flatview_insert view i (mk off base remain))
      else Some view)"
  by pat_completeness auto
termination
proof (relation "measure (\<lambda>(mk, view, i, base, off, remain). fv_nr view - i)", goal_cases)
  case (3 mk view i base off remain st res view' y i' y' base' z off' remain')
  obtain v1 i1 b1 o1 r1 where st: "st = (v1, i1, b1, o1, r1)" by (cases st) auto
  have "fv_nr v1 - i1 = fv_nr view - i" "i1 < fv_nr v1"
    using 3 gap_before_progress [of mk view i base off remain v1 i1 b1 o1 r1] by (auto simp: st)
  moreover have "view' = v1" "i' = i1"
    using 3 skip_range_same [of v1 i1 b1 o1 r1 view' i' base' off' remain'] by (auto simp: st)
  ultimately show ?case using 3 by auto
qed auto

declare render_gaps.simps [simp del]

section \<open>What a view means\<close>

text \<open>A view is sorted when its ranges are non-empty, in address order and disjoint.\<close>

definition flat_sorted :: "FlatRange list \<Rightarrow> bool" where
  "flat_sorted rs \<longleftrightarrow>
     sorted_wrt (\<lambda>r s. rend (fr_addr r) \<le> rstart (fr_addr s)) rs \<and>
     (\<forall>r\<in>set rs. 0 < rsize (fr_addr r))"

text \<open>What an address shows: the region, the offset in it, and the attributes.\<close>

type_synonym flat_hit = "ptr \<times> u64 \<times> u8 \<times> bool \<times> bool"

definition fr_hit :: "FlatRange \<Rightarrow> int \<Rightarrow> flat_hit" where
  "fr_hit r a =
     (fr_mr r, fr_offset_in_region r + of_int (a - rstart (fr_addr r)),
      fr_dirty_log_mask r, fr_readable r, fr_readonly r)"

fun flat_lookup :: "FlatRange list \<Rightarrow> int \<Rightarrow> flat_hit option" where
  "flat_lookup [] a = None"
| "flat_lookup (r # rs) a =
     (if rcontains (fr_addr r) a then Some (fr_hit r a) else flat_lookup rs a)"

lemma flat_lookup_append:
  "flat_lookup (xs @ ys) a =
     (case flat_lookup xs a of Some h \<Rightarrow> Some h | None \<Rightarrow> flat_lookup ys a)"
  by (induction xs) auto

lemma flat_lookup_None:
  "flat_lookup rs a = None \<longleftrightarrow> (\<forall>r\<in>set rs. \<not> rcontains (fr_addr r) a)"
  by (induction rs) auto

lemma flat_lookup_below:
  "(\<And>r. r \<in> set rs \<Longrightarrow> a < rstart (fr_addr r)) \<Longrightarrow> flat_lookup rs a = None"
  unfolding flat_lookup_None rcontains_def by (meson not_le)

lemma flat_sorted_Nil [simp]: "flat_sorted []"
  by (simp add: flat_sorted_def)

lemma flat_sorted_Cons:
  "flat_sorted (r # rs) \<longleftrightarrow>
     0 < rsize (fr_addr r) \<and> flat_sorted rs \<and>
     (\<forall>s\<in>set rs. rend (fr_addr r) \<le> rstart (fr_addr s))"
  by (auto simp: flat_sorted_def)

lemma flat_sorted_append:
  "flat_sorted (xs @ ys) \<longleftrightarrow>
     flat_sorted xs \<and> flat_sorted ys \<and>
     (\<forall>x\<in>set xs. \<forall>y\<in>set ys. rend (fr_addr x) \<le> rstart (fr_addr y))"
  by (auto simp: flat_sorted_def sorted_wrt_append)

text \<open>In a sorted view the range that an address belongs to is unique.\<close>

lemma flat_sorted_unique:
  assumes "flat_sorted rs" "r \<in> set rs" "s \<in> set rs" "rcontains (fr_addr r) a" "rcontains (fr_addr s) a"
  shows "r = s"
  using assms
proof (induction rs)
  case (Cons q rs)
  then have "\<And>t. t \<in> set rs \<Longrightarrow> rend (fr_addr q) \<le> rstart (fr_addr t)"
    by (simp add: flat_sorted_Cons)
  with Cons show ?case by (fastforce simp: flat_sorted_Cons rcontains_def)
qed simp

lemma flat_lookup_sorted:
  "flat_sorted rs \<Longrightarrow> r \<in> set rs \<Longrightarrow> rcontains (fr_addr r) a \<Longrightarrow> flat_lookup rs a = Some (fr_hit r a)"
proof (induction rs)
  case (Cons q rs)
  then have "\<And>t. t \<in> set rs \<Longrightarrow> rend (fr_addr q) \<le> rstart (fr_addr t)"
    by (simp add: flat_sorted_Cons)
  with Cons show ?case by (fastforce simp: flat_sorted_Cons rcontains_def)
qed simp

section \<open>Rendering fills the gaps\<close>

text \<open>The rendering loop as a recursion over the ranges that it has not yet passed.\<close>

fun fill :: "(u64 \<Rightarrow> int \<Rightarrow> int \<Rightarrow> FlatRange) \<Rightarrow> int \<Rightarrow> u64 \<Rightarrow> int \<Rightarrow> FlatRange list \<Rightarrow> FlatRange list" where
  "fill mk base off remain [] = (if remain \<noteq> 0 then [mk off base remain] else [])"
| "fill mk base off remain (r # rs) =
     (if remain = 0 then r # rs
      else if rend (fr_addr r) \<le> base then r # fill mk base off remain rs
      else let g = (if base < rstart (fr_addr r) then min remain (rstart (fr_addr r) - base) else 0);
               s = (if base + g = rstart (fr_addr r) then min (remain - g) (rsize (fr_addr r)) else 0)
           in (if base < rstart (fr_addr r) then [mk off base g] else []) @
              r # fill mk (base + g + s) (off + of_int (g + s)) (remain - (g + s)) rs)"

definition capacity_ok :: "FlatView \<Rightarrow> bool" where
  "capacity_ok view \<longleftrightarrow> fv_nr view \<le> fv_nr_allocated view"

lemma flatview_insert_ranges [simp]:
  "fv_ranges (flatview_insert view i r) = insert_at i r (fv_ranges view)"
  by (simp add: flatview_insert_def Let_def)

lemma flatview_insert_capacity:
  "capacity_ok view \<Longrightarrow> i \<le> fv_nr view \<Longrightarrow> capacity_ok (flatview_insert view i r)"
  by (auto simp: capacity_ok_def flatview_insert_def Let_def)

lemma insert_at_split:
  "i < length xs \<Longrightarrow> insert_at i x xs ! Suc i = xs ! i"
  "i \<le> length xs \<Longrightarrow> take (Suc (Suc i)) (insert_at i x xs) = take i xs @ x # take (Suc 0) (drop i xs)"
  "i \<le> length xs \<Longrightarrow> drop (Suc (Suc i)) (insert_at i x xs) = drop (Suc i) xs"
  by (simp_all add: insert_at_def nth_append drop_Suc Cons_nth_drop_Suc)

lemma fill_0 [simp]: "fill mk base off 0 rs = rs"
  by (cases rs) auto

text \<open>One iteration of the loop on a range that ends above \<open>base\<close>.\<close>

lemma render_step:
  fixes base :: int and off :: u64 and mk :: "u64 \<Rightarrow> int \<Rightarrow> int \<Rightarrow> FlatRange"
  assumes "i < fv_nr view" "0 < remain" "remain < 2 ^ 64" "0 \<le> rsize (fr_addr (fv_ranges view ! i))"
  defines "r \<equiv> fv_ranges view ! i"
  defines "g \<equiv> (if base < rstart (fr_addr r) then min remain (rstart (fr_addr r) - base) else 0)"
  defines "s \<equiv> (if base + g = rstart (fr_addr r) then min (remain - g) (rsize (fr_addr r)) else 0)"
  defines "pre \<equiv> (if base < rstart (fr_addr r) then [mk off base g] else [])"
  shows "\<exists>view1 st. gap_before mk (view, i, base, off, remain) = Some st \<and>
     skip_range st = Some (view1, i + length pre, base + g + s, off + of_int (g + s), remain - (g + s)) \<and>
     fv_ranges view1 = take i (fv_ranges view) @ pre @ drop i (fv_ranges view) \<and>
     (capacity_ok view \<longrightarrow> capacity_ok view1) \<and> 0 \<le> remain - (g + s) \<and> 0 \<le> g + s"
proof -
  have at0: "fv_ranges view ! i = r" by (simp add: r_def)
  define view1 where
    "view1 = (if base < rstart (fr_addr r) then flatview_insert view i (mk off base g) else view)"
  have gap: "gap_before mk (view, i, base, off, remain)
      = Some (view1, i + length pre, base + g, off + of_int g, remain - g)"
  proof (cases "base < rstart (fr_addr r)")
    case True
    then have "get64 g = Some (of_int g)" using assms(2,3) by (simp add: g_def)
    with True show ?thesis
      by (simp add: gap_before_def at0 Let_def pre_def view1_def g_def)
  next
    case False
    then show ?thesis by (simp add: gap_before_def at0 g_def pre_def view1_def)
  qed
  have v1: "fv_ranges view1 = take i (fv_ranges view) @ pre @ drop i (fv_ranges view)"
    by (simp add: view1_def pre_def insert_at_def)
  have cap: "capacity_ok view \<longrightarrow> capacity_ok view1"
    using assms(1) by (simp add: view1_def flatview_insert_capacity)
  have at: "fv_ranges view1 ! (i + length pre) = r"
    using assms(1) by (simp add: v1 nth_append r_def)
  have g: "0 \<le> g" "g \<le> remain" using assms(2) by (auto simp: g_def)
  have s: "0 \<le> s" "s \<le> remain - g" using assms(4) g by (auto simp: s_def r_def)
  have "skip_range (view1, i + length pre, base + g, off + of_int g, remain - g)
      = Some (view1, i + length pre, base + g + s, off + of_int (g + s), remain - (g + s))"
    using s g assms(3) unfolding skip_range_def at s_def by (auto simp: Let_def at)
  with gap v1 cap g s show ?thesis by auto
qed

lemma render_gaps_fill:
  assumes "0 \<le> remain" "remain < 2 ^ 64" "i \<le> fv_nr view"
    and "\<forall>r\<in>set (drop i (fv_ranges view)). 0 \<le> rsize (fr_addr r)"
  shows "\<exists>view'. render_gaps mk view i base off remain = Some view' \<and>
    fv_ranges view' = take i (fv_ranges view) @ fill mk base off remain (drop i (fv_ranges view)) \<and>
    (capacity_ok view \<longrightarrow> capacity_ok view')"
  using assms
proof (induction mk view i base off remain rule: render_gaps.induct)
  case (1 mk view i base off remain)
  note IH = "1.IH" and prems = "1.prems"
  let ?rs = "fv_ranges view"
  consider (finished) "remain = 0" | (last) "remain \<noteq> 0" "i = length ?rs"
    | (past) "remain \<noteq> 0" "i < length ?rs" "rend (fr_addr (?rs ! i)) \<le> base"
    | (meet) "remain \<noteq> 0" "i < length ?rs" "\<not> rend (fr_addr (?rs ! i)) \<le> base"
    using prems(3) by linarith
  then show ?case
  proof cases
    case finished
    then show ?thesis by (simp add: render_gaps.simps [of mk view i])
  next
    case last
    then show ?thesis
      by (subst render_gaps.simps) (simp add: insert_at_def flatview_insert_capacity)
  next
    case past
    have d: "drop i ?rs = ?rs ! i # drop (Suc i) ?rs" using past(2) by (simp add: Cons_nth_drop_Suc)
    from IH(1) past prems d obtain view' where
      "render_gaps mk view (Suc i) base off remain = Some view'"
      "fv_ranges view' = take (Suc i) ?rs @ fill mk base off remain (drop (Suc i) ?rs)"
      "capacity_ok view \<longrightarrow> capacity_ok view'" by auto
    with past show ?thesis
      by (auto simp: render_gaps.simps [of mk view i] d take_Suc_conv_app_nth)
  next
    case meet
    define r where "r = ?rs ! i"
    define g where "g = (if base < rstart (fr_addr r) then min remain (rstart (fr_addr r) - base) else 0)"
    define s where "s = (if base + g = rstart (fr_addr r) then min (remain - g) (rsize (fr_addr r)) else 0)"
    define pre where "pre = (if base < rstart (fr_addr r) then [mk off base g] else [])"
    have d: "drop i ?rs = r # drop (Suc i) ?rs" using meet(2) by (simp add: Cons_nth_drop_Suc r_def)
    have rsz: "0 \<le> rsize (fr_addr r)" using prems(4) d by simp
    obtain view1 st where step: "gap_before mk (view, i, base, off, remain) = Some st"
      "skip_range st = Some (view1, i + length pre, base + g + s, off + of_int (g + s), remain - (g + s))"
      and v1: "fv_ranges view1 = take i ?rs @ pre @ drop i ?rs"
      and cap: "capacity_ok view \<longrightarrow> capacity_ok view1"
      and nn: "0 \<le> remain - (g + s)" "0 \<le> g + s"
      using render_step [of i view remain mk base off] meet prems rsz
      unfolding r_def [symmetric] g_def [symmetric] s_def [symmetric] pre_def [symmetric] by auto
    have dr: "drop (Suc (i + length pre)) (fv_ranges view1) = drop (Suc i) ?rs"
      and tk: "take (Suc (i + length pre)) (fv_ranges view1) = take i ?rs @ pre @ [r]"
      using meet(2) by (simp_all add: v1 d)
    have "\<exists>view'. render_gaps mk view1 (Suc (i + length pre)) (base + g + s) (off + of_int (g + s)) (remain - (g + s)) = Some view' \<and>
        fv_ranges view' = take (Suc (i + length pre)) (fv_ranges view1) @
          fill mk (base + g + s) (off + of_int (g + s)) (remain - (g + s)) (drop (Suc (i + length pre)) (fv_ranges view1)) \<and>
        (capacity_ok view1 \<longrightarrow> capacity_ok view')"
      using meet step nn prems v1 d
      by (intro IH(2) [of st _ view1 _ "i + length pre" _ "base + g + s" _ "off + of_int (g + s)" "remain - (g + s)"])
        (auto simp: dr)
    then obtain view' where r1: "render_gaps mk view1 (Suc (i + length pre)) (base + g + s) (off + of_int (g + s)) (remain - (g + s)) = Some view'"
      and r2: "fv_ranges view' = take i ?rs @ pre @ r # fill mk (base + g + s) (off + of_int (g + s)) (remain - (g + s)) (drop (Suc i) ?rs)"
      and r3: "capacity_ok view1 \<longrightarrow> capacity_ok view'"
      unfolding dr tk by auto
    have "render_gaps mk view i base off remain = Some view'"
      using meet r1 step by (simp add: render_gaps.simps [of mk view i])
    moreover have "fv_ranges view' = take i ?rs @ fill mk base off remain (drop i ?rs)"
      using meet unfolding r2 d r_def [symmetric] by (simp add: g_def s_def pre_def Let_def)
    ultimately show ?thesis using r3 cap by auto
  qed
qed

text \<open>
  The loop is right when no range of the view has the start of the new region strictly inside:
  only a range that begins exactly at \<open>base\<close> is skipped.
\<close>

definition no_straddle :: "FlatRange list \<Rightarrow> int \<Rightarrow> bool" where
  "no_straddle rs x \<longleftrightarrow> (\<forall>r\<in>set rs. \<not> (rstart (fr_addr r) < x \<and> x < rend (fr_addr r)))"

lemma no_straddle_Cons:
  "no_straddle (r # rs) x \<longleftrightarrow>
     \<not> (rstart (fr_addr r) < x \<and> x < rend (fr_addr r)) \<and> no_straddle rs x"
  by (auto simp: no_straddle_def)

text \<open>A range that begins at or above \<open>base\<close>: where the loop stands after it.\<close>

lemma fill_meet:
  fixes base remain :: int
  assumes "rstart r \<le> rend r" "base \<le> rstart r" "0 < remain"
  defines "g \<equiv> (if base < rstart r then min remain (rstart r - base) else 0)"
  defines "s \<equiv> (if base + g = rstart r then min (remain - g) (rsize r) else 0)"
  shows "0 \<le> g" "0 \<le> s" "g + s \<le> remain" "base + g \<le> rstart r"
    and "remain - (g + s) \<noteq> 0 \<Longrightarrow> base + g + s = rend r"
    and "base < rstart r \<Longrightarrow> 0 < g"
    and "base + g < rstart r \<Longrightarrow> g = remain \<and> s = 0"
    and "base + g + s \<le> rend r"
proof -
  consider (short) "g = remain" "s = 0" "base < rstart r" "remain \<le> rstart r - base"
    | (gap) "g = rstart r - base" "s = min (remain - g) (rsize r)" "base < rstart r" "rstart r - base < remain"
    | (at) "g = 0" "base = rstart r" "s = min remain (rsize r)"
    using assms(1-3) by (cases "base < rstart r"; cases "remain \<le> rstart r - base")
      (auto simp: g_def s_def min_def rsize_rend)
  then show "0 \<le> g" "0 \<le> s" "g + s \<le> remain" "base + g \<le> rstart r"
    "remain - (g + s) \<noteq> 0 \<Longrightarrow> base + g + s = rend r"
    "base < rstart r \<Longrightarrow> 0 < g"
    "base + g < rstart r \<Longrightarrow> g = remain \<and> s = 0"
    "base + g + s \<le> rend r"
    using assms(1-3) by (cases; auto simp: rsize_rend)+
qed

lemma fill_sorted:
  assumes "flat_sorted rs" "no_straddle rs base" "0 \<le> remain"
    and mk: "\<And>off b n. fr_addr (mk off b n) = rmake b n"
  shows "flat_sorted (fill mk base off remain rs) \<and>
    (\<forall>x\<in>set (fill mk base off remain rs). x \<in> set rs \<or> base \<le> rstart (fr_addr x))"
  using assms(1-3)
proof (induction rs arbitrary: base off remain)
  case Nil
  then show ?case by (auto simp: flat_sorted_Cons mk)
next
  case (Cons r rs)
  note srt = Cons.prems(1) [unfolded flat_sorted_Cons] and str = Cons.prems(2) [unfolded no_straddle_Cons]
  consider (finished) "remain = 0" | (past) "remain \<noteq> 0" "rend (fr_addr r) \<le> base"
    | (meet) "remain \<noteq> 0" "base < rend (fr_addr r)" by linarith
  then show ?case
  proof cases
    case finished
    then show ?thesis using Cons.prems by simp
  next
    case past
    have IH: "flat_sorted (fill mk base off remain rs) \<and>
      (\<forall>x\<in>set (fill mk base off remain rs). x \<in> set rs \<or> base \<le> rstart (fr_addr x))"
      using srt str Cons.prems(3) by (intro Cons.IH) auto
    with past srt show ?thesis by (fastforce simp: flat_sorted_Cons)
  next
    case meet
    define g where "g = (if base < rstart (fr_addr r) then min remain (rstart (fr_addr r) - base) else 0)"
    define s where "s = (if base + g = rstart (fr_addr r) then min (remain - g) (rsize (fr_addr r)) else 0)"
    have le: "rstart (fr_addr r) \<le> rend (fr_addr r)" "base \<le> rstart (fr_addr r)" "0 < remain"
      using srt str meet Cons.prems(3) by (auto simp: rend_def)
    note m = fill_meet [OF le, folded g_def, folded s_def]
    let ?F = "fill mk (base + g + s) (off + of_int (g + s)) (remain - (g + s)) rs"
    have IH: "flat_sorted ?F \<and> (\<forall>x\<in>set ?F. x \<in> set rs \<or> rend (fr_addr r) \<le> rstart (fr_addr x))"
    proof (cases "remain - (g + s) = 0")
      case True
      then show ?thesis using srt by simp
    next
      case False
      then have e: "base + g + s = rend (fr_addr r)" by (rule m(5))
      have "no_straddle rs (base + g + s)"
        using srt unfolding e no_straddle_def by force
      then have "flat_sorted ?F \<and> (\<forall>x\<in>set ?F. x \<in> set rs \<or> base + g + s \<le> rstart (fr_addr x))"
        using srt m(3) by (intro Cons.IH) auto
      then show ?thesis unfolding e by simp
    qed
    have F: "flat_sorted (r # ?F)" using IH srt by (auto simp: flat_sorted_Cons)
    have ge: "rstart (fr_addr r) \<le> rstart (fr_addr x)" if "x \<in> set (r # ?F)" for x
      using that IH srt le by fastforce
    have eq: "fill mk base off remain (r # rs)
        = (if base < rstart (fr_addr r) then [mk off base g] else []) @ r # ?F"
      using meet by (simp add: g_def s_def Let_def)
    show ?thesis
    proof (cases "base < rstart (fr_addr r)")
      case True
      then show ?thesis unfolding eq using F ge m(4) m(6) le
        by (fastforce simp: flat_sorted_Cons mk)
    next
      case False
      then show ?thesis unfolding eq using F ge le by fastforce
    qed
  qed
qed

lemma fill_lookup:
  assumes "flat_sorted rs" "no_straddle rs base" "0 \<le> remain"
    and mk: "\<And>off b n. fr_addr (mk off b n) = rmake b n"
    and hit: "\<And>off b n a. fr_hit (mk off b n) a = H (off + of_int (a - b))"
  shows "flat_lookup (fill mk base off remain rs) a =
    (case flat_lookup rs a of
       Some h \<Rightarrow> Some h
     | None \<Rightarrow> if base \<le> a \<and> a < base + remain then Some (H (off + of_int (a - base))) else None)"
  using assms(1-3)
proof (induction rs arbitrary: base off remain)
  case Nil
  then show ?case by (auto simp: mk hit)
next
  case (Cons r rs)
  note srt = Cons.prems(1) [unfolded flat_sorted_Cons] and str = Cons.prems(2) [unfolded no_straddle_Cons]
  consider (finished) "remain = 0" | (past) "remain \<noteq> 0" "rend (fr_addr r) \<le> base"
    | (meet) "remain \<noteq> 0" "base < rend (fr_addr r)" by linarith
  then show ?case
  proof cases
    case finished
    then show ?thesis by (auto split: option.splits)
  next
    case past
    then show ?thesis using Cons.IH [of base remain off] srt str Cons.prems(3)
      by (simp add: rcontains_def)
  next
    case meet
    define g where "g = (if base < rstart (fr_addr r) then min remain (rstart (fr_addr r) - base) else 0)"
    define s where "s = (if base + g = rstart (fr_addr r) then min (remain - g) (rsize (fr_addr r)) else 0)"
    have le: "rstart (fr_addr r) \<le> rend (fr_addr r)" "base \<le> rstart (fr_addr r)" "0 < remain"
      using srt str meet Cons.prems(3) by (auto simp: rend_def)
    note m = fill_meet [OF le, folded g_def, folded s_def]
    let ?F = "fill mk (base + g + s) (off + of_int (g + s)) (remain - (g + s)) rs"
    have F: "flat_lookup ?F a = (case flat_lookup rs a of Some h \<Rightarrow> Some h
      | None \<Rightarrow> if base + g + s \<le> a \<and> a < base + remain then Some (H (off + of_int (a - base))) else None)"
    proof (cases "remain - (g + s) = 0")
      case True
      then show ?thesis by (auto split: option.splits)
    next
      case False
      then have e: "base + g + s = rend (fr_addr r)" by (rule m(5))
      have "no_straddle rs (base + g + s)"
        using srt unfolding e no_straddle_def by force
      then show ?thesis using srt m(3)
        by (subst Cons.IH) (auto simp: algebra_simps split: option.splits)
    qed
    have eq: "fill mk base off remain (r # rs)
        = (if base < rstart (fr_addr r) then [mk off base g] else []) @ r # ?F"
      using meet by (simp add: g_def s_def Let_def)
    have below: "flat_lookup rs a = None" if "a < rend (fr_addr r)"
      using that srt by (intro flat_lookup_below) force
    show ?thesis
    proof (cases "rcontains (fr_addr r) a")
      case True
      with m(4) show ?thesis unfolding eq by (auto simp: mk rcontains_def)
    next
      case False
      then consider "a < rstart (fr_addr r)" | "rend (fr_addr r) \<le> a"
        by (auto simp: rcontains_def)
      then show ?thesis
      proof cases
        case 1
        then have "flat_lookup rs a = None" using le by (intro below) simp
        with 1 False F m(2,3,4,7) le show ?thesis
          unfolding eq
          by (cases "base < rstart (fr_addr r)"; cases "base + g < rstart (fr_addr r)")
            (auto simp: mk hit)
      next
        case 2
        with False F m(2,4,8) le have "\<not> (base \<le> a \<and> a < base + g)" "base + g + s \<le> a" "base \<le> a"
          by auto
        with False F show ?thesis
          unfolding eq by (cases "flat_lookup rs a"; cases "base < rstart (fr_addr r)") (simp_all add: mk)
      qed
    qed
  qed
qed

lemma fill_within:
  "0 \<le> remain \<Longrightarrow> (\<And>off b n. fr_addr (mk off b n) = rmake b n) \<Longrightarrow>
   \<forall>r\<in>set rs. 0 \<le> rsize (fr_addr r) \<Longrightarrow> x \<in> set (fill mk base off remain rs) \<Longrightarrow>
   x \<in> set rs \<or> (base \<le> rstart (fr_addr x) \<and> rend (fr_addr x) \<le> base + remain)"
proof (induction rs arbitrary: base off remain)
  case Nil
  then show ?case by (auto split: if_splits)
next
  case (Cons r rs)
  define g where "g = (if base < rstart (fr_addr r) then min remain (rstart (fr_addr r) - base) else 0)"
  define s where "s = (if base + g = rstart (fr_addr r) then min (remain - g) (rsize (fr_addr r)) else 0)"
  have gs: "0 \<le> g" "0 \<le> s" "g + s \<le> remain"
    using Cons.prems(1,3) by (auto simp: g_def s_def)
  have IH: "x \<in> set (fill mk b off m rs) \<Longrightarrow> 0 \<le> m \<Longrightarrow>
      x \<in> set rs \<or> (b \<le> rstart (fr_addr x) \<and> rend (fr_addr x) \<le> b + m)" for b m off
    using Cons.IH Cons.prems(2,3) by auto
  consider "remain = 0" | "remain \<noteq> 0" "rend (fr_addr r) \<le> base"
    | "remain \<noteq> 0" "\<not> rend (fr_addr r) \<le> base" by blast
  then show ?case
  proof cases
    case 1
    then show ?thesis using Cons.prems(4) by simp
  next
    case 2
    then show ?thesis using Cons.prems(4) IH [of base off remain] Cons.prems(1) by auto
  next
    case 3
    then have "fill mk base off remain (r # rs)
        = (if base < rstart (fr_addr r) then [mk off base g] else []) @
          r # fill mk (base + g + s) (off + of_int (g + s)) (remain - (g + s)) rs"
      by (simp add: g_def s_def Let_def)
    with Cons.prems(4) show ?thesis
      using IH [of "base + g + s" "off + of_int (g + s)" "remain - (g + s)"] gs Cons.prems(2)
      by (auto split: if_splits)
  qed
qed

section \<open>Merging keeps the view\<close>

text \<open>The merging loops as a recursion: a range absorbs the run of ranges that follow on.\<close>

fun absorb :: "FlatRange \<Rightarrow> FlatRange \<Rightarrow> FlatRange list \<Rightarrow> FlatRange \<times> FlatRange list" where
  "absorb acc prev [] = (acc, [])"
| "absorb acc prev (r # rs) =
     (if can_merge prev r then absorb (fr_grow acc (rsize (fr_addr r))) r rs else (acc, r # rs))"

lemma absorb_length: "length (snd (absorb acc prev rs)) \<le> length rs"
  by (induction acc prev rs rule: absorb.induct) auto

lemma fr_grow_simps [simp]:
  "rstart (fr_addr (fr_grow r n)) = rstart (fr_addr r)"
  "rend (fr_addr (fr_grow r n)) = rend (fr_addr r) + n"
  "rsize (fr_addr (fr_grow r n)) = rsize (fr_addr r) + n"
  "fr_mr (fr_grow r n) = fr_mr r" "fr_offset_in_region (fr_grow r n) = fr_offset_in_region r"
  "fr_dirty_log_mask (fr_grow r n) = fr_dirty_log_mask r"
  "fr_readable (fr_grow r n) = fr_readable r" "fr_readonly (fr_grow r n) = fr_readonly r"
  by (simp_all add: fr_grow_def rend_def)

lemma absorb_keeps:
  "rstart (fr_addr (fst (absorb acc prev rs))) = rstart (fr_addr acc) \<and>
   set (snd (absorb acc prev rs)) \<subseteq> set rs"
  by (induction acc prev rs rule: absorb.induct) auto

function coalesce :: "FlatRange list \<Rightarrow> FlatRange list" where
  "coalesce [] = []"
| "coalesce (r # rs) = fst (absorb r r rs) # coalesce (snd (absorb r r rs))"
  by pat_completeness auto
termination
  by (relation "measure length") (simp_all add: absorb_length le_imp_less_Suc)

lemma simplify_inner_absorb:
  "i < j \<Longrightarrow> j \<le> length rs \<Longrightarrow> simplify_inner rs i j = (rs', j') \<Longrightarrow>
   rs' = rs[i := fst (absorb (rs ! i) (rs ! (j - 1)) (drop j rs))] \<and>
   drop j' rs' = snd (absorb (rs ! i) (rs ! (j - 1)) (drop j rs)) \<and> i < j'"
proof (induction rs i j rule: simplify_inner.induct)
  case (1 rs i j)
  show ?case
  proof (cases "j < length rs \<and> can_merge (rs ! (j - 1)) (rs ! j)")
    case True
    define rs2 where "rs2 = rs[i := fr_grow (rs ! i) (rsize (fr_addr (rs ! j)))]"
    have d: "drop j rs = rs ! j # drop (Suc j) rs" using True by (simp add: Cons_nth_drop_Suc)
    have a: "absorb (rs2 ! i) (rs2 ! (Suc j - 1)) (drop (Suc j) rs2)
        = absorb (rs ! i) (rs ! (j - 1)) (drop j rs)"
      using True "1.prems" unfolding d by (simp add: rs2_def)
    have eq: "simplify_inner rs2 i (Suc j) = (rs', j')"
      using "1.prems" True by (simp add: simplify_inner.simps [of rs i j] rs2_def)
    have len: "i < Suc j" "Suc j \<le> length rs2" using "1.prems" True by (simp_all add: rs2_def)
    have "rs' = rs2[i := fst (absorb (rs2 ! i) (rs2 ! (Suc j - 1)) (drop (Suc j) rs2))] \<and>
       drop j' rs' = snd (absorb (rs2 ! i) (rs2 ! (Suc j - 1)) (drop (Suc j) rs2)) \<and> i < j'"
      by (rule "1.IH" [OF True, folded rs2_def, OF len eq])
    moreover have "rs2[i := x] = rs[i := x]" for x by (simp add: rs2_def)
    ultimately show ?thesis unfolding a by metis
  next
    case False
    then have "simplify_inner rs i j = (rs, j)"
      by (subst simplify_inner.simps) (simp only: if_False)
    then have "rs' = rs" "j' = j" using "1.prems" by simp_all
    moreover have "absorb (rs ! i) (rs ! (j - 1)) (drop j rs) = (rs ! i, drop j rs)"
    proof (cases "j < length rs")
      case True
      then have "drop j rs = rs ! j # drop (Suc j) rs" by (simp add: Cons_nth_drop_Suc)
      with True False show ?thesis by simp
    qed simp
    ultimately show ?thesis using "1.prems" by simp
  qed
qed

lemma simplify_outer_coalesce: "i \<le> length rs \<Longrightarrow> simplify_outer rs i = take i rs @ coalesce (drop i rs)"
proof (induction rs i rule: simplify_outer.induct)
  case (1 rs i)
  show ?case
  proof (cases "i < length rs")
    case True
    obtain rs' j where inner: "simplify_inner rs i (Suc i) = (rs', j)" by (cases "simplify_inner rs i (Suc i)")
    define ab where "ab = absorb (rs ! i) (rs ! i) (drop (Suc i) rs)"
    have "rs' = rs[i := fst ab] \<and> drop j rs' = snd ab \<and> i < j"
      using simplify_inner_absorb [OF lessI Suc_leI [OF True] inner] unfolding ab_def diff_Suc_1 .
    then have rs': "rs' = rs[i := fst ab]" and dj: "drop j rs' = snd ab" and ij: "i < j" by blast+
    have tk: "take (Suc i) rs' = take i rs @ [fst ab]"
      using True by (simp add: rs' take_Suc_conv_app_nth)
    have d: "drop i rs = rs ! i # drop (Suc i) rs" using True by (simp add: Cons_nth_drop_Suc)
    have "simplify_outer rs i = simplify_outer (take i rs @ [fst ab] @ snd ab) (Suc i)"
      using True by (simp add: simplify_outer.simps [of rs i] inner tk dj)
    also have "\<dots> = take (Suc i) (take i rs @ [fst ab] @ snd ab) @ coalesce (drop (Suc i) (take i rs @ [fst ab] @ snd ab))"
      using "1.IH" [OF True inner [symmetric]] True by (simp add: tk dj)
    also have "\<dots> = take i rs @ coalesce (drop i rs)"
      using True by (simp add: d ab_def)
    finally show ?thesis .
  next
    case False
    then show ?thesis using "1.prems" by (subst simplify_outer.simps) simp
  qed
qed

lemma flatview_simplify_ranges: "fv_ranges (flatview_simplify view) = coalesce (fv_ranges view)"
  by (simp add: flatview_simplify_def simplify_outer_coalesce)

text \<open>The range grown so far and the last range absorbed describe the same piece of a region.\<close>

definition continues :: "FlatRange \<Rightarrow> FlatRange \<Rightarrow> bool" where
  "continues acc prev \<longleftrightarrow>
     fr_mr acc = fr_mr prev \<and> fr_dirty_log_mask acc = fr_dirty_log_mask prev \<and>
     fr_readable acc = fr_readable prev \<and> fr_readonly acc = fr_readonly prev \<and>
     rend (fr_addr acc) = rend (fr_addr prev) \<and> rstart (fr_addr acc) \<le> rstart (fr_addr prev) \<and>
     fr_offset_in_region prev = fr_offset_in_region acc + of_int (rstart (fr_addr prev) - rstart (fr_addr acc))"

lemma continues_refl [simp]: "continues r r"
  by (simp add: continues_def)

lemma fr_hit_grow [simp]: "fr_hit (fr_grow r n) a = fr_hit r a"
  by (simp add: fr_hit_def)

lemma can_merge_offset:
  "can_merge prev r \<Longrightarrow> fr_offset_in_region r = fr_offset_in_region prev + of_int (rsize (fr_addr prev))"
  unfolding can_merge_def by (metis of_int_add of_int_uint64)

lemma continues_grow:
  assumes "continues acc prev" "can_merge prev r" "0 < rsize (fr_addr r)" "0 \<le> rsize (fr_addr prev)"
  shows "continues (fr_grow acc (rsize (fr_addr r))) r"
proof -
  have "fr_offset_in_region r
      = fr_offset_in_region acc + of_int (rstart (fr_addr prev) - rstart (fr_addr acc) + rsize (fr_addr prev))"
    using assms(1) can_merge_offset [OF assms(2)] by (simp add: continues_def)
  moreover have "rstart (fr_addr prev) + rsize (fr_addr prev) = rstart (fr_addr r)"
    using assms(2) by (simp add: can_merge_def rend_def)
  ultimately have "fr_offset_in_region r
      = fr_offset_in_region acc + of_int (rstart (fr_addr r) - rstart (fr_addr acc))"
    by (metis add_diff_eq diff_add_eq)
  then show ?thesis
    using assms by (auto simp: continues_def can_merge_def rend_def)
qed

lemma continues_hit:
  "continues acc r \<Longrightarrow> fr_hit acc a = fr_hit r a"
  by (simp add: continues_def fr_hit_def)

lemma absorb_correct:
  assumes "continues acc prev" "flat_sorted (acc # rs)" "0 \<le> rsize (fr_addr prev)"
  shows "flat_sorted (fst (absorb acc prev rs) # snd (absorb acc prev rs)) \<and>
    flat_lookup (fst (absorb acc prev rs) # snd (absorb acc prev rs)) a = flat_lookup (acc # rs) a"
  using assms
proof (induction acc prev rs rule: absorb.induct)
  case (2 acc prev r rs)
  show ?case
  proof (cases "can_merge prev r")
    case True
    let ?acc = "fr_grow acc (rsize (fr_addr r))"
    have c: "continues ?acc r"
      using continues_grow [OF "2.prems"(1) True] "2.prems" by (simp add: flat_sorted_Cons)
    have e: "rend (fr_addr acc) = rstart (fr_addr r)" "rend (fr_addr ?acc) = rend (fr_addr r)"
      using "2.prems"(1) True by (simp_all add: continues_def can_merge_def rend_def)
    have srt: "flat_sorted (?acc # rs)"
      using "2.prems"(2) e by (simp add: flat_sorted_Cons)
    have "flat_lookup (?acc # rs) a = flat_lookup (acc # r # rs) a"
      using e "2.prems"(2) continues_hit [OF c, of a]
      by (auto simp: rcontains_def flat_sorted_Cons rend_def)
    then show ?thesis
      using True "2.IH" [OF True c srt] "2.prems"(2) by (simp add: flat_sorted_Cons)
  next
    case False
    then show ?thesis using "2.prems" by simp
  qed
qed simp

lemma coalesce_correct:
  assumes "flat_sorted rs"
  shows "flat_sorted (coalesce rs) \<and> flat_lookup (coalesce rs) a = flat_lookup rs a \<and>
    (\<forall>x. (\<forall>r\<in>set rs. x \<le> rstart (fr_addr r)) \<longrightarrow> (\<forall>r\<in>set (coalesce rs). x \<le> rstart (fr_addr r)))"
  using assms
proof (induction rs rule: coalesce.induct)
  case (2 r rs)
  define q where "q = fst (absorb r r rs)"
  define qs where "qs = snd (absorb r r rs)"
  have ab: "flat_sorted (q # qs)" "flat_lookup (q # qs) a = flat_lookup (r # rs) a" for a
    using absorb_correct [of r r rs a] "2.prems" by (simp_all add: q_def qs_def flat_sorted_Cons)
  have IH: "flat_sorted (coalesce qs)" "flat_lookup (coalesce qs) a = flat_lookup qs a"
    "\<And>x. \<forall>r\<in>set qs. x \<le> rstart (fr_addr r) \<Longrightarrow> \<forall>r\<in>set (coalesce qs). x \<le> rstart (fr_addr r)"
    using "2.IH" [folded qs_def] ab(1) [unfolded flat_sorted_Cons] by blast+
  have "flat_sorted (q # coalesce qs)"
    using ab(1) IH(1) IH(3) [of "rend (fr_addr q)"] by (simp add: flat_sorted_Cons)
  moreover have "flat_lookup (q # coalesce qs) a = flat_lookup (r # rs) a"
    using ab(2) [of a] IH(2) by (simp only: flat_lookup.simps)
  moreover have "\<forall>x. (\<forall>r\<in>set (r # rs). x \<le> rstart (fr_addr r)) \<longrightarrow>
      (\<forall>r\<in>set (q # coalesce qs). x \<le> rstart (fr_addr r))"
    using absorb_keeps [of r r rs] IH(3) by (auto simp: q_def qs_def)
  ultimately show ?case unfolding coalesce.simps q_def [symmetric] qs_def [symmetric] by blast
qed simp

end
