(* ===== verification/Memory_Region.thy ===== *)
theory Memory_Region
  imports Memory_Types
begin

text \<open>
  The life of a single memory region (\<open>memory_region_init\<close> and its variants in \<open>memory.c\<close>)
  and the queries of its fields. An initialiser takes the storage of the region, whose fields
  it may leave as they are, and returns it initialised. The address that the RAM allocator of
  \<open>exec.c\<close> hands out is an argument.
\<close>

unbundle bit_operations_syntax

definition memory_region_init :: "'d MemoryRegion \<Rightarrow> string \<Rightarrow> u64 \<Rightarrow> 'd MemoryRegion" where
  "memory_region_init mr name sz =
     mr\<lparr>mr_ops := None, mr_parent := None,
        mr_size := (if sz = - 1 then 2 ^ 64 else uint sz),
        mr_addr := 0, mr_subpage := False, mr_enabled := True, mr_terminates := False,
        mr_ram := False, mr_readable := True, mr_readonly := False, mr_rom_device := False,
        mr_destructor := destructor_none, mr_priority := 0, mr_may_overlap := False,
        mr_alias := None, mr_subregions := [], mr_coalesced := [], mr_name := name,
        mr_dirty_log_mask := 0, mr_ioeventfds := []\<rparr>"

definition memory_region_init_io ::
  "'d MemoryRegion \<Rightarrow> 'd MemoryRegionOps \<Rightarrow> ptr \<Rightarrow> string \<Rightarrow> u64 \<Rightarrow> 'd MemoryRegion" where
  "memory_region_init_io mr ops opaque name sz =
     (memory_region_init mr name sz)\<lparr>mr_ops := Some ops, mr_opaque := opaque,
       mr_terminates := True, mr_destructor := destructor_iomem, mr_ram_addr := NOT 0\<rparr>"

definition memory_region_init_ram ::
  "'d MemoryRegion \<Rightarrow> string \<Rightarrow> u64 \<Rightarrow> u64 \<Rightarrow> 'd MemoryRegion" where
  "memory_region_init_ram mr name sz ram_addr =
     (memory_region_init mr name sz)\<lparr>mr_ram := True, mr_terminates := True,
       mr_destructor := destructor_ram, mr_ram_addr := ram_addr\<rparr>"

definition memory_region_init_ram_ptr ::
  "'d MemoryRegion \<Rightarrow> string \<Rightarrow> u64 \<Rightarrow> u64 \<Rightarrow> 'd MemoryRegion" where
  "memory_region_init_ram_ptr mr name sz ram_addr =
     (memory_region_init mr name sz)\<lparr>mr_ram := True, mr_terminates := True,
       mr_destructor := destructor_ram_from_ptr, mr_ram_addr := ram_addr\<rparr>"

definition memory_region_init_alias ::
  "'d MemoryRegion \<Rightarrow> string \<Rightarrow> ptr \<Rightarrow> u64 \<Rightarrow> u64 \<Rightarrow> 'd MemoryRegion" where
  "memory_region_init_alias mr name orig offset sz =
     (memory_region_init mr name sz)\<lparr>mr_alias := Some orig, mr_alias_offset := offset\<rparr>"

definition memory_region_init_rom_device ::
  "'d MemoryRegion \<Rightarrow> 'd MemoryRegionOps \<Rightarrow> ptr \<Rightarrow> string \<Rightarrow> u64 \<Rightarrow> u64 \<Rightarrow> 'd MemoryRegion" where
  "memory_region_init_rom_device mr ops opaque name sz ram_addr =
     (memory_region_init mr name sz)\<lparr>mr_ops := Some ops, mr_opaque := opaque,
       mr_terminates := True, mr_rom_device := True, mr_destructor := destructor_rom_device,
       mr_ram_addr := ram_addr\<rparr>"

definition memory_region_size :: "'d MemoryRegion \<Rightarrow> u64 option" where
  "memory_region_size mr = (if mr_size mr = 2 ^ 64 then Some (- 1) else get64 (mr_size mr))"

definition memory_region_is_ram :: "'d MemoryRegion \<Rightarrow> bool" where
  "memory_region_is_ram mr = mr_ram mr"

definition memory_region_is_logging :: "'d MemoryRegion \<Rightarrow> bool" where
  "memory_region_is_logging mr \<longleftrightarrow> mr_dirty_log_mask mr \<noteq> 0"

definition memory_region_is_rom :: "'d MemoryRegion \<Rightarrow> bool" where
  "memory_region_is_rom mr \<longleftrightarrow> mr_ram mr \<and> mr_readonly mr"

lemmas region_init_defs =
  memory_region_init_def memory_region_init_io_def memory_region_init_ram_def
  memory_region_init_ram_ptr_def memory_region_init_alias_def memory_region_init_rom_device_def

text \<open>A region reports the size that it was initialised with, up to the one size that means 2^64.\<close>

lemma memory_region_size_init:
  "memory_region_size (memory_region_init mr name sz) = Some sz"
  using uint64_lt [of sz] by (auto simp: memory_region_size_def memory_region_init_def)

text \<open>An initialised store to start from in examples.\<close>

definition blank_region :: "'d MemoryRegion" where
  "blank_region =
     \<lparr>mr_ops = None, mr_opaque = 0, mr_parent = None, mr_size = 0, mr_addr = 0,
      mr_destructor = destructor_none, mr_ram_addr = 0, mr_subpage = False, mr_terminates = False,
      mr_readable = False, mr_ram = False, mr_readonly = False, mr_enabled = False,
      mr_rom_device = False, mr_warning_printed = False, mr_alias = None, mr_alias_offset = 0,
      mr_priority = 0, mr_may_overlap = False, mr_subregions = [], mr_coalesced = [],
      mr_name = [], mr_dirty_log_mask = 0, mr_ioeventfds = []\<rparr>"

end
