(* ===== verification/Memory_Render.thy ===== *)
theory Memory_Render
  imports Flat_View Memory_Region
begin

text \<open>
  The rendering of a hierarchy of memory regions into a flat view
  (\<open>render_memory_region\<close> and \<open>generate_memory_topology\<close> of \<open>memory.c\<close>), and what the view
  shows at an address: the region that the hierarchy gives for it.
\<close>

section \<open>Rendering a hierarchy\<close>

text \<open>
  The regions are a store from pointers to regions. Nothing in the API keeps a hierarchy from
  containing a cycle through an alias, so the recursion is defined by its equation, and its
  termination is proved below for stores without cycles.
\<close>

type_synonym 'd heap = "ptr \<Rightarrow> 'd MemoryRegion"

partial_function (option) render_memory_region ::
  "'d heap \<Rightarrow> FlatView \<Rightarrow> ptr \<Rightarrow> int \<Rightarrow> irange \<Rightarrow> bool \<Rightarrow> FlatView option" where
  "render_memory_region h view p base clip readonly =
     (let mr = h p in
      if \<not> mr_enabled mr then Some view
      else
        let base = base + uint (mr_addr mr);
            readonly = (readonly \<or> mr_readonly mr);
            tmp = rmake base (mr_size mr)
        in if \<not> rintersects tmp clip then Some view
        else
          let clip = rintersection tmp clip
          in case mr_alias mr of
               Some a \<Rightarrow>
                 (let base = base - uint (mr_addr (h a));
                      base = base - uint (mr_alias_offset mr)
                  in render_memory_region h view a base clip readonly)
             | None \<Rightarrow>
                 do {
                   view \<leftarrow> foldM (\<lambda>subregion view.
                             render_memory_region h view subregion base clip readonly)
                             (mr_subregions mr) view;
                   if \<not> mr_terminates mr then Some view
                   else do {
                     offset_in_region \<leftarrow> get64 (rstart clip - base);
                     render_gaps (new_range p mr readonly) view 0 (rstart clip)
                       offset_in_region (rsize clip)
                   }
                 })"

definition generate_memory_topology :: "'d heap \<Rightarrow> ptr \<Rightarrow> FlatView option" where
  "generate_memory_topology h mr =
     do {
       view \<leftarrow> render_memory_region h flatview_init mr 0 (rmake 0 (2 ^ 64)) False;
       Some (flatview_simplify view)
     }"

section \<open>What the hierarchy gives for an address\<close>

text \<open>
  The specification: the region that answers at an address is the first, in the order of the
  subregion list, that resolves it, and the region itself when none does and it terminates.
  The depth bounds the length of a path; it only has to exceed the rank of the region in a
  store without cycles.
\<close>

fun resolve :: "nat \<Rightarrow> 'd heap \<Rightarrow> ptr \<Rightarrow> int \<Rightarrow> bool \<Rightarrow> int \<Rightarrow> flat_hit option" where
  "resolve 0 h p base readonly a = None"
| "resolve (Suc n) h p base readonly a =
     (let mr = h p; base = base + uint (mr_addr mr); readonly = (readonly \<or> mr_readonly mr) in
      if mr_enabled mr \<and> base \<le> a \<and> a < base + mr_size mr
      then (case mr_alias mr of
              Some q \<Rightarrow> resolve n h q (base - uint (mr_addr (h q)) - uint (mr_alias_offset mr)) readonly a
            | None \<Rightarrow>
                (case first_some (\<lambda>s. resolve n h s base readonly a) (mr_subregions mr) of
                   Some hit \<Rightarrow> Some hit
                 | None \<Rightarrow>
                     if mr_terminates mr
                     then Some (p, of_int (a - base), mr_dirty_log_mask mr, mr_readable mr, readonly)
                     else None))
      else None)"

text \<open>The windows through which the terminating regions are rendered, in rendering order.\<close>

fun windows :: "nat \<Rightarrow> 'd heap \<Rightarrow> ptr \<Rightarrow> int \<Rightarrow> irange \<Rightarrow> irange list" where
  "windows 0 h p base clip = []"
| "windows (Suc n) h p base clip =
     (let mr = h p; base = base + uint (mr_addr mr); tmp = rmake base (mr_size mr) in
      if mr_enabled mr \<and> rintersects tmp clip
      then (case mr_alias mr of
              Some q \<Rightarrow>
                windows n h q (base - uint (mr_addr (h q)) - uint (mr_alias_offset mr))
                  (rintersection tmp clip)
            | None \<Rightarrow>
                concat (map (\<lambda>s. windows n h s base (rintersection tmp clip)) (mr_subregions mr)) @
                (if mr_terminates mr then [rintersection tmp clip] else []))
      else [])"

definition ranked :: "'d heap \<Rightarrow> (ptr \<Rightarrow> nat) \<Rightarrow> bool" where
  "ranked h rank \<longleftrightarrow>
     (\<forall>p. (\<forall>q. mr_alias (h p) = Some q \<longrightarrow> rank q < rank p) \<and>
          (\<forall>s\<in>set (mr_subregions (h p)). rank s < rank p))"

definition sizes_ok :: "'d heap \<Rightarrow> bool" where
  "sizes_ok h \<longleftrightarrow> (\<forall>p. 0 \<le> mr_size (h p) \<and> mr_size (h p) \<le> 2 ^ 64)"

text \<open>No window starts strictly inside a window that is rendered before it.\<close>

definition starts_outside :: "irange \<Rightarrow> irange \<Rightarrow> bool" where
  "starts_outside w1 w2 \<longleftrightarrow> \<not> (rstart w1 < rstart w2 \<and> rstart w2 < rend w1)"

definition windows_ok :: "irange list \<Rightarrow> bool" where
  "windows_ok ws \<longleftrightarrow> sorted_wrt starts_outside ws \<and> (\<forall>w\<in>set ws. rsize w < 2 ^ 64)"

definition within :: "irange \<Rightarrow> irange list \<Rightarrow> bool" where
  "within r ws \<longleftrightarrow> (\<exists>w\<in>set ws. rstart w \<le> rstart r \<and> rend r \<le> rend w)"

text \<open>
  What rendering a region with the given windows and hits does to a view: the ranges it adds
  lie in the windows, and a hit shows wherever the view had nothing.
\<close>

definition renders :: "irange list \<Rightarrow> (int \<Rightarrow> flat_hit option) \<Rightarrow> FlatView \<Rightarrow> FlatView \<Rightarrow> bool" where
  "renders ws hits view view' \<longleftrightarrow>
     flat_sorted (fv_ranges view') \<and>
     (\<forall>r\<in>set (fv_ranges view'). r \<in> set (fv_ranges view) \<or> within (fr_addr r) ws) \<and>
     (\<forall>a. flat_lookup (fv_ranges view') a =
        (case flat_lookup (fv_ranges view) a of Some x \<Rightarrow> Some x | None \<Rightarrow> hits a)) \<and>
     (capacity_ok view \<longrightarrow> capacity_ok view')"

definition ready :: "irange list \<Rightarrow> FlatView \<Rightarrow> bool" where
  "ready ws view \<longleftrightarrow>
     flat_sorted (fv_ranges view) \<and> windows_ok ws \<and>
     (\<forall>r\<in>set (fv_ranges view). \<forall>w\<in>set ws. starts_outside (fr_addr r) w)"

lemma renders_refl: "flat_sorted (fv_ranges view) \<Longrightarrow> (\<And>a. hits a = None) \<Longrightarrow> renders ws hits view view"
  by (simp add: renders_def split: option.splits)

lemma within_append: "within r (xs @ ys) \<longleftrightarrow> within r xs \<or> within r ys"
  by (auto simp: within_def)

lemma renders_trans:
  assumes "renders ws1 hits1 v1 v2" "renders ws2 hits2 v2 v3"
  shows "renders (ws1 @ ws2) (\<lambda>a. case hits1 a of Some x \<Rightarrow> Some x | None \<Rightarrow> hits2 a) v1 v3"
  using assms unfolding renders_def by (auto simp: within_append split: option.splits)

lemma starts_outside_within:
  assumes "within r ws" "\<And>w. w \<in> set ws \<Longrightarrow> starts_outside w x"
  shows "starts_outside r x"
proof -
  from assms(1) obtain w where "w \<in> set ws" "rstart w \<le> rstart r" "rend r \<le> rend w"
    by (auto simp: within_def)
  with assms(2) [of w] show ?thesis by (auto simp: starts_outside_def)
qed

lemma ready_appendD: "ready (ws1 @ ws2) view \<Longrightarrow> ready ws1 view"
  by (auto simp: ready_def windows_ok_def sorted_wrt_append)

lemma ready_next:
  assumes "ready (ws1 @ ws2) v1" "renders ws1 hits v1 v2"
  shows "ready ws2 v2"
proof -
  have "starts_outside (fr_addr r) x" if "r \<in> set (fv_ranges v2)" "x \<in> set ws2" for r x
  proof (cases "r \<in> set (fv_ranges v1)")
    case True
    then show ?thesis using assms(1) that(2) by (auto simp: ready_def)
  next
    case False
    then have "within (fr_addr r) ws1" using assms(2) that(1) by (auto simp: renders_def)
    then show ?thesis
      using assms(1) that(2)
      by (rule_tac starts_outside_within) (auto simp: ready_def windows_ok_def sorted_wrt_append)
  qed
  then show ?thesis
    using assms by (auto simp: ready_def renders_def windows_ok_def sorted_wrt_append)
qed

section \<open>Rendering is correct\<close>

text \<open>The last part of the function: a terminating region fills the gaps of its window.\<close>

lemma new_range_simps [simp]:
  "fr_addr (new_range p mr ro off b n) = rmake b n"
  "fr_hit (new_range p mr ro off b n) a =
     (p, off + of_int (a - b), mr_dirty_log_mask mr, mr_readable mr, ro)"
  by (simp_all add: new_range_def fr_hit_def)

lemma render_gaps_renders:
  assumes "ready [clip] view" "0 \<le> rsize clip"
  shows "\<exists>view'. render_gaps (new_range p mr ro) view 0 (rstart clip) off (rsize clip) = Some view' \<and>
    renders [clip]
      (\<lambda>a. if rcontains clip a
           then Some (p, off + of_int (a - rstart clip), mr_dirty_log_mask mr, mr_readable mr, ro)
           else None) view view'"
proof -
  have srt: "flat_sorted (fv_ranges view)" and sz: "rsize clip < 2 ^ 64"
    using assms(1) by (auto simp: ready_def windows_ok_def)
  have nn: "\<forall>r\<in>set (fv_ranges view). 0 \<le> rsize (fr_addr r)"
    using srt by (auto simp: flat_sorted_def)
  have str: "no_straddle (fv_ranges view) (rstart clip)"
    using assms(1) by (auto simp: ready_def no_straddle_def starts_outside_def)
  let ?F = "fill (new_range p mr ro) (rstart clip) off (rsize clip) (fv_ranges view)"
  obtain view' where v': "render_gaps (new_range p mr ro) view 0 (rstart clip) off (rsize clip) = Some view'"
    "fv_ranges view' = ?F" "capacity_ok view \<longrightarrow> capacity_ok view'"
    using render_gaps_fill [of "rsize clip" 0 view "new_range p mr ro" "rstart clip" off] assms(2) sz nn
    by auto
  have "flat_sorted ?F"
    using fill_sorted [OF srt str assms(2)] by simp
  moreover have "r \<in> set (fv_ranges view) \<or> within (fr_addr r) [clip]" if "r \<in> set ?F" for r
    using fill_within [OF assms(2) _ nn that] by (auto simp: within_def rend_def)
  moreover have "flat_lookup ?F a = (case flat_lookup (fv_ranges view) a of Some x \<Rightarrow> Some x
      | None \<Rightarrow> if rcontains clip a
          then Some (p, off + of_int (a - rstart clip), mr_dirty_log_mask mr, mr_readable mr, ro) else None)" for a
    by (subst fill_lookup [OF srt str assms(2),
          where H = "\<lambda>w. (p, w, mr_dirty_log_mask mr, mr_readable mr, ro)"])
      (auto simp: rcontains_def rend_def split: option.splits)
  ultimately show ?thesis using v' by (auto simp: renders_def)
qed

text \<open>A list of subregions is rendered one after the other.\<close>

lemma foldM_renders:
  assumes "\<And>s view. s \<in> set subs \<Longrightarrow> ready (W s) view \<Longrightarrow>
      \<exists>view'. f s view = Some view' \<and> renders (W s) (H s) view view'"
    and "ready (concat (map W subs) @ ws) view"
  shows "\<exists>view'. foldM f subs view = Some view' \<and>
    renders (concat (map W subs)) (\<lambda>a. first_some (\<lambda>s. H s a) subs) view view' \<and> ready ws view'"
  using assms
proof (induction subs arbitrary: view)
  case Nil
  then show ?case by (auto simp: ready_def intro!: renders_refl)
next
  case (Cons s subs)
  have r: "ready (W s @ concat (map W subs) @ ws) view" using Cons.prems(2) by simp
  obtain v1 where v1: "f s view = Some v1" "renders (W s) (H s) view v1"
    using Cons.prems(1) ready_appendD [OF r] by auto
  have "\<exists>view'. foldM f subs v1 = Some view' \<and>
    renders (concat (map W subs)) (\<lambda>a. first_some (\<lambda>s. H s a) subs) v1 view' \<and> ready ws view'"
    by (rule Cons.IH) (use Cons.prems(1) ready_next [OF r v1(2)] in auto)
  then obtain v2 where "foldM f subs v1 = Some v2" "ready ws v2"
    and r2: "renders (concat (map W subs)) (\<lambda>a. first_some (\<lambda>s. H s a) subs) v1 v2" by auto
  with v1 renders_trans [OF v1(2) r2] show ?case by auto
qed

lemma first_some_None: "(\<And>x. x \<in> set xs \<Longrightarrow> f x = None) \<Longrightarrow> first_some f xs = None"
  by (induction xs) auto

lemma first_some_cong: "(\<And>x. x \<in> set xs \<Longrightarrow> f x = g x) \<Longrightarrow> first_some f xs = first_some g xs"
  by (induction xs) (auto split: option.splits)

abbreviation clipped :: "irange \<Rightarrow> (int \<Rightarrow> 'a option) \<Rightarrow> int \<Rightarrow> 'a option" where
  "clipped clip hits \<equiv> (\<lambda>a. if rcontains clip a then hits a else None)"

text \<open>
  One call of the function in terms of the base, the flag and the clip that it passes on. The
  abbreviations name what the code computes before it recurses.
\<close>

abbreviation sub_base :: "'d heap \<Rightarrow> ptr \<Rightarrow> int \<Rightarrow> int" where
  "sub_base h p base \<equiv> base + uint (mr_addr (h p))"

abbreviation sub_ro :: "'d heap \<Rightarrow> ptr \<Rightarrow> bool \<Rightarrow> bool" where
  "sub_ro h p ro \<equiv> ro \<or> mr_readonly (h p)"

abbreviation extent :: "'d heap \<Rightarrow> ptr \<Rightarrow> int \<Rightarrow> irange" where
  "extent h p base \<equiv> rmake (sub_base h p base) (mr_size (h p))"

abbreviation alias_base :: "'d heap \<Rightarrow> ptr \<Rightarrow> ptr \<Rightarrow> int \<Rightarrow> int" where
  "alias_base h p q base \<equiv> sub_base h p base - uint (mr_addr (h q)) - uint (mr_alias_offset (h p))"

abbreviation shown :: "'d heap \<Rightarrow> ptr \<Rightarrow> int \<Rightarrow> irange \<Rightarrow> bool" where
  "shown h p base clip \<equiv> mr_enabled (h p) \<and> rintersects (extent h p base) clip"

lemma render_hidden:
  assumes "\<not> shown h p base clip" "flat_sorted (fv_ranges view)"
  shows "\<exists>view'. render_memory_region h view p base clip ro = Some view' \<and>
    renders (windows (Suc n) h p base clip) (clipped clip (resolve (Suc n) h p base ro)) view view'"
proof -
  have "clipped clip (resolve (Suc n) h p base ro) a = None" for a
    using assms(1) rcontains_imp_rintersects [of "extent h p base" a clip] by (auto simp: Let_def)
  moreover have "render_memory_region h view p base clip ro = Some view"
    using assms(1) by (subst render_memory_region.simps) (auto simp: Let_def)
  ultimately show ?thesis using assms(2) by (auto intro!: renders_refl)
qed

lemma render_alias:
  assumes "shown h p base clip" "mr_alias (h p) = Some q"
  defines "c \<equiv> rintersection (extent h p base) clip"
  shows "render_memory_region h view p base clip ro
      = render_memory_region h view q (alias_base h p q base) c (sub_ro h p ro)"
    and "windows (Suc n) h p base clip = windows n h q (alias_base h p q base) c"
    and "clipped clip (resolve (Suc n) h p base ro)
      = clipped c (resolve n h q (alias_base h p q base) (sub_ro h p ro))"
proof -
  show "render_memory_region h view p base clip ro
      = render_memory_region h view q (alias_base h p q base) c (sub_ro h p ro)"
    using assms(1,2) by (subst render_memory_region.simps) (simp add: Let_def c_def)
  show "windows (Suc n) h p base clip = windows n h q (alias_base h p q base) c"
    using assms(1,2) by (simp add: Let_def c_def)
  show "clipped clip (resolve (Suc n) h p base ro)
      = clipped c (resolve n h q (alias_base h p q base) (sub_ro h p ro))"
    using assms(1,2) by (auto simp: fun_eq_iff Let_def c_def)
qed

definition own_hit :: "'d heap \<Rightarrow> ptr \<Rightarrow> int \<Rightarrow> irange \<Rightarrow> bool \<Rightarrow> int \<Rightarrow> flat_hit option" where
  "own_hit h p base c ro a =
     (if mr_terminates (h p) \<and> rcontains c a
      then Some (p, of_int (a - sub_base h p base), mr_dirty_log_mask (h p), mr_readable (h p), sub_ro h p ro)
      else None)"

definition render_own :: "'d heap \<Rightarrow> ptr \<Rightarrow> int \<Rightarrow> irange \<Rightarrow> bool \<Rightarrow> FlatView \<Rightarrow> FlatView option" where
  "render_own h p base c ro view =
     (if \<not> mr_terminates (h p) then Some view
      else do { off \<leftarrow> get64 (rstart c - sub_base h p base);
                render_gaps (new_range p (h p) (sub_ro h p ro)) view 0 (rstart c) off (rsize c) })"

abbreviation own_window :: "'d heap \<Rightarrow> ptr \<Rightarrow> irange \<Rightarrow> irange list" where
  "own_window h p c \<equiv> if mr_terminates (h p) then [c] else []"

lemma render_own_correct:
  assumes "shown h p base clip" "sizes_ok h" "0 \<le> rsize clip"
  defines "c \<equiv> rintersection (extent h p base) clip"
  assumes "ready (own_window h p c) view"
  shows "\<exists>view'. render_own h p base c ro view = Some view' \<and>
    renders (own_window h p c) (own_hit h p base c ro) view view'"
proof (cases "mr_terminates (h p)")
  case True
  have sz: "0 \<le> mr_size (h p)" "mr_size (h p) \<le> 2 ^ 64" using assms(2) by (auto simp: sizes_ok_def)
  have "0 \<le> rstart c - sub_base h p base" "rstart c - sub_base h p base < 2 ^ 64"
    using assms(1) sz by (auto simp: c_def rintersects_def rcontains_def)
  then have "get64 (rstart c - sub_base h p base) = Some (of_int (rstart c - sub_base h p base))"
    by simp
  moreover have "0 \<le> rsize c"
    using assms(1,3) sz by (auto simp: c_def intro!: rintersection_size_nonneg)
  ultimately show ?thesis
    using True assms(5)
      render_gaps_renders [of c view p "h p" "sub_ro h p ro" "of_int (rstart c - sub_base h p base)"]
    by (auto simp: render_own_def own_hit_def [abs_def] algebra_simps cong: if_cong)
next
  case False
  then show ?thesis
    using assms(5) by (auto simp: render_own_def own_hit_def ready_def intro!: renders_refl)
qed

lemma render_container:
  assumes "shown h p base clip" "mr_alias (h p) = None"
  defines "c \<equiv> rintersection (extent h p base) clip"
  shows "render_memory_region h view p base clip ro =
      foldM (\<lambda>s view. render_memory_region h view s (sub_base h p base) c (sub_ro h p ro))
        (mr_subregions (h p)) view \<bind> render_own h p base c ro"
    and "windows (Suc n) h p base clip =
      concat (map (\<lambda>s. windows n h s (sub_base h p base) c) (mr_subregions (h p))) @ own_window h p c"
    and "clipped clip (resolve (Suc n) h p base ro) =
      (\<lambda>a. case first_some (\<lambda>s. clipped c (resolve n h s (sub_base h p base) (sub_ro h p ro)) a)
                 (mr_subregions (h p)) of
            Some x \<Rightarrow> Some x | None \<Rightarrow> own_hit h p base c ro a)"
proof -
  show "render_memory_region h view p base clip ro =
      foldM (\<lambda>s view. render_memory_region h view s (sub_base h p base) c (sub_ro h p ro))
        (mr_subregions (h p)) view \<bind> render_own h p base c ro"
    using assms(1,2) by (subst render_memory_region.simps)
      (simp add: Let_def c_def render_own_def [abs_def])
  show "windows (Suc n) h p base clip =
      concat (map (\<lambda>s. windows n h s (sub_base h p base) c) (mr_subregions (h p))) @ own_window h p c"
    using assms(1,2) by (simp add: Let_def c_def)
  show "clipped clip (resolve (Suc n) h p base ro) =
      (\<lambda>a. case first_some (\<lambda>s. clipped c (resolve n h s (sub_base h p base) (sub_ro h p ro)) a)
                 (mr_subregions (h p)) of
            Some x \<Rightarrow> Some x | None \<Rightarrow> own_hit h p base c ro a)"
  proof
    fix a
    show "clipped clip (resolve (Suc n) h p base ro) a =
      (case first_some (\<lambda>s. clipped c (resolve n h s (sub_base h p base) (sub_ro h p ro)) a)
                 (mr_subregions (h p)) of
            Some x \<Rightarrow> Some x | None \<Rightarrow> own_hit h p base c ro a)"
      using assms(1,2)
      by (cases "rcontains c a") (auto simp: Let_def c_def own_hit_def first_some_None split: option.split)
  qed
qed

lemma render_correct:
  assumes "ranked h rank" "sizes_ok h" "rank p < n" "0 \<le> rsize clip"
    and "ready (windows n h p base clip) view"
  shows "\<exists>view'. render_memory_region h view p base clip ro = Some view' \<and>
    renders (windows n h p base clip) (clipped clip (resolve n h p base ro)) view view'"
  using assms(3-5)
proof (induction n arbitrary: p base clip ro view)
  case (Suc n)
  let ?c = "rintersection (extent h p base) clip"
  consider (hidden) "\<not> shown h p base clip"
    | (aliased) q where "shown h p base clip" "mr_alias (h p) = Some q"
    | (container) "shown h p base clip" "mr_alias (h p) = None" by blast
  then show ?case
  proof cases
    case hidden
    then show ?thesis using Suc.prems(3) by (intro render_hidden) (simp_all add: ready_def)
  next
    case aliased
    note a = render_alias [of h p base clip q, OF aliased]
    have "rank q < n" using assms(1) aliased(2) Suc.prems(1) by (fastforce simp: ranked_def)
    moreover have "0 \<le> rsize ?c"
      using aliased(1) assms(2) Suc.prems(2) by (intro rintersection_size_nonneg) (auto simp: sizes_ok_def)
    ultimately show ?thesis unfolding a by (rule Suc.IH) (use Suc.prems(3) a(2) in simp)
  next
    case container
    note a = render_container [of h p base clip, OF container]
    let ?W = "\<lambda>s. windows n h s (sub_base h p base) ?c"
    let ?H = "\<lambda>s. clipped ?c (resolve n h s (sub_base h p base) (sub_ro h p ro))"
    have c0: "0 \<le> rsize ?c"
      using container(1) assms(2) Suc.prems(2) by (intro rintersection_size_nonneg) (auto simp: sizes_ok_def)
    have "\<exists>v. foldM (\<lambda>s view. render_memory_region h view s (sub_base h p base) ?c (sub_ro h p ro))
        (mr_subregions (h p)) view = Some v \<and>
      renders (concat (map ?W (mr_subregions (h p)))) (\<lambda>a. first_some (\<lambda>s. ?H s a) (mr_subregions (h p))) view v \<and>
      ready (own_window h p ?c) v"
    proof (rule foldM_renders)
      fix s view assume s: "s \<in> set (mr_subregions (h p))" and r: "ready (?W s) view"
      have "rank s < n" using assms(1) s Suc.prems(1) by (fastforce simp: ranked_def)
      then show "\<exists>view'. render_memory_region h view s (sub_base h p base) ?c (sub_ro h p ro) = Some view' \<and>
          renders (?W s) (?H s) view view'"
        using c0 r by (rule Suc.IH)
    qed (use Suc.prems(3) a(2) in simp)
    then obtain v where v: "foldM (\<lambda>s view. render_memory_region h view s (sub_base h p base) ?c (sub_ro h p ro))
        (mr_subregions (h p)) view = Some v"
      and r1: "renders (concat (map ?W (mr_subregions (h p)))) (\<lambda>a. first_some (\<lambda>s. ?H s a) (mr_subregions (h p))) view v"
      and rd: "ready (own_window h p ?c) v" by auto
    from render_own_correct [OF container(1) assms(2) Suc.prems(2) rd]
    obtain v2 where v2: "render_own h p base ?c ro v = Some v2"
      and r2: "renders (own_window h p ?c) (own_hit h p base ?c ro) v v2" by blast
    then show ?thesis unfolding a v using renders_trans [OF r1 r2] by simp
  qed
qed simp

lemma flatview_init_ready: "windows_ok ws \<Longrightarrow> ready ws flatview_init"
  by (simp add: ready_def flatview_init_def)

text \<open>
  C1. Rendering a hierarchy without cycles always returns a view, and the view is sorted,
  disjoint, within its allocation, and shows at every address exactly the region, offset and
  attributes that the hierarchy gives for it by priority order, provided no window of a
  terminating region starts strictly inside a window that is rendered before it.
\<close>

theorem generate_memory_topology_correct:
  assumes "ranked h rank" and "sizes_ok h" and "rank root < n"
    and "windows_ok (windows n h root 0 (rmake 0 (2 ^ 64)))"
  shows "\<exists>view. generate_memory_topology h root = Some view \<and>
    flat_sorted (fv_ranges view) \<and> capacity_ok view \<and>
    (\<forall>a. flat_lookup (fv_ranges view) a =
       (if 0 \<le> a \<and> a < 2 ^ 64 then resolve n h root 0 False a else None))"
proof -
  let ?clip = "rmake 0 (2 ^ 64)"
  obtain v where v: "render_memory_region h flatview_init root 0 ?clip False = Some v"
    and r: "renders (windows n h root 0 ?clip) (clipped ?clip (resolve n h root 0 False)) flatview_init v"
    using render_correct [OF assms(1-3) _ flatview_init_ready [OF assms(4)], of False] by auto
  have srt: "flat_sorted (fv_ranges v)" and cap: "capacity_ok v"
    and look: "flat_lookup (fv_ranges v) a = clipped ?clip (resolve n h root 0 False) a" for a
    using r by (simp_all add: renders_def flatview_init_def capacity_ok_def)
  have "length (coalesce rs) \<le> length rs" for rs
    by (induction rs rule: coalesce.induct) (auto intro: le_trans absorb_length)
  then have "length (coalesce (fv_ranges v)) \<le> fv_nr_allocated v"
    using cap le_trans unfolding capacity_ok_def by blast
  then have "capacity_ok (flatview_simplify v)"
    unfolding capacity_ok_def flatview_simplify_ranges by (simp add: flatview_simplify_def)
  then show ?thesis
    using v srt look coalesce_correct [OF srt]
    by (auto simp: generate_memory_topology_def flatview_simplify_ranges)
qed

text \<open>A container with two RAM regions, the smaller one over the larger one.\<close>

definition layered_heap :: "unit heap" where
  "layered_heap =
     (\<lambda>_. blank_region)
       (0 := (memory_region_init blank_region ''system'' (- 1))\<lparr>mr_subregions := [1, 2]\<rparr>,
        1 := (memory_region_init_ram blank_region ''rom'' 0x1000 0)\<lparr>mr_addr := 0x1000, mr_parent := Some 0\<rparr>,
        2 := (memory_region_init_ram blank_region ''ram'' 0x4000 0x1000)\<lparr>mr_parent := Some 0\<rparr>)"

lemmas heap_eval = region_init_defs blank_region_def

lemma layered_heap_wf: "ranked layered_heap (\<lambda>p. if p = 0 then 1 else 0)" "sizes_ok layered_heap"
  by (auto simp: ranked_def sizes_ok_def layered_heap_def heap_eval)

theorem generate_memory_topology_correct_witness:
  "\<exists>view. generate_memory_topology layered_heap 0 = Some view \<and> flat_sorted (fv_ranges view) \<and>
     flat_lookup (fv_ranges view) 0x1800 = Some (1, 0x800, 0, True, False) \<and>
     flat_lookup (fv_ranges view) 0x2800 = Some (2, 0x2800, 0, True, False)"
proof -
  let ?rank = "\<lambda>p. if p = 0 then 1 else 0"
  have w: "windows (Suc (Suc 0)) layered_heap 0 0 (rmake 0 (2 ^ 64)) = [rmake 0x1000 0x1000, rmake 0 0x4000]"
    by (simp add: layered_heap_def heap_eval rintersects_def rintersection_def Let_def)
  have ok: "windows_ok (windows (Suc (Suc 0)) layered_heap 0 0 (rmake 0 (2 ^ 64)))"
    unfolding w by (simp add: windows_ok_def starts_outside_def)
  have "?rank 0 < Suc (Suc 0)" by simp
  from generate_memory_topology_correct [OF layered_heap_wf this ok]
  obtain view where "generate_memory_topology layered_heap 0 = Some view" "flat_sorted (fv_ranges view)"
    and "\<And>a. flat_lookup (fv_ranges view) a =
      (if 0 \<le> a \<and> a < 2 ^ 64 then resolve (Suc (Suc 0)) layered_heap 0 0 False a else None)"
    by blast
  then show ?thesis
    by (intro exI [of _ view]) (simp add: layered_heap_def heap_eval)
qed

text \<open>
  The condition on the windows is needed. Here the second region starts inside the first,
  which has the higher priority: the loop neither fills a gap before the first range nor
  skips it, and the whole of the second region is appended.
\<close>

definition straddling_heap :: "unit heap" where
  "straddling_heap =
     (\<lambda>_. blank_region)
       (0 := (memory_region_init blank_region ''system'' (- 1))\<lparr>mr_subregions := [1, 2]\<rparr>,
        1 := (memory_region_init_ram blank_region ''bar'' 0x1000 0)\<lparr>mr_parent := Some 0\<rparr>,
        2 := (memory_region_init_ram blank_region ''ram'' 0x1000 0x1000)
               \<lparr>mr_addr := 0x800, mr_parent := Some 0\<rparr>)"

lemma straddling_render:
  "generate_memory_topology straddling_heap 0 =
     Some \<lparr>fv_ranges =
        [new_range 1 (straddling_heap 1) False 0 0 0x1000,
         new_range 2 (straddling_heap 2) False 0 0x800 0x1000],
      fv_nr_allocated = 10\<rparr>"
  by (simp add: generate_memory_topology_def render_memory_region.simps render_gaps.simps
      straddling_heap_def heap_eval rintersects_def rintersection_def Let_def flatview_init_def
      flatview_insert_def insert_at_def new_range_def flatview_simplify_def simplify_outer.simps
      simplify_inner.simps can_merge_def gap_before_def skip_range_def)


end
