(* ===== verification/Sorted_Diff.thy ===== *)
theory Sorted_Diff
  imports QPrelude
begin

text \<open>
  The two-index walk over a sorted old array and a sorted new array that \<open>memory.c\<close> uses
  twice, to compare two flat views and two arrays of I/O event descriptors. The interface
  below says what the walk needs of the comparison; its clients get the symmetric difference.
\<close>

datatype 'a diff = Old 'a | New 'a | Both 'a 'a

fun diff_walk ::
  "('a \<Rightarrow> 'a \<Rightarrow> bool) \<Rightarrow> ('a \<Rightarrow> 'a \<Rightarrow> bool) \<Rightarrow> 'a list \<Rightarrow> 'a list \<Rightarrow> 'a diff list" where
  "diff_walk del add [] [] = []"
| "diff_walk del add (x # xs) [] = Old x # diff_walk del add xs []"
| "diff_walk del add [] (y # ys) = New y # diff_walk del add [] ys"
| "diff_walk del add (x # xs) (y # ys) =
     (if del x y then Old x # diff_walk del add xs (y # ys)
      else if add x y then New y # diff_walk del add (x # xs) ys
      else Both x y # diff_walk del add xs ys)"

fun olds :: "'a diff list \<Rightarrow> 'a list" where
  "olds [] = []"
| "olds (Old x # ds) = x # olds ds"
| "olds (New y # ds) = olds ds"
| "olds (Both x y # ds) = olds ds"

fun news :: "'a diff list \<Rightarrow> 'a list" where
  "news [] = []"
| "news (Old x # ds) = news ds"
| "news (New y # ds) = y # news ds"
| "news (Both x y # ds) = news ds"

fun boths :: "'a diff list \<Rightarrow> ('a \<times> 'a) list" where
  "boths [] = []"
| "boths (Old x # ds) = boths ds"
| "boths (New y # ds) = boths ds"
| "boths (Both x y # ds) = (x, y) # boths ds"

lemma walk_induct [case_names Nil_Nil Cons_Nil Nil_Cons Cons_Cons]:
  assumes "P [] []" "\<And>x xs. P xs [] \<Longrightarrow> P (x # xs) []" "\<And>y ys. P [] ys \<Longrightarrow> P [] (y # ys)"
    and "\<And>x xs y ys. P xs (y # ys) \<Longrightarrow> P (x # xs) ys \<Longrightarrow> P xs ys \<Longrightarrow> P (x # xs) (y # ys)"
  shows "P xs ys"
proof (induction xs arbitrary: ys)
  case Nil
  show ?case by (induction ys) (auto intro: assms)
next
  case (Cons x xs)
  show ?case
  proof (induction ys)
    case Nil
    show ?case by (rule assms(2), rule Cons.IH)
  next
    case (Cons y ys)
    then show ?case by (intro assms(4) \<open>\<And>ys. P xs ys\<close>)
  qed
qed

locale sorted_diff =
  fixes lt :: "'a \<Rightarrow> 'a \<Rightarrow> bool"
    and same :: "'a \<Rightarrow> 'a \<Rightarrow> bool"
    and del :: "'a \<Rightarrow> 'a \<Rightarrow> bool"
    and add :: "'a \<Rightarrow> 'a \<Rightarrow> bool"
  assumes del_here: "del x y \<Longrightarrow> \<not> same x y"
    and del_later: "del x y \<Longrightarrow> lt y y' \<Longrightarrow> \<not> same x y'"
    and add_here: "\<not> del x y \<Longrightarrow> add x y \<Longrightarrow> \<not> same x y"
    and add_later: "\<not> del x y \<Longrightarrow> add x y \<Longrightarrow> lt x x' \<Longrightarrow> \<not> same x' y"
    and both_here: "\<not> del x y \<Longrightarrow> \<not> add x y \<Longrightarrow> same x y"
    and both_later: "same x y \<Longrightarrow> lt y y' \<Longrightarrow> \<not> same x y'"
    and both_later': "same x y \<Longrightarrow> lt x x' \<Longrightarrow> \<not> same x' y"
begin

lemma olds_walk:
  "sorted_wrt lt xs \<Longrightarrow> sorted_wrt lt ys \<Longrightarrow>
   olds (diff_walk del add xs ys) = filter (\<lambda>x. \<forall>y\<in>set ys. \<not> same x y) xs"
proof (induction xs ys rule: walk_induct)
  case (Cons_Cons x xs y ys)
  consider (d) "del x y" | (a) "\<not> del x y" "add x y" | (b) "\<not> del x y" "\<not> add x y" by blast
  then show ?case
  proof cases
    case d
    then show ?thesis using Cons_Cons by (auto dest: del_here del_later)
  next
    case a
    then have "\<forall>x'\<in>set (x # xs). \<not> same x' y" using Cons_Cons.prems by (auto dest: add_here add_later)
    then show ?thesis using a Cons_Cons by (auto intro!: filter_cong)
  next
    case b
    then have "same x y" by (rule both_here)
    then have "\<forall>x'\<in>set xs. \<not> same x' y" using Cons_Cons.prems by (auto dest: both_later')
    then show ?thesis using b \<open>same x y\<close> Cons_Cons by (auto intro!: filter_cong)
  qed
qed auto

lemma news_walk:
  "sorted_wrt lt xs \<Longrightarrow> sorted_wrt lt ys \<Longrightarrow>
   news (diff_walk del add xs ys) = filter (\<lambda>y. \<forall>x\<in>set xs. \<not> same x y) ys"
proof (induction xs ys rule: walk_induct)
  case (Cons_Cons x xs y ys)
  consider (d) "del x y" | (a) "\<not> del x y" "add x y" | (b) "\<not> del x y" "\<not> add x y" by blast
  then show ?case
  proof cases
    case d
    then have "\<forall>y'\<in>set (y # ys). \<not> same x y'" using Cons_Cons.prems by (auto dest: del_here del_later)
    then show ?thesis using d Cons_Cons by (auto intro!: filter_cong)
  next
    case a
    then show ?thesis using Cons_Cons by (auto dest: add_here add_later)
  next
    case b
    then have "same x y" by (rule both_here)
    then have "\<forall>y'\<in>set ys. \<not> same x y'" using Cons_Cons.prems by (auto dest: both_later)
    then show ?thesis using b \<open>same x y\<close> Cons_Cons by (auto intro!: filter_cong)
  qed
qed auto

lemma boths_walk:
  "p \<in> set (boths (diff_walk del add xs ys)) \<Longrightarrow>
   fst p \<in> set xs \<and> snd p \<in> set ys \<and> same (fst p) (snd p)"
  by (induction xs ys rule: walk_induct) (auto dest: both_here split: if_splits)

end

end
