(* ===== verification/Memory_Topology.thy ===== *)
theory Memory_Topology
  imports Memory_Render Sorted_Diff "HOL-Library.Product_Lexorder"
begin

text \<open>
  The global state of the memory API and the propagation of changes (\<open>memory.c\<close>): listeners,
  the comparison of the old and the new view, I/O event descriptors, and transactions. A
  listener is external code; what the model keeps of it is the trace of the callbacks that the
  API makes on it.
\<close>

section \<open>State and listeners\<close>

datatype ListenerDirection = Forward | Reverse

datatype as_id = AS_memory | AS_io

record 'd memory_state =
  ms_heap :: "'d heap"
  memory_region_transaction_depth :: nat
  memory_region_update_pending :: bool
  global_dirty_log :: bool
  memory_listeners :: "MemoryListener list"
  address_space_memory :: AddressSpace
  address_space_io :: AddressSpace
  ms_trace :: "listener_event list"

definition get_as :: "as_id \<Rightarrow> 'd memory_state \<Rightarrow> AddressSpace" where
  "get_as i s = (case i of AS_memory \<Rightarrow> address_space_memory s | AS_io \<Rightarrow> address_space_io s)"

definition put_as :: "as_id \<Rightarrow> AddressSpace \<Rightarrow> 'd memory_state \<Rightarrow> 'd memory_state" where
  "put_as i a s =
     (case i of AS_memory \<Rightarrow> s\<lparr>address_space_memory := a\<rparr> | AS_io \<Rightarrow> s\<lparr>address_space_io := a\<rparr>)"

definition emit :: "listener_event \<Rightarrow> 'd memory_state \<Rightarrow> 'd memory_state" where
  "emit e s = s\<lparr>ms_trace := ms_trace s @ [e]\<rparr>"

definition memory_listener_match :: "MemoryListener \<Rightarrow> MemoryRegionSection \<Rightarrow> bool" where
  "memory_listener_match listener section \<longleftrightarrow>
     ml_address_space_filter listener = None \<or>
     ml_address_space_filter listener = sec_address_space section"

definition in_direction :: "ListenerDirection \<Rightarrow> 'a list \<Rightarrow> 'a list" where
  "in_direction d xs = (case d of Forward \<Rightarrow> xs | Reverse \<Rightarrow> rev xs)"

definition listener_call_global ::
  "(ptr \<Rightarrow> listener_event) \<Rightarrow> ListenerDirection \<Rightarrow> 'd memory_state \<Rightarrow> 'd memory_state" where
  "listener_call_global callback d s =
     fold (\<lambda>l. emit (callback (ml_self l))) (in_direction d (memory_listeners s)) s"

text \<open>
  \<open>MEMORY_LISTENER_CALL\<close> is a macro: its section argument is an expression that is evaluated
  again for every listener, with the assertions inside it.
\<close>

definition listener_call ::
  "(ptr \<Rightarrow> MemoryRegionSection \<Rightarrow> listener_event) \<Rightarrow> ListenerDirection \<Rightarrow>
   MemoryRegionSection option \<Rightarrow> 'd memory_state \<Rightarrow> 'd memory_state option" where
  "listener_call callback d section s =
     foldM (\<lambda>l s. do {
              sec \<leftarrow> section;
              Some (if memory_listener_match l sec then emit (callback (ml_self l) sec) s else s)
            })
       (in_direction d (memory_listeners s)) s"

definition update_region ::
  "ptr option \<Rightarrow> FlatRange \<Rightarrow> ListenerDirection \<Rightarrow>
   (ptr \<Rightarrow> MemoryRegionSection \<Rightarrow> listener_event) \<Rightarrow> 'd memory_state \<Rightarrow> 'd memory_state option" where
  "update_region root fr d callback s =
     listener_call callback d
       (do {
          sz \<leftarrow> get64 (rsize (fr_addr fr));
          st \<leftarrow> get64 (rstart (fr_addr fr));
          Some \<lparr>sec_mr = Some (fr_mr fr), sec_address_space = root,
                sec_offset_within_region = fr_offset_in_region fr, sec_size = sz,
                sec_offset_within_address_space = st, sec_readonly = fr_readonly fr\<rparr>
        }) s"

section \<open>I/O event descriptors\<close>

definition memory_region_ioeventfd_before ::
  "MemoryRegionIoeventfd \<Rightarrow> MemoryRegionIoeventfd \<Rightarrow> bool" where
  "memory_region_ioeventfd_before a b =
     (if rstart (ioe_addr a) < rstart (ioe_addr b) then True
      else if rstart (ioe_addr a) > rstart (ioe_addr b) then False
      else if rsize (ioe_addr a) < rsize (ioe_addr b) then True
      else if rsize (ioe_addr a) > rsize (ioe_addr b) then False
      else if \<not> ioe_match_data a \<and> ioe_match_data b then True
      else if ioe_match_data a \<and> \<not> ioe_match_data b then False
      else if ioe_match_data a \<and> ioe_data a < ioe_data b then True
      else if ioe_match_data a \<and> ioe_data a > ioe_data b then False
      else if ioe_e a < ioe_e b then True
      else if ioe_e a > ioe_e b then False
      else False)"

definition memory_region_ioeventfd_equal ::
  "MemoryRegionIoeventfd \<Rightarrow> MemoryRegionIoeventfd \<Rightarrow> bool" where
  "memory_region_ioeventfd_equal a b \<longleftrightarrow>
     \<not> memory_region_ioeventfd_before a b \<and> \<not> memory_region_ioeventfd_before b a"

definition eventfd_section ::
  "ptr option \<Rightarrow> MemoryRegionIoeventfd \<Rightarrow> MemoryRegionSection option" where
  "eventfd_section root fd =
     do {
       st \<leftarrow> get64 (rstart (ioe_addr fd));
       sz \<leftarrow> get64 (rsize (ioe_addr fd));
       Some \<lparr>sec_mr = None, sec_address_space = root, sec_offset_within_region = 0,
             sec_size = sz, sec_offset_within_address_space = st, sec_readonly = False\<rparr>
     }"

definition eventfd_call ::
  "(ptr \<Rightarrow> MemoryRegionSection \<Rightarrow> bool \<Rightarrow> u64 \<Rightarrow> ptr \<Rightarrow> listener_event) \<Rightarrow> ListenerDirection \<Rightarrow>
   ptr option \<Rightarrow> MemoryRegionIoeventfd \<Rightarrow> 'd memory_state \<Rightarrow> 'd memory_state option" where
  "eventfd_call callback d root fd s =
     do {
       section \<leftarrow> eventfd_section root fd;
       listener_call (\<lambda>l sec. callback l sec (ioe_match_data fd) (ioe_data fd) (ioe_e fd)) d
         (Some section) s
     }"

fun address_space_add_del_ioeventfds ::
  "ptr option \<Rightarrow> MemoryRegionIoeventfd list \<Rightarrow> MemoryRegionIoeventfd list \<Rightarrow>
   'd memory_state \<Rightarrow> 'd memory_state option" where
  "address_space_add_del_ioeventfds root [] [] s = Some s"
| "address_space_add_del_ioeventfds root [] (fo # fds_old) s =
     do { s \<leftarrow> eventfd_call Eventfd_del Forward root fo s;
          address_space_add_del_ioeventfds root [] fds_old s }"
| "address_space_add_del_ioeventfds root (fn # fds_new) [] s =
     do { s \<leftarrow> eventfd_call Eventfd_add Reverse root fn s;
          address_space_add_del_ioeventfds root fds_new [] s }"
| "address_space_add_del_ioeventfds root (fn # fds_new) (fo # fds_old) s =
     (if memory_region_ioeventfd_before fo fn
      then do { s \<leftarrow> eventfd_call Eventfd_del Forward root fo s;
                address_space_add_del_ioeventfds root (fn # fds_new) fds_old s }
      else if memory_region_ioeventfd_before fn fo
      then do { s \<leftarrow> eventfd_call Eventfd_add Reverse root fn s;
                address_space_add_del_ioeventfds root fds_new (fo # fds_old) s }
      else address_space_add_del_ioeventfds root fds_new fds_old s)"

definition flat_ioeventfds :: "'d heap \<Rightarrow> FlatRange \<Rightarrow> MemoryRegionIoeventfd list" where
  "flat_ioeventfds h fr =
     concat (map (\<lambda>fd.
       let tmp = rshift (ioe_addr fd) (rstart (fr_addr fr) - uint (fr_offset_in_region fr))
       in if rintersects (fr_addr fr) tmp then [fd\<lparr>ioe_addr := tmp\<rparr>] else [])
       (mr_ioeventfds (h (fr_mr fr))))"

definition address_space_update_ioeventfds ::
  "as_id \<Rightarrow> 'd memory_state \<Rightarrow> 'd memory_state option" where
  "address_space_update_ioeventfds i s =
     (let ioeventfds = concat (map (flat_ioeventfds (ms_heap s)) (fv_ranges (as_current_map (get_as i s))))
      in do {
        s \<leftarrow> address_space_add_del_ioeventfds (as_root (get_as i s)) ioeventfds (as_ioeventfds (get_as i s)) s;
        Some (put_as i ((get_as i s)\<lparr>as_ioeventfds := ioeventfds\<rparr>) s)
      })"

section \<open>Comparing two views\<close>

fun address_space_update_topology_pass ::
  "ptr option \<Rightarrow> bool \<Rightarrow> FlatRange list \<Rightarrow> FlatRange list \<Rightarrow>
   'd memory_state \<Rightarrow> 'd memory_state option" where
  "address_space_update_topology_pass root adding [] [] s = Some s"
| "address_space_update_topology_pass root adding (frold # old) [] s =
     do { s \<leftarrow> (if \<not> adding then update_region root frold Reverse Region_del s else Some s);
          address_space_update_topology_pass root adding old [] s }"
| "address_space_update_topology_pass root adding [] (frnew # new) s =
     do { s \<leftarrow> (if adding then update_region root frnew Forward Region_add s else Some s);
          address_space_update_topology_pass root adding [] new s }"
| "address_space_update_topology_pass root adding (frold # old) (frnew # new) s =
     (if rstart (fr_addr frold) < rstart (fr_addr frnew) \<or>
         (rstart (fr_addr frold) = rstart (fr_addr frnew) \<and> \<not> flatrange_equal frold frnew)
      then do { s \<leftarrow> (if \<not> adding then update_region root frold Reverse Region_del s else Some s);
                address_space_update_topology_pass root adding old (frnew # new) s }
      else if flatrange_equal frold frnew
      then do { s \<leftarrow> (if adding
                     then do {
                       s \<leftarrow> update_region root frnew Forward Region_nop s;
                       if fr_dirty_log_mask frold \<noteq> 0 \<and> fr_dirty_log_mask frnew = 0
                       then update_region root frnew Reverse Log_stop s
                       else if fr_dirty_log_mask frnew \<noteq> 0 \<and> fr_dirty_log_mask frold = 0
                       then update_region root frnew Forward Log_start s
                       else Some s
                     }
                     else Some s);
                address_space_update_topology_pass root adding old new s }
      else do { s \<leftarrow> (if adding then update_region root frnew Forward Region_add s else Some s);
                address_space_update_topology_pass root adding (frold # old) new s })"

definition address_space_update_topology ::
  "as_id \<Rightarrow> ptr \<Rightarrow> 'd memory_state \<Rightarrow> 'd memory_state option" where
  "address_space_update_topology i root s =
     (let old_view = as_current_map (get_as i s) in
      do {
        new_view \<leftarrow> generate_memory_topology (ms_heap s) root;
        s \<leftarrow> address_space_update_topology_pass (Some root) False (fv_ranges old_view) (fv_ranges new_view) s;
        s \<leftarrow> address_space_update_topology_pass (Some root) True (fv_ranges old_view) (fv_ranges new_view) s;
        address_space_update_ioeventfds i (put_as i ((get_as i s)\<lparr>as_current_map := new_view\<rparr>) s)
      })"

definition update_if_rooted :: "as_id \<Rightarrow> 'd memory_state \<Rightarrow> 'd memory_state option" where
  "update_if_rooted i s =
     (case as_root (get_as i s) of
        None \<Rightarrow> Some s
      | Some root \<Rightarrow> address_space_update_topology i root s)"

section \<open>Transactions\<close>

definition memory_region_update_topology ::
  "ptr option \<Rightarrow> 'd memory_state \<Rightarrow> 'd memory_state option" where
  "memory_region_update_topology mr s =
     (if memory_region_transaction_depth s \<noteq> 0
      then Some (s\<lparr>memory_region_update_pending :=
             memory_region_update_pending s \<or>
             (case mr of None \<Rightarrow> True | Some p \<Rightarrow> mr_enabled (ms_heap s p))\<rparr>)
      else if (case mr of None \<Rightarrow> False | Some p \<Rightarrow> \<not> mr_enabled (ms_heap s p)) then Some s
      else do {
        s \<leftarrow> Some (listener_call_global Begin Forward s);
        s \<leftarrow> update_if_rooted AS_memory s;
        s \<leftarrow> update_if_rooted AS_io s;
        s \<leftarrow> Some (listener_call_global Commit Forward s);
        Some (s\<lparr>memory_region_update_pending := False\<rparr>)
      })"

definition memory_region_transaction_begin :: "'d memory_state \<Rightarrow> 'd memory_state" where
  "memory_region_transaction_begin s =
     s\<lparr>memory_region_transaction_depth := Suc (memory_region_transaction_depth s)\<rparr>"

definition memory_region_transaction_commit :: "'d memory_state \<Rightarrow> 'd memory_state option" where
  "memory_region_transaction_commit s =
     do {
       c_assert (memory_region_transaction_depth s \<noteq> 0);
       s \<leftarrow> Some (s\<lparr>memory_region_transaction_depth := memory_region_transaction_depth s - 1\<rparr>);
       if memory_region_transaction_depth s = 0 \<and> memory_region_update_pending s
       then memory_region_update_topology None s
       else Some s
     }"

section \<open>The walk over two views and over two arrays of descriptors\<close>

text \<open>The order of the descriptors is the lexicographic order of a key.\<close>

definition ioe_key :: "MemoryRegionIoeventfd \<Rightarrow> int \<times> int \<times> bool \<times> u64 \<times> ptr" where
  "ioe_key a =
     (rstart (ioe_addr a), rsize (ioe_addr a), ioe_match_data a,
      (if ioe_match_data a then ioe_data a else 0), ioe_e a)"

lemma before_key: "memory_region_ioeventfd_before a b \<longleftrightarrow> ioe_key a < ioe_key b"
  by (auto simp: memory_region_ioeventfd_before_def ioe_key_def less_prod_def)

lemma equal_key: "memory_region_ioeventfd_equal a b \<longleftrightarrow> ioe_key a = ioe_key b"
  by (auto simp: memory_region_ioeventfd_equal_def before_key)

interpretation ioe: sorted_diff memory_region_ioeventfd_before memory_region_ioeventfd_equal
    memory_region_ioeventfd_before "\<lambda>x y. memory_region_ioeventfd_before y x"
  by unfold_locales (auto simp: before_key equal_key)

definition goes_first :: "FlatRange \<Rightarrow> FlatRange \<Rightarrow> bool" where
  "goes_first x y \<longleftrightarrow>
     rstart (fr_addr x) < rstart (fr_addr y) \<or>
     (rstart (fr_addr x) = rstart (fr_addr y) \<and> \<not> flatrange_equal x y)"

lemma flatrange_equal_start: "flatrange_equal x y \<Longrightarrow> rstart (fr_addr x) = rstart (fr_addr y)"
  by (simp add: flatrange_equal_def)

interpretation flat: sorted_diff "\<lambda>x y. rstart (fr_addr x) < rstart (fr_addr y)" flatrange_equal
    goes_first "\<lambda>x y. \<not> flatrange_equal x y"
  by unfold_locales (auto simp: goes_first_def flatrange_equal_def)

fun pass_item ::
  "ptr option \<Rightarrow> bool \<Rightarrow> FlatRange diff \<Rightarrow> 'd memory_state \<Rightarrow> 'd memory_state option" where
  "pass_item root adding (Old x) s =
     (if \<not> adding then update_region root x Reverse Region_del s else Some s)"
| "pass_item root adding (New y) s =
     (if adding then update_region root y Forward Region_add s else Some s)"
| "pass_item root adding (Both x y) s =
     (if adding
      then do {
        s \<leftarrow> update_region root y Forward Region_nop s;
        if fr_dirty_log_mask x \<noteq> 0 \<and> fr_dirty_log_mask y = 0
        then update_region root y Reverse Log_stop s
        else if fr_dirty_log_mask y \<noteq> 0 \<and> fr_dirty_log_mask x = 0
        then update_region root y Forward Log_start s
        else Some s
      }
      else Some s)"

lemma pass_walk:
  "address_space_update_topology_pass root adding old new =
     foldM (pass_item root adding) (diff_walk goes_first (\<lambda>x y. \<not> flatrange_equal x y) old new)"
proof (induction old new rule: walk_induct)
  case (Cons_Cons x xs y ys)
  then show ?case by (intro ext) (simp add: goes_first_def [symmetric])
qed (intro ext, simp)+

fun eventfd_item ::
  "ptr option \<Rightarrow> MemoryRegionIoeventfd diff \<Rightarrow> 'd memory_state \<Rightarrow> 'd memory_state option" where
  "eventfd_item root (Old x) s = eventfd_call Eventfd_del Forward root x s"
| "eventfd_item root (New y) s = eventfd_call Eventfd_add Reverse root y s"
| "eventfd_item root (Both x y) s = Some s"

lemma ioeventfds_walk:
  "address_space_add_del_ioeventfds root new old =
     foldM (eventfd_item root)
       (diff_walk memory_region_ioeventfd_before (\<lambda>x y. memory_region_ioeventfd_before y x) old new)"
  by (induction old new rule: walk_induct) (intro ext, simp)+

section \<open>What listeners are told\<close>

lemma listener_call_emits:
  "listener_call callback d (Some sec) s =
     Some (s\<lparr>ms_trace := ms_trace s @ map (\<lambda>l. callback (ml_self l) sec)
       (filter (\<lambda>l. memory_listener_match l sec) (in_direction d (memory_listeners s)))\<rparr>)"
proof -
  have "foldM (\<lambda>l s. do { sec \<leftarrow> Some sec;
      Some (if memory_listener_match l sec then emit (callback (ml_self l) sec) s else s) }) ls s =
    Some (s\<lparr>ms_trace := ms_trace s @ map (\<lambda>l. callback (ml_self l) sec)
       (filter (\<lambda>l. memory_listener_match l sec) ls)\<rparr>)" for ls
    by (induction ls arbitrary: s) (simp_all add: emit_def)
  then show ?thesis by (simp add: listener_call_def)
qed

definition section_of :: "ptr option \<Rightarrow> FlatRange \<Rightarrow> MemoryRegionSection" where
  "section_of root fr =
     \<lparr>sec_mr = Some (fr_mr fr), sec_address_space = root,
      sec_offset_within_region = fr_offset_in_region fr, sec_size = of_int (rsize (fr_addr fr)),
      sec_offset_within_address_space = of_int (rstart (fr_addr fr)), sec_readonly = fr_readonly fr\<rparr>"

definition fits :: "FlatRange \<Rightarrow> bool" where
  "fits fr \<longleftrightarrow>
     0 \<le> rstart (fr_addr fr) \<and> rstart (fr_addr fr) < 2 ^ 64 \<and>
     0 \<le> rsize (fr_addr fr) \<and> rsize (fr_addr fr) < 2 ^ 64"

lemma update_region_emits:
  "fits fr \<Longrightarrow> update_region root fr d callback s =
     Some (s\<lparr>ms_trace := ms_trace s @ map (\<lambda>l. callback (ml_self l) (section_of root fr))
       (filter (\<lambda>l. memory_listener_match l (section_of root fr)) (in_direction d (memory_listeners s)))\<rparr>)"
  by (simp add: update_region_def fits_def section_of_def listener_call_emits)

text \<open>The set of sections that a listener knows, from the calls made on it.\<close>

fun replay :: "ptr \<Rightarrow> listener_event list \<Rightarrow> MemoryRegionSection set \<Rightarrow> MemoryRegionSection set" where
  "replay l [] M = M"
| "replay l (Region_add l' sec # es) M = replay l es (if l' = l then insert sec M else M)"
| "replay l (Region_del l' sec # es) M = replay l es (if l' = l then M - {sec} else M)"
| "replay l (e # es) M = replay l es M"

lemma replay_append: "replay l (xs @ ys) M = replay l ys (replay l xs M)"
  by (induction l xs M rule: replay.induct) auto

lemma replay_calls:
  "replay p (map (\<lambda>l. Region_add (ml_self l) sec) ls) M = (if p \<in> ml_self ` set ls then insert sec M else M)"
  "replay p (map (\<lambda>l. Region_del (ml_self l) sec) ls) M = (if p \<in> ml_self ` set ls then M - {sec} else M)"
  "replay p (map (\<lambda>l. Region_nop (ml_self l) sec) ls) M = M"
  "replay p (map (\<lambda>l. Log_start (ml_self l) sec) ls) M = M"
  "replay p (map (\<lambda>l. Log_stop (ml_self l) sec) ls) M = M"
  by (induction ls arbitrary: M) auto

lemma set_in_direction [simp]: "set (in_direction d xs) = set xs"
  by (cases d) (simp_all add: in_direction_def)

text \<open>A step that only calls listeners, and what it tells the listener \<open>l\<close>.\<close>

definition tells ::
  "MemoryListener \<Rightarrow> (MemoryRegionSection set \<Rightarrow> MemoryRegionSection set) \<Rightarrow>
   'd memory_state \<Rightarrow> 'd memory_state \<Rightarrow> bool" where
  "tells l f s s' \<longleftrightarrow>
     (\<exists>es. s' = s\<lparr>ms_trace := ms_trace s @ es\<rparr> \<and> (\<forall>M. replay (ml_self l) es M = f M))"

lemma tells_refl: "tells l (\<lambda>M. M) s s"
  unfolding tells_def by (rule exI [of _ "[]"]) simp

lemma tells_trans: "tells l f s1 s2 \<Longrightarrow> tells l g s2 s3 \<Longrightarrow> tells l (\<lambda>M. g (f M)) s1 s3"
  unfolding tells_def by (auto simp: replay_append)

lemma tells_frame:
  "tells l f s s' \<Longrightarrow> memory_listeners s' = memory_listeners s \<and> ms_heap s' = ms_heap s \<and>
   address_space_memory s' = address_space_memory s \<and> address_space_io s' = address_space_io s"
  by (auto simp: tells_def)

definition hears :: "MemoryListener \<Rightarrow> ptr option \<Rightarrow> 'd memory_state \<Rightarrow> bool" where
  "hears l root s \<longleftrightarrow>
     l \<in> set (memory_listeners s) \<and>
     (ml_address_space_filter l = None \<or> ml_address_space_filter l = root)"

lemma update_region_tellsI:
  assumes "fits fr"
    and "\<And>M. replay (ml_self l) (map (\<lambda>l. callback (ml_self l) (section_of root fr))
      (filter (\<lambda>l. memory_listener_match l (section_of root fr)) (in_direction d (memory_listeners s)))) M = f M"
  shows "\<exists>s'. update_region root fr d callback s = Some s' \<and> tells l f s s'"
  unfolding update_region_emits [OF assms(1)] tells_def using assms(2) by blast

lemma update_region_tells:
  assumes "fits fr" "hears l root s"
  shows "\<exists>s'. update_region root fr d Region_add s = Some s' \<and> tells l (insert (section_of root fr)) s s'"
    and "\<exists>s'. update_region root fr d Region_del s = Some s' \<and> tells l (\<lambda>M. M - {section_of root fr}) s s'"
    and "\<exists>s'. update_region root fr d Region_nop s = Some s' \<and> tells l (\<lambda>M. M) s s'"
    and "\<exists>s'. update_region root fr d Log_start s = Some s' \<and> tells l (\<lambda>M. M) s s'"
    and "\<exists>s'. update_region root fr d Log_stop s = Some s' \<and> tells l (\<lambda>M. M) s s'"
proof -
  have l: "ml_self l \<in> ml_self ` set (filter (\<lambda>l. memory_listener_match l (section_of root fr))
      (in_direction d (memory_listeners s)))"
    using assms(2) by (auto simp: hears_def memory_listener_match_def section_of_def)
  note rule = update_region_tellsI [OF assms(1), of l]
  show "\<exists>s'. update_region root fr d Region_add s = Some s' \<and> tells l (insert (section_of root fr)) s s'"
    by (rule rule) (simp only: replay_calls l if_True)
  show "\<exists>s'. update_region root fr d Region_del s = Some s' \<and> tells l (\<lambda>M. M - {section_of root fr}) s s'"
    by (rule rule) (simp only: replay_calls l if_True)
  show "\<exists>s'. update_region root fr d Region_nop s = Some s' \<and> tells l (\<lambda>M. M) s s'"
    by (rule rule) (simp only: replay_calls)
  show "\<exists>s'. update_region root fr d Log_start s = Some s' \<and> tells l (\<lambda>M. M) s s'"
    by (rule rule) (simp only: replay_calls)
  show "\<exists>s'. update_region root fr d Log_stop s = Some s' \<and> tells l (\<lambda>M. M) s s'"
    by (rule rule) (simp only: replay_calls)
qed

text \<open>What one item of the walk, and then the whole walk, tells a listener.\<close>

fun item_effect :: "ptr option \<Rightarrow> bool \<Rightarrow> FlatRange diff \<Rightarrow> MemoryRegionSection set \<Rightarrow> MemoryRegionSection set" where
  "item_effect root adding (Old x) M = (if adding then M else M - {section_of root x})"
| "item_effect root adding (New y) M = (if adding then insert (section_of root y) M else M)"
| "item_effect root adding (Both x y) M = M"

lemma item_effect_fun:
  "item_effect root True (Old x) = (\<lambda>M. M)"
  "item_effect root False (Old x) = (\<lambda>M. M - {section_of root x})"
  "item_effect root True (New y) = insert (section_of root y)"
  "item_effect root False (New y) = (\<lambda>M. M)"
  "item_effect root adding (Both x y) = (\<lambda>M. M)"
  by (simp_all add: fun_eq_iff)

fun item_fits :: "FlatRange diff \<Rightarrow> bool" where
  "item_fits (Old x) = fits x"
| "item_fits (New y) = fits y"
| "item_fits (Both x y) = (fits x \<and> fits y)"

lemma pass_item_tells:
  assumes "item_fits d" "hears l root s"
  shows "\<exists>s'. pass_item root adding d s = Some s' \<and> tells l (item_effect root adding d) s s'"
proof (cases d)
  case (Old x)
  then show ?thesis
    using assms update_region_tells(2) [of x l root s Reverse] tells_refl [of l s]
    by (cases adding) (auto simp: item_effect_fun)
next
  case (New y)
  then show ?thesis
    using assms update_region_tells(1) [of y l root s Forward] tells_refl [of l s]
    by (cases adding) (auto simp: item_effect_fun)
next
  case (Both x y)
  show ?thesis
  proof (cases adding)
    case True
    obtain s1 where s1: "update_region root y Forward Region_nop s = Some s1" "tells l (\<lambda>M. M) s s1"
      using assms Both update_region_tells(3) [of y l root s Forward] by auto
    have h1: "hears l root s1" using assms(2) tells_frame [OF s1(2)] by (simp add: hears_def)
    have "fits y" using assms(1) Both by simp
    have "\<exists>s2. (if fr_dirty_log_mask x \<noteq> 0 \<and> fr_dirty_log_mask y = 0
        then update_region root y Reverse Log_stop s1
        else if fr_dirty_log_mask y \<noteq> 0 \<and> fr_dirty_log_mask x = 0
        then update_region root y Forward Log_start s1 else Some s1) = Some s2 \<and> tells l (\<lambda>M. M) s1 s2"
      using update_region_tells(4,5) [OF \<open>fits y\<close> h1] tells_refl [of l s1] by auto
    then show ?thesis
      using s1 tells_trans [OF s1(2), of "\<lambda>M. M"] True Both by (auto simp: item_effect_fun)
  next
    case False
    then show ?thesis using Both tells_refl [of l s] by (simp add: item_effect_fun)
  qed
qed

lemma walk_tells:
  "list_all item_fits ds \<Longrightarrow> hears l root s \<Longrightarrow>
   \<exists>s'. foldM (pass_item root adding) ds s = Some s' \<and>
        tells l (\<lambda>M. fold (item_effect root adding) ds M) s s'"
proof (induction ds arbitrary: s)
  case Nil
  then show ?case using tells_refl [of l s] by simp
next
  case (Cons d ds)
  then obtain s1 where s1: "pass_item root adding d s = Some s1" "tells l (item_effect root adding d) s s1"
    using pass_item_tells [of d l root s adding] by auto
  have "hears l root s1" using Cons.prems(2) tells_frame [OF s1(2)] by (simp add: hears_def)
  then obtain s2 where "foldM (pass_item root adding) ds s1 = Some s2"
    "tells l (\<lambda>M. fold (item_effect root adding) ds M) s1 s2"
    using Cons by auto
  then show ?case using s1 tells_trans [OF s1(2)] by auto
qed

lemma fold_item_effect:
  "fold (item_effect root False) ds M = M - section_of root ` set (olds ds)"
  "fold (item_effect root True) ds M = M \<union> section_of root ` set (news ds)"
  by (induction ds arbitrary: M rule: olds.induct) auto

lemma walk_items_fit:
  "list_all fits xs \<Longrightarrow> list_all fits ys \<Longrightarrow> list_all item_fits (diff_walk del add xs ys)"
  by (induction xs ys rule: walk_induct) auto

lemma flat_sorted_starts:
  "flat_sorted rs \<Longrightarrow> sorted_wrt (\<lambda>x y. rstart (fr_addr x) < rstart (fr_addr y)) rs"
  unfolding flat_sorted_def rend_def by (auto elim!: sorted_wrt_mono_rel [rotated])

lemma flat_sorted_start_inj:
  assumes "flat_sorted rs" "x \<in> set rs" "y \<in> set rs" "rstart (fr_addr x) = rstart (fr_addr y)"
  shows "x = y"
proof -
  have "0 < rsize (fr_addr x)" "0 < rsize (fr_addr y)" using assms by (auto simp: flat_sorted_def)
  then show ?thesis
    using flat_sorted_unique [OF assms(1-3), of "rstart (fr_addr x)"] assms(4)
    by (simp add: rcontains_def rend_def)
qed

lemma section_of_start:
  "fits x \<Longrightarrow> fits y \<Longrightarrow> section_of root x = section_of root y \<Longrightarrow> rstart (fr_addr x) = rstart (fr_addr y)"
  unfolding fits_def section_of_def
  by (metis MemoryRegionSection.ext_inject uint_of_int64)

lemma section_of_same: "flatrange_equal x y \<Longrightarrow> section_of root x = section_of root y"
  by (simp add: flatrange_equal_def section_of_def)

lemma sections_updated:
  assumes "flat_sorted old" "flat_sorted new" "list_all fits old" "list_all fits new"
  shows "(section_of root ` set old - section_of root ` set (filter (\<lambda>x. \<forall>y\<in>set new. \<not> flatrange_equal x y) old))
     \<union> section_of root ` set (filter (\<lambda>y. \<forall>x\<in>set old. \<not> flatrange_equal x y) new) = section_of root ` set new"
    (is "?S old - ?D \<union> ?A = ?S new")
proof (intro set_eqI iffI)
  fix z assume "z \<in> ?S old - ?D \<union> ?A"
  then show "z \<in> ?S new" using section_of_same by fastforce
next
  fix z assume "z \<in> ?S new"
  then obtain y where y: "y \<in> set new" "z = section_of root y" by auto
  show "z \<in> ?S old - ?D \<union> ?A"
  proof (cases "\<exists>x\<in>set old. flatrange_equal x y")
    case False
    then show ?thesis using y by auto
  next
    case True
    then obtain x where x: "x \<in> set old" "flatrange_equal x y" by auto
    have "z \<notin> ?D"
    proof
      assume "z \<in> ?D"
      then obtain x' where x': "x' \<in> set old" "\<not> flatrange_equal x' y" "section_of root x' = z"
        using y(1) by auto
      then have "rstart (fr_addr x') = rstart (fr_addr x)"
        using x y section_of_same [OF x(2)] assms(3) by (intro section_of_start) (auto simp: list_all_iff)
      then show False using x' x flat_sorted_start_inj [OF assms(1)] by blast
    qed
    moreover have "z \<in> ?S old" using x y section_of_same [OF x(2), of root] by (metis imageI)
    ultimately show ?thesis by blast
  qed
qed


definition empty_as :: "ptr option \<Rightarrow> AddressSpace" where
  "empty_as root = \<lparr>as_root = root, as_current_map = flatview_init, as_ioeventfds = []\<rparr>"

definition sample_listener :: MemoryListener where
  "sample_listener = \<lparr>ml_self = 7, ml_priority = 0, ml_address_space_filter = None\<rparr>"

definition sample_state :: "unit memory_state" where
  "sample_state =
     \<lparr>ms_heap = layered_heap, memory_region_transaction_depth = 0,
      memory_region_update_pending = False, global_dirty_log = False,
      memory_listeners = [sample_listener], address_space_memory = empty_as (Some 0),
      address_space_io = empty_as None, ms_trace = []\<rparr>"


end
