(* ===== verification/Memory_Ops.thy ===== *)
theory Memory_Ops
  imports Memory_Topology
begin

text \<open>
  The operations of the memory API on a hierarchy of regions (\<open>memory.c\<close>): attributes,
  coalescing, event descriptors, subregions, address changes, lookup, dirty logging and
  listener registration. Each operation changes the store of regions and then lets
  \<open>memory_region_update_topology\<close> bring the address spaces up to date.
\<close>

unbundle bit_operations_syntax

section \<open>Operations\<close>

definition upd_mr :: "ptr \<Rightarrow> ('d MemoryRegion \<Rightarrow> 'd MemoryRegion) \<Rightarrow> 'd memory_state \<Rightarrow> 'd memory_state" where
  "upd_mr p f s = s\<lparr>ms_heap := (ms_heap s)(p := f (ms_heap s p))\<rparr>"

definition memory_region_set_log :: "ptr \<Rightarrow> bool \<Rightarrow> nat \<Rightarrow> 'd memory_state \<Rightarrow> 'd memory_state option" where
  "memory_region_set_log mr log client s =
     (let mask = push_bit client 1 :: u8 in
      memory_region_update_topology (Some mr)
        (upd_mr mr (\<lambda>r. r\<lparr>mr_dirty_log_mask :=
           (mr_dirty_log_mask r AND NOT mask) OR (if log then mask else 0)\<rparr>) s))"

definition memory_region_sync_dirty_bitmap :: "ptr \<Rightarrow> 'd memory_state \<Rightarrow> 'd memory_state option" where
  "memory_region_sync_dirty_bitmap mr s =
     foldM (\<lambda>fr s. if fr_mr fr = mr
                   then update_region (as_root (address_space_memory s)) fr Forward Log_sync s
                   else Some s)
       (fv_ranges (as_current_map (address_space_memory s))) s"

definition memory_region_set_readonly :: "ptr \<Rightarrow> bool \<Rightarrow> 'd memory_state \<Rightarrow> 'd memory_state option" where
  "memory_region_set_readonly mr readonly s =
     (if mr_readonly (ms_heap s mr) \<noteq> readonly
      then memory_region_update_topology (Some mr) (upd_mr mr (\<lambda>r. r\<lparr>mr_readonly := readonly\<rparr>) s)
      else Some s)"

definition memory_region_rom_device_set_readable ::
  "ptr \<Rightarrow> bool \<Rightarrow> 'd memory_state \<Rightarrow> 'd memory_state option" where
  "memory_region_rom_device_set_readable mr readable s =
     (if mr_readable (ms_heap s mr) \<noteq> readable
      then memory_region_update_topology (Some mr) (upd_mr mr (\<lambda>r. r\<lparr>mr_readable := readable\<rparr>) s)
      else Some s)"

definition register_coalesced :: "FlatRange \<Rightarrow> irange \<Rightarrow> 'd memory_state \<Rightarrow> 'd memory_state option" where
  "register_coalesced fr cmr s =
     (let tmp = rshift cmr (rstart (fr_addr fr) - uint (fr_offset_in_region fr)) in
      if \<not> rintersects tmp (fr_addr fr) then Some s
      else let tmp = rintersection tmp (fr_addr fr) in
        do {
          st \<leftarrow> get64 (rstart tmp);
          sz \<leftarrow> get64 (rsize tmp);
          Some (emit (Register_coalesced_mmio st sz) s)
        })"

definition memory_region_update_coalesced_range ::
  "ptr \<Rightarrow> 'd memory_state \<Rightarrow> 'd memory_state option" where
  "memory_region_update_coalesced_range mr s =
     foldM (\<lambda>fr s. if fr_mr fr = mr
                   then do {
                     st \<leftarrow> get64 (rstart (fr_addr fr));
                     sz \<leftarrow> get64 (rsize (fr_addr fr));
                     foldM (register_coalesced fr) (mr_coalesced (ms_heap s mr))
                       (emit (Unregister_coalesced_mmio st sz) s)
                   }
                   else Some s)
       (fv_ranges (as_current_map (address_space_memory s))) s"

definition memory_region_add_coalescing ::
  "ptr \<Rightarrow> u64 \<Rightarrow> u64 \<Rightarrow> 'd memory_state \<Rightarrow> 'd memory_state option" where
  "memory_region_add_coalescing mr offset sz s =
     memory_region_update_coalesced_range mr
       (upd_mr mr (\<lambda>r. r\<lparr>mr_coalesced := mr_coalesced r @ [rmake (uint offset) (uint sz)]\<rparr>) s)"

definition memory_region_clear_coalescing :: "ptr \<Rightarrow> 'd memory_state \<Rightarrow> 'd memory_state option" where
  "memory_region_clear_coalescing mr s =
     memory_region_update_coalesced_range mr (upd_mr mr (\<lambda>r. r\<lparr>mr_coalesced := []\<rparr>) s)"

definition memory_region_set_coalescing :: "ptr \<Rightarrow> 'd memory_state \<Rightarrow> 'd memory_state option" where
  "memory_region_set_coalescing mr s =
     do {
       s \<leftarrow> memory_region_clear_coalescing mr s;
       sz \<leftarrow> get64 (mr_size (ms_heap s mr));
       memory_region_add_coalescing mr 0 sz s
     }"

fun insert_eventfd :: "MemoryRegionIoeventfd \<Rightarrow> MemoryRegionIoeventfd list \<Rightarrow> MemoryRegionIoeventfd list" where
  "insert_eventfd mrfd [] = [mrfd]"
| "insert_eventfd mrfd (fd # fds) =
     (if memory_region_ioeventfd_before mrfd fd then mrfd # fd # fds else fd # insert_eventfd mrfd fds)"

fun remove_eventfd ::
  "MemoryRegionIoeventfd \<Rightarrow> MemoryRegionIoeventfd list \<Rightarrow> MemoryRegionIoeventfd list option" where
  "remove_eventfd mrfd [] = None"
| "remove_eventfd mrfd (fd # fds) =
     (if memory_region_ioeventfd_equal mrfd fd then Some fds
      else do { fds \<leftarrow> remove_eventfd mrfd fds; Some (fd # fds) })"

definition make_eventfd :: "u64 \<Rightarrow> u32 \<Rightarrow> bool \<Rightarrow> u64 \<Rightarrow> ptr \<Rightarrow> MemoryRegionIoeventfd" where
  "make_eventfd addr sz match_data data e =
     \<lparr>ioe_addr = rmake (uint addr) (uint sz), ioe_match_data = match_data, ioe_data = data, ioe_e = e\<rparr>"

definition memory_region_add_eventfd ::
  "ptr \<Rightarrow> u64 \<Rightarrow> u32 \<Rightarrow> bool \<Rightarrow> u64 \<Rightarrow> ptr \<Rightarrow> 'd memory_state \<Rightarrow> 'd memory_state option" where
  "memory_region_add_eventfd mr addr sz match_data data e s =
     (let mrfd = make_eventfd addr sz match_data data e in
      memory_region_update_topology (Some mr)
        (upd_mr mr (\<lambda>r. r\<lparr>mr_ioeventfds := insert_eventfd mrfd (mr_ioeventfds r)\<rparr>) s))"

definition memory_region_del_eventfd ::
  "ptr \<Rightarrow> u64 \<Rightarrow> u32 \<Rightarrow> bool \<Rightarrow> u64 \<Rightarrow> ptr \<Rightarrow> 'd memory_state \<Rightarrow> 'd memory_state option" where
  "memory_region_del_eventfd mr addr sz match_data data e s =
     (let mrfd = make_eventfd addr sz match_data data e in
      do {
        fds \<leftarrow> remove_eventfd mrfd (mr_ioeventfds (ms_heap s mr));
        memory_region_update_topology (Some mr) (upd_mr mr (\<lambda>r. r\<lparr>mr_ioeventfds := fds\<rparr>) s)
      })"

text \<open>
  The first loop of \<open>memory_region_add_subregion_common\<close> looks for collisions and only has an
  effect in a message that is compiled out; the second one finds the place of the subregion.
\<close>

fun insert_subregion :: "'d heap \<Rightarrow> ptr \<Rightarrow> ptr list \<Rightarrow> ptr list" where
  "insert_subregion h sub [] = [sub]"
| "insert_subregion h sub (other # others) =
     (if mr_priority (h sub) \<ge> mr_priority (h other) then sub # other # others
      else other # insert_subregion h sub others)"

definition memory_region_add_subregion_common ::
  "ptr \<Rightarrow> u64 \<Rightarrow> ptr \<Rightarrow> 'd memory_state \<Rightarrow> 'd memory_state option" where
  "memory_region_add_subregion_common mr offset sub s =
     do {
       c_assert (mr_parent (ms_heap s sub) = None);
       s \<leftarrow> Some (upd_mr sub (\<lambda>r. r\<lparr>mr_parent := Some mr, mr_addr := offset\<rparr>) s);
       s \<leftarrow> Some (upd_mr mr (\<lambda>r. r\<lparr>mr_subregions := insert_subregion (ms_heap s) sub (mr_subregions r)\<rparr>) s);
       memory_region_update_topology (Some mr) s
     }"

definition memory_region_add_subregion ::
  "ptr \<Rightarrow> u64 \<Rightarrow> ptr \<Rightarrow> 'd memory_state \<Rightarrow> 'd memory_state option" where
  "memory_region_add_subregion mr offset sub s =
     memory_region_add_subregion_common mr offset sub
       (upd_mr sub (\<lambda>r. r\<lparr>mr_may_overlap := False, mr_priority := 0\<rparr>) s)"

definition memory_region_add_subregion_overlap ::
  "ptr \<Rightarrow> u64 \<Rightarrow> ptr \<Rightarrow> u32 \<Rightarrow> 'd memory_state \<Rightarrow> 'd memory_state option" where
  "memory_region_add_subregion_overlap mr offset sub priority s =
     memory_region_add_subregion_common mr offset sub
       (upd_mr sub (\<lambda>r. r\<lparr>mr_may_overlap := True, mr_priority := priority\<rparr>) s)"

definition memory_region_del_subregion :: "ptr \<Rightarrow> ptr \<Rightarrow> 'd memory_state \<Rightarrow> 'd memory_state option" where
  "memory_region_del_subregion mr sub s =
     do {
       c_assert (mr_parent (ms_heap s sub) = Some mr);
       s \<leftarrow> Some (upd_mr sub (\<lambda>r. r\<lparr>mr_parent := None\<rparr>) s);
       s \<leftarrow> Some (upd_mr mr (\<lambda>r. r\<lparr>mr_subregions := remove1 sub (mr_subregions r)\<rparr>) s);
       memory_region_update_topology (Some mr) s
     }"

definition memory_region_set_enabled :: "ptr \<Rightarrow> bool \<Rightarrow> 'd memory_state \<Rightarrow> 'd memory_state option" where
  "memory_region_set_enabled mr enabled s =
     (if enabled = mr_enabled (ms_heap s mr) then Some s
      else memory_region_update_topology None (upd_mr mr (\<lambda>r. r\<lparr>mr_enabled := enabled\<rparr>) s))"

definition memory_region_set_address :: "ptr \<Rightarrow> u64 \<Rightarrow> 'd memory_state \<Rightarrow> 'd memory_state option" where
  "memory_region_set_address mr addr s =
     (let priority = mr_priority (ms_heap s mr); may_overlap = mr_may_overlap (ms_heap s mr) in
      case mr_parent (ms_heap s mr) of
        None \<Rightarrow> Some (upd_mr mr (\<lambda>r. r\<lparr>mr_addr := addr\<rparr>) s)
      | Some parent \<Rightarrow>
          if addr = mr_addr (ms_heap s mr) then Some (upd_mr mr (\<lambda>r. r\<lparr>mr_addr := addr\<rparr>) s)
          else do {
            s \<leftarrow> Some (memory_region_transaction_begin s);
            s \<leftarrow> memory_region_del_subregion parent mr s;
            s \<leftarrow> (if may_overlap then memory_region_add_subregion_overlap parent addr mr priority s
                  else memory_region_add_subregion parent addr mr s);
            memory_region_transaction_commit s
          })"

definition memory_region_set_alias_offset :: "ptr \<Rightarrow> u64 \<Rightarrow> 'd memory_state \<Rightarrow> 'd memory_state option" where
  "memory_region_set_alias_offset mr offset s =
     (let old_offset = mr_alias_offset (ms_heap s mr) in
      do {
        c_assert (mr_alias (ms_heap s mr) \<noteq> None);
        s \<leftarrow> Some (upd_mr mr (\<lambda>r. r\<lparr>mr_alias_offset := offset\<rparr>) s);
        if offset = old_offset \<or> mr_parent (ms_heap s mr) = None then Some s
        else memory_region_update_topology (Some mr) s
      })"

section \<open>Lookup\<close>

definition cmp_flatrange_addr :: "irange \<Rightarrow> FlatRange \<Rightarrow> int" where
  "cmp_flatrange_addr addr fr =
     (if rend addr \<le> rstart (fr_addr fr) then - 1
      else if rstart addr \<ge> rend (fr_addr fr) then 1
      else 0)"

text \<open>The binary search of the C library, between the bounds \<open>l\<close> and \<open>u\<close>.\<close>

function bsearch :: "('a \<Rightarrow> int) \<Rightarrow> 'a list \<Rightarrow> nat \<Rightarrow> nat \<Rightarrow> nat option" where
  "bsearch cmp xs l u =
     (if l < u
      then let idx = (l + u) div 2; c = cmp (xs ! idx) in
        if c < 0 then bsearch cmp xs l idx
        else if c > 0 then bsearch cmp xs (Suc idx) u
        else Some idx
      else None)"
  by pat_completeness auto
termination
  by (relation "measure (\<lambda>(cmp, xs, l, u). u - l)") auto

declare bsearch.simps [simp del]

definition address_space_lookup :: "AddressSpace \<Rightarrow> irange \<Rightarrow> nat option" where
  "address_space_lookup as addr =
     bsearch (cmp_flatrange_addr addr) (fv_ranges (as_current_map as)) 0 (fv_nr (as_current_map as))"

fun step_back :: "FlatRange list \<Rightarrow> irange \<Rightarrow> nat \<Rightarrow> nat" where
  "step_back rs r 0 = 0"
| "step_back rs r (Suc i) = (if rintersects (fr_addr (rs ! i)) r then step_back rs r i else Suc i)"

partial_function (option) parent_root :: "'d heap \<Rightarrow> ptr \<Rightarrow> ptr option" where
  "parent_root h mr = (case mr_parent (h mr) of None \<Rightarrow> Some mr | Some p \<Rightarrow> parent_root h p)"

definition memory_region_to_address_space :: "ptr \<Rightarrow> 'd memory_state \<Rightarrow> as_id option" where
  "memory_region_to_address_space mr s =
     do {
       mr \<leftarrow> parent_root (ms_heap s) mr;
       if Some mr = as_root (address_space_memory s) then Some AS_memory
       else if Some mr = as_root (address_space_io s) then Some AS_io
       else None
     }"

definition no_section :: MemoryRegionSection where
  "no_section = \<lparr>sec_mr = None, sec_address_space = None, sec_offset_within_region = 0,
     sec_size = 0, sec_offset_within_address_space = 0, sec_readonly = False\<rparr>"

definition found_section :: "FlatRange \<Rightarrow> irange \<Rightarrow> MemoryRegionSection option" where
  "found_section fr r =
     do {
       r \<leftarrow> Some (rintersection r (fr_addr fr));
       d \<leftarrow> get64 (rstart r - rstart (fr_addr fr));
       sz \<leftarrow> get64 (rsize r);
       st \<leftarrow> get64 (rstart r);
       Some \<lparr>sec_mr = Some (fr_mr fr), sec_address_space = None,
             sec_offset_within_region = fr_offset_in_region fr + d, sec_size = sz,
             sec_offset_within_address_space = st, sec_readonly = fr_readonly fr\<rparr>
     }"

definition memory_region_find ::
  "ptr \<Rightarrow> u64 \<Rightarrow> u64 \<Rightarrow> 'd memory_state \<Rightarrow> MemoryRegionSection option" where
  "memory_region_find address_space addr sz s =
     do {
       i \<leftarrow> memory_region_to_address_space address_space s;
       let as = get_as i s; r = rmake (uint addr) (uint sz); rs = fv_ranges (as_current_map as) in
       (case address_space_lookup as r of
          None \<Rightarrow> Some no_section
        | Some fr \<Rightarrow> found_section (rs ! step_back rs r fr) r)
     }"

section \<open>Dirty logging and listeners\<close>

definition memory_global_sync_dirty_bitmap :: "ptr \<Rightarrow> 'd memory_state \<Rightarrow> 'd memory_state option" where
  "memory_global_sync_dirty_bitmap address_space s =
     do {
       i \<leftarrow> memory_region_to_address_space address_space s;
       foldM (\<lambda>fr. update_region (as_root (get_as i s)) fr Forward Log_sync)
         (fv_ranges (as_current_map (get_as i s))) s
     }"

definition memory_global_dirty_log_start :: "'d memory_state \<Rightarrow> 'd memory_state" where
  "memory_global_dirty_log_start s =
     listener_call_global Log_global_start Forward (s\<lparr>global_dirty_log := True\<rparr>)"

definition memory_global_dirty_log_stop :: "'d memory_state \<Rightarrow> 'd memory_state" where
  "memory_global_dirty_log_stop s =
     listener_call_global Log_global_stop Reverse (s\<lparr>global_dirty_log := False\<rparr>)"

definition fr_section :: "ptr option \<Rightarrow> FlatRange \<Rightarrow> MemoryRegionSection option" where
  "fr_section root fr =
     do {
       sz \<leftarrow> get64 (rsize (fr_addr fr));
       st \<leftarrow> get64 (rstart (fr_addr fr));
       Some \<lparr>sec_mr = Some (fr_mr fr), sec_address_space = root,
             sec_offset_within_region = fr_offset_in_region fr, sec_size = sz,
             sec_offset_within_address_space = st, sec_readonly = fr_readonly fr\<rparr>
     }"

definition listener_add_address_space ::
  "MemoryListener \<Rightarrow> as_id \<Rightarrow> 'd memory_state \<Rightarrow> 'd memory_state option" where
  "listener_add_address_space listener i s =
     (if ml_address_space_filter listener \<noteq> None \<and>
         ml_address_space_filter listener \<noteq> as_root (get_as i s)
      then Some s
      else do {
        s \<leftarrow> Some (if global_dirty_log s then emit (Log_global_start (ml_self listener)) s else s);
        foldM (\<lambda>fr s. do { sec \<leftarrow> fr_section (as_root (get_as i s)) fr;
                          Some (emit (Region_add (ml_self listener) sec) s) })
          (fv_ranges (as_current_map (get_as i s))) s
      })"

fun insert_listener :: "MemoryListener \<Rightarrow> MemoryListener list \<Rightarrow> MemoryListener list" where
  "insert_listener l [] = [l]"
| "insert_listener l (other # others) =
     (if ml_priority l < ml_priority other then l # other # others else other # insert_listener l others)"

definition memory_listener_register ::
  "MemoryListener \<Rightarrow> ptr option \<Rightarrow> 'd memory_state \<Rightarrow> 'd memory_state option" where
  "memory_listener_register listener filt s =
     (let listener = listener\<lparr>ml_address_space_filter := filt\<rparr>; ls = memory_listeners s in
      do {
        s \<leftarrow> Some (s\<lparr>memory_listeners :=
               (if ls = [] \<or> ml_priority listener \<ge> ml_priority (last ls)
                then ls @ [listener] else insert_listener listener ls)\<rparr>);
        s \<leftarrow> listener_add_address_space listener AS_memory s;
        listener_add_address_space listener AS_io s
      })"

definition memory_listener_unregister :: "ptr \<Rightarrow> 'd memory_state \<Rightarrow> 'd memory_state" where
  "memory_listener_unregister listener s =
     s\<lparr>memory_listeners := filter (\<lambda>l. ml_self l \<noteq> listener) (memory_listeners s)\<rparr>"

definition set_system_memory_map :: "ptr option \<Rightarrow> 'd memory_state \<Rightarrow> 'd memory_state option" where
  "set_system_memory_map mr s =
     memory_region_update_topology None
       (s\<lparr>address_space_memory := (address_space_memory s)\<lparr>as_root := mr\<rparr>\<rparr>)"

definition set_system_io_map :: "ptr option \<Rightarrow> 'd memory_state \<Rightarrow> 'd memory_state option" where
  "set_system_io_map mr s =
     memory_region_update_topology None
       (s\<lparr>address_space_io := (address_space_io s)\<lparr>as_root := mr\<rparr>\<rparr>)"

end
