(* ===== verification/Memory_Find.thy ===== *)
theory Memory_Find
  imports Memory_Ops
begin

text \<open>
  Lookup in an address space (\<open>memory_region_find\<close> of \<open>memory.c\<close>): the binary search over the
  flat view finds some range that overlaps the request, the walk back from it finds the first
  one, and the section returned describes what the view shows there.
\<close>

section \<open>Binary search\<close>

lemma bsearch_Some:
  "bsearch cmp xs l u = Some i \<Longrightarrow> l \<le> i \<and> i < u \<and> cmp (xs ! i) = 0"
proof (induction cmp xs l u rule: bsearch.induct)
  case (1 cmp xs l u)
  then show ?case
    by (subst (asm) (3) bsearch.simps) (fastforce simp: Let_def split: if_splits)
qed

text \<open>The comparison must not increase along the array.\<close>

lemma bsearch_None:
  assumes "\<And>i j. i < j \<Longrightarrow> j < length xs \<Longrightarrow> cmp (xs ! j) \<le> cmp (xs ! i)"
  shows "u \<le> length xs \<Longrightarrow> bsearch cmp xs l u = None \<Longrightarrow> l \<le> i \<Longrightarrow> i < u \<Longrightarrow> cmp (xs ! i) \<noteq> 0"
  using assms
proof (induction cmp xs l u rule: bsearch.induct)
  case (1 cmp xs l u)
  let ?m = "(l + u) div 2"
  have lu: "l < u" "?m < u" "l \<le> ?m" using 1 by auto
  have ne: "cmp (xs ! ?m) \<noteq> 0" using 1(4) lu by (subst (asm) bsearch.simps) (auto simp: Let_def)
  show ?case
  proof (cases "cmp (xs ! ?m) < 0")
    case True
    have rec: "bsearch cmp xs l ?m = None"
      using 1(4) lu True by (subst (asm) bsearch.simps) (simp add: Let_def)
    consider "i < ?m" | "i = ?m" | "?m < i" by linarith
    then show ?thesis
    proof cases
      case 1
      then show ?thesis using "1.IH"(1) [OF lu(1) refl refl True _ rec] "1.prems" lu by auto
    next
      case 3
      then have "cmp (xs ! i) \<le> cmp (xs ! ?m)" using "1.prems"(1,4) by (intro "1.prems"(5)) auto
      then show ?thesis using True by simp
    qed (use ne in auto)
  next
    case False
    then have pos: "cmp (xs ! ?m) > 0" using ne by simp
    have rec: "bsearch cmp xs (Suc ?m) u = None"
      using 1(4) lu pos by (subst (asm) bsearch.simps) (simp add: Let_def)
    consider "i < ?m" | "i = ?m" | "?m < i" by linarith
    then show ?thesis
    proof cases
      case 1
      then have "cmp (xs ! ?m) \<le> cmp (xs ! i)" using "1.prems"(1) lu by (intro "1.prems"(5)) auto
      then show ?thesis using pos by simp
    next
      case 3
      then show ?thesis using "1.IH"(2) [OF lu(1) refl refl False pos _ rec] "1.prems" by auto
    qed (use ne in auto)
  qed
qed

section \<open>The first overlapping range\<close>

lemma cmp_zero:
  assumes "0 < rsize r" "0 < rsize (fr_addr fr)"
  shows "cmp_flatrange_addr r fr = 0 \<longleftrightarrow> rintersects (fr_addr fr) r"
  using assms by (auto simp: cmp_flatrange_addr_def rintersects_iff)

lemma cmp_antimono:
  assumes "flat_sorted rs" "0 < rsize r" "i < j" "j < length rs"
  shows "cmp_flatrange_addr r (rs ! j) \<le> cmp_flatrange_addr r (rs ! i)"
proof -
  have "rend (fr_addr (rs ! i)) \<le> rstart (fr_addr (rs ! j))"
    "0 < rsize (fr_addr (rs ! i))" "0 < rsize (fr_addr (rs ! j))"
    using assms by (auto simp: flat_sorted_def sorted_wrt_iff_nth_less)
  then show ?thesis using assms(2) by (auto simp: cmp_flatrange_addr_def rend_def)
qed

lemma step_back_first:
  "rintersects (fr_addr (rs ! i)) r \<Longrightarrow>
   step_back rs r i \<le> i \<and> rintersects (fr_addr (rs ! step_back rs r i)) r \<and>
   (0 < step_back rs r i \<longrightarrow> \<not> rintersects (fr_addr (rs ! (step_back rs r i - 1))) r)"
  by (induction i) auto

lemma step_back_nothing_before:
  assumes "flat_sorted rs" "i < length rs" "rintersects (fr_addr (rs ! i)) r" "0 < rsize r"
    and "j < step_back rs r i"
  shows "\<not> rintersects (fr_addr (rs ! j)) r"
proof -
  let ?k = "step_back rs r i"
  have k: "?k \<le> i" "rintersects (fr_addr (rs ! ?k)) r" "\<not> rintersects (fr_addr (rs ! (?k - 1))) r"
    using step_back_first [OF assms(3)] assms(5) by auto
  have pos: "\<And>n. n < length rs \<Longrightarrow> 0 < rsize (fr_addr (rs ! n))"
    using assms(1) by (simp add: flat_sorted_def)
  have ord: "\<And>m n. m < n \<Longrightarrow> n < length rs \<Longrightarrow> rend (fr_addr (rs ! m)) \<le> rstart (fr_addr (rs ! n))"
    using assms(1) by (simp add: flat_sorted_def sorted_wrt_iff_nth_less)
  have k1: "?k - 1 < length rs" "?k < length rs" using k(1) assms(2,5) by auto
  have "rend (fr_addr (rs ! (?k - 1))) \<le> rstart r"
    using k ord [of "?k - 1" ?k] pos [OF k1(1)] pos [OF k1(2)] k1 assms(4,5)
    by (auto simp: rintersects_iff rend_def)
  moreover have "rend (fr_addr (rs ! j)) \<le> rend (fr_addr (rs ! (?k - 1)))"
  proof (cases "j = ?k - 1")
    case False
    then have "j < ?k - 1" using assms(5) by simp
    then show ?thesis using ord [OF _ k1(1)] pos [OF k1(1)] by (fastforce simp: rend_def)
  qed simp
  ultimately show ?thesis
    using pos [of j] assms(2,4,5) k(1) by (auto simp: rintersects_iff)
qed

lemma intersects_shown:
  assumes "flat_sorted rs" "0 < rsize r"
  shows "(\<exists>fr\<in>set rs. rintersects (fr_addr fr) r) \<longleftrightarrow> (\<exists>a. rcontains r a \<and> flat_lookup rs a \<noteq> None)"
proof -
  have "rintersects (fr_addr fr) r \<longleftrightarrow> (\<exists>a. rcontains r a \<and> rcontains (fr_addr fr) a)"
    if "fr \<in> set rs" for fr
  proof -
    have "0 < rsize (fr_addr fr)" using assms(1) that by (simp add: flat_sorted_def)
    then show ?thesis
      using assms(2) rcontains_imp_rintersects [of "fr_addr fr" _ r]
      by (auto simp: rintersects_def rcontains_def rend_def)
  qed
  then show ?thesis unfolding flat_lookup_None not_all by blast
qed

section \<open>The section that is found\<close>

lemma found_section_value:
  assumes "fits fr" "rintersects (fr_addr fr) r" "0 < rsize r" "0 < rsize (fr_addr fr)"
    and "0 \<le> rstart r" "rsize r < 2 ^ 64" "rstart r < 2 ^ 64"
  shows "\<exists>sec. found_section fr r = Some sec \<and> sec_mr sec = Some (fr_mr fr) \<and>
    uint (sec_offset_within_address_space sec) = max (rstart r) (rstart (fr_addr fr)) \<and>
    uint (sec_size sec) = rsize (rintersection r (fr_addr fr)) \<and> 0 < uint (sec_size sec) \<and>
    sec_offset_within_region sec =
      fr_offset_in_region fr + of_int (max (rstart r) (rstart (fr_addr fr)) - rstart (fr_addr fr)) \<and>
    sec_readonly sec = fr_readonly fr"
proof -
  let ?i = "rintersection r (fr_addr fr)"
  have "rstart r < rend (fr_addr fr)" "rstart (fr_addr fr) < rend r"
    using assms by (auto simp: rintersects_iff)
  then have "0 < rsize ?i" "rsize ?i < 2 ^ 64" "0 \<le> rstart ?i" "rstart ?i < 2 ^ 64"
    "0 \<le> rstart ?i - rstart (fr_addr fr)" "rstart ?i - rstart (fr_addr fr) < 2 ^ 64"
    using assms unfolding fits_def by (auto simp: rintersection_def Let_def rend_def)
  then show ?thesis by (auto simp: found_section_def uint_of_int64)
qed

text \<open>What a section promises about the view it was found in, for the request \<open>r\<close>.\<close>

definition describes :: "MemoryRegionSection \<Rightarrow> irange \<Rightarrow> FlatRange list \<Rightarrow> bool" where
  "describes sec r rs \<longleftrightarrow>
     (let st = uint (sec_offset_within_address_space sec); n = uint (sec_size sec) in
      0 < n \<and> rstart r \<le> st \<and> st + n \<le> rend r \<and>
      (\<forall>a. rstart r \<le> a \<and> a < st \<longrightarrow> flat_lookup rs a = None) \<and>
      (\<forall>a. st \<le> a \<and> a < st + n \<longrightarrow>
         (\<exists>mask readable. flat_lookup rs a =
            Some (the (sec_mr sec), sec_offset_within_region sec + of_int (a - st),
                  mask, readable, sec_readonly sec))))"

lemma found_describes:
  assumes srt: "flat_sorted rs" and fit: "list_all fits rs" and i: "i < length rs"
    and hit: "rintersects (fr_addr (rs ! i)) r" and r: "0 < rsize r" "0 \<le> rstart r" "rsize r < 2 ^ 64" "rstart r < 2 ^ 64"
  shows "\<exists>sec. found_section (rs ! step_back rs r i) r = Some sec \<and> sec_mr sec \<noteq> None \<and> describes sec r rs"
proof -
  let ?k = "step_back rs r i"
  let ?fr = "rs ! ?k"
  have k: "?k < length rs" "rintersects (fr_addr ?fr) r" using step_back_first [OF hit] i by auto
  then have fr: "fits ?fr" "0 < rsize (fr_addr ?fr)" "?fr \<in> set rs"
    using fit srt by (auto simp: list_all_length flat_sorted_def)
  obtain sec where sec: "found_section ?fr r = Some sec" "sec_mr sec = Some (fr_mr ?fr)"
    "uint (sec_offset_within_address_space sec) = max (rstart r) (rstart (fr_addr ?fr))"
    "uint (sec_size sec) = rsize (rintersection r (fr_addr ?fr))" "0 < uint (sec_size sec)"
    "sec_offset_within_region sec =
       fr_offset_in_region ?fr + of_int (max (rstart r) (rstart (fr_addr ?fr)) - rstart (fr_addr ?fr))"
    "sec_readonly sec = fr_readonly ?fr"
    using found_section_value [OF fr(1) k(2) r(1) fr(2) r(2-4)] by blast
  have before: "flat_lookup rs a = None" if a: "rstart r \<le> a" "a < max (rstart r) (rstart (fr_addr ?fr))" for a
    unfolding flat_lookup_None
  proof (intro ballI notI)
    fix q assume q: "q \<in> set rs" "rcontains (fr_addr q) a"
    obtain j where j: "j < length rs" "q = rs ! j" using q(1) by (auto simp: in_set_conv_nth)
    have "rcontains r a"
      using a k(2) fr(2) r(1) by (auto simp: rcontains_def rintersects_iff)
    then have "rintersects (fr_addr (rs ! j)) r" using q(2) j(2) rcontains_imp_rintersects by blast
    then have "?k \<le> j" using step_back_nothing_before [OF srt i hit r(1)] by (meson not_le)
    moreover have "j \<noteq> ?k" using a q(2) j(2) by (auto simp: rcontains_def)
    ultimately have "rend (fr_addr ?fr) \<le> rstart (fr_addr (rs ! j))"
      using srt j(1) by (auto simp: flat_sorted_def sorted_wrt_iff_nth_less)
    then show False using a q(2) j(2) fr(2) by (auto simp: rcontains_def rend_def)
  qed
  have inside: "flat_lookup rs a = Some (fr_hit ?fr a)"
    if "rcontains (rintersection r (fr_addr ?fr)) a" for a
    using that flat_lookup_sorted [OF srt fr(3)] by simp
  have off: "sec_offset_within_region sec + of_int (a - max (rstart r) (rstart (fr_addr ?fr)))
      = fr_offset_in_region ?fr + of_int (a - rstart (fr_addr ?fr))" for a
    unfolding sec(6) by simp
  have "describes sec r rs"
    unfolding describes_def Let_def sec(2,3,7) off
    using sec(4,5) before inside by (auto simp: fr_hit_def rcontains_def rintersection_def Let_def)
  then show ?thesis using sec by blast
qed

text \<open>
  C12. A lookup in an address space whose view is sorted never fails: it returns no region
  exactly when the view shows nothing in the requested range, and otherwise a section that
  lies in the request, has nothing before it in the request, and names at each of its
  addresses the region, the offset and the read-only flag that the view shows there.
\<close>

theorem memory_region_find_correct:
  assumes "memory_region_to_address_space mr s = Some i"
    and "rs = fv_ranges (as_current_map (get_as i s))" and "flat_sorted rs" and "list_all fits rs"
    and "r = rmake (uint addr) (uint sz)" and "0 < uint sz"
  shows "\<exists>sec. memory_region_find mr addr sz s = Some sec \<and>
    (sec_mr sec = None \<longleftrightarrow> (\<forall>a. rcontains r a \<longrightarrow> flat_lookup rs a = None)) \<and>
    (sec_mr sec \<noteq> None \<longrightarrow> describes sec r rs)"
proof -
  have r: "0 < rsize r" "0 \<le> rstart r" "rsize r < 2 ^ 64" "rstart r < 2 ^ 64"
    using assms(5,6) uint64_lt uint64_ge by simp_all
  have pos: "\<And>fr. fr \<in> set rs \<Longrightarrow> 0 < rsize (fr_addr fr)" using assms(3) by (simp add: flat_sorted_def)
  have find: "memory_region_find mr addr sz s =
      (case bsearch (cmp_flatrange_addr r) rs 0 (length rs) of None \<Rightarrow> Some no_section
       | Some k \<Rightarrow> found_section (rs ! step_back rs r k) r)"
    using assms(1) unfolding assms(2,5)
    by (simp add: memory_region_find_def address_space_lookup_def Let_def)
  show ?thesis
  proof (cases "bsearch (cmp_flatrange_addr r) rs 0 (length rs)")
    case None
    have "\<not> rintersects (fr_addr fr) r" if fr: "fr \<in> set rs" for fr
    proof -
      obtain k where "k < length rs" "fr = rs ! k" using fr by (auto simp: in_set_conv_nth)
      then show ?thesis
        using bsearch_None [OF cmp_antimono [OF assms(3) r(1)] _ None, of k] cmp_zero [OF r(1) pos [OF fr]] by auto
    qed
    then have "\<forall>a. rcontains r a \<longrightarrow> flat_lookup rs a = None"
      using intersects_shown [OF assms(3) r(1)] by blast
    then show ?thesis using find None by (simp add: no_section_def)
  next
    case (Some k)
    then have k: "k < length rs" and "cmp_flatrange_addr r (rs ! k) = 0"
      using bsearch_Some by fastforce+
    then have hit: "rintersects (fr_addr (rs ! k)) r" using cmp_zero [OF r(1) pos [OF nth_mem [OF k]]] by simp
    then have ex: "\<exists>a. rcontains r a \<and> flat_lookup rs a \<noteq> None"
      using intersects_shown [OF assms(3) r(1)] nth_mem [OF k] by blast
    obtain sec where "found_section (rs ! step_back rs r k) r = Some sec" "sec_mr sec \<noteq> None" "describes sec r rs"
      using found_describes [OF assms(3,4) k hit r] by blast
    then show ?thesis using find Some ex by (intro exI [of _ sec]) auto
  qed
qed

definition find_state :: "unit memory_state" where
  "find_state = sample_state\<lparr>address_space_memory := \<lparr>as_root = Some 0,
     as_current_map = \<lparr>fv_ranges = [new_range 2 (layered_heap 2) False 0 0 0x1000,
        new_range 1 (layered_heap 1) False 0 0x1000 0x1000], fv_nr_allocated = 10\<rparr>,
     as_ioeventfds = []\<rparr>\<rparr>"

lemma find_state_space: "memory_region_to_address_space 0 find_state = Some AS_memory"
  by (simp add: memory_region_to_address_space_def parent_root.simps find_state_def
      sample_state_def layered_heap_def heap_eval)

theorem memory_region_find_correct_witness:
  "\<exists>sec. memory_region_find 0 0xff0 0x20 find_state = Some sec \<and> sec_mr sec \<noteq> None \<and>
     describes sec (rmake 0xff0 0x20) (fv_ranges (as_current_map (get_as AS_memory find_state)))"
proof -
  let ?rs = "fv_ranges (as_current_map (get_as AS_memory find_state))"
  have rs: "?rs = [new_range 2 (layered_heap 2) False 0 0 0x1000, new_range 1 (layered_heap 1) False 0 0x1000 0x1000]"
    by (simp add: find_state_def get_as_def)
  have ok: "flat_sorted ?rs" "list_all fits ?rs"
    unfolding rs by (simp_all add: flat_sorted_Cons fits_def new_range_def)
  have r: "rmake 0xff0 0x20 = rmake (uint (0xff0 :: u64)) (uint (0x20 :: u64))"
    and sz: "0 < uint (0x20 :: u64)" by simp_all
  obtain sec where sec: "memory_region_find 0 0xff0 0x20 find_state = Some sec"
    "sec_mr sec = None \<longleftrightarrow> (\<forall>a. rcontains (rmake 0xff0 0x20) a \<longrightarrow> flat_lookup ?rs a = None)"
    "sec_mr sec \<noteq> None \<longrightarrow> describes sec (rmake 0xff0 0x20) ?rs"
    using memory_region_find_correct [OF find_state_space refl ok r sz] by (elim exE conjE) (rule that)
  have "rcontains (rmake 0xff0 0x20) 0xff0" by simp
  moreover have "flat_lookup ?rs 0xff0 \<noteq> None" unfolding rs by (simp add: new_range_def)
  ultimately have "sec_mr sec \<noteq> None" unfolding sec(2) by (meson not_all)
  then show ?thesis using sec(1,3) by (intro exI [of _ sec]) simp
qed

end
