(* ===== verification/Memory_Sync.thy ===== *)
theory Memory_Sync
  imports Memory_Ops
begin

text \<open>
  The address spaces follow the hierarchy: after every operation of the memory API, either a
  transaction is open and an update is pending, or the flat view and the event descriptors of
  each address space are those of the current store of regions. The interesting cases are
  those where the API skips the update because the region is disabled or has no parent.
\<close>

section \<open>What an update changes\<close>

definition only_trace :: "'d memory_state \<Rightarrow> 'd memory_state \<Rightarrow> bool" where
  "only_trace s s' \<longleftrightarrow> (\<exists>es. s' = s\<lparr>ms_trace := ms_trace s @ es\<rparr>)"

lemma only_trace_refl [simp]: "only_trace s s"
  unfolding only_trace_def by (rule exI [of _ "[]"]) simp

lemma only_trace_trans: "only_trace s1 s2 \<Longrightarrow> only_trace s2 s3 \<Longrightarrow> only_trace s1 s3"
  by (auto simp: only_trace_def)

lemma only_trace_emit [simp]: "only_trace s (emit e s)"
  by (auto simp: only_trace_def emit_def)

lemma foldM_only_trace:
  assumes "foldM f xs s = Some s'" and "\<And>x s s'. x \<in> set xs \<Longrightarrow> f x s = Some s' \<Longrightarrow> only_trace s s'"
  shows "only_trace s s'"
  by (rule foldM_invariant [OF assms(1), of "only_trace s"]) (auto intro: assms(2) only_trace_trans)

lemma listener_call_only_trace: "listener_call callback d sec s = Some s' \<Longrightarrow> only_trace s s'"
  unfolding listener_call_def
  by (erule foldM_only_trace) (auto simp: bind_eq_Some_conv split: if_splits)

lemma listener_call_global_only_trace: "only_trace s (listener_call_global callback d s)"
proof -
  have "only_trace s (fold (\<lambda>l. emit (callback (ml_self l))) ls s)" for ls
    by (induction ls arbitrary: s) (auto intro: only_trace_trans only_trace_emit)
  then show ?thesis by (simp add: listener_call_global_def)
qed

lemma update_region_only_trace: "update_region root fr d callback s = Some s' \<Longrightarrow> only_trace s s'"
  unfolding update_region_def by (rule listener_call_only_trace)

lemma pass_item_only_trace: "pass_item root adding d s = Some s' \<Longrightarrow> only_trace s s'"
  by (cases d) (auto simp: bind_eq_Some_conv split: if_splits
      intro: update_region_only_trace only_trace_trans)

lemma pass_only_trace:
  "address_space_update_topology_pass root adding old new s = Some s' \<Longrightarrow> only_trace s s'"
  unfolding pass_walk by (erule foldM_only_trace) (rule pass_item_only_trace)

lemma eventfd_item_only_trace: "eventfd_item root d s = Some s' \<Longrightarrow> only_trace s s'"
  by (cases d) (auto simp: eventfd_call_def bind_eq_Some_conv intro: listener_call_only_trace)

lemma add_del_ioeventfds_only_trace:
  "address_space_add_del_ioeventfds root new old s = Some s' \<Longrightarrow> only_trace s s'"
  unfolding ioeventfds_walk by (erule foldM_only_trace) (rule eventfd_item_only_trace)

text \<open>The address space that an update installs.\<close>

definition fresh_as :: "'d heap \<Rightarrow> ptr \<Rightarrow> AddressSpace \<Rightarrow> bool" where
  "fresh_as h root as \<longleftrightarrow>
     generate_memory_topology h root = Some (as_current_map as) \<and>
     as_ioeventfds as = concat (map (flat_ioeventfds h) (fv_ranges (as_current_map as)))"

definition as_current :: "'d heap \<Rightarrow> AddressSpace \<Rightarrow> bool" where
  "as_current h as \<longleftrightarrow> (\<forall>root. as_root as = Some root \<longrightarrow> fresh_as h root as)"

definition views_current :: "'d memory_state \<Rightarrow> bool" where
  "views_current s \<longleftrightarrow> (\<forall>i. as_current (ms_heap s) (get_as i s))"

lemma get_put_as [simp]: "get_as i (put_as j a s) = (if i = j then a else get_as i s)"
  by (cases i; cases j) (simp_all add: get_as_def put_as_def)

lemma put_as_frame [simp]:
  "ms_heap (put_as i a s) = ms_heap s" "memory_listeners (put_as i a s) = memory_listeners s"
  "memory_region_transaction_depth (put_as i a s) = memory_region_transaction_depth s"
  "memory_region_update_pending (put_as i a s) = memory_region_update_pending s"
  "global_dirty_log (put_as i a s) = global_dirty_log s" "ms_trace (put_as i a s) = ms_trace s"
  by (cases i; simp add: put_as_def)+

lemma get_as_frame [simp]:
  "get_as i (s\<lparr>ms_trace := t\<rparr>) = get_as i s" "get_as i (s\<lparr>ms_heap := h\<rparr>) = get_as i s"
  "get_as i (s\<lparr>memory_region_transaction_depth := n\<rparr>) = get_as i s"
  "get_as i (s\<lparr>memory_region_update_pending := b\<rparr>) = get_as i s"
  "get_as i (s\<lparr>global_dirty_log := b\<rparr>) = get_as i s"
  "get_as i (s\<lparr>memory_listeners := ls\<rparr>) = get_as i s"
  by (cases i; simp add: get_as_def)+

text \<open>The part of the state that no update touches.\<close>

definition same_frame :: "'d memory_state \<Rightarrow> 'd memory_state \<Rightarrow> bool" where
  "same_frame s s' \<longleftrightarrow>
     ms_heap s' = ms_heap s \<and> memory_listeners s' = memory_listeners s \<and>
     memory_region_transaction_depth s' = memory_region_transaction_depth s \<and>
     global_dirty_log s' = global_dirty_log s \<and> (\<forall>i. as_root (get_as i s') = as_root (get_as i s))"

lemma same_frame_refl [simp]: "same_frame s s"
  by (simp add: same_frame_def)

lemma same_frame_trans: "same_frame s1 s2 \<Longrightarrow> same_frame s2 s3 \<Longrightarrow> same_frame s1 s3"
  by (simp add: same_frame_def)

lemma only_trace_frame: "only_trace s s' \<Longrightarrow> same_frame s s' \<and> (\<forall>i. get_as i s' = get_as i s)"
  by (auto simp: only_trace_def same_frame_def)

lemma address_space_update_topology_effect:
  assumes "address_space_update_topology i root s = Some s'" and "as_root (get_as i s) = Some root"
  shows "same_frame s s' \<and> fresh_as (ms_heap s) root (get_as i s') \<and>
    (\<forall>j. j \<noteq> i \<longrightarrow> get_as j s' = get_as j s) \<and> memory_region_update_pending s' = memory_region_update_pending s"
proof -
  obtain v s1 s2 where v: "generate_memory_topology (ms_heap s) root = Some v"
    and t: "only_trace s s1" "only_trace s1 s2"
    and u: "address_space_update_ioeventfds i (put_as i ((get_as i s2)\<lparr>as_current_map := v\<rparr>) s2) = Some s'"
    using assms(1) by (auto simp: address_space_update_topology_def bind_eq_Some_conv Let_def dest: pass_only_trace)
  from only_trace_trans [OF t] obtain es where s2: "s2 = s\<lparr>ms_trace := ms_trace s @ es\<rparr>"
    by (auto simp: only_trace_def)
  let ?s3 = "put_as i ((get_as i s)\<lparr>as_current_map := v\<rparr>) s2"
  have "put_as i ((get_as i s2)\<lparr>as_current_map := v\<rparr>) s2 = ?s3" by (simp add: s2)
  with u obtain s4 where s4: "only_trace ?s3 s4" and s': "s' = put_as i ((get_as i s4)
      \<lparr>as_ioeventfds := concat (map (flat_ioeventfds (ms_heap ?s3)) (fv_ranges (as_current_map (get_as i ?s3))))\<rparr>) s4"
    by (auto simp: address_space_update_ioeventfds_def bind_eq_Some_conv Let_def dest: add_del_ioeventfds_only_trace)
  from s4 obtain es' where "s4 = ?s3\<lparr>ms_trace := ms_trace ?s3 @ es'\<rparr>" by (auto simp: only_trace_def)
  then show ?thesis using v assms(2) by (simp add: s' s2 same_frame_def fresh_as_def)
qed

lemma update_if_rooted_effect:
  assumes "update_if_rooted i s = Some s'"
  shows "same_frame s s' \<and> as_current (ms_heap s) (get_as i s') \<and> (\<forall>j. j \<noteq> i \<longrightarrow> get_as j s' = get_as j s)"
proof (cases "as_root (get_as i s)")
  case None
  then show ?thesis using assms by (simp add: update_if_rooted_def as_current_def)
next
  case (Some root)
  then have "address_space_update_topology i root s = Some s'" using assms by (simp add: update_if_rooted_def)
  from address_space_update_topology_effect [OF this Some] Some show ?thesis
    by (auto simp: as_current_def same_frame_def)
qed

lemma memory_region_update_topology_active:
  assumes "memory_region_update_topology m s = Some s'" and "memory_region_transaction_depth s = 0"
    and "\<And>p. m = Some p \<Longrightarrow> mr_enabled (ms_heap s p)"
  shows "same_frame s s' \<and> views_current s'"
proof -
  let ?s1 = "listener_call_global Begin Forward s"
  obtain s2 s3 where s2: "update_if_rooted AS_memory ?s1 = Some s2" and s3: "update_if_rooted AS_io s2 = Some s3"
    and s': "s' = (listener_call_global Commit Forward s3)\<lparr>memory_region_update_pending := False\<rparr>"
    using assms by (auto simp: memory_region_update_topology_def bind_eq_Some_conv split: option.splits if_splits)
  have f1: "same_frame s ?s1" and f4: "same_frame s3 (listener_call_global Commit Forward s3)"
    "\<And>i. get_as i (listener_call_global Commit Forward s3) = get_as i s3"
    using only_trace_frame [OF listener_call_global_only_trace] by blast+
  have "same_frame s s3" "as_current (ms_heap s) (get_as AS_io s3)" "as_current (ms_heap s) (get_as AS_memory s3)"
    using f1 update_if_rooted_effect [OF s2] update_if_rooted_effect [OF s3] by (auto simp: same_frame_def)
  then have "as_current (ms_heap s) (get_as i s3)" for i by (cases i) simp_all
  then show ?thesis
    using f4 \<open>same_frame s s3\<close> by (simp add: s' same_frame_def views_current_def)
qed

section \<open>Changes that rendering does not see\<close>

text \<open>
  Two stores show the same hierarchy when they agree on which regions are enabled, on what
  rendering reads of the enabled ones, and on the addresses of their subregions. The address
  of a region that is only reached through an alias does not matter.
\<close>

definition same_region :: "'d MemoryRegion \<Rightarrow> 'd MemoryRegion \<Rightarrow> bool" where
  "same_region r r' \<longleftrightarrow>
     mr_alias r = mr_alias r' \<and> mr_alias_offset r = mr_alias_offset r' \<and> mr_size r = mr_size r' \<and>
     mr_subregions r = mr_subregions r' \<and> mr_terminates r = mr_terminates r' \<and>
     mr_readable r = mr_readable r' \<and> mr_readonly r = mr_readonly r' \<and>
     mr_dirty_log_mask r = mr_dirty_log_mask r' \<and> mr_ioeventfds r = mr_ioeventfds r'"

definition same_topology :: "'d heap \<Rightarrow> 'd heap \<Rightarrow> bool" where
  "same_topology h h' \<longleftrightarrow>
     (\<forall>p. mr_enabled (h p) = mr_enabled (h' p) \<and>
          (mr_enabled (h p) \<longrightarrow> same_region (h p) (h' p) \<and>
             (\<forall>c\<in>set (mr_subregions (h p)). mr_addr (h c) = mr_addr (h' c))))"

lemma same_topology_sym: "same_topology h h' \<Longrightarrow> same_topology h' h"
  unfolding same_topology_def same_region_def by metis

lemma foldM_cong_Some:
  assumes "foldM f xs s = Some s'" and "\<And>x s s'. x \<in> set xs \<Longrightarrow> f x s = Some s' \<Longrightarrow> g x s = Some s'"
  shows "foldM g xs s = Some s'"
  using assms by (induction xs arbitrary: s) (auto simp: bind_eq_Some_conv)

lemmas render_induct = render_memory_region.raw_induct [rotated, consumes 1, case_names step]

lemma render_same:
  "render_memory_region h view p base clip readonly = Some v \<Longrightarrow> same_topology h h' \<Longrightarrow>
   base + uint (mr_addr (h p)) = base' + uint (mr_addr (h' p)) \<Longrightarrow>
   render_memory_region h' view p base' clip readonly = Some v"
proof (induction arbitrary: base' rule: render_induct)
  case (step render h view p base clip readonly v)
  note IH = step(1) and body = step(2) and same = step(3) and bas = step(4)
  show ?case
  proof (cases "mr_enabled (h p)")
    case False
    moreover have "\<not> mr_enabled (h' p)" using same False by (simp add: same_topology_def)
    ultimately show ?thesis using body by (simp add: render_memory_region.simps Let_def)
  next
    case True
    then have en: "mr_enabled (h' p)" and reg: "same_region (h p) (h' p)"
      and sub: "\<And>c. c \<in> set (mr_subregions (h p)) \<Longrightarrow> mr_addr (h c) = mr_addr (h' c)"
      using same by (auto simp: same_topology_def)
    let ?b = "base + uint (mr_addr (h p))"
    let ?clip = "rintersection (rmake ?b (mr_size (h p))) clip"
    let ?ro = "readonly \<or> mr_readonly (h p)"
    have mk: "new_range p (h p) ?ro = new_range p (h' p) (readonly \<or> mr_readonly (h' p))"
      using reg by (intro ext) (simp add: new_range_def same_region_def)
    have fold: "foldM (\<lambda>c view. render_memory_region h' view c ?b ?clip ?ro) cs view = Some v1"
      if "foldM (\<lambda>c view. render h view c ?b ?clip ?ro) cs view = Some v1" "set cs \<subseteq> set (mr_subregions (h p))" for cs view v1
      by (rule foldM_cong_Some [OF that(1)]) (use that(2) sub IH same in auto)
    show ?thesis
      using body True en reg bas mk IH [OF _ same] fold [OF _ subset_refl]
      by (subst render_memory_region.simps)
        (auto simp: Let_def same_region_def bind_eq_Some_conv split: if_splits option.splits)
  qed
qed

text \<open>Every range of a generated view belongs to an enabled region.\<close>

lemma gap_before_all:
  "gap_before mk (view, i, base, off, remain) = Some (view', i', base', off', remain') \<Longrightarrow>
   \<forall>r\<in>set (fv_ranges view). P r \<Longrightarrow> (\<And>f b n. P (mk f b n)) \<Longrightarrow> \<forall>r\<in>set (fv_ranges view'). P r"
  by (auto simp: gap_before_def flatview_insert_def Let_def bind_eq_Some_conv set_insert_at split: if_splits)

lemma render_gaps_all:
  assumes "render_gaps mk view i base off remain = Some v"
    and "\<forall>r\<in>set (fv_ranges view). P r" and "\<And>f b n. P (mk f b n)"
  shows "\<forall>r\<in>set (fv_ranges v). P r"
  using assms
proof (induction mk view i base off remain rule: render_gaps.induct)
  case (1 mk view i base off remain)
  note IH = 1(1,2) and run = 1(3) and P = 1(4,5)
  show ?case
  proof (cases "i < fv_nr view \<and> remain \<noteq> 0")
    case True
    show ?thesis
    proof (cases "base \<ge> rend (fr_addr (fv_ranges view ! i))")
      case past: True
      then show ?thesis using run IH(1) [OF True past _ P] True by (subst (asm) render_gaps.simps) simp
    next
      case False
      obtain st where g: "gap_before mk (view, i, base, off, remain) = Some st"
        using run True False by (subst (asm) render_gaps.simps) (auto split: option.splits)
      obtain v1 i1 b1 f1 r1 where st: "st = (v1, i1, b1, f1, r1)" by (cases st) auto
      obtain v2 i2 b2 f2 r2 where k: "skip_range st = Some (v2, i2, b2, f2, r2)"
        and rec: "render_gaps mk v2 (Suc i2) b2 f2 r2 = Some v"
        using run True False g by (subst (asm) render_gaps.simps) (auto split: option.splits)
      have "v2 = v1" using k skip_range_same st by blast
      then have "\<forall>r\<in>set (fv_ranges v2). P r" using gap_before_all [OF g [unfolded st] P] by simp
      then show ?thesis using IH(2) [OF True False g k refl refl refl refl rec _ P(2)] by blast
    qed
  next
    case False
    then show ?thesis
      using run P by (subst (asm) render_gaps.simps) (auto simp: flatview_insert_def set_insert_at Let_def split: if_splits)
  qed
qed

lemma render_enabled:
  "render_memory_region h view p base clip readonly = Some v \<Longrightarrow>
   \<forall>r\<in>set (fv_ranges view). mr_enabled (h (fr_mr r)) \<Longrightarrow> \<forall>r\<in>set (fv_ranges v). mr_enabled (h (fr_mr r))"
proof (induction rule: render_induct)
  case (step render h view p base clip readonly v)
  note IH = step(1) and body = step(2) and all = step(3)
  have fold: "\<forall>r\<in>set (fv_ranges v1). mr_enabled (h (fr_mr r))"
    if "foldM (\<lambda>c view. render h view c b k f) cs view = Some v1" for cs b k f v1
    by (rule foldM_invariant [OF that, of "\<lambda>v. \<forall>r\<in>set (fv_ranges v). mr_enabled (h (fr_mr r))"])
      (use all IH in auto)
  have gaps: "\<forall>r\<in>set (fv_ranges v2). mr_enabled (h (fr_mr r))"
    if "render_gaps (new_range p (h p) f) v1 0 b off n = Some v2" "\<forall>r\<in>set (fv_ranges v1). mr_enabled (h (fr_mr r))"
      "mr_enabled (h p)" for f v1 b off n v2
    by (rule render_gaps_all [OF that(1,2)]) (use that(3) in \<open>simp add: new_range_def\<close>)
  show ?case
    using body all IH fold gaps
    by (auto simp: Let_def bind_eq_Some_conv split: if_splits option.splits)
qed

lemma absorb_regions:
  "fr_mr (fst (absorb acc prev rs)) = fr_mr acc \<and> set (snd (absorb acc prev rs)) \<subseteq> set rs"
  by (induction acc prev rs rule: absorb.induct) auto

lemma coalesce_regions: "fr_mr ` set (coalesce rs) \<subseteq> fr_mr ` set rs"
proof (induction rs rule: coalesce.induct)
  case (2 r rs)
  then show ?case using absorb_regions [of r r rs] by auto
qed simp

lemma generate_enabled:
  assumes "generate_memory_topology h root = Some v" and "r \<in> set (fv_ranges v)"
  shows "mr_enabled (h (fr_mr r))"
proof -
  obtain v1 where v1: "render_memory_region h flatview_init root 0 (rmake 0 (2 ^ 64)) False = Some v1"
    and v: "v = flatview_simplify v1"
    using assms(1) by (auto simp: generate_memory_topology_def bind_eq_Some_conv)
  have "\<forall>r\<in>set (fv_ranges v1). mr_enabled (h (fr_mr r))"
    using render_enabled [OF v1] by (simp add: flatview_init_def)
  moreover have "r \<in> set (coalesce (fv_ranges v1))" using assms(2) by (simp add: v flatview_simplify_ranges)
  then have "fr_mr r \<in> fr_mr ` set (fv_ranges v1)" using coalesce_regions by blast
  ultimately show ?thesis by auto
qed

lemma same_topology_fresh:
  assumes "same_topology h h'" "mr_addr (h root) = mr_addr (h' root)" "fresh_as h root as"
  shows "fresh_as h' root as"
proof -
  have "generate_memory_topology h' root = Some (as_current_map as)"
    using assms by (auto simp: fresh_as_def generate_memory_topology_def bind_eq_Some_conv
        dest: render_same [of h _ root 0 _ _ _ h' 0])
  moreover have "flat_ioeventfds h' fr = flat_ioeventfds h fr" if "fr \<in> set (fv_ranges (as_current_map as))" for fr
  proof -
    have "mr_enabled (h (fr_mr fr))" using assms(3) that generate_enabled by (auto simp: fresh_as_def)
    then show ?thesis using assms(1) by (simp add: same_topology_def same_region_def flat_ioeventfds_def)
  qed
  ultimately show ?thesis using assms(3) by (simp add: fresh_as_def cong: map_cong)
qed

lemma same_topology_views:
  assumes "views_current s" "same_topology (ms_heap s) h'"
    and "\<And>i root. as_root (get_as i s) = Some root \<Longrightarrow> mr_addr (ms_heap s root) = mr_addr (h' root)"
  shows "views_current (s\<lparr>ms_heap := h'\<rparr>)"
  using assms same_topology_fresh [OF assms(2)]
  by (auto simp: views_current_def as_current_def)

section \<open>The invariant of the API\<close>

definition synced :: "'d memory_state \<Rightarrow> bool" where
  "synced s \<longleftrightarrow>
     views_current s \<or> (memory_region_transaction_depth s \<noteq> 0 \<and> memory_region_update_pending s)"

text \<open>
  A region lists exactly the regions whose parent it is, once each, by decreasing priority,
  and keeps its event descriptors in order.
\<close>

definition hier_ok :: "'d heap \<Rightarrow> bool" where
  "hier_ok h \<longleftrightarrow>
     (\<forall>p. distinct (mr_subregions (h p)) \<and>
          (\<forall>c. c \<in> set (mr_subregions (h p)) \<longleftrightarrow> mr_parent (h c) = Some p) \<and>
          sorted_wrt (\<lambda>a b. mr_priority (h a) \<ge> mr_priority (h b)) (mr_subregions (h p)))"

definition eventfds_ok :: "'d heap \<Rightarrow> bool" where
  "eventfds_ok h \<longleftrightarrow> (\<forall>p. sorted (map ioe_key (mr_ioeventfds (h p))))"

definition roots_ok :: "'d memory_state \<Rightarrow> bool" where
  "roots_ok s \<longleftrightarrow> (\<forall>i root. as_root (get_as i s) = Some root \<longrightarrow> mr_parent (ms_heap s root) = None)"

definition memory_inv :: "'d memory_state \<Rightarrow> bool" where
  "memory_inv s \<longleftrightarrow> hier_ok (ms_heap s) \<and> eventfds_ok (ms_heap s) \<and> roots_ok s \<and> synced s"

text \<open>An update restores the invariant unless it is skipped, and then nothing has changed.\<close>

lemma update_restores:
  assumes "synced s" and "memory_region_update_topology m (s\<lparr>ms_heap := h'\<rparr>) = Some s'"
    and "\<And>p. m = Some p \<Longrightarrow> \<not> mr_enabled (h' p) \<Longrightarrow> same_topology (ms_heap s) h' \<and>
      (\<forall>i root. as_root (get_as i s) = Some root \<longrightarrow> mr_addr (ms_heap s root) = mr_addr (h' root))"
  shows "same_frame (s\<lparr>ms_heap := h'\<rparr>) s' \<and> synced s'"
proof (cases "\<exists>p. m = Some p \<and> \<not> mr_enabled (h' p)")
  case True
  then obtain p where m: "m = Some p" "\<not> mr_enabled (h' p)" by blast
  have s': "s' = s\<lparr>ms_heap := h'\<rparr>"
    using assms(2) m by (cases "memory_region_update_pending s") (auto simp: memory_region_update_topology_def split: if_splits)
  show ?thesis
    using assms(1) same_topology_views [of s h'] assms(3) [OF m] unfolding s' synced_def by auto
next
  case False
  show ?thesis
  proof (cases "memory_region_transaction_depth s = 0")
    case True
    then show ?thesis
      using memory_region_update_topology_active [OF assms(2)] False by (auto simp: synced_def)
  next
    case False
    then show ?thesis
      using assms(2) \<open>\<not> (\<exists>p. _ p)\<close>
      by (auto simp: memory_region_update_topology_def synced_def same_frame_def split: option.splits if_splits)
  qed
qed

lemma region_update_restores:
  assumes "synced s" and "memory_region_update_topology (Some p) (upd_mr p f s) = Some s'"
    and "mr_enabled (f (ms_heap s p)) = mr_enabled (ms_heap s p)" "mr_addr (f (ms_heap s p)) = mr_addr (ms_heap s p)"
  shows "same_frame (upd_mr p f s) s' \<and> synced s'"
  using assms(1,2) unfolding upd_mr_def
  by (rule update_restores) (use assms(3,4) in \<open>auto simp: same_topology_def same_region_def\<close>)

lemma roots_frame: "same_frame s s' \<Longrightarrow> roots_ok s' \<longleftrightarrow> roots_ok s"
  by (simp add: roots_ok_def same_frame_def)

lemma hier_ok_cong:
  assumes "\<And>q. mr_parent (h' q) = mr_parent (h q) \<and> mr_subregions (h' q) = mr_subregions (h q) \<and>
    mr_priority (h' q) = mr_priority (h q)"
  shows "hier_ok h' \<longleftrightarrow> hier_ok h"
  by (simp add: hier_ok_def assms)

text \<open>Changes of attributes that are neither hierarchy nor event descriptors.\<close>

lemma attribute_change:
  assumes "memory_inv s" and "same_frame (upd_mr p f s) s'" and "synced s'"
    and "\<And>r. mr_parent (f r) = mr_parent r" "\<And>r. mr_subregions (f r) = mr_subregions r"
      "\<And>r. mr_priority (f r) = mr_priority r" "sorted (map ioe_key (mr_ioeventfds (f (ms_heap s p))))"
  shows "memory_inv s'"
proof -
  have h: "ms_heap s' = (ms_heap s)(p := f (ms_heap s p))" using assms(2) by (simp add: same_frame_def upd_mr_def)
  have "hier_ok (ms_heap s')"
    using hier_ok_cong [of "ms_heap s'" "ms_heap s"] assms(1,4,5,6) by (simp add: h memory_inv_def)
  moreover have "eventfds_ok (ms_heap s')" using assms(1,7) unfolding memory_inv_def eventfds_ok_def h by simp
  moreover have "roots_ok (upd_mr p f s)" using assms(1,4) by (auto simp: memory_inv_def roots_ok_def upd_mr_def)
  then have "roots_ok s'" using roots_frame [OF assms(2)] by simp
  ultimately show ?thesis using assms(3) by (simp add: memory_inv_def)
qed

lemma memory_inv_parts:
  "memory_inv s \<Longrightarrow> synced s" "memory_inv s \<Longrightarrow> hier_ok (ms_heap s)" "memory_inv s \<Longrightarrow> roots_ok s"
  "memory_inv s \<Longrightarrow> sorted (map ioe_key (mr_ioeventfds (ms_heap s p)))"
  by (simp_all add: memory_inv_def eventfds_ok_def)

lemma attribute_op:
  assumes "memory_inv s" and "memory_region_update_topology (Some p) (upd_mr p f s) = Some s'"
    and "\<And>r. mr_parent (f r) = mr_parent r" "\<And>r. mr_subregions (f r) = mr_subregions r"
      "\<And>r. mr_priority (f r) = mr_priority r" "sorted (map ioe_key (mr_ioeventfds (f (ms_heap s p))))"
      "\<And>r. mr_enabled (f r) = mr_enabled r" "\<And>r. mr_addr (f r) = mr_addr r"
  shows "memory_inv s'"
proof -
  have "same_frame (upd_mr p f s) s' \<and> synced s'"
    by (rule region_update_restores [OF memory_inv_parts(1) [OF assms(1)] assms(2)]) (simp_all add: assms(7,8))
  then show ?thesis by (blast intro: attribute_change [OF assms(1) _ _ assms(3-6)])
qed

lemma set_log_inv:
  assumes "memory_inv s" "memory_region_set_log p log client s = Some s'"
  shows "memory_inv s'"
  using assms(2) unfolding memory_region_set_log_def Let_def
  by (rule attribute_op [OF assms(1)]) (simp_all add: memory_inv_parts(4) [OF assms(1)])

lemma set_readonly_inv:
  assumes "memory_inv s" "memory_region_set_readonly p b s = Some s'"
  shows "memory_inv s'"
proof (cases "mr_readonly (ms_heap s p) = b")
  case False
  with assms(2) have "memory_region_update_topology (Some p) (upd_mr p (\<lambda>r. r\<lparr>mr_readonly := b\<rparr>) s) = Some s'"
    by (simp add: memory_region_set_readonly_def)
  then show ?thesis by (rule attribute_op [OF assms(1)]) (simp_all add: memory_inv_parts(4) [OF assms(1)])
qed (use assms in \<open>simp add: memory_region_set_readonly_def\<close>)

lemma set_readable_inv:
  assumes "memory_inv s" "memory_region_rom_device_set_readable p b s = Some s'"
  shows "memory_inv s'"
proof (cases "mr_readable (ms_heap s p) = b")
  case False
  with assms(2) have "memory_region_update_topology (Some p) (upd_mr p (\<lambda>r. r\<lparr>mr_readable := b\<rparr>) s) = Some s'"
    by (simp add: memory_region_rom_device_set_readable_def)
  then show ?thesis by (rule attribute_op [OF assms(1)]) (simp_all add: memory_inv_parts(4) [OF assms(1)])
qed (use assms in \<open>simp add: memory_region_rom_device_set_readable_def\<close>)

text \<open>Event descriptors stay in order.\<close>

lemma insert_eventfd_set: "set (insert_eventfd fd fds) = insert fd (set fds)"
  by (induction fds) auto

lemma insert_eventfd_sorted: "sorted (map ioe_key fds) \<Longrightarrow> sorted (map ioe_key (insert_eventfd fd fds))"
  by (induction fds) (auto simp: before_key insert_eventfd_set)

lemma remove_eventfd_subseq: "remove_eventfd fd fds = Some fds' \<Longrightarrow> \<exists>xs x ys. fds = xs @ x # ys \<and> fds' = xs @ ys"
proof (induction fds arbitrary: fds')
  case (Cons x fds)
  show ?case
  proof (cases "memory_region_ioeventfd_equal fd x")
    case True
    then show ?thesis using Cons.prems by (intro exI [of _ "[]"]) auto
  next
    case False
    then obtain fs where "remove_eventfd fd fds = Some fs" "fds' = x # fs"
      using Cons.prems by (auto simp: bind_eq_Some_conv)
    then show ?thesis using Cons.IH by (metis append_Cons)
  qed
qed simp

lemma remove_eventfd_sorted:
  "remove_eventfd fd fds = Some fds' \<Longrightarrow> sorted (map ioe_key fds) \<Longrightarrow> sorted (map ioe_key fds')"
  by (auto dest!: remove_eventfd_subseq simp: sorted_append)

lemma add_eventfd_inv:
  assumes "memory_inv s" "memory_region_add_eventfd p a n m d e s = Some s'"
  shows "memory_inv s'"
  using assms(2) unfolding memory_region_add_eventfd_def Let_def
  by (rule attribute_op [OF assms(1)]) (simp_all add: memory_inv_parts(4) [OF assms(1)] insert_eventfd_sorted)

lemma del_eventfd_inv:
  assumes "memory_inv s" "memory_region_del_eventfd p a n m d e s = Some s'"
  shows "memory_inv s'"
proof -
  obtain fds where fds: "remove_eventfd (make_eventfd a n m d e) (mr_ioeventfds (ms_heap s p)) = Some fds"
    and u: "memory_region_update_topology (Some p) (upd_mr p (\<lambda>r. r\<lparr>mr_ioeventfds := fds\<rparr>) s) = Some s'"
    using assms(2) by (auto simp: memory_region_del_eventfd_def Let_def bind_eq_Some_conv)
  show ?thesis
    by (rule attribute_op [OF assms(1) u]) (simp_all add: remove_eventfd_sorted [OF fds] memory_inv_parts(4) [OF assms(1)])
qed

section \<open>Subregions\<close>

lemma insert_subregion_set: "set (insert_subregion h sub cs) = insert sub (set cs)"
  by (induction cs) auto

lemma insert_subregion_distinct: "distinct cs \<Longrightarrow> sub \<notin> set cs \<Longrightarrow> distinct (insert_subregion h sub cs)"
  by (induction cs) (auto simp: insert_subregion_set)

lemma insert_subregion_sorted:
  "sorted_wrt (\<lambda>a b. mr_priority (h a) \<ge> mr_priority (h b)) cs \<Longrightarrow>
   sorted_wrt (\<lambda>a b. mr_priority (h a) \<ge> mr_priority (h b)) (insert_subregion h sub cs)"
  by (induction cs) (auto simp: insert_subregion_set not_le intro: order.strict_implies_order)

lemma hier_ok_orphan: "hier_ok h \<Longrightarrow> mr_parent (h c) = None \<Longrightarrow> c \<notin> set (mr_subregions (h p))"
  by (simp add: hier_ok_def)

lemma sorted_wrt_cong_set:
  "(\<And>x y. x \<in> set xs \<Longrightarrow> y \<in> set xs \<Longrightarrow> P x y = Q x y) \<Longrightarrow> sorted_wrt P xs = sorted_wrt Q xs"
  by (induction xs) auto

text \<open>The priority of a region without parent may change.\<close>

lemma hier_ok_priority:
  assumes "hier_ok h" "mr_parent (h c) = None"
  shows "hier_ok (h(c := (h c)\<lparr>mr_may_overlap := b, mr_priority := n\<rparr>))"
proof -
  have "sorted_wrt (\<lambda>x y. mr_priority ((h(c := (h c)\<lparr>mr_may_overlap := b, mr_priority := n\<rparr>)) y)
      \<le> mr_priority ((h(c := (h c)\<lparr>mr_may_overlap := b, mr_priority := n\<rparr>)) x)) (mr_subregions (h p))" for p
    using assms(1) hier_ok_orphan [OF assms, of p]
    by (subst sorted_wrt_cong_set [where Q = "\<lambda>x y. mr_priority (h y) \<le> mr_priority (h x)"])
      (auto simp: hier_ok_def)
  then show ?thesis using assms(1) by (auto simp: hier_ok_def)
qed

definition not_root :: "ptr \<Rightarrow> 'd memory_state \<Rightarrow> bool" where
  "not_root p s \<longleftrightarrow> (\<forall>i. as_root (get_as i s) \<noteq> Some p)"

text \<open>The store after a subregion has been linked to a parent, and after it has been unlinked.\<close>

definition link_sub :: "'d heap \<Rightarrow> ptr \<Rightarrow> u64 \<Rightarrow> ptr \<Rightarrow> 'd heap" where
  "link_sub h p off c =
     (let h1 = h(c := (h c)\<lparr>mr_parent := Some p, mr_addr := off\<rparr>)
      in h1(p := (h1 p)\<lparr>mr_subregions := insert_subregion h1 c (mr_subregions (h1 p))\<rparr>))"

definition unlink_sub :: "'d heap \<Rightarrow> ptr \<Rightarrow> ptr \<Rightarrow> 'd heap" where
  "unlink_sub h p c =
     (let h1 = h(c := (h c)\<lparr>mr_parent := None\<rparr>)
      in h1(p := (h1 p)\<lparr>mr_subregions := remove1 c (mr_subregions (h1 p))\<rparr>))"

lemma link_sub_fields:
  "mr_parent (link_sub h p off c q) = (if q = c then Some p else mr_parent (h q))"
  "mr_priority (link_sub h p off c q) = mr_priority (h q)"
  "mr_subregions (link_sub h p off c q) = (if q = p then insert_subregion h c (mr_subregions (h p)) else mr_subregions (h q))"
  "mr_enabled (link_sub h p off c q) = mr_enabled (h q)"
  "mr_addr (link_sub h p off c q) = (if q = c then off else mr_addr (h q))"
  "mr_ioeventfds (link_sub h p off c q) = mr_ioeventfds (h q)"
  "q \<noteq> p \<Longrightarrow> same_region (link_sub h p off c q) (h q)"
proof -
  have ins: "insert_subregion (h(c := (h c)\<lparr>mr_parent := Some p, mr_addr := off\<rparr>)) c cs = insert_subregion h c cs" for cs
    by (induction cs) auto
  show "mr_subregions (link_sub h p off c q) = (if q = p then insert_subregion h c (mr_subregions (h p)) else mr_subregions (h q))"
    by (auto simp: link_sub_def Let_def ins)
qed (auto simp: link_sub_def Let_def same_region_def)

lemma unlink_sub_fields:
  "mr_parent (unlink_sub h p c q) = (if q = c then None else mr_parent (h q))"
  "mr_priority (unlink_sub h p c q) = mr_priority (h q)"
  "mr_subregions (unlink_sub h p c q) = (if q = p then remove1 c (mr_subregions (h p)) else mr_subregions (h q))"
  "mr_enabled (unlink_sub h p c q) = mr_enabled (h q)"
  "mr_addr (unlink_sub h p c q) = mr_addr (h q)"
  "mr_ioeventfds (unlink_sub h p c q) = mr_ioeventfds (h q)"
  "q \<noteq> p \<Longrightarrow> same_region (unlink_sub h p c q) (h q)"
  by (auto simp: unlink_sub_def Let_def same_region_def)

lemma hier_ok_link:
  assumes "hier_ok h" "mr_parent (h c) = None"
  shows "hier_ok (link_sub h p off c)"
  using assms hier_ok_orphan [OF assms, of p]
  by (auto simp: hier_ok_def link_sub_fields insert_subregion_set insert_subregion_distinct insert_subregion_sorted)

lemma sorted_wrt_remove1: "sorted_wrt P xs \<Longrightarrow> sorted_wrt P (remove1 x xs)"
  by (induction xs) (auto dest: notin_set_remove1 in_set_remove1 [THEN iffD1, rotated] set_remove1_subset [THEN subsetD])

lemma hier_ok_unlink:
  assumes "hier_ok h" "mr_parent (h c) = Some p"
  shows "hier_ok (unlink_sub h p c)"
  using assms by (auto simp: hier_ok_def unlink_sub_fields sorted_wrt_remove1)

lemma same_topology_link:
  assumes "hier_ok h" "mr_parent (h c) = None" "\<not> mr_enabled (h p)"
  shows "same_topology h (link_sub h p off c)"
  unfolding same_topology_def
proof (intro allI conjI impI ballI)
  fix q assume q: "mr_enabled (h q)"
  then have "q \<noteq> p" using assms(3) by auto
  then show "same_region (h q) (link_sub h p off c q)"
    using link_sub_fields(7) [of q p h off c] by (simp add: same_region_def)
  fix x assume "x \<in> set (mr_subregions (h q))"
  then have "x \<noteq> c" using hier_ok_orphan [OF assms(1,2)] by blast
  then show "mr_addr (h x) = mr_addr (link_sub h p off c x)" by (simp add: link_sub_fields)
qed (simp add: link_sub_fields)

lemma same_topology_unlink: "\<not> mr_enabled (h p) \<Longrightarrow> same_topology h (unlink_sub h p c)"
  using unlink_sub_fields(7) [of _ p h c] unfolding same_topology_def unlink_sub_fields(4,5) same_region_def by metis

lemma add_subregion_common_inv:
  assumes "memory_inv s" "not_root c s" "memory_region_add_subregion_common p off c s = Some s'"
  shows "memory_inv s' \<and> same_frame (s\<lparr>ms_heap := link_sub (ms_heap s) p off c\<rparr>) s'"
proof -
  let ?h = "link_sub (ms_heap s) p off c"
  have par: "mr_parent (ms_heap s c) = None"
    and upd: "memory_region_update_topology (Some p) (s\<lparr>ms_heap := ?h\<rparr>) = Some s'"
    using assms(3) by (simp_all add: memory_region_add_subregion_common_def upd_mr_def link_sub_def Let_def bind_eq_Some_conv c_assert_def split: if_splits)
  note inv = memory_inv_parts [OF assms(1)]
  have fr: "same_frame (s\<lparr>ms_heap := ?h\<rparr>) s' \<and> synced s'"
    by (rule update_restores [OF inv(1) upd])
      (use same_topology_link [OF inv(2) par] assms(2) in \<open>auto simp: link_sub_fields not_root_def\<close>)
  moreover have "roots_ok (s\<lparr>ms_heap := ?h\<rparr>)"
    using inv(3) assms(2) by (auto simp: roots_ok_def link_sub_fields not_root_def)
  ultimately show ?thesis
    using hier_ok_link [OF inv(2) par] inv(4) roots_frame [of "s\<lparr>ms_heap := ?h\<rparr>" s']
    by (auto simp: memory_inv_def same_frame_def eventfds_ok_def link_sub_fields)
qed

lemma del_subregion_inv:
  assumes "memory_inv s" "memory_region_del_subregion p c s = Some s'"
  shows "memory_inv s' \<and> same_frame (s\<lparr>ms_heap := unlink_sub (ms_heap s) p c\<rparr>) s'"
proof -
  let ?h = "unlink_sub (ms_heap s) p c"
  have par: "mr_parent (ms_heap s c) = Some p"
    and upd: "memory_region_update_topology (Some p) (s\<lparr>ms_heap := ?h\<rparr>) = Some s'"
    using assms(2) by (simp_all add: memory_region_del_subregion_def upd_mr_def unlink_sub_def Let_def c_assert_def split: if_splits)
  note inv = memory_inv_parts [OF assms(1)]
  have fr: "same_frame (s\<lparr>ms_heap := ?h\<rparr>) s' \<and> synced s'"
    by (rule update_restores [OF inv(1) upd])
      (use same_topology_unlink [of "ms_heap s" p c] in \<open>auto simp: unlink_sub_fields\<close>)
  moreover have "roots_ok (s\<lparr>ms_heap := ?h\<rparr>)"
    using inv(3) by (auto simp: roots_ok_def unlink_sub_fields)
  ultimately show ?thesis
    using hier_ok_unlink [OF inv(2) par] inv(4) roots_frame [of "s\<lparr>ms_heap := ?h\<rparr>" s']
    by (auto simp: memory_inv_def same_frame_def eventfds_ok_def unlink_sub_fields)
qed

lemma same_topology_synced:
  assumes "synced s" "same_topology (ms_heap s) h'"
    and "\<And>i root. as_root (get_as i s) = Some root \<Longrightarrow> mr_addr (ms_heap s root) = mr_addr (h' root)"
  shows "synced (s\<lparr>ms_heap := h'\<rparr>)"
proof (cases "views_current s")
  case True
  then have "views_current (s\<lparr>ms_heap := h'\<rparr>)" using assms(2,3) by (rule same_topology_views)
  then show ?thesis by (simp add: synced_def)
qed (use assms(1) in \<open>simp add: synced_def\<close>)

lemma priority_inv:
  assumes "memory_inv s" "mr_parent (ms_heap s c) = None"
  shows "memory_inv (upd_mr c (\<lambda>r. r\<lparr>mr_may_overlap := b, mr_priority := n\<rparr>) s)"
proof -
  let ?h = "(ms_heap s)(c := (ms_heap s c)\<lparr>mr_may_overlap := b, mr_priority := n\<rparr>)"
  note inv = memory_inv_parts [OF assms(1)]
  have "same_topology (ms_heap s) ?h" by (simp add: same_topology_def same_region_def)
  then have "synced (s\<lparr>ms_heap := ?h\<rparr>)" by (rule same_topology_synced [OF inv(1)]) simp
  moreover have "roots_ok (s\<lparr>ms_heap := ?h\<rparr>)" using inv(3) by (simp add: roots_ok_def)
  ultimately show ?thesis
    using hier_ok_priority [OF inv(2) assms(2)] inv(4) by (simp add: memory_inv_def upd_mr_def eventfds_ok_def)
qed

lemma common_needs_orphan:
  "memory_region_add_subregion_common p off c (upd_mr c (\<lambda>r. r\<lparr>mr_may_overlap := b, mr_priority := n\<rparr>) s) = Some s' \<Longrightarrow>
   mr_parent (ms_heap s c) = None"
  by (simp add: memory_region_add_subregion_common_def upd_mr_def c_assert_def split: if_splits)

lemma add_subregion_prio_inv:
  assumes "memory_inv s" "not_root c s"
    and run: "memory_region_add_subregion_common p off c (upd_mr c (\<lambda>r. r\<lparr>mr_may_overlap := b, mr_priority := n\<rparr>) s) = Some s'"
  shows "memory_inv s' \<and> memory_region_transaction_depth s' = memory_region_transaction_depth s"
proof -
  have "not_root c (upd_mr c (\<lambda>r. r\<lparr>mr_may_overlap := b, mr_priority := n\<rparr>) s)"
    using assms(2) by (simp add: not_root_def upd_mr_def)
  from add_subregion_common_inv [OF priority_inv [OF assms(1) common_needs_orphan [OF run]] this run]
  show ?thesis by (simp add: same_frame_def upd_mr_def)
qed

lemma add_subregion_inv:
  "memory_inv s \<Longrightarrow> not_root c s \<Longrightarrow> memory_region_add_subregion p off c s = Some s' \<Longrightarrow>
   memory_inv s' \<and> memory_region_transaction_depth s' = memory_region_transaction_depth s"
  unfolding memory_region_add_subregion_def by (rule add_subregion_prio_inv)

lemma add_subregion_overlap_inv:
  "memory_inv s \<Longrightarrow> not_root c s \<Longrightarrow> memory_region_add_subregion_overlap p off c n s = Some s' \<Longrightarrow>
   memory_inv s' \<and> memory_region_transaction_depth s' = memory_region_transaction_depth s"
  unfolding memory_region_add_subregion_overlap_def by (rule add_subregion_prio_inv)

lemma set_enabled_inv:
  assumes "memory_inv s" "memory_region_set_enabled p b s = Some s'"
  shows "memory_inv s'"
proof (cases "b = mr_enabled (ms_heap s p)")
  case False
  let ?f = "\<lambda>r. r\<lparr>mr_enabled := b\<rparr>"
  have "memory_region_update_topology None (s\<lparr>ms_heap := (ms_heap s)(p := ?f (ms_heap s p))\<rparr>) = Some s'"
    using assms(2) False by (simp add: memory_region_set_enabled_def upd_mr_def)
  then have "same_frame (upd_mr p ?f s) s' \<and> synced s'"
    using update_restores [OF memory_inv_parts(1) [OF assms(1)], of None] by (simp add: upd_mr_def)
  then show ?thesis
    by (intro attribute_change [OF assms(1), of p ?f]) (simp_all add: memory_inv_parts(4) [OF assms(1)])
qed (use assms in \<open>simp add: memory_region_set_enabled_def\<close>)

section \<open>Transactions and the remaining operations\<close>

lemma transaction_begin_inv: "memory_inv s \<Longrightarrow> memory_inv (memory_region_transaction_begin s)"
  by (auto simp: memory_inv_def memory_region_transaction_begin_def synced_def views_current_def roots_ok_def)

lemma transaction_commit_inv:
  assumes "memory_inv s" "memory_region_transaction_commit s = Some s'"
  shows "memory_inv s'"
proof -
  let ?s = "s\<lparr>memory_region_transaction_depth := memory_region_transaction_depth s - 1\<rparr>"
  have d: "memory_region_transaction_depth s \<noteq> 0"
    and c: "(if memory_region_transaction_depth ?s = 0 \<and> memory_region_update_pending ?s
      then memory_region_update_topology None ?s else Some ?s) = Some s'"
    using assms(2) by (auto simp: memory_region_transaction_commit_def c_assert_def split: if_splits)
  have frame: "memory_inv s'" if "same_frame ?s s'" "synced s'"
    using assms(1) that roots_frame [OF that(1)] by (auto simp: memory_inv_def same_frame_def roots_ok_def)
  show ?thesis
  proof (cases "memory_region_transaction_depth ?s = 0 \<and> memory_region_update_pending ?s")
    case True
    then show ?thesis
      using c memory_region_update_topology_active [of None ?s s'] frame by (auto simp: synced_def)
  next
    case False
    then have "s' = ?s" using c by (simp only: if_False option.inject)
    moreover have "synced ?s" using assms(1) False d by (auto simp: memory_inv_def synced_def views_current_def)
    ultimately show ?thesis using frame by simp
  qed
qed

lemma orphan_address_inv:
  assumes "memory_inv s" "not_root p s" "mr_parent (ms_heap s p) = None"
  shows "memory_inv (upd_mr p (\<lambda>r. r\<lparr>mr_addr := off\<rparr>) s)"
proof -
  let ?h = "(ms_heap s)(p := (ms_heap s p)\<lparr>mr_addr := off\<rparr>)"
  note inv = memory_inv_parts [OF assms(1)]
  have "same_topology (ms_heap s) ?h"
    using hier_ok_orphan [OF inv(2) assms(3)] by (auto simp: same_topology_def same_region_def)
  then have "synced (s\<lparr>ms_heap := ?h\<rparr>)"
    using inv(1) assms(2) by (intro same_topology_synced) (auto simp: not_root_def)
  then show ?thesis
    by (intro attribute_change [OF assms(1), of p "\<lambda>r. r\<lparr>mr_addr := off\<rparr>"]) (simp_all add: upd_mr_def inv(4))
qed

lemma set_address_inv:
  assumes "memory_inv s" "not_root p s" "memory_region_set_address p off s = Some s'"
  shows "memory_inv s'"
proof (cases "mr_parent (ms_heap s p)")
  case None
  then show ?thesis
    using assms orphan_address_inv [of s p off] by (simp add: memory_region_set_address_def Let_def)
next
  case (Some q)
  show ?thesis
  proof (cases "off = mr_addr (ms_heap s p)")
    case True
    then show ?thesis using assms Some by (simp add: memory_region_set_address_def upd_mr_def)
  next
    case False
    let ?n = "mr_priority (ms_heap s p)"
    obtain s1 s2 where s1: "memory_region_del_subregion q p (memory_region_transaction_begin s) = Some s1"
      and s2: "(if mr_may_overlap (ms_heap s p) then memory_region_add_subregion_overlap q off p ?n s1
          else memory_region_add_subregion q off p s1) = Some s2"
      and s': "memory_region_transaction_commit s2 = Some s'"
      using assms(3) Some False by (auto simp: memory_region_set_address_def Let_def bind_eq_Some_conv)
    have i1: "memory_inv s1" and f1: "not_root p s1"
      using del_subregion_inv [OF transaction_begin_inv [OF assms(1)] s1] assms(2)
      by (simp_all add: not_root_def same_frame_def memory_region_transaction_begin_def)
    have "memory_inv s2"
      using s2 add_subregion_inv [OF i1 f1] add_subregion_overlap_inv [OF i1 f1] by (auto split: if_splits)
    then show ?thesis using transaction_commit_inv s' by blast
  qed
qed

lemma set_alias_offset_inv:
  assumes "memory_inv s" "mr_parent (ms_heap s p) \<noteq> None" "memory_region_set_alias_offset p off s = Some s'"
  shows "memory_inv s'"
proof (cases "off = mr_alias_offset (ms_heap s p)")
  case True
  then show ?thesis
    using assms by (auto simp: memory_region_set_alias_offset_def upd_mr_def c_assert_def Let_def split: if_splits)
next
  case False
  let ?f = "\<lambda>r. r\<lparr>mr_alias_offset := off\<rparr>"
  have "memory_region_update_topology (Some p) (upd_mr p ?f s) = Some s'"
    using assms(2,3) False
    by (simp add: memory_region_set_alias_offset_def Let_def c_assert_def upd_mr_def split: if_splits)
  then show ?thesis
    by (rule attribute_op [OF assms(1)]) (simp_all add: memory_inv_parts(4) [OF assms(1)])
qed

lemma set_map_inv:
  assumes "memory_inv s" "\<And>r. root = Some r \<Longrightarrow> mr_parent (ms_heap s r) = None"
    and "memory_region_update_topology None (put_as i ((get_as i s)\<lparr>as_root := root\<rparr>) s) = Some s'"
  shows "memory_inv s'"
proof -
  let ?s = "put_as i ((get_as i s)\<lparr>as_root := root\<rparr>) s"
  have "same_frame ?s s' \<and> synced s'"
  proof (cases "memory_region_transaction_depth s = 0")
    case True
    then show ?thesis
      using memory_region_update_topology_active [OF assms(3)] by (simp add: synced_def)
  next
    case False
    then show ?thesis
      using assms(3) by (auto simp: memory_region_update_topology_def synced_def same_frame_def)
  qed
  moreover have "roots_ok ?s" using assms(1,2) by (auto simp: memory_inv_def roots_ok_def)
  ultimately show ?thesis
    using assms(1) roots_frame [of ?s s'] by (auto simp: memory_inv_def same_frame_def)
qed

lemma set_system_memory_map_inv:
  assumes "memory_inv s" "\<And>r. root = Some r \<Longrightarrow> mr_parent (ms_heap s r) = None"
    and "set_system_memory_map root s = Some s'"
  shows "memory_inv s'"
  by (rule set_map_inv [OF assms(1,2), of root AS_memory])
    (use assms(3) in \<open>simp_all add: set_system_memory_map_def put_as_def get_as_def\<close>)

lemma set_system_io_map_inv:
  assumes "memory_inv s" "\<And>r. root = Some r \<Longrightarrow> mr_parent (ms_heap s r) = None"
    and "set_system_io_map root s = Some s'"
  shows "memory_inv s'"
  by (rule set_map_inv [OF assms(1,2), of root AS_io])
    (use assms(3) in \<open>simp_all add: set_system_io_map_def put_as_def get_as_def\<close>)

text \<open>Operations that only call out, or that only change what rendering does not read.\<close>

lemma only_trace_inv: "only_trace s s' \<Longrightarrow> memory_inv s \<Longrightarrow> memory_inv s'"
  by (auto simp: only_trace_def memory_inv_def roots_ok_def synced_def views_current_def)

lemma update_coalesced_only_trace:
  "memory_region_update_coalesced_range p s = Some s' \<Longrightarrow> only_trace s s'"
  unfolding memory_region_update_coalesced_range_def
proof (erule foldM_only_trace)
  fix fr :: FlatRange and s s' :: "'a memory_state"
  have reg: "only_trace s s'" if "foldM (register_coalesced fr) cs s = Some s'" for cs s s'
    using that by (rule foldM_only_trace) (auto simp: register_coalesced_def Let_def bind_eq_Some_conv split: if_splits)
  assume "(if fr_mr fr = p then do { st \<leftarrow> get64 (rstart (fr_addr fr)); sz \<leftarrow> get64 (rsize (fr_addr fr));
      foldM (register_coalesced fr) (mr_coalesced (ms_heap s p)) (emit (Unregister_coalesced_mmio st sz) s) } else Some s) = Some s'"
  then show "only_trace s s'"
    by (auto simp: bind_eq_Some_conv split: if_splits dest!: reg intro: only_trace_trans [OF only_trace_emit])
qed

lemma coalesced_field_inv:
  assumes "memory_inv s"
  shows "memory_inv (upd_mr p (\<lambda>r. r\<lparr>mr_coalesced := g r\<rparr>) s)"
proof -
  let ?f = "\<lambda>r. r\<lparr>mr_coalesced := g r\<rparr>"
  note inv = memory_inv_parts [OF assms]
  have "same_topology (ms_heap s) ((ms_heap s)(p := ?f (ms_heap s p)))"
    by (simp add: same_topology_def same_region_def)
  then have "synced (upd_mr p ?f s)"
    unfolding upd_mr_def by (rule same_topology_synced [OF inv(1)]) simp
  then show ?thesis by (intro attribute_change [OF assms, of p ?f]) (simp_all add: inv(4))
qed

lemma add_coalescing_inv: "memory_inv s \<Longrightarrow> memory_region_add_coalescing p off n s = Some s' \<Longrightarrow> memory_inv s'"
  unfolding memory_region_add_coalescing_def
  by (erule only_trace_inv [OF update_coalesced_only_trace]) (rule coalesced_field_inv)

lemma clear_coalescing_inv: "memory_inv s \<Longrightarrow> memory_region_clear_coalescing p s = Some s' \<Longrightarrow> memory_inv s'"
  unfolding memory_region_clear_coalescing_def
  by (erule only_trace_inv [OF update_coalesced_only_trace]) (rule coalesced_field_inv)

lemma set_coalescing_inv: "memory_inv s \<Longrightarrow> memory_region_set_coalescing p s = Some s' \<Longrightarrow> memory_inv s'"
  unfolding memory_region_set_coalescing_def
  by (auto simp: bind_eq_Some_conv dest: clear_coalescing_inv add_coalescing_inv)

lemma sync_dirty_bitmap_inv: "memory_inv s \<Longrightarrow> memory_region_sync_dirty_bitmap p s = Some s' \<Longrightarrow> memory_inv s'"
  unfolding memory_region_sync_dirty_bitmap_def
  by (erule only_trace_inv [OF foldM_only_trace, rotated 2])
    (auto split: if_splits intro: update_region_only_trace)

lemma global_sync_inv: "memory_inv s \<Longrightarrow> memory_global_sync_dirty_bitmap p s = Some s' \<Longrightarrow> memory_inv s'"
  unfolding memory_global_sync_dirty_bitmap_def
  by (auto simp: bind_eq_Some_conv intro: only_trace_inv [OF foldM_only_trace] update_region_only_trace)

lemma flag_inv:
  "memory_inv s \<Longrightarrow> memory_inv (s\<lparr>global_dirty_log := b\<rparr>)" "memory_inv s \<Longrightarrow> memory_inv (s\<lparr>memory_listeners := ls\<rparr>)"
  by (simp_all add: memory_inv_def roots_ok_def synced_def views_current_def)

lemma dirty_log_inv:
  "memory_inv s \<Longrightarrow> memory_inv (memory_global_dirty_log_start s)"
  "memory_inv s \<Longrightarrow> memory_inv (memory_global_dirty_log_stop s)"
  unfolding memory_global_dirty_log_start_def memory_global_dirty_log_stop_def
  by (auto intro: only_trace_inv [OF listener_call_global_only_trace] flag_inv)

lemma listener_add_only_trace: "listener_add_address_space l i s = Some s' \<Longrightarrow> only_trace s s'"
proof -
  have "only_trace s1 s'" if "foldM (\<lambda>fr s. do { sec \<leftarrow> fr_section (as_root (get_as i s)) fr;
      Some (emit (Region_add (ml_self l) sec) s) }) frs s1 = Some s'" for frs s1
    using that by (rule foldM_only_trace) (auto simp: bind_eq_Some_conv)
  moreover assume "listener_add_address_space l i s = Some s'"
  ultimately show ?thesis
    by (auto simp: listener_add_address_space_def split: if_splits intro: only_trace_trans [OF only_trace_emit])
qed

lemma listener_register_inv: "memory_inv s \<Longrightarrow> memory_listener_register l f s = Some s' \<Longrightarrow> memory_inv s'"
  unfolding memory_listener_register_def Let_def
  by (auto simp: bind_eq_Some_conv dest!: listener_add_only_trace elim!: only_trace_inv intro!: flag_inv(2))

lemma listener_unregister_inv: "memory_inv s \<Longrightarrow> memory_inv (memory_listener_unregister l s)"
  unfolding memory_listener_unregister_def by (rule flag_inv)

section \<open>Sequences of calls\<close>

text \<open>
  One call of the API. The preconditions are those that the callers keep: the root of an
  address space is not given a parent or moved, and the offset of an alias is changed only
  when the alias itself is part of a hierarchy.
\<close>

inductive api_step :: "'d memory_state \<Rightarrow> 'd memory_state \<Rightarrow> bool" where
  step_set_log: "memory_region_set_log p log client s = Some s' \<Longrightarrow> api_step s s'"
| step_set_readonly: "memory_region_set_readonly p b s = Some s' \<Longrightarrow> api_step s s'"
| step_set_readable: "memory_region_rom_device_set_readable p b s = Some s' \<Longrightarrow> api_step s s'"
| step_add_eventfd: "memory_region_add_eventfd p a n m d e s = Some s' \<Longrightarrow> api_step s s'"
| step_del_eventfd: "memory_region_del_eventfd p a n m d e s = Some s' \<Longrightarrow> api_step s s'"
| step_add_subregion: "not_root c s \<Longrightarrow> memory_region_add_subregion p a c s = Some s' \<Longrightarrow> api_step s s'"
| step_add_overlap: "not_root c s \<Longrightarrow> memory_region_add_subregion_overlap p a c k s = Some s' \<Longrightarrow> api_step s s'"
| step_del_subregion: "memory_region_del_subregion p c s = Some s' \<Longrightarrow> api_step s s'"
| step_set_enabled: "memory_region_set_enabled p b s = Some s' \<Longrightarrow> api_step s s'"
| step_set_address: "not_root p s \<Longrightarrow> memory_region_set_address p a s = Some s' \<Longrightarrow> api_step s s'"
| step_set_alias_offset:
    "mr_parent (ms_heap s p) \<noteq> None \<Longrightarrow> memory_region_set_alias_offset p a s = Some s' \<Longrightarrow> api_step s s'"
| step_begin: "api_step s (memory_region_transaction_begin s)"
| step_commit: "memory_region_transaction_commit s = Some s' \<Longrightarrow> api_step s s'"
| step_memory_map:
    "(\<And>r. root = Some r \<Longrightarrow> mr_parent (ms_heap s r) = None) \<Longrightarrow> set_system_memory_map root s = Some s' \<Longrightarrow> api_step s s'"
| step_io_map:
    "(\<And>r. root = Some r \<Longrightarrow> mr_parent (ms_heap s r) = None) \<Longrightarrow> set_system_io_map root s = Some s' \<Longrightarrow> api_step s s'"
| step_add_coalescing: "memory_region_add_coalescing p a n64 s = Some s' \<Longrightarrow> api_step s s'"
| step_clear_coalescing: "memory_region_clear_coalescing p s = Some s' \<Longrightarrow> api_step s s'"
| step_set_coalescing: "memory_region_set_coalescing p s = Some s' \<Longrightarrow> api_step s s'"
| step_sync: "memory_region_sync_dirty_bitmap p s = Some s' \<Longrightarrow> api_step s s'"
| step_global_sync: "memory_global_sync_dirty_bitmap p s = Some s' \<Longrightarrow> api_step s s'"
| step_log_start: "api_step s (memory_global_dirty_log_start s)"
| step_log_stop: "api_step s (memory_global_dirty_log_stop s)"
| step_register: "memory_listener_register l f s = Some s' \<Longrightarrow> api_step s s'"
| step_unregister: "api_step s (memory_listener_unregister p s)"

lemmas api_ops_inv =
  set_log_inv set_readonly_inv set_readable_inv add_eventfd_inv del_eventfd_inv
  add_subregion_inv [THEN conjunct1] add_subregion_overlap_inv [THEN conjunct1]
  del_subregion_inv [THEN conjunct1] set_enabled_inv set_address_inv set_alias_offset_inv
  transaction_begin_inv transaction_commit_inv set_system_memory_map_inv set_system_io_map_inv
  add_coalescing_inv clear_coalescing_inv set_coalescing_inv sync_dirty_bitmap_inv global_sync_inv
  dirty_log_inv listener_register_inv listener_unregister_inv

lemma api_step_inv: "api_step s s' \<Longrightarrow> memory_inv s \<Longrightarrow> memory_inv s'"
proof (induction rule: api_step.induct)
  case (step_memory_map root s s')
  then show ?case using set_system_memory_map_inv by blast
next
  case (step_io_map root s s')
  then show ?case using set_system_io_map_inv by blast
qed (rule api_ops_inv; assumption)+

text \<open>Before the first call: regions that have been initialised, and address spaces without root.\<close>

definition initial :: "'d memory_state \<Rightarrow> bool" where
  "initial s \<longleftrightarrow>
     (\<forall>p. mr_parent (ms_heap s p) = None \<and> mr_subregions (ms_heap s p) = [] \<and> mr_ioeventfds (ms_heap s p) = []) \<and>
     (\<forall>i. as_root (get_as i s) = None)"

lemma initial_inv: "initial s \<Longrightarrow> memory_inv s"
  by (simp add: initial_def memory_inv_def hier_ok_def eventfds_ok_def roots_ok_def synced_def
      views_current_def as_current_def)


text \<open>
  C11. After any sequence of calls, every region lists exactly the regions whose parent it is,
  once each and by decreasing priority, so that rendering meets the higher priorities first;
  and the event descriptors of every region are in order.
\<close>

theorem hierarchy_consistent:
  assumes "initial s0" and "api_step\<^sup>*\<^sup>* s0 s"
  shows "distinct (mr_subregions (ms_heap s p)) \<and>
    (c \<in> set (mr_subregions (ms_heap s p)) \<longleftrightarrow> mr_parent (ms_heap s c) = Some p) \<and>
    sorted_wrt (\<lambda>a b. mr_priority (ms_heap s a) \<ge> mr_priority (ms_heap s b)) (mr_subregions (ms_heap s p)) \<and>
    sorted_wrt (\<lambda>x y. \<not> memory_region_ioeventfd_before y x) (mr_ioeventfds (ms_heap s p))"
proof -
  have "memory_inv s" using assms(2) initial_inv [OF assms(1)] by (induction rule: rtranclp_induct) (auto intro: api_step_inv)
  then show ?thesis
    by (auto simp: memory_inv_def hier_ok_def eventfds_ok_def before_key sorted_map not_less)
qed

section \<open>A run of the API\<close>

definition boot_heap :: "unit heap" where
  "boot_heap =
     (\<lambda>_. blank_region)
       (0 := memory_region_init blank_region ''system'' (- 1),
        1 := memory_region_init_ram blank_region ''ram'' 0x1000 0)"

definition boot_state :: "unit memory_state" where
  "boot_state =
     \<lparr>ms_heap = boot_heap, memory_region_transaction_depth = 0, memory_region_update_pending = False,
      global_dirty_log = False, memory_listeners = [], address_space_memory = empty_as None,
      address_space_io = empty_as None, ms_trace = []\<rparr>"

definition boot_view :: FlatView where
  "boot_view = \<lparr>fv_ranges = [new_range 1 (boot_heap 1) False 0 0x2000 0x1000], fv_nr_allocated = 10\<rparr>"

definition booted :: "unit memory_state" where
  "booted = boot_state
     \<lparr>ms_heap := boot_heap(0 := (boot_heap 0)\<lparr>mr_subregions := [1]\<rparr>,
        1 := (boot_heap 1)\<lparr>mr_may_overlap := False, mr_priority := 0, mr_parent := Some 0, mr_addr := 0x2000\<rparr>)\<rparr>"

lemma boot_add: "memory_region_add_subregion 0 0x2000 1 boot_state = Some booted"
  by (simp add: memory_region_add_subregion_def memory_region_add_subregion_common_def upd_mr_def
      boot_state_def boot_heap_def booted_def heap_eval memory_region_update_topology_def update_if_rooted_def get_as_def
      empty_as_def listener_call_global_def in_direction_def fun_upd_twist)

lemma boot_render: "generate_memory_topology (ms_heap booted) 0 = Some boot_view"
  by (simp add: generate_memory_topology_def render_memory_region.simps render_gaps.simps
      booted_def boot_view_def boot_state_def boot_heap_def heap_eval rintersects_def rintersection_def Let_def flatview_init_def
      flatview_insert_def insert_at_def new_range_def flatview_simplify_def simplify_outer.simps
      simplify_inner.simps)

lemma silent_pass:
  assumes "memory_listeners s = []"
  shows "address_space_update_topology_pass root adding old new s = Some s"
proof -
  have "update_region root fr d callback s = Some s" for fr d callback
    using assms by (cases d) (simp_all add: update_region_def listener_call_def in_direction_def)
  then have "pass_item root adding x s = Some s" for x by (cases x) simp_all
  then have "foldM (pass_item root adding) xs s = Some s" for xs by (induction xs) simp_all
  then show ?thesis by (simp add: pass_walk)
qed

lemma boot_map:
  "set_system_memory_map (Some 0) booted =
     Some (booted\<lparr>address_space_memory := \<lparr>as_root = Some 0, as_current_map = boot_view, as_ioeventfds = []\<rparr>\<rparr>)"
proof -
  have ioe: "concat (map (flat_ioeventfds (ms_heap booted)) frs) = []" for frs
    by (simp add: flat_ioeventfds_def booted_def boot_heap_def heap_eval)
  have io: "address_space_io booted = empty_as None" "memory_listeners booted = []" "memory_region_transaction_depth booted = 0"
    "memory_region_update_pending booted = False" "ms_trace booted = []" "address_space_memory booted = empty_as None"
    by (simp_all add: booted_def boot_state_def)
  show ?thesis
    by (simp add: set_system_memory_map_def memory_region_update_topology_def update_if_rooted_def get_as_def put_as_def
        listener_call_global_def in_direction_def address_space_update_topology_def boot_render silent_pass
        address_space_update_ioeventfds_def ioe io empty_as_def Let_def)
qed


lemma boot_run:
  "initial boot_state" "api_step\<^sup>*\<^sup>* boot_state
     (booted\<lparr>address_space_memory := \<lparr>as_root = Some 0, as_current_map = boot_view, as_ioeventfds = []\<rparr>\<rparr>)"
proof -
  show "initial boot_state"
    by (auto simp: initial_def boot_state_def boot_heap_def heap_eval get_as_def empty_as_def split: as_id.splits)
  have "not_root 1 boot_state"
    by (simp add: not_root_def boot_state_def get_as_def empty_as_def split: as_id.splits)
  from step_add_subregion [OF this boot_add] have "api_step boot_state booted" .
  moreover have "api_step booted (booted\<lparr>address_space_memory := \<lparr>as_root = Some 0, as_current_map = boot_view, as_ioeventfds = []\<rparr>\<rparr>)"
    by (rule step_memory_map [OF _ boot_map]) (simp add: booted_def boot_heap_def heap_eval)
  ultimately show "api_step\<^sup>*\<^sup>* boot_state
     (booted\<lparr>address_space_memory := \<lparr>as_root = Some 0, as_current_map = boot_view, as_ioeventfds = []\<rparr>\<rparr>)"
    by (meson converse_rtranclp_into_rtranclp rtranclp.rtrancl_refl)
qed


theorem hierarchy_consistent_witness:
  "1 \<in> set (mr_subregions (ms_heap booted 0)) \<and> mr_parent (ms_heap booted 1) = Some 0 \<and>
   distinct (mr_subregions (ms_heap booted 0))"
  using hierarchy_consistent [OF boot_run, of 0 1] by (simp add: booted_def)

text \<open>
  The condition on aliases is needed. Here an alias in the hierarchy points to an alias that
  has no parent; changing the offset of the latter changes what the former shows.
\<close>

definition alias_heap :: "u64 \<Rightarrow> unit heap" where
  "alias_heap off =
     (\<lambda>_. blank_region)
       (0 := (memory_region_init blank_region ''system'' (- 1))\<lparr>mr_subregions := [1]\<rparr>,
        1 := (memory_region_init_alias blank_region ''window'' 2 0 0x1000)\<lparr>mr_parent := Some 0\<rparr>,
        2 := memory_region_init_alias blank_region ''bank'' 3 off 0x1000,
        3 := memory_region_init_ram blank_region ''ram'' 0x4000 0)"

definition alias_view :: "u64 \<Rightarrow> FlatView" where
  "alias_view off = \<lparr>fv_ranges = [new_range 3 (alias_heap 0 3) False off 0 0x1000], fv_nr_allocated = 10\<rparr>"

lemma alias_render:
  "generate_memory_topology (alias_heap 0) 0 = Some (alias_view 0)"
  "generate_memory_topology (alias_heap 0x1000) 0 = Some (alias_view 0x1000)"
  by (simp_all add: generate_memory_topology_def render_memory_region.simps render_gaps.simps
      alias_heap_def alias_view_def heap_eval rintersects_def rintersection_def Let_def flatview_init_def
      flatview_insert_def insert_at_def new_range_def flatview_simplify_def simplify_outer.simps
      simplify_inner.simps)

definition alias_state :: "u64 \<Rightarrow> unit memory_state" where
  "alias_state off = boot_state\<lparr>ms_heap := alias_heap off,
     address_space_memory := \<lparr>as_root = Some 0, as_current_map = alias_view 0, as_ioeventfds = []\<rparr>\<rparr>"

lemma alias_state_inv: "memory_inv (alias_state 0)"
proof -
  have "flat_ioeventfds (alias_heap 0) fr = []" for fr
    by (simp add: flat_ioeventfds_def alias_heap_def heap_eval)
  then have "views_current (alias_state 0)"
    by (auto simp: views_current_def as_current_def fresh_as_def alias_state_def get_as_def boot_state_def
        empty_as_def alias_render split: as_id.splits)
  then show ?thesis
    by (auto simp: memory_inv_def synced_def hier_ok_def eventfds_ok_def roots_ok_def alias_state_def
        alias_heap_def heap_eval get_as_def boot_state_def empty_as_def split: as_id.splits)
qed


end
