(* ===== verification/Memory_Listeners.thy ===== *)
theory Memory_Listeners
  imports Memory_Sync
begin

text \<open>
  Registration of listeners and of event descriptors (\<open>memory.c\<close>): the lists stay in order,
  a new listener learns the current contents of the address spaces it observes, and removing
  an event descriptor undoes adding it.
\<close>

section \<open>Listeners\<close>

definition listeners_sorted :: "MemoryListener list \<Rightarrow> bool" where
  "listeners_sorted ls \<longleftrightarrow> sorted (map ml_priority ls)"

lemma insert_listener_set: "set (insert_listener l ls) = insert l (set ls)"
  by (induction ls) auto

lemma insert_listener_sorted: "listeners_sorted ls \<Longrightarrow> listeners_sorted (insert_listener l ls)"
  unfolding listeners_sorted_def
  by (induction ls) (auto simp: insert_listener_set not_less intro: less_imp_le order.trans)

lemma append_listener_sorted:
  assumes "listeners_sorted ls" "ls = [] \<or> ml_priority (last ls) \<le> ml_priority l"
  shows "listeners_sorted (ls @ [l])"
proof (cases ls rule: rev_cases)
  case (snoc ys y)
  then show ?thesis using assms by (auto simp: listeners_sorted_def sorted_append)
qed (simp add: listeners_sorted_def)

text \<open>What a listener is told of one address space.\<close>

definition visible_sections :: "MemoryListener \<Rightarrow> AddressSpace \<Rightarrow> MemoryRegionSection set" where
  "visible_sections l as =
     (if ml_address_space_filter l = None \<or> ml_address_space_filter l = as_root as
      then section_of (as_root as) ` set (fv_ranges (as_current_map as)) else {})"

lemma fr_section_value: "fits fr \<Longrightarrow> fr_section root fr = Some (section_of root fr)"
  by (simp add: fr_section_def fits_def section_of_def)

lemma add_sections:
  assumes "list_all fits frs"
  shows "\<exists>es. foldM (\<lambda>fr s. do { sec \<leftarrow> fr_section (as_root (get_as i s)) fr;
      Some (emit (Region_add (ml_self l) sec) s) }) frs s = Some (s\<lparr>ms_trace := ms_trace s @ es\<rparr>) \<and>
    (\<forall>M. replay (ml_self l) es M = M \<union> section_of (as_root (get_as i s)) ` set frs)"
  using assms
proof (induction frs arbitrary: s)
  case Nil
  show ?case by (rule exI [of _ "[]"]) simp
next
  case (Cons fr frs)
  let ?e = "Region_add (ml_self l) (section_of (as_root (get_as i s)) fr)"
  let ?s = "emit ?e s"
  have as: "get_as i ?s = get_as i s" by (simp add: emit_def)
  have "list_all fits frs" using Cons.prems by simp
  from Cons.IH [OF this, of ?s, unfolded as] obtain es where es: "foldM (\<lambda>fr s. do { sec \<leftarrow> fr_section (as_root (get_as i s)) fr;
      Some (emit (Region_add (ml_self l) sec) s) }) frs ?s = Some (?s\<lparr>ms_trace := ms_trace ?s @ es\<rparr>)"
    and told: "\<And>M. replay (ml_self l) es M = M \<union> section_of (as_root (get_as i s)) ` set frs"
    by blast
  show ?case
    by (rule exI [of _ "?e # es"]) (use Cons.prems es in \<open>simp add: fr_section_value told emit_def\<close>)
qed

lemma listener_add_address_space_tells:
  assumes "list_all fits (fv_ranges (as_current_map (get_as i s)))"
  shows "\<exists>es. listener_add_address_space l i s = Some (s\<lparr>ms_trace := ms_trace s @ es\<rparr>) \<and>
    (\<forall>M. replay (ml_self l) es M = M \<union> visible_sections l (get_as i s))"
proof (cases "ml_address_space_filter l \<noteq> None \<and> ml_address_space_filter l \<noteq> as_root (get_as i s)")
  case True
  then show ?thesis by (intro exI [of _ "[]"]) (auto simp: listener_add_address_space_def visible_sections_def)
next
  case False
  let ?s = "if global_dirty_log s then emit (Log_global_start (ml_self l)) s else s"
  have as: "get_as i ?s = get_as i s" by (simp add: emit_def)
  obtain es where es: "foldM (\<lambda>fr s. do { sec \<leftarrow> fr_section (as_root (get_as i s)) fr;
      Some (emit (Region_add (ml_self l) sec) s) }) (fv_ranges (as_current_map (get_as i s))) ?s
        = Some (?s\<lparr>ms_trace := ms_trace ?s @ es\<rparr>)"
    and told: "\<And>M. replay (ml_self l) es M = M \<union> section_of (as_root (get_as i s)) ` set (fv_ranges (as_current_map (get_as i s)))"
    using add_sections [OF assms, of i l ?s] unfolding as by blast
  let ?es = "(if global_dirty_log s then [Log_global_start (ml_self l)] else []) @ es"
  have "listener_add_address_space l i s = Some (s\<lparr>ms_trace := ms_trace s @ ?es\<rparr>)"
    using False es unfolding listener_add_address_space_def as by (auto simp: emit_def)
  moreover have "replay (ml_self l) ?es M = M \<union> visible_sections l (get_as i s)" for M
    using False by (auto simp: told visible_sections_def)
  ultimately show ?thesis by blast
qed

text \<open>
  C29. Registering a listener puts it into the list of listeners, which stays ordered by
  priority, and tells it exactly the sections that the address spaces it observes show.
\<close>

theorem memory_listener_register_correct:
  assumes "listeners_sorted (memory_listeners s)"
    and "\<forall>i. list_all fits (fv_ranges (as_current_map (get_as i s)))"
    and "l' = l\<lparr>ml_address_space_filter := filt\<rparr>"
  shows "\<exists>s' es. memory_listener_register l filt s = Some s' \<and>
    listeners_sorted (memory_listeners s') \<and>
    set (memory_listeners s') = insert l' (set (memory_listeners s)) \<and>
    ms_trace s' = ms_trace s @ es \<and>
    replay (ml_self l) es {} =
      visible_sections l' (address_space_memory s) \<union> visible_sections l' (address_space_io s)"
proof -
  let ?ls = "if memory_listeners s = [] \<or> ml_priority l' \<ge> ml_priority (last (memory_listeners s))
    then memory_listeners s @ [l'] else insert_listener l' (memory_listeners s)"
  let ?s = "s\<lparr>memory_listeners := ?ls\<rparr>"
  have ls: "listeners_sorted ?ls" "set ?ls = insert l' (set (memory_listeners s))"
    using assms(1) append_listener_sorted [of "memory_listeners s" l'] insert_listener_sorted [of "memory_listeners s" l']
    by (auto simp: insert_listener_set)
  obtain es1 where s1: "listener_add_address_space l' AS_memory ?s = Some (?s\<lparr>ms_trace := ms_trace ?s @ es1\<rparr>)"
    and t1: "\<And>M. replay (ml_self l') es1 M = M \<union> visible_sections l' (get_as AS_memory s)"
    using listener_add_address_space_tells [of AS_memory ?s l'] assms(2) by auto
  let ?s1 = "?s\<lparr>ms_trace := ms_trace ?s @ es1\<rparr>"
  obtain es2 where s2: "listener_add_address_space l' AS_io ?s1 = Some (?s1\<lparr>ms_trace := ms_trace ?s1 @ es2\<rparr>)"
    and t2: "\<And>M. replay (ml_self l') es2 M = M \<union> visible_sections l' (get_as AS_io s)"
    using listener_add_address_space_tells [of AS_io ?s1 l'] assms(2) by auto
  have "memory_listener_register l filt s = Some (?s1\<lparr>ms_trace := ms_trace ?s1 @ es2\<rparr>)"
    unfolding memory_listener_register_def Let_def assms(3) [symmetric] by (simp only: Option.bind_lunit s1 s2)
  moreover have "replay (ml_self l) (es1 @ es2) {} =
      visible_sections l' (address_space_memory s) \<union> visible_sections l' (address_space_io s)"
    using t1 t2 by (simp add: replay_append assms(3) get_as_def)
  ultimately show ?thesis using ls by (intro exI [of _ "?s1\<lparr>ms_trace := ms_trace ?s1 @ es2\<rparr>"] exI [of _ "es1 @ es2"]) simp
qed

theorem memory_listener_register_correct_witness:
  "\<exists>s' es. memory_listener_register sample_listener None (alias_state 0) = Some s' \<and>
     ms_trace s' = es \<and> replay 7 es {} \<noteq> {}"
proof -
  have fits: "\<forall>i. list_all fits (fv_ranges (as_current_map (get_as i (alias_state 0))))"
    by (auto simp: alias_state_def get_as_def alias_view_def boot_state_def empty_as_def flatview_init_def
        new_range_def fits_def split: as_id.splits)
  have srt: "listeners_sorted (memory_listeners (alias_state 0))"
    by (simp add: alias_state_def boot_state_def listeners_sorted_def)
  show ?thesis
    using memory_listener_register_correct [OF srt fits refl, of sample_listener None]
    by (auto simp: sample_listener_def alias_state_def boot_state_def visible_sections_def alias_view_def)
qed

section \<open>Event descriptors\<close>

text \<open>
  Removing an event descriptor that has just been added to an ordered array succeeds, and
  the array again holds the descriptors it held before, up to data that the comparison ignores.
\<close>

theorem eventfd_add_del:
  assumes "sorted (map ioe_key fds)"
  shows "\<exists>fds'. remove_eventfd fd (insert_eventfd fd fds) = Some fds' \<and> map ioe_key fds' = map ioe_key fds"
  using assms
proof (induction fds)
  case Nil
  then show ?case by (simp add: equal_key)
next
  case (Cons x fds)
  show ?case
  proof (cases "ioe_key fd = ioe_key x")
    case True
    have "map ioe_key (insert_eventfd fd fds) = ioe_key fd # map ioe_key fds"
      using Cons.prems True
    proof (induction fds)
      case (Cons y fds)
      then show ?case by (cases "ioe_key fd = ioe_key y") (auto simp: before_key)
    qed simp
    then show ?thesis using True by (simp add: before_key equal_key)
  next
    case False
    obtain fds' where "remove_eventfd fd (insert_eventfd fd fds) = Some fds'" "map ioe_key fds' = map ioe_key fds"
      using Cons by auto
    then show ?thesis using False by (auto simp: equal_key)
  qed
qed

end
