(* ===== verification/Bitops.thy ===== *)
theory Bitops
  imports QPrelude
begin

text \<open>
  Bit operations (\<open>bitops.h\<close>, \<open>bitops.c\<close>) on a host with 64-bit longs. An array of longs is a
  list, and an access outside of it is \<open>None\<close>. Bit numbers are natural numbers: all of them
  stay below the number of bits of the array, so the unsigned arithmetic never wraps.
\<close>

unbundle bit_operations_syntax

section \<open>Bits of a word\<close>

text \<open>One halving step of the search for the first bit: the test, the count and the shift.\<close>

definition ffs_step :: "nat \<Rightarrow> u64 \<Rightarrow> nat \<times> u64 \<Rightarrow> nat \<times> u64" where
  "ffs_step k m = (\<lambda>(num, word). if word AND m = 0 then (num + k, drop_bit k word) else (num, word))"

definition bitops_ffsl :: "u64 \<Rightarrow> nat" where
  "bitops_ffsl word =
     fst (ffs_step 1 0x1 (ffs_step 2 0x3 (ffs_step 4 0xf (ffs_step 8 0xff
       (ffs_step 16 0xffff (ffs_step 32 0xffffffff (0, word)))))))"

definition fls_step :: "nat \<Rightarrow> nat \<times> u64 \<Rightarrow> nat \<times> u64" where
  "fls_step k = (\<lambda>(num, word).
     if word AND push_bit (64 - k) (NOT 0) = 0 then (num - k, push_bit k word) else (num, word))"

definition bitops_flsl :: "u64 \<Rightarrow> nat" where
  "bitops_flsl word =
     fst (fls_step 1 (fls_step 2 (fls_step 4 (fls_step 8 (fls_step 16 (fls_step 32 (63, word)))))))"

definition ffz :: "u64 \<Rightarrow> nat" where
  "ffz word = bitops_ffsl (NOT word)"

text \<open>The loop of \<open>hweight_long\<close> ends because the word is shifted until it is zero.\<close>

function hweight_loop :: "u64 \<Rightarrow> u64 \<Rightarrow> u64" where
  "hweight_loop w count = (if w = 0 then count else hweight_loop (drop_bit 1 w) (count + (w AND 1)))"
  by pat_completeness auto
termination
proof (relation "measure (\<lambda>(w, count). unat w)", goal_cases)
  case (2 w count)
  have "unat w div 2 < unat w" using 2 by (intro div_less_dividend) (auto simp: unat_gt_0)
  then show ?case by (simp add: drop_bit_eq_div unat_div)
qed simp

declare hweight_loop.simps [simp del]

definition hweight_long :: "u64 \<Rightarrow> u64" where
  "hweight_long w = hweight_loop w 0"

definition extract32 :: "u32 \<Rightarrow> int \<Rightarrow> int \<Rightarrow> u32 option" where
  "extract32 value start len =
     do {
       c_assert (start \<ge> 0 \<and> len > 0 \<and> len \<le> 32 - start);
       Some (drop_bit (nat start) value AND drop_bit (nat (32 - len)) (NOT 0))
     }"

definition extract64 :: "u64 \<Rightarrow> int \<Rightarrow> int \<Rightarrow> u64 option" where
  "extract64 value start len =
     do {
       c_assert (start \<ge> 0 \<and> len > 0 \<and> len \<le> 64 - start);
       Some (drop_bit (nat start) value AND drop_bit (nat (64 - len)) (NOT 0))
     }"

definition deposit32 :: "u32 \<Rightarrow> int \<Rightarrow> int \<Rightarrow> u32 \<Rightarrow> u32 option" where
  "deposit32 value start len fieldval =
     do {
       c_assert (start \<ge> 0 \<and> len > 0 \<and> len \<le> 32 - start);
       let mask = push_bit (nat start) (drop_bit (nat (32 - len)) (NOT 0)) in
       Some ((value AND NOT mask) OR (push_bit (nat start) fieldval AND mask))
     }"

definition deposit64 :: "u64 \<Rightarrow> int \<Rightarrow> int \<Rightarrow> u64 \<Rightarrow> u64 option" where
  "deposit64 value start len fieldval =
     do {
       c_assert (start \<ge> 0 \<and> len > 0 \<and> len \<le> 64 - start);
       let mask = push_bit (nat start) (drop_bit (nat (64 - len)) (NOT 0)) in
       Some ((value AND NOT mask) OR (push_bit (nat start) fieldval AND mask))
     }"

section \<open>Bits of an array\<close>

abbreviation (input) BITS_PER_LONG :: nat where
  "BITS_PER_LONG \<equiv> 64"

definition get_word :: "u64 list \<Rightarrow> nat \<Rightarrow> u64 option" where
  "get_word addr i = (if i < length addr then Some (addr ! i) else None)"

definition BIT_MASK :: "nat \<Rightarrow> u64" where
  "BIT_MASK nr = push_bit (nr mod BITS_PER_LONG) 1"

definition BIT_WORD :: "nat \<Rightarrow> nat" where
  "BIT_WORD nr = nr div BITS_PER_LONG"

definition upd_word :: "nat \<Rightarrow> (u64 \<Rightarrow> u64) \<Rightarrow> u64 list \<Rightarrow> u64 list option" where
  "upd_word i f addr = do { w \<leftarrow> get_word addr i; Some (addr[i := f w]) }"

definition set_bit_nr :: "nat \<Rightarrow> u64 list \<Rightarrow> u64 list option" where
  "set_bit_nr nr addr = upd_word (BIT_WORD nr) (\<lambda>p. p OR BIT_MASK nr) addr"

definition clear_bit_nr :: "nat \<Rightarrow> u64 list \<Rightarrow> u64 list option" where
  "clear_bit_nr nr addr = upd_word (BIT_WORD nr) (\<lambda>p. p AND NOT (BIT_MASK nr)) addr"

definition change_bit :: "nat \<Rightarrow> u64 list \<Rightarrow> u64 list option" where
  "change_bit nr addr = upd_word (BIT_WORD nr) (\<lambda>p. p XOR BIT_MASK nr) addr"

definition test_and_set_bit :: "nat \<Rightarrow> u64 list \<Rightarrow> (bool \<times> u64 list) option" where
  "test_and_set_bit nr addr =
     do {
       old \<leftarrow> get_word addr (BIT_WORD nr);
       addr \<leftarrow> upd_word (BIT_WORD nr) (\<lambda>_. old OR BIT_MASK nr) addr;
       Some (old AND BIT_MASK nr \<noteq> 0, addr)
     }"

definition test_and_clear_bit :: "nat \<Rightarrow> u64 list \<Rightarrow> (bool \<times> u64 list) option" where
  "test_and_clear_bit nr addr =
     do {
       old \<leftarrow> get_word addr (BIT_WORD nr);
       addr \<leftarrow> upd_word (BIT_WORD nr) (\<lambda>_. old AND NOT (BIT_MASK nr)) addr;
       Some (old AND BIT_MASK nr \<noteq> 0, addr)
     }"

definition test_and_change_bit :: "nat \<Rightarrow> u64 list \<Rightarrow> (bool \<times> u64 list) option" where
  "test_and_change_bit nr addr =
     do {
       old \<leftarrow> get_word addr (BIT_WORD nr);
       addr \<leftarrow> upd_word (BIT_WORD nr) (\<lambda>_. old XOR BIT_MASK nr) addr;
       Some (old AND BIT_MASK nr \<noteq> 0, addr)
     }"

definition test_bit :: "nat \<Rightarrow> u64 list \<Rightarrow> bool option" where
  "test_bit nr addr =
     do { w \<leftarrow> get_word addr (BIT_WORD nr); Some (1 AND drop_bit (nr mod BITS_PER_LONG) w \<noteq> 0) }"

text \<open>
  The searches. The labels \<open>found_first\<close> and \<open>found_middle\<close> of the source are functions of the
  variables that are live at them; \<open>size\<close> counts the bits from \<open>result\<close> on.
\<close>

definition found_first :: "u64 \<Rightarrow> nat \<Rightarrow> nat \<Rightarrow> nat" where
  "found_first tmp sz result =
     (let tmp = tmp AND drop_bit (BITS_PER_LONG - sz) (NOT 0) in
      if tmp = 0 then result + sz else result + bitops_ffsl tmp)"

function next_words :: "u64 list \<Rightarrow> nat \<Rightarrow> nat \<Rightarrow> nat \<Rightarrow> nat option" where
  "next_words addr p sz result =
     (if sz \<ge> BITS_PER_LONG
      then do {
        tmp \<leftarrow> get_word addr p;
        if tmp \<noteq> 0 then Some (result + bitops_ffsl tmp)
        else next_words addr (Suc p) (sz - BITS_PER_LONG) (result + BITS_PER_LONG)
      }
      else if sz = 0 then Some result
      else do { tmp \<leftarrow> get_word addr p; Some (found_first tmp sz result) })"
  by pat_completeness auto
termination
  by (relation "measure (\<lambda>(addr, p, sz, result). sz)") auto

declare next_words.simps [simp del]

definition find_next_bit :: "u64 list \<Rightarrow> nat \<Rightarrow> nat \<Rightarrow> nat option" where
  "find_next_bit addr sz offset =
     (let p = offset div BITS_PER_LONG; result = offset - offset mod BITS_PER_LONG in
      if offset \<ge> sz then Some sz
      else
        let sz = sz - result; offset = offset mod BITS_PER_LONG in
        if offset \<noteq> 0
        then do {
          tmp \<leftarrow> get_word addr p;
          let tmp = tmp AND push_bit offset (NOT 0) in
          if sz < BITS_PER_LONG then Some (found_first tmp sz result)
          else if tmp \<noteq> 0 then Some (result + bitops_ffsl tmp)
          else next_words addr (Suc p) (sz - BITS_PER_LONG) (result + BITS_PER_LONG)
        }
        else next_words addr p sz result)"

definition found_first_zero :: "u64 \<Rightarrow> nat \<Rightarrow> nat \<Rightarrow> nat" where
  "found_first_zero tmp sz result =
     (let tmp = tmp OR push_bit sz (NOT 0) in
      if tmp = NOT 0 then result + sz else result + ffz tmp)"

function next_zero_words :: "u64 list \<Rightarrow> nat \<Rightarrow> nat \<Rightarrow> nat \<Rightarrow> nat option" where
  "next_zero_words addr p sz result =
     (if sz \<ge> BITS_PER_LONG
      then do {
        tmp \<leftarrow> get_word addr p;
        if NOT tmp \<noteq> 0 then Some (result + ffz tmp)
        else next_zero_words addr (Suc p) (sz - BITS_PER_LONG) (result + BITS_PER_LONG)
      }
      else if sz = 0 then Some result
      else do { tmp \<leftarrow> get_word addr p; Some (found_first_zero tmp sz result) })"
  by pat_completeness auto
termination
  by (relation "measure (\<lambda>(addr, p, sz, result). sz)") auto

declare next_zero_words.simps [simp del]

definition find_next_zero_bit :: "u64 list \<Rightarrow> nat \<Rightarrow> nat \<Rightarrow> nat option" where
  "find_next_zero_bit addr sz offset =
     (let p = offset div BITS_PER_LONG; result = offset - offset mod BITS_PER_LONG in
      if offset \<ge> sz then Some sz
      else
        let sz = sz - result; offset = offset mod BITS_PER_LONG in
        if offset \<noteq> 0
        then do {
          tmp \<leftarrow> get_word addr p;
          let tmp = tmp OR drop_bit (BITS_PER_LONG - offset) (NOT 0) in
          if sz < BITS_PER_LONG then Some (found_first_zero tmp sz result)
          else if NOT tmp \<noteq> 0 then Some (result + ffz tmp)
          else next_zero_words addr (Suc p) (sz - BITS_PER_LONG) (result + BITS_PER_LONG)
        }
        else next_zero_words addr p sz result)"

definition find_first_bit :: "u64 list \<Rightarrow> nat \<Rightarrow> nat option" where
  "find_first_bit addr sz = find_next_bit addr sz 0"

definition find_first_zero_bit :: "u64 list \<Rightarrow> nat \<Rightarrow> nat option" where
  "find_first_zero_bit addr sz = find_next_zero_bit addr sz 0"

fun last_words :: "u64 list \<Rightarrow> nat \<Rightarrow> nat \<Rightarrow> nat option" where
  "last_words addr 0 sz = Some sz"
| "last_words addr (Suc words) sz =
     do {
       tmp \<leftarrow> get_word addr words;
       if tmp \<noteq> 0 then Some (words * BITS_PER_LONG + bitops_flsl tmp) else last_words addr words sz
     }"

definition find_last_bit :: "u64 list \<Rightarrow> nat \<Rightarrow> nat option" where
  "find_last_bit addr sz =
     (let words = sz div BITS_PER_LONG in
      if sz mod BITS_PER_LONG \<noteq> 0
      then do {
        w \<leftarrow> get_word addr words;
        let tmp = w AND drop_bit (BITS_PER_LONG - sz mod BITS_PER_LONG) (NOT 0) in
        if tmp \<noteq> 0 then Some (words * BITS_PER_LONG + bitops_flsl tmp) else last_words addr words sz
      }
      else last_words addr words sz)"

section \<open>First and last bit of a word\<close>

text \<open>\<open>lowest w j\<close>: bit \<open>j\<close> is the first set bit of \<open>w\<close>; \<open>highest\<close> is the last one.\<close>

definition lowest :: "u64 \<Rightarrow> nat \<Rightarrow> bool" where
  "lowest w j \<longleftrightarrow> bit w j \<and> (\<forall>i<j. \<not> bit w i)"

definition highest :: "u64 \<Rightarrow> nat \<Rightarrow> bool" where
  "highest w j \<longleftrightarrow> bit w j \<and> (\<forall>i. j < i \<longrightarrow> \<not> bit w i)"

lemma bit_bound: "bit (w :: u64) i \<Longrightarrow> i < 64"
  using bit_imp_le_length [of w i] by simp

lemma lowest_ex:
  assumes "w \<noteq> 0"
  obtains j where "lowest w j" "j < 64"
proof -
  obtain n where "bit w n" using assms by (auto simp: bit_eq_iff)
  then have "lowest w (LEAST n. bit w n)"
    unfolding lowest_def by (metis LeastI_ex not_less_Least)
  then show thesis using that bit_bound lowest_def by blast
qed

lemma highest_ex:
  assumes "w \<noteq> 0"
  obtains j where "highest w j" "j < 64"
proof -
  obtain n where n: "bit w n" using assms by (auto simp: bit_eq_iff)
  have "highest w (GREATEST n. bit w n)"
    unfolding highest_def
    using GreatestI_nat [of "bit w" n 64] Greatest_le_nat [of "bit w" _ 64] n bit_bound
    by (meson less_imp_le not_le)
  then show thesis using that bit_bound highest_def by blast
qed

lemma lowest_unique: "lowest w i \<Longrightarrow> lowest w j \<Longrightarrow> i = j"
  unfolding lowest_def by (metis nat_neq_iff)

lemma and_mask_zero: "w AND mask k = 0 \<longleftrightarrow> (\<forall>i<k. \<not> bit (w :: u64) i)"
  by (auto simp: bit_eq_iff bit_simps dest: bit_bound)

lemma ffs_step_lowest:
  assumes "lowest w j" "j < k + k" "m = mask k"
  shows "\<exists>n' w' j'. ffs_step k m (n, w) = (n', w') \<and> lowest w' j' \<and> j' < k \<and> n' + j' = n + j"
proof (cases "w AND m = 0")
  case True
  then have "\<forall>i<k. \<not> bit w i" using assms(3) and_mask_zero by simp
  then have "k \<le> j" using assms(1) by (meson lowest_def not_le)
  then have "lowest (drop_bit k w) (j - k)"
    using assms(1) by (auto simp: lowest_def bit_simps)
  then show ?thesis using True assms(2) \<open>k \<le> j\<close> by (intro exI [of _ "n + k"] exI [of _ "drop_bit k w"] exI [of _ "j - k"]) (simp add: ffs_step_def)
next
  case False
  then obtain i where "i < k" "bit w i" using assms(3) and_mask_zero by auto
  then have "j < k" using assms(1) by (meson lowest_def not_less order.strict_trans1)
  then show ?thesis using False assms(1) by (simp add: ffs_step_def)
qed

lemma ffs_masks:
  "(0xffffffff :: u64) = mask 32" "(0xffff :: u64) = mask 16" "(0xff :: u64) = mask 8"
  "(0xf :: u64) = mask 4" "(0x3 :: u64) = mask 2" "(0x1 :: u64) = mask 1"
  by (simp_all add: mask_eq_exp_minus_1)

lemma ffsl_lowest: "lowest w j \<Longrightarrow> bitops_ffsl w = j"
proof -
  assume l: "lowest w j"
  then have "j < 32 + 32" using bit_bound by (auto simp: lowest_def)
  from ffs_step_lowest [OF l this ffs_masks(1), of 0]
  obtain n1 w1 j1 where 1: "ffs_step 32 0xffffffff (0, w) = (n1, w1)" "lowest w1 j1" "j1 < 16 + 16" "n1 + j1 = j" by auto
  from ffs_step_lowest [OF this(2,3) ffs_masks(2), of n1]
  obtain n2 w2 j2 where 2: "ffs_step 16 0xffff (n1, w1) = (n2, w2)" "lowest w2 j2" "j2 < 8 + 8" "n2 + j2 = j" using 1 by auto
  from ffs_step_lowest [OF this(2,3) ffs_masks(3), of n2]
  obtain n3 w3 j3 where 3: "ffs_step 8 0xff (n2, w2) = (n3, w3)" "lowest w3 j3" "j3 < 4 + 4" "n3 + j3 = j" using 2 by auto
  from ffs_step_lowest [OF this(2,3) ffs_masks(4), of n3]
  obtain n4 w4 j4 where 4: "ffs_step 4 0xf (n3, w3) = (n4, w4)" "lowest w4 j4" "j4 < 2 + 2" "n4 + j4 = j" using 3 by auto
  from ffs_step_lowest [OF this(2,3) ffs_masks(5), of n4]
  obtain n5 w5 j5 where 5: "ffs_step 2 0x3 (n4, w4) = (n5, w5)" "lowest w5 j5" "j5 < 1 + 1" "n5 + j5 = j" using 4 by auto
  from ffs_step_lowest [OF this(2,3) ffs_masks(6), of n5]
  obtain n6 w6 where 6: "ffs_step 1 0x1 (n5, w5) = (n6, w6)" "n6 = j" using 5 by auto
  show ?thesis using 1 2 3 4 5 6 by (simp only: bitops_ffsl_def fst_conv)
qed

lemma bitops_ffsl_correct: "w \<noteq> 0 \<Longrightarrow> lowest w (bitops_ffsl w)"
  by (metis lowest_ex ffsl_lowest)

lemma and_high_zero: "k \<le> 64 \<Longrightarrow> w AND push_bit (64 - k) (NOT 0) = 0 \<longleftrightarrow> (\<forall>i. 64 - k \<le> i \<longrightarrow> \<not> bit (w :: u64) i)"
  by (auto simp: bit_eq_iff bit_simps not_le dest: bit_bound)

text \<open>Shifting left keeps the distance of the last bit from the top of the word.\<close>

lemma fls_step_highest:
  assumes "highest w j" "64 \<le> j + (k + k)" "k \<le> 32" "63 - j \<le> n"
  shows "\<exists>n' w' j'. fls_step k (n, w) = (n', w') \<and> highest w' j' \<and> 64 \<le> j' + k \<and> 63 - j' \<le> n' \<and>
    n' - (63 - j') = n - (63 - j)"
proof (cases "w AND push_bit (64 - k) (NOT 0) = 0")
  case True
  have j: "j < 64" using assms(1) bit_bound by (auto simp: highest_def)
  have "\<forall>i. 64 - k \<le> i \<longrightarrow> \<not> bit w i" using True and_high_zero assms(3) by simp
  then have jk: "j + k < 64" using assms(1) by (metis highest_def not_le le_diff_conv add.commute less_diff_conv)
  have "highest (push_bit k w) (j + k)"
    using assms(1) jk by (auto simp: highest_def bit_simps)
  then show ?thesis
    using True assms(2,4) jk
    by (intro exI [of _ "n - k"] exI [of _ "push_bit k w"] exI [of _ "j + k"]) (auto simp: fls_step_def)
next
  case False
  then obtain i where "64 - k \<le> i" "bit w i" using and_high_zero [of k w] assms(3) by auto
  then have "64 - k \<le> j" using assms(1) by (metis highest_def not_le order.trans less_imp_le)
  then show ?thesis using False assms(1,4) by (auto simp: fls_step_def)
qed

lemma flsl_highest: "highest w j \<Longrightarrow> bitops_flsl w = j"
proof -
  assume h: "highest w j"
  then have j: "j < 64" using bit_bound by (auto simp: highest_def)
  then have "64 \<le> j + (32 + 32)" "63 - j \<le> 63" by auto
  from fls_step_highest [OF h this(1) _ this(2)]
  obtain n1 w1 j1 where 1: "fls_step 32 (63, w) = (n1, w1)" "highest w1 j1" "64 \<le> j1 + (16 + 16)" "63 - j1 \<le> n1"
    "n1 - (63 - j1) = j" using j by auto
  from fls_step_highest [OF this(2,3) _ this(4)]
  obtain n2 w2 j2 where 2: "fls_step 16 (n1, w1) = (n2, w2)" "highest w2 j2" "64 \<le> j2 + (8 + 8)" "63 - j2 \<le> n2"
    "n2 - (63 - j2) = j" using 1 by auto
  from fls_step_highest [OF this(2,3) _ this(4)]
  obtain n3 w3 j3 where 3: "fls_step 8 (n2, w2) = (n3, w3)" "highest w3 j3" "64 \<le> j3 + (4 + 4)" "63 - j3 \<le> n3"
    "n3 - (63 - j3) = j" using 2 by auto
  from fls_step_highest [OF this(2,3) _ this(4)]
  obtain n4 w4 j4 where 4: "fls_step 4 (n3, w3) = (n4, w4)" "highest w4 j4" "64 \<le> j4 + (2 + 2)" "63 - j4 \<le> n4"
    "n4 - (63 - j4) = j" using 3 by auto
  from fls_step_highest [OF this(2,3) _ this(4)]
  obtain n5 w5 j5 where 5: "fls_step 2 (n4, w4) = (n5, w5)" "highest w5 j5" "64 \<le> j5 + (1 + 1)" "63 - j5 \<le> n5"
    "n5 - (63 - j5) = j" using 4 by auto
  from fls_step_highest [OF this(2,3) _ this(4)]
  obtain n6 w6 j6 where 6: "fls_step 1 (n5, w5) = (n6, w6)" "highest w6 j6" "64 \<le> j6 + 1" "n6 - (63 - j6) = j"
    using 5 by auto
  have "63 - j6 = 0" using 6(3) by simp
  then show ?thesis using 1 2 3 4 5 6 by (simp only: bitops_flsl_def fst_conv diff_zero)
qed

lemma bitops_flsl_correct: "w \<noteq> 0 \<Longrightarrow> highest w (bitops_flsl w)"
  by (metis highest_ex flsl_highest)

section \<open>Searching an array\<close>

definition array_bit :: "u64 list \<Rightarrow> nat \<Rightarrow> bool" where
  "array_bit addr i = bit (addr ! (i div 64)) (i mod 64)"

text \<open>\<open>next_in P lo hi r\<close>: \<open>r\<close> is the first number from \<open>lo\<close> on with \<open>P\<close>, or \<open>hi\<close>.\<close>

definition next_in :: "(nat \<Rightarrow> bool) \<Rightarrow> nat \<Rightarrow> nat \<Rightarrow> nat \<Rightarrow> bool" where
  "next_in P lo hi r \<longleftrightarrow> lo \<le> r \<and> r \<le> hi \<and> (\<forall>i. lo \<le> i \<and> i < r \<longrightarrow> \<not> P i) \<and> (r < hi \<longrightarrow> P r)"

lemma next_in_widen: "next_in P lo mid r \<Longrightarrow> r < mid \<Longrightarrow> mid \<le> hi \<Longrightarrow> next_in P lo hi r"
  by (auto simp: next_in_def)

lemma next_in_skip:
  assumes "next_in P mid hi r" "lo \<le> mid" "\<And>i. lo \<le> i \<Longrightarrow> i < mid \<Longrightarrow> \<not> P i"
  shows "next_in P lo hi r"
  using assms unfolding next_in_def by (meson le_less_trans not_le order.trans)

lemma next_in_none: "lo \<le> hi \<Longrightarrow> (\<And>i. lo \<le> i \<Longrightarrow> i < hi \<Longrightarrow> \<not> P i) \<Longrightarrow> next_in P lo hi hi"
  by (auto simp: next_in_def)

lemma array_bit_word [simp]: "k < 64 \<Longrightarrow> array_bit addr (p * 64 + k) = bit (addr ! p) k"
  by (simp add: array_bit_def)

lemma word_offset: "p * 64 + lo \<le> i \<Longrightarrow> i < p * 64 + hi \<Longrightarrow> hi \<le> 64 \<Longrightarrow> \<exists>k. i = p * 64 + k \<and> lo \<le> k \<and> k < (hi :: nat)"
  by (intro exI [of _ "i - p * 64"]) auto

text \<open>The part of one word that a search looks at.\<close>

lemma window_empty:
  assumes "tmp = 0" "\<And>k. k < 64 \<Longrightarrow> bit tmp k = (bit (addr ! p) k \<and> lo \<le> k \<and> k < hi)" "hi \<le> 64"
    and "p * 64 + lo \<le> i" "i < p * 64 + hi"
  shows "\<not> array_bit addr i"
proof -
  obtain k where k: "i = p * 64 + k" "lo \<le> k" "k < hi" using word_offset [OF assms(4,5,3)] by auto
  then show ?thesis using assms(1,3) assms(2) [of k] by simp
qed

lemma window_found:
  assumes "tmp \<noteq> 0" "\<And>k. k < 64 \<Longrightarrow> bit tmp k = (bit (addr ! p) k \<and> lo \<le> k \<and> k < hi)" "hi \<le> 64"
  shows "next_in (array_bit addr) (p * 64 + lo) (p * 64 + hi) (p * 64 + bitops_ffsl tmp) \<and> bitops_ffsl tmp < hi"
proof -
  let ?j = "bitops_ffsl tmp"
  have l: "lowest tmp ?j" by (rule bitops_ffsl_correct [OF assms(1)])
  then have j: "?j < 64" using bit_bound by (auto simp: lowest_def)
  then have w: "bit (addr ! p) ?j" "lo \<le> ?j" "?j < hi" using l assms(2) [OF j] by (auto simp: lowest_def)
  have "\<not> array_bit addr i" if i: "p * 64 + lo \<le> i" "i < p * 64 + ?j" for i
  proof -
    obtain k where k: "i = p * 64 + k" "lo \<le> k" "k < ?j" using word_offset [OF i] j by auto
    then show ?thesis using l j w(3) assms(2) [of k] by (auto simp: lowest_def)
  qed
  then show ?thesis using w j by (auto simp: next_in_def)
qed

lemma found_first_next:
  assumes "\<And>k. k < 64 \<Longrightarrow> bit tmp k = (bit (addr ! p) k \<and> lo \<le> k)" "0 < sz" "sz \<le> 64" "lo \<le> sz"
  shows "next_in (array_bit addr) (p * 64 + lo) (p * 64 + sz) (found_first tmp sz (p * 64))"
proof -
  let ?t = "tmp AND drop_bit (64 - sz) (NOT 0)"
  have b: "bit ?t k = (bit (addr ! p) k \<and> lo \<le> k \<and> k < sz)" if "k < 64" for k
    using assms(1) [OF that] assms(2,3) that by (auto simp: bit_simps)
  show ?thesis
  proof (cases "?t = 0")
    case True
    have "next_in (array_bit addr) (p * 64 + lo) (p * 64 + sz) (p * 64 + sz)"
      by (rule next_in_none) (use window_empty [OF True b assms(3)] assms(4) in auto)
    then show ?thesis using True by (simp add: found_first_def)
  next
    case False
    then show ?thesis using window_found [OF False b assms(3)] by (simp add: found_first_def Let_def)
  qed
qed

lemma next_words_next:
  "result = p * 64 \<Longrightarrow> p * 64 + sz \<le> 64 * length addr \<Longrightarrow>
   \<exists>r. next_words addr p sz result = Some r \<and> next_in (array_bit addr) (p * 64) (p * 64 + sz) r"
proof (induction addr p sz result rule: next_words.induct)
  case (1 addr p sz result)
  show ?case
  proof (cases "sz \<ge> 64")
    case True
    then have w: "get_word addr p = Some (addr ! p)" using "1.prems" by (auto simp: get_word_def)
    show ?thesis
    proof (cases "addr ! p = 0")
      case zero: True
      have "Suc p * 64 + (sz - 64) \<le> 64 * length addr" "result + 64 = Suc p * 64"
        using "1.prems" True by auto
      moreover have "\<not> addr ! p \<noteq> 0" using zero by simp
      ultimately obtain r where r: "next_words addr (Suc p) (sz - 64) (result + 64) = Some r"
        "next_in (array_bit addr) (Suc p * 64) (Suc p * 64 + (sz - 64)) r"
        using "1.IH" [OF True w] by blast
      have "Suc p * 64 + (sz - 64) = p * 64 + sz" using True by simp
      then have "next_in (array_bit addr) (Suc p * 64) (p * 64 + sz) r" using r(2) by simp
      then have "next_in (array_bit addr) (p * 64) (p * 64 + sz) r"
      proof (rule next_in_skip)
        fix i assume "p * 64 \<le> i" "i < Suc p * 64"
        then show "\<not> array_bit addr i" using window_empty [OF zero, of addr p 0 64 i] zero by simp
      qed simp
      then show ?thesis using r(1) True w zero by (subst next_words.simps) simp
    next
      case False
      have "next_in (array_bit addr) (p * 64 + 0) (p * 64 + 64) (p * 64 + bitops_ffsl (addr ! p)) \<and> bitops_ffsl (addr ! p) < 64"
        by (rule window_found [OF False]) simp_all
      then show ?thesis
        using True w False "1.prems"(1) next_in_widen [of "array_bit addr" "p * 64" "p * 64 + 64" _ "p * 64 + sz"]
        by (subst next_words.simps) simp
    qed
  next
    case False
    show ?thesis
    proof (cases "sz = 0")
      case True
      then show ?thesis using "1.prems" by (subst next_words.simps) (simp add: next_in_none)
    next
      case pos: False
      then have w: "get_word addr p = Some (addr ! p)" using "1.prems" by (auto simp: get_word_def)
      have "next_in (array_bit addr) (p * 64 + 0) (p * 64 + sz) (found_first (addr ! p) sz (p * 64))"
        by (rule found_first_next) (use pos False in auto)
      then show ?thesis using pos False w "1.prems"(1) by (subst next_words.simps) simp
    qed
  qed
qed

text \<open>A search for the next set bit stays inside the array and finds it.\<close>

lemma find_next_bit_next:
  assumes "sz \<le> 64 * length addr" "offset \<le> sz"
  shows "\<exists>r. find_next_bit addr sz offset = Some r \<and> next_in (array_bit addr) offset sz r"
proof -
  define p f where "p = offset div 64" and "f = offset mod 64"
  have off: "offset = p * 64 + f" "f < 64" by (simp_all add: p_def f_def)
  show ?thesis
  proof (cases "offset = sz")
    case True
    then show ?thesis by (simp add: find_next_bit_def Let_def next_in_none)
  next
    case False
    then have lt: "offset < sz" using assms(2) by simp
    let ?sz = "sz - p * 64"
    have sz: "p * 64 + ?sz = sz" "f < ?sz" using lt off by auto
    have w: "get_word addr p = Some (addr ! p)" using assms(1) lt off by (auto simp: get_word_def)
    have pf: "offset div 64 = p" "offset mod 64 = f" "offset - f = p * 64"
      by (simp_all add: p_def f_def minus_mod_eq_div_mult)
    show ?thesis
    proof (cases "f = 0")
      case True
      then show ?thesis
        using next_words_next [of "p * 64" p ?sz addr] sz assms(1) lt pf off
        unfolding find_next_bit_def Let_def by auto
    next
      case False
      let ?t = "addr ! p AND push_bit f (NOT 0)"
      have b: "bit ?t k = (bit (addr ! p) k \<and> f \<le> k)" if "k < 64" for k
        using that by (auto simp: bit_simps)
      have find: "find_next_bit addr sz offset =
          (if ?sz < 64 then Some (found_first ?t ?sz (p * 64))
           else if ?t \<noteq> 0 then Some (p * 64 + bitops_ffsl ?t)
           else next_words addr (Suc p) (?sz - 64) (p * 64 + 64))"
        using lt False w unfolding find_next_bit_def Let_def pf by simp
      consider (short) "?sz < 64" | (here) "?sz \<ge> 64" "?t \<noteq> 0" | (on) "?sz \<ge> 64" "?t = 0" by linarith
      then show ?thesis
      proof cases
        case short
        have "next_in (array_bit addr) (p * 64 + f) (p * 64 + ?sz) (found_first ?t ?sz (p * 64))"
          by (rule found_first_next) (use b sz short in auto)
        then show ?thesis using find short sz off by simp
      next
        case here
        have "next_in (array_bit addr) (p * 64 + f) (p * 64 + 64) (p * 64 + bitops_ffsl ?t) \<and> bitops_ffsl ?t < 64"
          by (rule window_found [OF here(2)]) (use b in auto)
        then show ?thesis
          using find here sz off next_in_widen [of "array_bit addr" "p * 64 + f" "p * 64 + 64" _ sz] by auto
      next
        case on
        have "Suc p * 64 + (?sz - 64) \<le> 64 * length addr" "p * 64 + 64 = Suc p * 64" "Suc p * 64 + (?sz - 64) = sz"
          using on(1) sz assms(1) by auto
        with next_words_next [OF this(2,1)] obtain r where
          r: "next_words addr (Suc p) (?sz - 64) (p * 64 + 64) = Some r" "next_in (array_bit addr) (Suc p * 64) sz r"
          by metis
        have "next_in (array_bit addr) offset sz r"
          by (rule next_in_skip [OF r(2)])
            (use off on(2) b window_empty [of ?t addr p f 64] in auto)
        then show ?thesis using find on r(1) by simp
      qed
    qed
  qed
qed

text \<open>The search for a clear bit is the search for a set bit in the complement.\<close>

lemma get_word_complement: "get_word (map NOT addr) p = map_option NOT (get_word addr p)"
  by (simp add: get_word_def)

lemma found_first_complement:
  "0 < sz \<Longrightarrow> sz \<le> 64 \<Longrightarrow> found_first_zero tmp sz result = found_first (NOT tmp) sz result"
proof -
  assume sz: "0 < sz" "sz \<le> 64"
  have "NOT (tmp OR push_bit sz (NOT 0)) = NOT tmp AND drop_bit (64 - sz) (NOT 0)"
    using sz by (intro bit_word_eqI) (auto simp: bit_simps)
  moreover have "(x = NOT 0) = (NOT x = (0 :: u64))" for x by (metis bit.double_compl bit.compl_zero)
  ultimately show ?thesis by (simp add: found_first_zero_def found_first_def ffz_def Let_def)
qed

lemma next_zero_words_complement: "next_zero_words addr p sz result = next_words (map NOT addr) p sz result"
proof (induction addr p sz result rule: next_zero_words.induct)
  case (1 addr p sz result)
  then show ?case
    by (subst next_zero_words.simps, subst next_words.simps)
      (auto simp: get_word_complement get_word_def ffz_def found_first_complement)
qed

lemma find_next_zero_bit_complement: "find_next_zero_bit addr sz offset = find_next_bit (map NOT addr) sz offset"
proof -
  define f where "f = offset mod 64"
  have f: "f < 64" by (simp add: f_def)
  have "NOT (tmp OR drop_bit (64 - f) (NOT 0)) = NOT tmp AND push_bit f (NOT 0)" for tmp :: u64
    using f by (intro bit_word_eqI) (auto simp: bit_simps)
  then show ?thesis
    unfolding find_next_zero_bit_def find_next_bit_def Let_def f_def [symmetric]
    by (cases "get_word addr (offset div 64)")
      (auto simp: get_word_complement next_zero_words_complement ffz_def found_first_complement f_def)
qed

lemma array_bit_complement: "i < 64 * length addr \<Longrightarrow> array_bit (map NOT addr) i \<longleftrightarrow> \<not> array_bit addr i"
  by (simp add: array_bit_def bit_simps less_mult_imp_div_less mult.commute)

lemma find_next_zero_bit_next:
  assumes "sz \<le> 64 * length addr" "offset \<le> sz"
  shows "\<exists>r. find_next_zero_bit addr sz offset = Some r \<and> next_in (\<lambda>i. \<not> array_bit addr i) offset sz r"
proof -
  obtain r where r: "find_next_zero_bit addr sz offset = Some r" "next_in (array_bit (map NOT addr)) offset sz r"
    using find_next_bit_next [of sz "map NOT addr" offset] assms by (auto simp: find_next_zero_bit_complement)
  have "next_in (\<lambda>i. \<not> array_bit addr i) offset sz r"
    using r(2) assms(1) array_bit_complement [of _ addr] by (auto simp: next_in_def)
  then show ?thesis using r(1) by blast
qed

text \<open>
  C19. The searches for the next set and for the next clear bit of an array read only words of
  the array and return the first such bit from the offset on, or the size when there is none.
\<close>

theorem find_next_bit_correct:
  assumes "sz \<le> 64 * length addr" and "offset \<le> sz"
  shows "(\<exists>r. find_next_bit addr sz offset = Some r \<and> next_in (array_bit addr) offset sz r) \<and>
    (\<exists>r. find_next_zero_bit addr sz offset = Some r \<and> next_in (\<lambda>i. \<not> array_bit addr i) offset sz r)"
  using find_next_bit_next [OF assms] find_next_zero_bit_next [OF assms] by blast

theorem find_next_bit_correct_witness:
  "(\<exists>r. find_next_bit [0, 0x10] 100 3 = Some r \<and> next_in (array_bit [0, 0x10]) 3 100 r) \<and>
   find_next_bit [0, 0x10] 100 3 = Some 68"
proof -
  have "find_next_bit [0, 0x10] 100 3 = Some 68"
    by (simp add: find_next_bit_def get_word_def next_words.simps found_first_def bitops_ffsl_def ffs_step_def
        Let_def mask_eq_exp_minus_1)
  then show ?thesis using find_next_bit_correct [of 100 "[0, 0x10]" 3] by simp
qed

section \<open>The last bit\<close>

lemma last_words_correct:
  assumes "words \<le> length addr"
  shows "\<exists>r. last_words addr words sz = Some r \<and>
    (r = sz \<and> (\<forall>i < words * 64. \<not> array_bit addr i) \<or>
     r < words * 64 \<and> array_bit addr r \<and> (\<forall>i. r < i \<and> i < words * 64 \<longrightarrow> \<not> array_bit addr i))"
  using assms
proof (induction words)
  case (Suc n)
  then have w: "get_word addr n = Some (addr ! n)" by (simp add: get_word_def)
  show ?case
  proof (cases "addr ! n = 0")
    case True
    then have none: "\<not> array_bit addr i" if "n * 64 \<le> i" "i < Suc n * 64" for i
      using window_empty [OF True, of addr n 0 64 i] that True by simp
    obtain r where "last_words addr n sz = Some r"
      "r = sz \<and> (\<forall>i < n * 64. \<not> array_bit addr i) \<or>
       r < n * 64 \<and> array_bit addr r \<and> (\<forall>i. r < i \<and> i < n * 64 \<longrightarrow> \<not> array_bit addr i)"
      using Suc by auto
    then show ?thesis using w True none by (auto simp: not_le) (metis not_le)+
  next
    case False
    let ?j = "bitops_flsl (addr ! n)"
    have h: "highest (addr ! n) ?j" by (rule bitops_flsl_correct [OF False])
    then have j: "?j < 64" using bit_bound by (auto simp: highest_def)
    have "\<not> array_bit addr i" if i: "n * 64 + ?j < i" "i < Suc n * 64" for i
    proof -
      obtain k where "i = n * 64 + k" "?j < k" "k < 64" using word_offset [of n "Suc ?j" i 64] i by auto
      then show ?thesis using h by (simp add: highest_def)
    qed
    then show ?thesis using w False h j by (auto simp: highest_def)
  qed
qed simp

text \<open>
  The search for the last set bit reads only words of the array and returns the number of
  the last set bit below the size, or the size when no bit is set.
\<close>

theorem find_last_bit_correct:
  assumes "sz \<le> 64 * length addr"
  shows "\<exists>r. find_last_bit addr sz = Some r \<and>
    (r = sz \<and> (\<forall>i < sz. \<not> array_bit addr i) \<or>
     r < sz \<and> array_bit addr r \<and> (\<forall>i. r < i \<and> i < sz \<longrightarrow> \<not> array_bit addr i))"
proof -
  define n f where "n = sz div 64" and "f = sz mod 64"
  have sz: "sz = n * 64 + f" "f < 64" by (simp_all add: n_def f_def)
  have "n \<le> length addr" using assms sz by linarith
  from last_words_correct [OF this, of sz] obtain r where r: "last_words addr n sz = Some r"
    "r = sz \<and> (\<forall>i < n * 64. \<not> array_bit addr i) \<or>
     r < n * 64 \<and> array_bit addr r \<and> (\<forall>i. r < i \<and> i < n * 64 \<longrightarrow> \<not> array_bit addr i)" by auto
  show ?thesis
  proof (cases "f = 0")
    case True
    then have "find_last_bit addr sz = last_words addr n sz" by (simp add: find_last_bit_def Let_def n_def f_def)
    moreover have "sz = n * 64" using sz(1) True by simp
    ultimately show ?thesis using r by (intro exI [of _ r]) auto
  next
    case False
    then have "n < length addr" using assms sz by linarith
    then have w: "get_word addr n = Some (addr ! n)" by (simp add: get_word_def)
    let ?t = "addr ! n AND drop_bit (64 - f) (NOT 0)"
    have b: "bit ?t k = (bit (addr ! n) k \<and> 0 \<le> k \<and> k < f)" if "k < 64" for k
      using that sz(2) by (auto simp: bit_simps)
    have find: "find_last_bit addr sz =
        (if ?t \<noteq> 0 then Some (n * 64 + bitops_flsl ?t) else last_words addr n sz)"
      using False w by (simp add: find_last_bit_def Let_def n_def f_def)
    show ?thesis
    proof (cases "?t = 0")
      case True
      then have "\<not> array_bit addr i" if "n * 64 \<le> i" "i < sz" for i
        using window_empty [OF True b, of i] that sz by simp
      then show ?thesis using r find True sz by (auto simp: not_le) (metis not_le)+
    next
      case ne: False
      let ?j = "bitops_flsl ?t"
      have h: "highest ?t ?j" by (rule bitops_flsl_correct [OF ne])
      then have j: "?j < 64" using bit_bound unfolding highest_def by blast
      then have jf: "?j < f" "bit (addr ! n) ?j" using h b [OF j] by (simp_all add: highest_def)
      have "\<not> array_bit addr i" if i: "n * 64 + ?j < i" "i < sz" for i
      proof -
        obtain k where k: "i = n * 64 + k" "?j < k" "k < f" using word_offset [of n "Suc ?j" i f] i sz by auto
        then have "\<not> bit ?t k" using h by (simp add: highest_def)
        then show ?thesis using b [of k] k sz(2) by simp
      qed
      then show ?thesis using find ne jf j sz by (intro exI [of _ "n * 64 + ?j"]) simp
    qed
  qed
qed

section \<open>Single bits and bit fields\<close>

lemma upd_word_bits:
  assumes "nr < 64 * length addr" "\<And>w. w = addr ! (nr div 64) \<Longrightarrow> bit (f w) (nr mod 64) = v"
    and "\<And>w k. k < 64 \<Longrightarrow> k \<noteq> nr mod 64 \<Longrightarrow> bit (f w) k = bit w k"
  shows "\<exists>addr'. upd_word (BIT_WORD nr) f addr = Some addr' \<and> length addr' = length addr \<and>
    (\<forall>i. array_bit addr' i = (if i = nr then v else array_bit addr i))"
proof -
  let ?p = "nr div 64" and ?a = "addr[nr div 64 := f (addr ! (nr div 64))]"
  have p: "?p < length addr" using assms(1) by (simp add: less_mult_imp_div_less mult.commute)
  have "array_bit ?a i = (if i = nr then v else array_bit addr i)" for i
  proof (cases "i div 64 = ?p")
    case True
    then have "i = nr \<longleftrightarrow> i mod 64 = nr mod 64" by (metis mod_mult_div_eq)
    then show ?thesis using True p assms(2,3) by (auto simp: array_bit_def)
  qed (auto simp: array_bit_def)
  then show ?thesis using p by (simp add: upd_word_def get_word_def BIT_WORD_def)
qed

lemma bit_BIT_MASK: "bit (BIT_MASK nr) k \<longleftrightarrow> k = nr mod 64"
  by (auto simp: BIT_MASK_def bit_simps)

lemma test_mask: "w AND BIT_MASK nr \<noteq> 0 \<longleftrightarrow> bit w (nr mod 64)"
proof -
  have "w AND BIT_MASK nr = (if bit w (nr mod 64) then BIT_MASK nr else 0)"
    by (intro bit_word_eqI) (auto simp: bit_simps bit_BIT_MASK)
  moreover have "BIT_MASK nr \<noteq> 0" using bit_BIT_MASK [of nr "nr mod 64"] by auto
  ultimately show ?thesis by simp
qed

lemma test_shift: "1 AND drop_bit k w \<noteq> 0 \<longleftrightarrow> bit (w :: u64) k"
  by (simp add: one_and_eq bit_iff_odd_drop_bit flip: even_iff_mod_2_eq_zero)

text \<open>
  Setting, clearing and toggling a bit of an array change that bit and no other, the
  variants that return the old value return it, and a test reads the bit; none of them reads
  or writes outside the array.
\<close>

lemma single_bit_ops:
  assumes "nr < 64 * length addr"
  shows "(\<exists>a. set_bit_nr nr addr = Some a \<and> test_and_set_bit nr addr = Some (array_bit addr nr, a) \<and>
      (\<forall>i. array_bit a i = (i = nr \<or> array_bit addr i))) \<and>
    (\<exists>a. clear_bit_nr nr addr = Some a \<and> test_and_clear_bit nr addr = Some (array_bit addr nr, a) \<and>
      (\<forall>i. array_bit a i = (i \<noteq> nr \<and> array_bit addr i))) \<and>
    (\<exists>a. change_bit nr addr = Some a \<and> test_and_change_bit nr addr = Some (array_bit addr nr, a) \<and>
      (\<forall>i. array_bit a i = (if i = nr then \<not> array_bit addr i else array_bit addr i))) \<and>
    test_bit nr addr = Some (array_bit addr nr)"
proof -
  have p: "BIT_WORD nr < length addr" using assms by (simp add: BIT_WORD_def less_mult_imp_div_less mult.commute)
  then have w: "get_word addr (BIT_WORD nr) = Some (addr ! BIT_WORD nr)" by (simp add: get_word_def)
  have old: "(addr ! BIT_WORD nr AND BIT_MASK nr \<noteq> 0) = array_bit addr nr"
    by (simp add: test_mask array_bit_def BIT_WORD_def)
  note upd = upd_word_bits [OF assms]
  have "\<exists>a. set_bit_nr nr addr = Some a \<and> (\<forall>i. array_bit a i = (i = nr \<or> array_bit addr i))"
    using upd [of "\<lambda>w. w OR BIT_MASK nr" True] by (auto simp: set_bit_nr_def bit_simps bit_BIT_MASK)
  moreover have "\<exists>a. clear_bit_nr nr addr = Some a \<and> (\<forall>i. array_bit a i = (i \<noteq> nr \<and> array_bit addr i))"
    using upd [of "\<lambda>w. w AND NOT (BIT_MASK nr)" False] by (auto simp: clear_bit_nr_def bit_simps bit_BIT_MASK)
  moreover have "\<exists>a. change_bit nr addr = Some a \<and> (\<forall>i. array_bit a i = (if i = nr then \<not> array_bit addr i else array_bit addr i))"
    using upd [of "\<lambda>w. w XOR BIT_MASK nr" "\<not> array_bit addr nr"] by (auto simp: change_bit_def bit_simps bit_BIT_MASK array_bit_def)
  moreover have "test_bit nr addr = Some (array_bit addr nr)"
    unfolding test_bit_def w Option.bind_lunit test_shift by (simp add: array_bit_def BIT_WORD_def)
  ultimately show ?thesis
    using w old
    by (auto simp: set_bit_nr_def clear_bit_nr_def change_bit_def test_and_set_bit_def test_and_clear_bit_def
        test_and_change_bit_def upd_word_def)
qed

text \<open>The bit field operations on the words of both widths.\<close>

lemma extract_bits:
  "0 \<le> start \<Longrightarrow> 0 < len \<Longrightarrow> len \<le> 32 - start \<Longrightarrow>
   \<exists>r. extract32 v start len = Some r \<and> (\<forall>k. bit r k \<longleftrightarrow> k < nat len \<and> bit v (nat start + k))"
  "0 \<le> start \<Longrightarrow> 0 < len \<Longrightarrow> len \<le> 64 - start \<Longrightarrow>
   \<exists>r. extract64 w start len = Some r \<and> (\<forall>k. bit r k \<longleftrightarrow> k < nat len \<and> bit w (nat start + k))"
  by (auto simp: extract32_def extract64_def bit_simps nat_diff_distrib' less_diff_conv dest: bit_imp_le_length)

lemma deposit_bits:
  "0 \<le> start \<Longrightarrow> 0 < len \<Longrightarrow> len \<le> 32 - start \<Longrightarrow>
   \<exists>r. deposit32 v start len f = Some r \<and>
     (\<forall>k. bit r k \<longleftrightarrow> (if nat start \<le> k \<and> k < nat start + nat len then bit f (k - nat start) else bit v k))"
  "0 \<le> start \<Longrightarrow> 0 < len \<Longrightarrow> len \<le> 64 - start \<Longrightarrow>
   \<exists>r. deposit64 w start len g = Some r \<and>
     (\<forall>k. bit r k \<longleftrightarrow> (if nat start \<le> k \<and> k < nat start + nat len then bit g (k - nat start) else bit w k))"
  by (auto simp: deposit32_def deposit64_def Let_def bit_simps nat_diff_distrib' less_diff_conv
      dest: bit_imp_le_length)

text \<open>
  C21. Depositing a value into a bit field and extracting the field gives back the low bits of
  the value, the bits outside the field are unchanged, and the assertions of both operations
  hold exactly when the field is not empty and lies in the word.
\<close>

theorem deposit_extract:
  "case deposit64 v start len f of
     None \<Rightarrow> \<not> (0 \<le> start \<and> 0 < len \<and> start + len \<le> 64)
   | Some r \<Rightarrow>
       0 \<le> start \<and> 0 < len \<and> start + len \<le> 64 \<and> extract64 r start len = Some (take_bit (nat len) f) \<and>
       (\<forall>k. bit r k = (if nat start \<le> k \<and> k < nat start + nat len then bit f (k - nat start) else bit v k))"
proof (cases "0 \<le> start \<and> 0 < len \<and> start + len \<le> 64")
  case True
  then have ok: "0 \<le> start" "0 < len" "len \<le> 64 - start" by auto
  obtain r where r: "deposit64 v start len f = Some r"
    and b: "\<And>k. bit r k = (if nat start \<le> k \<and> k < nat start + nat len then bit f (k - nat start) else bit v k)"
    using deposit_bits(2) [OF ok, of v f] by blast
  obtain x where x: "extract64 r start len = Some x" "\<And>k. bit x k \<longleftrightarrow> k < nat len \<and> bit r (nat start + k)"
    using extract_bits(2) [OF ok, of r] by blast
  have "x = take_bit (nat len) f" by (intro bit_word_eqI) (simp add: x(2) b bit_take_bit_iff)
  then show ?thesis using x(1) r b True by simp
next
  case False
  then have "deposit64 v start len f = None" by (auto simp: deposit64_def)
  then show ?thesis using False by simp
qed

lemma bits_shift: "card {k. bit w k} = (if bit w 0 then 1 else 0) + card {k. bit (drop_bit 1 w) k}" for w :: u64
proof -
  let ?S = "{k. bit (drop_bit 1 w) k}"
  have "?S \<subseteq> {..<64}" by (auto dest: bit_bound)
  then have fin: "finite ?S" by (rule finite_subset) simp
  have c: "card (Suc ` ?S) = card ?S" by (rule card_image) simp
  have b: "bit w k \<longleftrightarrow> (k = 0 \<and> bit w 0) \<or> k \<in> Suc ` ?S" for k
    by (cases k) (auto simp: bit_drop_bit_eq)
  show ?thesis
  proof (cases "bit w 0")
    case True
    then have "{k. bit w k} = insert 0 (Suc ` ?S)" using b by blast
    moreover have "card (insert 0 (Suc ` ?S)) = Suc (card (Suc ` ?S))"
      by (rule card_insert_disjoint) (use fin in auto)
    ultimately show ?thesis using True c by simp
  next
    case False
    then have "{k. bit w k} = Suc ` ?S" using b by blast
    then show ?thesis using False c by simp
  qed
qed

lemma hweight_loop_count: "hweight_loop w c = c + of_nat (card {k. bit w k})"
proof (induction w c rule: hweight_loop.induct)
  case (1 w count)
  have "w AND 1 = of_nat (if bit w 0 then 1 else 0)"
    by (simp add: and_one_eq bit_0 odd_iff_mod_2_eq_one)
  then show ?case using 1 bits_shift [of w] by (subst hweight_loop.simps) (simp add: bot_fun_def)
qed

text \<open>The weight of a word is the number of its set bits.\<close>

lemma hweight_long_correct: "hweight_long w = of_nat (card {k. bit w k})"
  by (simp add: hweight_long_def hweight_loop_count)

end
