(* ===== verification/Bitmap.thy ===== *)
theory Bitmap
  imports Bitops
begin

text \<open>
  Bitmaps (\<open>bitmap.h\<close>, \<open>bitmap.c\<close>): arrays of longs of which the first \<open>bits\<close> bits count.
  A loop over words that may stop early is \<open>scan_words\<close>, a loop that fills the words of a
  destination is \<open>fill_words\<close>.
\<close>

unbundle bit_operations_syntax

section \<open>Operations\<close>

definition BITS_TO_LONGS :: "nat \<Rightarrow> nat" where
  "BITS_TO_LONGS nr = (nr + BITS_PER_LONG - 1) div BITS_PER_LONG"

definition BITMAP_LAST_WORD_MASK :: "nat \<Rightarrow> u64" where
  "BITMAP_LAST_WORD_MASK nbits =
     (if nbits mod BITS_PER_LONG \<noteq> 0 then push_bit (nbits mod BITS_PER_LONG) 1 - 1 else NOT 0)"

definition BITMAP_FIRST_WORD_MASK :: "nat \<Rightarrow> u64" where
  "BITMAP_FIRST_WORD_MASK start = push_bit (start mod BITS_PER_LONG) (NOT 0)"

definition small_nbits :: "nat \<Rightarrow> bool" where
  "small_nbits nbits \<longleftrightarrow> nbits \<le> BITS_PER_LONG"

fun scan_words :: "(nat \<Rightarrow> bool option) \<Rightarrow> nat \<Rightarrow> nat \<Rightarrow> bool option" where
  "scan_words f k 0 = Some False"
| "scan_words f k (Suc n) = do { b \<leftarrow> f k; if b then Some True else scan_words f (Suc k) n }"

fun fill_words :: "(nat \<Rightarrow> u64 option) \<Rightarrow> nat \<Rightarrow> nat \<Rightarrow> u64 list \<Rightarrow> u64 list option" where
  "fill_words f k 0 dst = Some dst"
| "fill_words f k (Suc n) dst =
     do { w \<leftarrow> f k; dst \<leftarrow> upd_word k (\<lambda>_. w) dst; fill_words f (Suc k) n dst }"

text \<open>The common shape of the tests: whole words first, then the masked last word.\<close>

definition scan_bitmap :: "(nat \<Rightarrow> u64 option) \<Rightarrow> nat \<Rightarrow> bool option" where
  "scan_bitmap f bits =
     (let lim = bits div BITS_PER_LONG in
      do {
        hit \<leftarrow> scan_words (\<lambda>k. do { w \<leftarrow> f k; Some (w \<noteq> 0) }) 0 lim;
        if hit then Some True
        else if bits mod BITS_PER_LONG \<noteq> 0
        then do { w \<leftarrow> f lim; Some (w AND BITMAP_LAST_WORD_MASK bits \<noteq> 0) }
        else Some False
      })"

definition slow_bitmap_empty :: "u64 list \<Rightarrow> nat \<Rightarrow> bool option" where
  "slow_bitmap_empty bitmap bits = do { hit \<leftarrow> scan_bitmap (get_word bitmap) bits; Some (\<not> hit) }"

definition slow_bitmap_full :: "u64 list \<Rightarrow> nat \<Rightarrow> bool option" where
  "slow_bitmap_full bitmap bits =
     do { hit \<leftarrow> scan_bitmap (\<lambda>k. do { w \<leftarrow> get_word bitmap k; Some (NOT w) }) bits; Some (\<not> hit) }"

definition word2 :: "(u64 \<Rightarrow> u64 \<Rightarrow> u64) \<Rightarrow> u64 list \<Rightarrow> u64 list \<Rightarrow> nat \<Rightarrow> u64 option" where
  "word2 f bitmap1 bitmap2 k = do { a \<leftarrow> get_word bitmap1 k; b \<leftarrow> get_word bitmap2 k; Some (f a b) }"

definition slow_bitmap_equal :: "u64 list \<Rightarrow> u64 list \<Rightarrow> nat \<Rightarrow> bool option" where
  "slow_bitmap_equal bitmap1 bitmap2 bits =
     do { hit \<leftarrow> scan_bitmap (word2 (XOR) bitmap1 bitmap2) bits; Some (\<not> hit) }"

definition slow_bitmap_intersects :: "u64 list \<Rightarrow> u64 list \<Rightarrow> nat \<Rightarrow> bool option" where
  "slow_bitmap_intersects bitmap1 bitmap2 bits = scan_bitmap (word2 (AND) bitmap1 bitmap2) bits"

definition slow_bitmap_complement :: "u64 list \<Rightarrow> u64 list \<Rightarrow> nat \<Rightarrow> u64 list option" where
  "slow_bitmap_complement dst src bits =
     (let lim = bits div BITS_PER_LONG in
      do {
        dst \<leftarrow> fill_words (\<lambda>k. do { w \<leftarrow> get_word src k; Some (NOT w) }) 0 lim dst;
        if bits mod BITS_PER_LONG \<noteq> 0
        then do { w \<leftarrow> get_word src lim; upd_word lim (\<lambda>_. NOT w AND BITMAP_LAST_WORD_MASK bits) dst }
        else Some dst
      })"

text \<open>The accumulated \<open>result\<close> of a loop is not zero exactly when one of the words is not.\<close>

definition any_word :: "(nat \<Rightarrow> u64 option) \<Rightarrow> nat \<Rightarrow> bool option" where
  "any_word f nr = scan_words (\<lambda>k. do { w \<leftarrow> f k; Some (w \<noteq> 0) }) 0 nr"

definition slow_bitmap_and :: "u64 list \<Rightarrow> u64 list \<Rightarrow> u64 list \<Rightarrow> nat \<Rightarrow> (bool \<times> u64 list) option" where
  "slow_bitmap_and dst bitmap1 bitmap2 bits =
     do {
       dst \<leftarrow> fill_words (word2 (AND) bitmap1 bitmap2) 0 (BITS_TO_LONGS bits) dst;
       result \<leftarrow> any_word (word2 (AND) bitmap1 bitmap2) (BITS_TO_LONGS bits);
       Some (result, dst)
     }"

definition slow_bitmap_or :: "u64 list \<Rightarrow> u64 list \<Rightarrow> u64 list \<Rightarrow> nat \<Rightarrow> u64 list option" where
  "slow_bitmap_or dst bitmap1 bitmap2 bits =
     fill_words (word2 (OR) bitmap1 bitmap2) 0 (BITS_TO_LONGS bits) dst"

definition slow_bitmap_xor :: "u64 list \<Rightarrow> u64 list \<Rightarrow> u64 list \<Rightarrow> nat \<Rightarrow> u64 list option" where
  "slow_bitmap_xor dst bitmap1 bitmap2 bits =
     fill_words (word2 (XOR) bitmap1 bitmap2) 0 (BITS_TO_LONGS bits) dst"

definition slow_bitmap_andnot :: "u64 list \<Rightarrow> u64 list \<Rightarrow> u64 list \<Rightarrow> nat \<Rightarrow> (bool \<times> u64 list) option" where
  "slow_bitmap_andnot dst bitmap1 bitmap2 bits =
     do {
       dst \<leftarrow> fill_words (word2 (\<lambda>a b. a AND NOT b) bitmap1 bitmap2) 0 (BITS_TO_LONGS bits) dst;
       result \<leftarrow> any_word (word2 (\<lambda>a b. a AND NOT b) bitmap1 bitmap2) (BITS_TO_LONGS bits);
       Some (result, dst)
     }"

text \<open>
  The loop of \<open>bitmap_set\<close> and \<open>bitmap_clear\<close>; \<open>write\<close> is \<open>*p |= mask\<close> for the one and
  \<open>*p &= ~mask\<close> for the other, \<open>avail\<close> the number of bits to write in the current word.
\<close>

function write_words ::
  "(u64 \<Rightarrow> u64 \<Rightarrow> u64) \<Rightarrow> nat \<Rightarrow> nat \<Rightarrow> nat \<Rightarrow> nat \<Rightarrow> u64 \<Rightarrow> u64 list \<Rightarrow> u64 list option" where
  "write_words wr sz p nr avail m addr =
     (if avail \<le> nr
      then do { addr \<leftarrow> upd_word p (wr m) addr; write_words wr sz (Suc p) (nr - avail) BITS_PER_LONG (NOT 0) addr }
      else if nr \<noteq> 0 then upd_word p (wr (m AND BITMAP_LAST_WORD_MASK sz)) addr
      else Some addr)"
  by pat_completeness auto
termination
  by (relation "measure (\<lambda>(wr, sz, p, nr, avail, m, addr). 2 * nr + (if avail = 64 then 0 else 1))") auto

declare write_words.simps [simp del]

definition bitmap_set :: "u64 list \<Rightarrow> nat \<Rightarrow> nat \<Rightarrow> u64 list option" where
  "bitmap_set addr start nr =
     write_words (\<lambda>m p. p OR m) (start + nr) (BIT_WORD start) nr (BITS_PER_LONG - start mod BITS_PER_LONG)
       (BITMAP_FIRST_WORD_MASK start) addr"

definition bitmap_clear :: "u64 list \<Rightarrow> nat \<Rightarrow> nat \<Rightarrow> u64 list option" where
  "bitmap_clear addr start nr =
     write_words (\<lambda>m p. p AND NOT m) (start + nr) (BIT_WORD start) nr (BITS_PER_LONG - start mod BITS_PER_LONG)
       (BITMAP_FIRST_WORD_MASK start) addr"

text \<open>On natural numbers, \<open>x & ~mask\<close> is \<open>x\<close> without the bits it shares with the mask.\<close>

definition ALIGN_MASK :: "nat \<Rightarrow> nat \<Rightarrow> nat" where
  "ALIGN_MASK x m = x + m - ((x + m) AND m)"

partial_function (option) bitmap_find_next_zero_area :: "u64 list \<Rightarrow> nat \<Rightarrow> nat \<Rightarrow> nat \<Rightarrow> nat \<Rightarrow> nat option" where
  "bitmap_find_next_zero_area addr sz start nr align_mask =
     do {
       index \<leftarrow> find_next_zero_bit addr sz start;
       let index = ALIGN_MASK index align_mask; en = index + nr in
       if en > sz then Some en
       else do {
         i \<leftarrow> find_next_bit addr en index;
         if i < en then bitmap_find_next_zero_area addr sz (i + 1) nr align_mask
         else Some index
       }
     }"

section \<open>The inline variants for bitmaps of one word\<close>

definition bitmap_zero :: "u64 list \<Rightarrow> nat \<Rightarrow> u64 list option" where
  "bitmap_zero dst nbits =
     (if small_nbits nbits then upd_word 0 (\<lambda>_. 0) dst
      else fill_words (\<lambda>_. Some 0) 0 (BITS_TO_LONGS nbits) dst)"

definition bitmap_fill :: "u64 list \<Rightarrow> nat \<Rightarrow> u64 list option" where
  "bitmap_fill dst nbits =
     do {
       dst \<leftarrow> (if \<not> small_nbits nbits then fill_words (\<lambda>_. Some (NOT 0)) 0 (BITS_TO_LONGS nbits - 1) dst
               else Some dst);
       upd_word (BITS_TO_LONGS nbits - 1) (\<lambda>_. BITMAP_LAST_WORD_MASK nbits) dst
     }"

definition bitmap_copy :: "u64 list \<Rightarrow> u64 list \<Rightarrow> nat \<Rightarrow> u64 list option" where
  "bitmap_copy dst src nbits =
     (if small_nbits nbits then do { w \<leftarrow> get_word src 0; upd_word 0 (\<lambda>_. w) dst }
      else fill_words (get_word src) 0 (BITS_TO_LONGS nbits) dst)"

definition bitmap_and :: "u64 list \<Rightarrow> u64 list \<Rightarrow> u64 list \<Rightarrow> nat \<Rightarrow> (bool \<times> u64 list) option" where
  "bitmap_and dst src1 src2 nbits =
     (if small_nbits nbits
      then do { w \<leftarrow> word2 (AND) src1 src2 0; dst \<leftarrow> upd_word 0 (\<lambda>_. w) dst; Some (w \<noteq> 0, dst) }
      else slow_bitmap_and dst src1 src2 nbits)"

definition bitmap_or :: "u64 list \<Rightarrow> u64 list \<Rightarrow> u64 list \<Rightarrow> nat \<Rightarrow> u64 list option" where
  "bitmap_or dst src1 src2 nbits =
     (if small_nbits nbits then do { w \<leftarrow> word2 (OR) src1 src2 0; upd_word 0 (\<lambda>_. w) dst }
      else slow_bitmap_or dst src1 src2 nbits)"

definition bitmap_xor :: "u64 list \<Rightarrow> u64 list \<Rightarrow> u64 list \<Rightarrow> nat \<Rightarrow> u64 list option" where
  "bitmap_xor dst src1 src2 nbits =
     (if small_nbits nbits then do { w \<leftarrow> word2 (XOR) src1 src2 0; upd_word 0 (\<lambda>_. w) dst }
      else slow_bitmap_xor dst src1 src2 nbits)"

definition bitmap_andnot :: "u64 list \<Rightarrow> u64 list \<Rightarrow> u64 list \<Rightarrow> nat \<Rightarrow> (bool \<times> u64 list) option" where
  "bitmap_andnot dst src1 src2 nbits =
     (if small_nbits nbits
      then do { w \<leftarrow> word2 (\<lambda>a b. a AND NOT b) src1 src2 0; dst \<leftarrow> upd_word 0 (\<lambda>_. w) dst; Some (w \<noteq> 0, dst) }
      else slow_bitmap_andnot dst src1 src2 nbits)"

definition bitmap_complement :: "u64 list \<Rightarrow> u64 list \<Rightarrow> nat \<Rightarrow> u64 list option" where
  "bitmap_complement dst src nbits =
     (if small_nbits nbits
      then do { w \<leftarrow> get_word src 0; upd_word 0 (\<lambda>_. NOT w AND BITMAP_LAST_WORD_MASK nbits) dst }
      else slow_bitmap_complement dst src nbits)"

definition bitmap_equal :: "u64 list \<Rightarrow> u64 list \<Rightarrow> nat \<Rightarrow> bool option" where
  "bitmap_equal src1 src2 nbits =
     (if small_nbits nbits
      then do { w \<leftarrow> word2 (XOR) src1 src2 0; Some (w AND BITMAP_LAST_WORD_MASK nbits = 0) }
      else slow_bitmap_equal src1 src2 nbits)"

definition bitmap_empty :: "u64 list \<Rightarrow> nat \<Rightarrow> bool option" where
  "bitmap_empty src nbits =
     (if small_nbits nbits then do { w \<leftarrow> get_word src 0; Some (w AND BITMAP_LAST_WORD_MASK nbits = 0) }
      else slow_bitmap_empty src nbits)"

definition bitmap_full :: "u64 list \<Rightarrow> nat \<Rightarrow> bool option" where
  "bitmap_full src nbits =
     (if small_nbits nbits then do { w \<leftarrow> get_word src 0; Some (NOT w AND BITMAP_LAST_WORD_MASK nbits = 0) }
      else slow_bitmap_full src nbits)"

definition bitmap_intersects :: "u64 list \<Rightarrow> u64 list \<Rightarrow> nat \<Rightarrow> bool option" where
  "bitmap_intersects src1 src2 nbits =
     (if small_nbits nbits
      then do { w \<leftarrow> word2 (AND) src1 src2 0; Some (w AND BITMAP_LAST_WORD_MASK nbits \<noteq> 0) }
      else slow_bitmap_intersects src1 src2 nbits)"

section \<open>Tests\<close>

lemma bit_last_mask: "bit (BITMAP_LAST_WORD_MASK n) k \<longleftrightarrow> k < 64 \<and> (n mod 64 = 0 \<or> k < n mod 64)"
proof -
  have "push_bit m 1 - 1 = (mask m :: u64)" for m by (simp add: mask_eq_exp_minus_1 push_bit_eq_mult)
  then show ?thesis by (auto simp: BITMAP_LAST_WORD_MASK_def bit_simps)
qed

lemma word_nonzero: "w \<noteq> 0 \<longleftrightarrow> (\<exists>k<64. bit (w :: u64) k)"
  by (auto simp: bit_eq_iff dest: bit_bound)

lemma scan_words_any:
  "(\<And>j. j \<in> {k..<k + n} \<Longrightarrow> f j = Some (P j)) \<Longrightarrow> scan_words f k n = Some (\<exists>j\<in>{k..<k + n}. P j)"
proof (induction n arbitrary: k)
  case (Suc n)
  have "{k..<k + Suc n} = insert k {Suc k..<Suc k + n}" by auto
  moreover from this have "scan_words f (Suc k) n = Some (\<exists>j\<in>{Suc k..<Suc k + n}. P j)"
    by (intro Suc.IH) (simp add: Suc.prems)
  ultimately show ?case by (simp add: Suc.prems)
qed simp

lemma bits_split:
  "(\<exists>i < n * 64 + f. P (i div 64) (i mod 64)) \<longleftrightarrow>
   (\<exists>j<n. \<exists>k<64. P j k) \<or> (\<exists>k<f. P n k)" if f: "f < 64" for n f :: nat
proof (intro iffI; (elim disjE)?)
  assume "\<exists>i < n * 64 + f. P (i div 64) (i mod 64)"
  then obtain i where i: "i < n * 64 + f" "P (i div 64) (i mod 64)" by blast
  show "(\<exists>j<n. \<exists>k<64. P j k) \<or> (\<exists>k<f. P n k)"
  proof (cases "i < n * 64")
    case True
    then have "i div 64 < n" "i mod 64 < 64" by (simp_all add: less_mult_imp_div_less)
    then show ?thesis using i(2) by blast
  next
    case False
    then obtain k where "i = n * 64 + k" "k < f" using word_offset [of n 0 i f] i(1) f by auto
    then show ?thesis using i(2) f by auto
  qed
next
  assume "\<exists>j<n. \<exists>k<64. P j k"
  then obtain j k where "j < n" "k < 64" "P j k" by blast
  then show "\<exists>i < n * 64 + f. P (i div 64) (i mod 64)" by (intro exI [of _ "j * 64 + k"]) auto
next
  assume "\<exists>k<f. P n k"
  then obtain k where "k < f" "P n k" by blast
  then show "\<exists>i < n * 64 + f. P (i div 64) (i mod 64)" using f by (intro exI [of _ "n * 64 + k"]) auto
qed

lemma scan_bitmap_any:
  assumes "\<And>k. k * 64 < bits \<Longrightarrow> f k = Some (g k)"
  shows "scan_bitmap f bits = Some (\<exists>i<bits. bit (g (i div 64)) (i mod 64))"
proof -
  define n r where "n = bits div 64" and "r = bits mod 64"
  have bits: "bits = n * 64 + r" "r < 64" by (simp_all add: n_def r_def)
  have scan: "scan_words (\<lambda>k. do { w \<leftarrow> f k; Some (w \<noteq> 0) }) 0 n = Some (\<exists>j\<in>{0..<0 + n}. g j \<noteq> 0)"
    by (rule scan_words_any) (use assms bits in auto)
  have last: "f n = Some (g n)" if "r \<noteq> 0" using assms [of n] bits that by simp
  have whole: "(\<exists>j\<in>{0..<0 + n}. g j \<noteq> 0) \<longleftrightarrow> (\<exists>j<n. \<exists>k<64. bit (g j) k)"
    using word_nonzero by auto
  have part: "g n AND BITMAP_LAST_WORD_MASK bits \<noteq> 0 \<longleftrightarrow> (\<exists>k<r. bit (g n) k)" if "r \<noteq> 0"
    using that bits(2) unfolding word_nonzero
    by (auto simp: bit_simps bit_last_mask r_def [symmetric]) (meson less_trans)
  have "scan_bitmap f bits = Some ((\<exists>j<n. \<exists>k<64. bit (g j) k) \<or> (\<exists>k<r. bit (g n) k))"
    using scan last part whole unfolding scan_bitmap_def Let_def n_def [symmetric] r_def [symmetric] by (cases "r = 0") auto
  then show ?thesis using bits_split [OF bits(2), of n "\<lambda>j k. bit (g j) k"] bits(1) by simp
qed

lemma scan_bitmap_small:
  assumes "0 < bits" "small_nbits bits" "f 0 = Some w"
  shows "scan_bitmap f bits = Some (w AND BITMAP_LAST_WORD_MASK bits \<noteq> 0)"
proof (cases "bits = 64")
  case True
  then show ?thesis using assms(3) by (simp add: scan_bitmap_def BITMAP_LAST_WORD_MASK_def)
next
  case False
  then show ?thesis using assms by (simp add: scan_bitmap_def small_nbits_def)
qed

lemma get_word_in: "k * 64 < bits \<Longrightarrow> bits \<le> 64 * length a \<Longrightarrow> get_word a k = Some (a ! k)"
  by (simp add: get_word_def)

lemma word2_in:
  "k * 64 < bits \<Longrightarrow> bits \<le> 64 * length a \<Longrightarrow> bits \<le> 64 * length b \<Longrightarrow> word2 f a b k = Some (f (a ! k) (b ! k))"
  by (simp add: word2_def get_word_def)

text \<open>The inline variants take the fast path for one word; both paths are the same test.\<close>

lemma bitmap_tests_slow:
  assumes "0 < bits" "bits \<le> 64 * length a" "bits \<le> 64 * length b"
  shows "bitmap_empty a bits = slow_bitmap_empty a bits" "bitmap_full a bits = slow_bitmap_full a bits"
    "bitmap_equal a b bits = slow_bitmap_equal a b bits" "bitmap_intersects a b bits = slow_bitmap_intersects a b bits"
proof -
  have w: "get_word a 0 = Some (a ! 0)" "word2 f a b 0 = Some (f (a ! 0) (b ! 0))" for f
    using get_word_in [of 0 bits a] word2_in [of 0 bits a b f] assms by auto
  note small = scan_bitmap_small [OF assms(1)]
  show "bitmap_empty a bits = slow_bitmap_empty a bits"
    using small [of "get_word a"] w by (auto simp: bitmap_empty_def slow_bitmap_empty_def)
  show "bitmap_full a bits = slow_bitmap_full a bits"
    using small [of "\<lambda>k. do { w \<leftarrow> get_word a k; Some (NOT w) }" "NOT (a ! 0)"] w by (auto simp: bitmap_full_def slow_bitmap_full_def)
  show "bitmap_equal a b bits = slow_bitmap_equal a b bits"
    using small [of "word2 (XOR) a b"] w by (auto simp: bitmap_equal_def slow_bitmap_equal_def)
  show "bitmap_intersects a b bits = slow_bitmap_intersects a b bits"
    using small [of "word2 (AND) a b"] w by (auto simp: bitmap_intersects_def slow_bitmap_intersects_def)
qed

text \<open>
  C23. The tests on bitmaps of any size, through the one-word fast path or the general loops,
  stay inside the arrays and depend on exactly the first \<open>bits\<close> bits: whether none or all of
  them are set, whether two bitmaps agree on them, and whether two bitmaps share a set bit.
\<close>

theorem bitmap_tests_correct:
  assumes "0 < bits" and "bits \<le> 64 * length a" and "bits \<le> 64 * length b"
  shows "bitmap_empty a bits = Some (\<forall>i<bits. \<not> array_bit a i) \<and>
    bitmap_full a bits = Some (\<forall>i<bits. array_bit a i) \<and>
    bitmap_equal a b bits = Some (\<forall>i<bits. array_bit a i = array_bit b i) \<and>
    bitmap_intersects a b bits = Some (\<exists>i<bits. array_bit a i \<and> array_bit b i)"
proof -
  have "scan_bitmap (get_word a) bits = Some (\<exists>i<bits. array_bit a i)"
    using scan_bitmap_any [of bits "get_word a" "\<lambda>k. a ! k"] get_word_in [OF _ assms(2)] by (simp add: array_bit_def)
  moreover have "scan_bitmap (\<lambda>k. do { w \<leftarrow> get_word a k; Some (NOT w) }) bits = Some (\<exists>i<bits. \<not> array_bit a i)"
    using scan_bitmap_any [of bits _ "\<lambda>k. NOT (a ! k)"] get_word_in [OF _ assms(2)] by (simp add: array_bit_def bit_simps)
  moreover have "scan_bitmap (word2 (XOR) a b) bits = Some (\<exists>i<bits. array_bit a i \<noteq> array_bit b i)"
    using scan_bitmap_any [of bits "word2 (XOR) a b" "\<lambda>k. a ! k XOR b ! k"] word2_in [OF _ assms(2,3)]
    by (simp add: array_bit_def bit_simps)
  moreover have "scan_bitmap (word2 (AND) a b) bits = Some (\<exists>i<bits. array_bit a i \<and> array_bit b i)"
    using scan_bitmap_any [of bits "word2 (AND) a b" "\<lambda>k. a ! k AND b ! k"] word2_in [OF _ assms(2,3)]
    by (simp add: array_bit_def bit_simps)
  ultimately show ?thesis
    unfolding bitmap_tests_slow [OF assms]
    by (simp add: slow_bitmap_empty_def slow_bitmap_full_def slow_bitmap_equal_def slow_bitmap_intersects_def)
qed

theorem bitmap_tests_correct_witness:
  "bitmap_empty [0, 0x10] 68 = Some True \<and> bitmap_intersects [0, 0x1f] [1, 0x10] 68 = Some False"
proof -
  have "\<not> array_bit [x, 0x10] i \<or> i < 64" if i: "i < 68" for x i
  proof (cases "i < 64")
    case False
    then obtain k where "i = 1 * 64 + k" "k < 4" using word_offset [of 1 0 i 4] i by auto
    moreover from this(2) have "k = 0 \<or> k = 1 \<or> k = 2 \<or> k = 3" by linarith
    ultimately show ?thesis by (auto simp: array_bit_def)
  qed simp
  moreover have "\<not> array_bit (0 # xs) i" if "i < 64" for xs i using that by (simp add: array_bit_def)
  ultimately show ?thesis
    using bitmap_tests_correct [of 68 "[0, 0x10]" "[1, 0x10]"] bitmap_tests_correct [of 68 "[0, 0x1f]" "[1, 0x10]"]
    by auto
qed

section \<open>Word-wise operations\<close>

lemma fill_words_value:
  "(\<And>j. k \<le> j \<Longrightarrow> j < k + n \<Longrightarrow> f j = Some (g j)) \<Longrightarrow> k + n \<le> length dst \<Longrightarrow>
   \<exists>dst'. fill_words f k n dst = Some dst' \<and> length dst' = length dst \<and>
     (\<forall>j<length dst. dst' ! j = (if k \<le> j \<and> j < k + n then g j else dst ! j))"
proof (induction n arbitrary: k dst)
  case (Suc n)
  let ?d = "dst[k := g k]"
  obtain dst' where d: "fill_words f (Suc k) n ?d = Some dst'" "length dst' = length ?d"
    "\<forall>j<length ?d. dst' ! j = (if Suc k \<le> j \<and> j < Suc k + n then g j else ?d ! j)"
    using Suc.IH [of "Suc k" ?d] Suc.prems by auto
  moreover have "f k = Some (g k)" "k < length dst" using Suc.prems by auto
  ultimately show ?case by (auto simp: upd_word_def get_word_def nth_list_update)
qed auto

lemma fill_words_bits:
  assumes "\<And>j. j < n \<Longrightarrow> f j = Some (g j)" "n \<le> length dst" "bits \<le> 64 * n"
  shows "\<exists>dst'. fill_words f 0 n dst = Some dst' \<and> length dst' = length dst \<and>
    (\<forall>i<bits. array_bit dst' i = bit (g (i div 64)) (i mod 64))"
proof -
  obtain dst' where d: "fill_words f 0 n dst = Some dst'" "length dst' = length dst"
    "\<forall>j<length dst. dst' ! j = (if 0 \<le> j \<and> j < 0 + n then g j else dst ! j)"
    using fill_words_value [of 0 n f g dst] assms(1,2) by auto
  moreover have "dst' ! (i div 64) = g (i div 64)" if i: "i < bits" for i
  proof -
    have "i div 64 < n" using i assms(3) by (simp add: less_mult_imp_div_less mult.commute)
    then show ?thesis using d(3) assms(2) by simp
  qed
  ultimately show ?thesis by (simp add: array_bit_def)
qed

lemma longs_bound: "bits \<le> 64 * BITS_TO_LONGS bits" "j < BITS_TO_LONGS bits \<Longrightarrow> j * 64 < bits"
  by (auto simp: BITS_TO_LONGS_def)

lemma longs_le: "bits \<le> 64 * n \<Longrightarrow> BITS_TO_LONGS bits \<le> n"
  by (auto simp: BITS_TO_LONGS_def)

lemma word2_bits:
  assumes "bits \<le> 64 * length a" "bits \<le> 64 * length b" "bits \<le> 64 * length dst"
  shows "\<exists>dst'. fill_words (word2 f a b) 0 (BITS_TO_LONGS bits) dst = Some dst' \<and> length dst' = length dst \<and>
    (\<forall>i<bits. array_bit dst' i = bit (f (a ! (i div 64)) (b ! (i div 64))) (i mod 64))"
  by (rule fill_words_bits) (use assms word2_in [OF longs_bound(2) assms(1,2)] longs_bound(1) longs_le in auto)

lemma one_long: "0 < bits \<Longrightarrow> bits \<le> 64 \<Longrightarrow> BITS_TO_LONGS bits = 1"
  by (auto simp: BITS_TO_LONGS_def)

lemma fill_one: "fill_words f 0 (Suc 0) dst = do { w \<leftarrow> f 0; upd_word 0 (\<lambda>_. w) dst }"
  by (cases "f 0") (auto simp: upd_word_def get_word_def)

text \<open>The fast path for one word and the loop store the same words.\<close>

lemma bitmap_ops_slow:
  assumes "0 < bits"
  shows "bitmap_or dst a b bits = slow_bitmap_or dst a b bits" "bitmap_xor dst a b bits = slow_bitmap_xor dst a b bits"
  using assms one_long [OF assms]
  by (auto simp: bitmap_or_def bitmap_xor_def slow_bitmap_or_def slow_bitmap_xor_def small_nbits_def fill_one
      simp del: fill_words.simps)

text \<open>
  The union and the symmetric difference of two bitmaps, through the fast path or the
  loop, stay inside the arrays and compute every one of the first \<open>bits\<close> bits.
\<close>

lemma bitmap_or_xor_correct:
  assumes "0 < bits" and "bits \<le> 64 * length a" and "bits \<le> 64 * length b" and "bits \<le> 64 * length dst"
  shows "(\<exists>d. bitmap_or dst a b bits = Some d \<and> (\<forall>i<bits. array_bit d i = (array_bit a i \<or> array_bit b i))) \<and>
    (\<exists>d. bitmap_xor dst a b bits = Some d \<and> (\<forall>i<bits. array_bit d i = (array_bit a i \<noteq> array_bit b i)))"
  using word2_bits [OF assms(2-4), of "(OR)"] word2_bits [OF assms(2-4), of "(XOR)"]
  unfolding bitmap_ops_slow [OF assms(1)] slow_bitmap_or_def slow_bitmap_xor_def
  by (auto simp: array_bit_def bit_simps)

text \<open>
  The intersection of two bitmaps reports a common bit although the bitmaps share none of
  their first \<open>bits\<close> bits: its result also counts the unused bits of the last word, which the
  module's description says are filtered out of every Boolean result.
\<close>

theorem bitmap_and_counts_unused_bits:
  "bitmap_intersects [0x10] [0x10] 4 = Some False \<and> bitmap_and [0] [0x10] [0x10] 4 = Some (True, [0x10])"
  by (simp add: bitmap_intersects_def bitmap_and_def small_nbits_def word2_def get_word_def upd_word_def
      BITMAP_LAST_WORD_MASK_def)

section \<open>Writing a range of bits\<close>

lemma write_word_bits:
  assumes "p < length addr" "\<And>w k. k < 64 \<Longrightarrow> bit (wr m w) k = (if bit m k then v else bit w k)"
    and "\<And>k. k < 64 \<Longrightarrow> bit m k \<longleftrightarrow> lo \<le> p * 64 + k \<and> p * 64 + k < hi" "p * 64 \<le> lo" "hi \<le> p * 64 + 64"
  shows "upd_word p (wr m) addr = Some (addr[p := wr m (addr ! p)]) \<and>
    (\<forall>i. array_bit (addr[p := wr m (addr ! p)]) i = (if lo \<le> i \<and> i < hi then v else array_bit addr i))"
proof -
  have "array_bit (addr[p := wr m (addr ! p)]) i = (if lo \<le> i \<and> i < hi then v else array_bit addr i)" for i
  proof (cases "i div 64 = p")
    case True
    then have i: "i = p * 64 + i mod 64" by (metis div_mult_mod_eq)
    then show ?thesis using True assms(1) assms(2) [of "i mod 64" "addr ! p"] assms(3) [of "i mod 64"]
      by (simp add: array_bit_def)
  next
    case False
    then have "i < p * 64 \<or> p * 64 + 64 \<le> i" by auto
    then show ?thesis using False assms(4,5) by (auto simp: array_bit_def)
  qed
  then show ?thesis using assms(1) by (simp add: upd_word_def get_word_def)
qed

text \<open>
  The loop writes the bits from \<open>cur\<close>, the first bit of the range that is not yet written, to
  the end of the range.
\<close>

lemma write_words_bits:
  assumes wr: "\<And>m w k. k < 64 \<Longrightarrow> bit (wr m w) k = (if bit m k then v else bit w k)"
  shows "cur = p * 64 + (64 - avail) \<Longrightarrow> 0 < avail \<Longrightarrow> avail \<le> 64 \<Longrightarrow> cur + nr = sz \<Longrightarrow> sz \<le> 64 * length addr \<Longrightarrow>
    (\<And>k. k < 64 \<Longrightarrow> bit m k \<longleftrightarrow> 64 - avail \<le> k) \<Longrightarrow>
    \<exists>addr'. write_words wr sz p nr avail m addr = Some addr' \<and> length addr' = length addr \<and>
      (\<forall>i. array_bit addr' i = (if cur \<le> i \<and> i < sz then v else array_bit addr i))"
  using wr
proof (induction wr sz p nr avail m addr arbitrary: cur rule: write_words.induct)
  case (1 wr sz p nr avail m addr)
  note prems = 1(2-7) and op = 1(8)
  show ?case
  proof (cases "avail \<le> nr")
    case True
    let ?a = "addr[p := wr m (addr ! p)]"
    have p: "p < length addr" using prems True by auto
    have mb: "bit m k \<longleftrightarrow> cur \<le> p * 64 + k \<and> p * 64 + k < p * 64 + 64" if "k < 64" for k
      using prems(6) [OF that] prems(1) that by auto
    have c: "p * 64 \<le> cur" using prems(1) by simp
    have W: "upd_word p (wr m) addr = Some ?a \<and>
      (\<forall>i. array_bit ?a i = (if cur \<le> i \<and> i < p * 64 + 64 then v else array_bit addr i))"
      by (rule write_word_bits [of p addr wr m v cur "p * 64 + 64"]) (use p op mb c in blast)+
    note w = W [THEN conjunct1] W [THEN conjunct2, rule_format]
    have step: "\<exists>addr'. write_words wr sz (Suc p) (nr - avail) 64 (NOT 0) ?a = Some addr' \<and> length addr' = length ?a \<and>
      (\<forall>i. array_bit addr' i = (if Suc p * 64 \<le> i \<and> i < sz then v else array_bit ?a i))"
      by (rule "1.IH" [OF True w(1)]) (use prems True op in \<open>auto simp: bit_simps\<close>)
    then show ?thesis
      using True w prems(1,2,3,4) by (subst write_words.simps) (auto simp: not_le)
  next
    case False
    show ?thesis
    proof (cases "nr = 0")
      case True
      then show ?thesis using False prems by (subst write_words.simps) auto
    next
      case nz: False
      define f where "f = sz - p * 64"
      have f: "sz = p * 64 + f" "f < 64" "0 < f" using prems(1-4) False nz by (auto simp: f_def)
      then have sm: "sz mod 64 = f" by simp
      have p: "p < length addr" using prems nz by auto
      let ?m = "m AND BITMAP_LAST_WORD_MASK sz"
      have mb: "bit ?m k \<longleftrightarrow> cur \<le> p * 64 + k \<and> p * 64 + k < sz" if "k < 64" for k
        using that prems(6) [OF that] prems(1) f by (auto simp: bit_simps bit_last_mask sm)
      have c: "p * 64 \<le> cur" "sz \<le> p * 64 + 64" using prems(1,3,4) False by auto
      have "upd_word p (wr ?m) addr = Some (addr[p := wr ?m (addr ! p)]) \<and>
        (\<forall>i. array_bit (addr[p := wr ?m (addr ! p)]) i = (if cur \<le> i \<and> i < sz then v else array_bit addr i))"
        by (rule write_word_bits [of p addr wr ?m v cur sz]) (use p op mb c in blast)+
      then show ?thesis using False nz by (subst write_words.simps) simp
    qed
  qed
qed

lemma bit_first_mask: "k < 64 \<Longrightarrow> bit (BITMAP_FIRST_WORD_MASK start) k \<longleftrightarrow> start mod 64 \<le> k"
  by (auto simp: BITMAP_FIRST_WORD_MASK_def bit_simps)

text \<open>
  C24. Setting and clearing a range of bits stays inside the array and changes exactly the bits
  of the range.
\<close>

theorem bitmap_set_clear_correct:
  assumes "start + nr \<le> 64 * length addr"
  shows "(\<exists>a. bitmap_set addr start nr = Some a \<and> length a = length addr \<and>
      (\<forall>i. array_bit a i = (start \<le> i \<and> i < start + nr \<or> array_bit addr i))) \<and>
    (\<exists>a. bitmap_clear addr start nr = Some a \<and> length a = length addr \<and>
      (\<forall>i. array_bit a i = (\<not> (start \<le> i \<and> i < start + nr) \<and> array_bit addr i)))"
proof -
  have st: "start = BIT_WORD start * 64 + (64 - (64 - start mod 64))" by (simp add: BIT_WORD_def)
  have "\<exists>a. bitmap_set addr start nr = Some a \<and> length a = length addr \<and>
      (\<forall>i. array_bit a i = (if start \<le> i \<and> i < start + nr then True else array_bit addr i))"
    unfolding bitmap_set_def
    by (rule write_words_bits [OF _ st]) (use assms bit_first_mask in \<open>auto simp: bit_simps\<close>)
  moreover have "\<exists>a. bitmap_clear addr start nr = Some a \<and> length a = length addr \<and>
      (\<forall>i. array_bit a i = (if start \<le> i \<and> i < start + nr then False else array_bit addr i))"
    unfolding bitmap_clear_def
    by (rule write_words_bits [OF _ st]) (use assms bit_first_mask in \<open>auto simp: bit_simps\<close>)
  ultimately show ?thesis by auto
qed

theorem bitmap_set_clear_correct_witness:
  "\<exists>a. bitmap_set [0, 0] 60 10 = Some a \<and> array_bit a 64 \<and> \<not> array_bit a 70"
proof -
  obtain a where "bitmap_set [0, 0] 60 10 = Some a"
    and a: "\<And>i. array_bit a i = (60 \<le> i \<and> i < 60 + 10 \<or> array_bit [0, 0] i)"
    using bitmap_set_clear_correct [of 60 10 "[0, 0]"] by auto
  moreover have "\<not> array_bit [0, 0] 70" by (simp add: array_bit_def)
  then have "array_bit a 64" "\<not> array_bit a 70" using a [of 64] a [of 70] by simp_all
  ultimately show ?thesis by blast
qed

section \<open>Searching for a clear area\<close>

text \<open>For a mask of \<open>k\<close> bits, alignment rounds up to the next multiple of \<open>2 ^ k\<close>.\<close>

lemma align_least:
  fixes x k :: nat
  defines "y \<equiv> ALIGN_MASK x (2 ^ k - 1)"
  shows "x \<le> y" "2 ^ k dvd y" "\<And>z. x \<le> z \<Longrightarrow> 2 ^ k dvd z \<Longrightarrow> y \<le> z"
proof -
  let ?m = "2 ^ k - 1 :: nat"
  have "(x + ?m) AND ?m = (x + ?m) mod 2 ^ k"
    using take_bit_eq_mask [of k "x + ?m"] by (simp add: mask_eq_exp_minus_1 take_bit_eq_mod)
  then have y: "y = (x + ?m) div 2 ^ k * 2 ^ k"
    by (simp add: y_def ALIGN_MASK_def minus_mod_eq_div_mult)
  have "(x + ?m) mod 2 ^ k < 2 ^ k" by simp
  then have "(x + ?m) mod 2 ^ k \<le> ?m" by linarith
  then show "x \<le> y" using minus_mod_eq_div_mult [of "x + ?m" "2 ^ k"] unfolding y by linarith
  show "2 ^ k dvd y" by (simp add: y)
  show "y \<le> z" if z: "x \<le> z" "2 ^ k dvd z" for z
  proof -
    obtain q where q: "z = q * 2 ^ k" using z(2) by (auto elim: dvdE simp: mult.commute)
    have "(x + ?m) div 2 ^ k \<le> (q * 2 ^ k + ?m) div 2 ^ k" using z(1) q by (intro div_le_mono) simp
    also have "\<dots> = q + ?m div 2 ^ k" by (rule div_mult_self3) simp
    also have "\<dots> = q" by simp
    finally show ?thesis unfolding y q by (rule mult_le_mono1)
  qed
qed

definition clear_area :: "u64 list \<Rightarrow> nat \<Rightarrow> nat \<Rightarrow> nat \<Rightarrow> nat \<Rightarrow> nat \<Rightarrow> bool" where
  "clear_area addr sz start nr k x \<longleftrightarrow>
     start \<le> x \<and> 2 ^ k dvd x \<and> x + nr \<le> sz \<and> (\<forall>j. x \<le> j \<and> j < x + nr \<longrightarrow> \<not> array_bit addr j)"

definition first_area :: "u64 list \<Rightarrow> nat \<Rightarrow> nat \<Rightarrow> nat \<Rightarrow> nat \<Rightarrow> nat \<Rightarrow> bool" where
  "first_area addr sz start nr k r \<longleftrightarrow>
     (clear_area addr sz start nr k r \<and> (\<forall>x<r. \<not> clear_area addr sz start nr k x)) \<or>
     (sz < r \<and> (\<forall>x. \<not> clear_area addr sz start nr k x))"

text \<open>No area begins before the aligned position of the next clear bit.\<close>

lemma area_after:
  assumes "next_in (\<lambda>i. \<not> array_bit addr i) start sz i" "clear_area addr sz start nr k x" "0 < nr"
  shows "ALIGN_MASK i (2 ^ k - 1) \<le> x"
proof -
  have x: "start \<le> x" "x < sz" "\<not> array_bit addr x" "2 ^ k dvd x" using assms(2,3) by (auto simp: clear_area_def)
  then have "i \<le> x" using assms(1) by (meson next_in_def not_le)
  then show ?thesis using align_least(3) x(4) by blast
qed

lemma zero_area_first:
  assumes "sz \<le> 64 * length addr" "0 < nr"
  shows "start \<le> sz \<Longrightarrow> \<exists>r. bitmap_find_next_zero_area addr sz start nr (2 ^ k - 1) = Some r \<and> first_area addr sz start nr k r"
proof (induction "sz - start" arbitrary: start rule: less_induct)
  case less
  let ?P = "\<lambda>i. \<not> array_bit addr i"
  let ?f = "\<lambda>st. bitmap_find_next_zero_area addr sz st nr (2 ^ k - 1)"
  obtain i where i: "find_next_zero_bit addr sz start = Some i" "next_in ?P start sz i"
    using find_next_zero_bit_next [OF assms(1) less.prems] by blast
  define x where "x = ALIGN_MASK i (2 ^ k - 1)"
  have x: "i \<le> x" "2 ^ k dvd x" and lo: "start \<le> i" 
    using align_least(1) [of i k] align_least(2) [of k i] i(2) unfolding x_def next_in_def by blast+
  have after: "x \<le> y" if "clear_area addr sz start nr k y" for y using area_after [OF i(2) that assms(2)] x_def by simp
  have step: "?f start = (if x + nr > sz then Some (x + nr)
      else do { j \<leftarrow> find_next_bit addr (x + nr) x; if j < x + nr then ?f (j + 1) else Some x })"
    by (subst bitmap_find_next_zero_area.simps) (simp only: i(1) Option.bind_lunit Let_def x_def [symmetric])
  show ?case
  proof (cases "x + nr > sz")
    case True
    then have "first_area addr sz start nr k (x + nr)"
      using after by (auto simp: first_area_def clear_area_def)
    then show ?thesis using step True by simp
  next
    case False
    obtain j where j: "find_next_bit addr (x + nr) x = Some j" "next_in (array_bit addr) x (x + nr) j"
      using find_next_bit_next [of "x + nr" addr x] assms(1) False by auto
    show ?thesis
    proof (cases "j < x + nr")
      case True
      then have bit: "array_bit addr j" "x \<le> j" using j(2) by (auto simp: next_in_def)
      have "sz - (j + 1) < sz - start" "j + 1 \<le> sz" using bit(2) x(1) lo True False by auto
      from less.hyps [OF this] obtain r where r: "?f (j + 1) = Some r" "first_area addr sz (j + 1) nr k r" by blast
      have "clear_area addr sz start nr k y \<longleftrightarrow> clear_area addr sz (j + 1) nr k y" for y
      proof
        assume c: "clear_area addr sz start nr k y"
        then have "\<not> (y \<le> j \<and> j < y + nr)" using bit(1) by (auto simp: clear_area_def)
        then have "j < y" using after [OF c] True by linarith
        then show "clear_area addr sz (j + 1) nr k y" using c by (auto simp: clear_area_def)
      qed (use bit(2) x(1) lo in \<open>auto simp: clear_area_def\<close>)
      then show ?thesis using step False j(1) True r by (simp add: first_area_def)
    next
      case False2: False
      then have "j = x + nr" using j(2) by (simp add: next_in_def)
      then have "clear_area addr sz start nr k x" using j(2) x lo False by (auto simp: clear_area_def next_in_def)
      then have "first_area addr sz start nr k x" using after unfolding first_area_def by (meson not_le)
      then show ?thesis using step False j(1) False2 by simp
    qed
  qed
qed



end
