(* ===== verification/Bswap.thy ===== *)
theory Bswap
  imports QPrelude
begin

text \<open>
  Byte order (\<open>bswap.h\<close>): the byte swaps, the unaligned conversions and the loads and stores of
  either endianness, in the portable C of the header (the branches without inline assembly).
  Memory is a list of bytes and a pointer a position in it; an access outside of the list is
  \<open>None\<close>. The \<open>int\<close> that a load returns or a store takes is the 32-bit word of its bits.
\<close>

unbundle bit_operations_syntax

section \<open>Byte swaps\<close>

definition bswap_16 :: "u16 \<Rightarrow> u16" where
  "bswap_16 x = push_bit 8 (x AND 0x00ff) OR drop_bit 8 (x AND 0xff00)"

definition bswap_32 :: "u32 \<Rightarrow> u32" where
  "bswap_32 x =
     push_bit 24 (x AND 0x000000ff) OR
     push_bit 8 (x AND 0x0000ff00) OR
     drop_bit 8 (x AND 0x00ff0000) OR
     drop_bit 24 (x AND 0xff000000)"

definition bswap_64 :: "u64 \<Rightarrow> u64" where
  "bswap_64 x =
     push_bit 56 (x AND 0x00000000000000ff) OR
     push_bit 40 (x AND 0x000000000000ff00) OR
     push_bit 24 (x AND 0x0000000000ff0000) OR
     push_bit 8 (x AND 0x00000000ff000000) OR
     drop_bit 8 (x AND 0x000000ff00000000) OR
     drop_bit 24 (x AND 0x0000ff0000000000) OR
     drop_bit 40 (x AND 0x00ff000000000000) OR
     drop_bit 56 (x AND 0xff00000000000000)"

definition bswap16 :: "u16 \<Rightarrow> u16" where
  "bswap16 x = bswap_16 x"

definition bswap32 :: "u32 \<Rightarrow> u32" where
  "bswap32 x = bswap_32 x"

definition bswap64 :: "u64 \<Rightarrow> u64" where
  "bswap64 x = bswap_64 x"

text \<open>
  \<open>len\<close> is one of 1, 2 and 4. A count of 32 or more, or a negative one, would be undefined.
\<close>

definition qemu_bswap_len :: "u32 \<Rightarrow> nat \<Rightarrow> u32 option" where
  "qemu_bswap_len value len =
     do { c_assert (0 < len \<and> len \<le> 4); Some (drop_bit (32 - 8 * len) (bswap32 value)) }"

section \<open>Bytes in memory\<close>

definition get_byte :: "u8 list \<Rightarrow> nat \<Rightarrow> u8 option" where
  "get_byte mem i = (if i < length mem then Some (mem ! i) else None)"

definition put_byte :: "nat \<Rightarrow> u8 \<Rightarrow> u8 list \<Rightarrow> u8 list option" where
  "put_byte i b mem = (if i < length mem then Some (mem[i := b]) else None)"

text \<open>The low byte of a value after a shift, as a store to \<open>uint8_t\<close> takes it.\<close>

abbreviation byte_of :: "nat \<Rightarrow> 'a::len word \<Rightarrow> u8" where
  "byte_of k v \<equiv> ucast (drop_bit k v)"

definition cpu_to_le16wu :: "nat \<Rightarrow> u16 \<Rightarrow> u8 list \<Rightarrow> u8 list option" where
  "cpu_to_le16wu p v mem =
     do { mem \<leftarrow> put_byte p (ucast (v AND 0xff)) mem; put_byte (p + 1) (byte_of 8 v) mem }"

definition cpu_to_le32wu :: "nat \<Rightarrow> u32 \<Rightarrow> u8 list \<Rightarrow> u8 list option" where
  "cpu_to_le32wu p v mem =
     do {
       mem \<leftarrow> put_byte p (ucast (v AND 0xff)) mem;
       mem \<leftarrow> put_byte (p + 1) (byte_of 8 v) mem;
       mem \<leftarrow> put_byte (p + 2) (byte_of 16 v) mem;
       put_byte (p + 3) (byte_of 24 v) mem
     }"

definition le16_to_cpupu :: "nat \<Rightarrow> u8 list \<Rightarrow> u16 option" where
  "le16_to_cpupu p mem =
     do {
       b0 \<leftarrow> get_byte mem p; b1 \<leftarrow> get_byte mem (p + 1);
       Some (ucast (ucast b0 OR push_bit 8 (ucast b1) :: u32))
     }"

definition le32_to_cpupu :: "nat \<Rightarrow> u8 list \<Rightarrow> u32 option" where
  "le32_to_cpupu p mem =
     do {
       b0 \<leftarrow> get_byte mem p; b1 \<leftarrow> get_byte mem (p + 1);
       b2 \<leftarrow> get_byte mem (p + 2); b3 \<leftarrow> get_byte mem (p + 3);
       Some (ucast b0 OR push_bit 8 (ucast b1) OR push_bit 16 (ucast b2) OR push_bit 24 (ucast b3))
     }"

definition be32_to_cpupu :: "nat \<Rightarrow> u8 list \<Rightarrow> u32 option" where
  "be32_to_cpupu p mem =
     do {
       b3 \<leftarrow> get_byte mem (p + 3); b2 \<leftarrow> get_byte mem (p + 2);
       b1 \<leftarrow> get_byte mem (p + 1); b0 \<leftarrow> get_byte mem p;
       Some (ucast b3 OR push_bit 8 (ucast b2) OR push_bit 16 (ucast b1) OR push_bit 24 (ucast b0))
     }"

definition cpu_to_be16wu :: "nat \<Rightarrow> u16 \<Rightarrow> u8 list \<Rightarrow> u8 list option" where
  "cpu_to_be16wu p v mem =
     do { mem \<leftarrow> put_byte p (byte_of 8 v) mem; put_byte (p + 1) (ucast (v AND 0xff)) mem }"

definition cpu_to_be32wu :: "nat \<Rightarrow> u32 \<Rightarrow> u8 list \<Rightarrow> u8 list option" where
  "cpu_to_be32wu p v mem =
     do {
       mem \<leftarrow> put_byte p (byte_of 24 v) mem;
       mem \<leftarrow> put_byte (p + 1) (byte_of 16 v) mem;
       mem \<leftarrow> put_byte (p + 2) (byte_of 8 v) mem;
       put_byte (p + 3) (ucast (v AND 0xff)) mem
     }"

definition cpu_to_be64wu :: "nat \<Rightarrow> u64 \<Rightarrow> u8 list \<Rightarrow> u8 list option" where
  "cpu_to_be64wu p v mem =
     do {
       mem \<leftarrow> put_byte p (byte_of 56 v) mem;
       mem \<leftarrow> put_byte (p + 1) (byte_of 48 v) mem;
       mem \<leftarrow> put_byte (p + 2) (byte_of 40 v) mem;
       mem \<leftarrow> put_byte (p + 3) (byte_of 32 v) mem;
       mem \<leftarrow> put_byte (p + 4) (byte_of 24 v) mem;
       mem \<leftarrow> put_byte (p + 5) (byte_of 16 v) mem;
       mem \<leftarrow> put_byte (p + 6) (byte_of 8 v) mem;
       put_byte (p + 7) (ucast (v AND 0xff)) mem
     }"

section \<open>Loads and stores\<close>

definition ldub_p :: "nat \<Rightarrow> u8 list \<Rightarrow> u32 option" where
  "ldub_p ptr mem = do { b \<leftarrow> get_byte mem ptr; Some (ucast b) }"

definition ldsb_p :: "nat \<Rightarrow> u8 list \<Rightarrow> u32 option" where
  "ldsb_p ptr mem = do { b \<leftarrow> get_byte mem ptr; Some (scast b) }"

definition stb_p :: "nat \<Rightarrow> u32 \<Rightarrow> u8 list \<Rightarrow> u8 list option" where
  "stb_p ptr v mem = put_byte ptr (ucast v) mem"

definition lduw_le_p :: "nat \<Rightarrow> u8 list \<Rightarrow> u32 option" where
  "lduw_le_p p mem =
     do {
       b0 \<leftarrow> get_byte mem p; b1 \<leftarrow> get_byte mem (p + 1);
       Some (ucast b0 OR push_bit 8 (ucast b1))
     }"

definition ldsw_le_p :: "nat \<Rightarrow> u8 list \<Rightarrow> u32 option" where
  "ldsw_le_p p mem =
     do {
       b0 \<leftarrow> get_byte mem p; b1 \<leftarrow> get_byte mem (p + 1);
       Some (scast (ucast (ucast b0 OR push_bit 8 (ucast b1) :: u32) :: u16))
     }"

definition ldl_le_p :: "nat \<Rightarrow> u8 list \<Rightarrow> u32 option" where
  "ldl_le_p p mem =
     do {
       b0 \<leftarrow> get_byte mem p; b1 \<leftarrow> get_byte mem (p + 1);
       b2 \<leftarrow> get_byte mem (p + 2); b3 \<leftarrow> get_byte mem (p + 3);
       Some (ucast b0 OR push_bit 8 (ucast b1) OR push_bit 16 (ucast b2) OR push_bit 24 (ucast b3))
     }"

definition ldq_le_p :: "nat \<Rightarrow> u8 list \<Rightarrow> u64 option" where
  "ldq_le_p p mem =
     do {
       v1 \<leftarrow> ldl_le_p p mem;
       v2 \<leftarrow> ldl_le_p (p + 4) mem;
       Some (ucast v1 OR push_bit 32 (ucast v2))
     }"

definition stw_le_p :: "nat \<Rightarrow> u32 \<Rightarrow> u8 list \<Rightarrow> u8 list option" where
  "stw_le_p p v mem = do { mem \<leftarrow> put_byte p (ucast v) mem; put_byte (p + 1) (byte_of 8 v) mem }"

definition stl_le_p :: "nat \<Rightarrow> u32 \<Rightarrow> u8 list \<Rightarrow> u8 list option" where
  "stl_le_p p v mem =
     do {
       mem \<leftarrow> put_byte p (ucast v) mem;
       mem \<leftarrow> put_byte (p + 1) (byte_of 8 v) mem;
       mem \<leftarrow> put_byte (p + 2) (byte_of 16 v) mem;
       put_byte (p + 3) (byte_of 24 v) mem
     }"

definition stq_le_p :: "nat \<Rightarrow> u64 \<Rightarrow> u8 list \<Rightarrow> u8 list option" where
  "stq_le_p p v mem =
     do { mem \<leftarrow> stl_le_p p (ucast v) mem; stl_le_p (p + 4) (ucast (drop_bit 32 v)) mem }"

definition lduw_be_p :: "nat \<Rightarrow> u8 list \<Rightarrow> u32 option" where
  "lduw_be_p b mem =
     do {
       b0 \<leftarrow> get_byte mem b; b1 \<leftarrow> get_byte mem (b + 1);
       Some (push_bit 8 (ucast b0) OR ucast b1)
     }"

definition ldsw_be_p :: "nat \<Rightarrow> u8 list \<Rightarrow> u32 option" where
  "ldsw_be_p b mem =
     do {
       b0 \<leftarrow> get_byte mem b; b1 \<leftarrow> get_byte mem (b + 1);
       Some (scast (ucast (push_bit 8 (ucast b0) OR ucast b1 :: u32) :: u16))
     }"

definition ldl_be_p :: "nat \<Rightarrow> u8 list \<Rightarrow> u32 option" where
  "ldl_be_p b mem =
     do {
       b0 \<leftarrow> get_byte mem b; b1 \<leftarrow> get_byte mem (b + 1);
       b2 \<leftarrow> get_byte mem (b + 2); b3 \<leftarrow> get_byte mem (b + 3);
       Some (push_bit 24 (ucast b0) OR push_bit 16 (ucast b1) OR push_bit 8 (ucast b2) OR ucast b3)
     }"

definition ldq_be_p :: "nat \<Rightarrow> u8 list \<Rightarrow> u64 option" where
  "ldq_be_p ptr mem =
     do {
       a \<leftarrow> ldl_be_p ptr mem;
       b \<leftarrow> ldl_be_p (ptr + 4) mem;
       Some (push_bit 32 (ucast a) OR ucast b)
     }"

definition stw_be_p :: "nat \<Rightarrow> u32 \<Rightarrow> u8 list \<Rightarrow> u8 list option" where
  "stw_be_p d v mem = do { mem \<leftarrow> put_byte d (byte_of 8 v) mem; put_byte (d + 1) (ucast v) mem }"

definition stl_be_p :: "nat \<Rightarrow> u32 \<Rightarrow> u8 list \<Rightarrow> u8 list option" where
  "stl_be_p d v mem =
     do {
       mem \<leftarrow> put_byte d (byte_of 24 v) mem;
       mem \<leftarrow> put_byte (d + 1) (byte_of 16 v) mem;
       mem \<leftarrow> put_byte (d + 2) (byte_of 8 v) mem;
       put_byte (d + 3) (ucast v) mem
     }"

definition stq_be_p :: "nat \<Rightarrow> u64 \<Rightarrow> u8 list \<Rightarrow> u8 list option" where
  "stq_be_p ptr v mem =
     do { mem \<leftarrow> stl_be_p ptr (ucast (drop_bit 32 v)) mem; stl_be_p (ptr + 4) (ucast v) mem }"

section \<open>Byte sequences as numbers\<close>

text \<open>The number that bytes stand for, least significant first, and the bytes of a number.\<close>

fun le_val :: "u8 list \<Rightarrow> 'a::len word" where
  "le_val [] = 0"
| "le_val (b # bs) = ucast b OR push_bit 8 (le_val bs)"

definition le_bytes :: "nat \<Rightarrow> 'a::len word \<Rightarrow> u8 list" where
  "le_bytes n v = map (\<lambda>i. byte_of (8 * i) v) [0..<n]"

lemma length_le_bytes [simp]: "length (le_bytes n v) = n"
  by (simp add: le_bytes_def)

lemma bit_le_val:
  "bit (le_val bs :: 'a::len word) k \<longleftrightarrow>
     k < LENGTH('a) \<and> k div 8 < length bs \<and> bit (bs ! (k div 8)) (k mod 8)"
proof (induction bs arbitrary: k)
  case Nil
  show ?case by simp
next
  case (Cons b bs)
  show ?case
  proof (cases "k < 8")
    case True
    then show ?thesis by (auto simp: bit_simps)
  next
    case False
    then obtain j where j: "k = 8 + j" using le_Suc_ex not_less by blast
    have b: "\<not> bit b (8 + j)" by (auto dest: bit_imp_le_length)
    have d: "(8 + j) div 8 = Suc (j div 8)" by simp
    show ?thesis unfolding j d
      using b Cons.IH [of j] by (auto simp: bit_simps)
  qed
qed

lemma le_val_le_bytes: "le_val (le_bytes n v) = take_bit (8 * n) (v :: 'a::len word)"
proof (rule bit_word_eqI)
  fix k assume k: "k < LENGTH('a)"
  have "k div 8 < n \<longleftrightarrow> k < 8 * n" by (simp add: div_less_iff_less_mult mult.commute)
  moreover have "bit (byte_of (8 * (k div 8)) v :: u8) (k mod 8) \<longleftrightarrow> bit v k"
    by (simp add: bit_simps)
  ultimately show "bit (le_val (le_bytes n v) :: 'a word) k \<longleftrightarrow> bit (take_bit (8 * n) v) k"
    using k by (auto simp: bit_le_val bit_simps le_bytes_def)
qed

lemma le_val_append:
  "le_val (xs @ ys) = (le_val xs OR push_bit (8 * length xs) (le_val ys) :: 'a::len word)"
  by (induction xs) (simp_all add: push_bit_push_bit push_bit_or ac_simps)

lemma ucast_le_val:
  assumes "8 * length bs \<le> LENGTH('a)"
  shows "ucast (le_val bs :: 'a::len word) = (le_val bs :: 'b::len word)"
proof (rule bit_word_eqI)
  fix k
  have "k div 8 < length bs \<Longrightarrow> k < LENGTH('a)" using assms by linarith
  then show "bit (ucast (le_val bs :: 'a word) :: 'b word) k = bit (le_val bs :: 'b word) k"
    if "k < LENGTH('b)"
    using that by (auto simp: bit_simps bit_le_val)
qed

lemma le_bytes_ucast:
  assumes "8 * n \<le> LENGTH('b)"
  shows "le_bytes n (ucast (v :: 'a::len word) :: 'b::len word) = le_bytes n v"
proof (rule nth_equalityI)
  show "length (le_bytes n (ucast v :: 'b word)) = length (le_bytes n v)" by simp
next
  fix i assume "i < length (le_bytes n (ucast v :: 'b word))"
  then have i: "i < n" by simp
  then have "8 * i + k < LENGTH('b)" if "k < 8" for k using assms that by linarith
  then show "le_bytes n (ucast v :: 'b word) ! i = le_bytes n v ! i"
    using i by (intro bit_word_eqI) (auto simp: le_bytes_def bit_simps dest: bit_imp_le_length)
qed

lemma le_bytes_add: "le_bytes (m + n) v = le_bytes m v @ le_bytes n (drop_bit (8 * m) v)"
proof -
  have "map f [m..<m + n] = map (\<lambda>i. f (m + i)) [0..<n]" for f :: "nat \<Rightarrow> u8"
    by (induction n) simp_all
  then show ?thesis
    by (simp add: le_bytes_def upt_add_eq_append [of 0 m n] algebra_simps)
qed

section \<open>Slices of memory\<close>

text \<open>What the loads read and the stores write, as one access to a slice.\<close>

definition get_bytes :: "nat \<Rightarrow> nat \<Rightarrow> u8 list \<Rightarrow> u8 list option" where
  "get_bytes p n mem = (if p + n \<le> length mem then Some (take n (drop p mem)) else None)"

fun put_bytes :: "nat \<Rightarrow> u8 list \<Rightarrow> u8 list \<Rightarrow> u8 list option" where
  "put_bytes p [] mem = Some mem"
| "put_bytes p (b # bs) mem = put_byte p b mem \<bind> put_bytes (Suc p) bs"

lemma put_bytes_eq:
  "0 < length bs \<Longrightarrow> put_bytes p bs mem =
     (if p + length bs \<le> length mem then Some (take p mem @ bs @ drop (p + length bs) mem) else None)"
proof (induction bs arbitrary: p mem)
  case Nil
  then show ?case by simp
next
  case (Cons b bs)
  show ?case
  proof (cases "p < length mem")
    case False
    then show ?thesis by (simp add: put_byte_def)
  next
    case True
    then have u: "take (Suc p) (mem[p := b]) = take p mem @ [b]"
      by (simp add: take_Suc_conv_app_nth)
    show ?thesis
    proof (cases bs)
      case Nil
      then show ?thesis using True by (simp add: put_byte_def upd_conv_take_nth_drop)
    next
      case (Cons c cs)
      then show ?thesis
        using True u Cons.IH [of "Suc p" "mem[p := b]"] by (simp add: put_byte_def)
    qed
  qed
qed

lemma put_bytes_append:
  "put_bytes p (xs @ ys) mem = put_bytes p xs mem \<bind> put_bytes (p + length xs) ys"
proof (induction xs arbitrary: p mem)
  case (Cons x xs)
  then have "put_bytes (Suc p) (xs @ ys) = (\<lambda>m. put_bytes (Suc p) xs m \<bind> put_bytes (Suc (p + length xs)) ys)"
    by auto
  then show ?case by simp
qed simp

lemma bind_get_byte:
  "(get_byte mem i \<bind> f) = (if i < length mem then f (mem ! i) else None)"
  by (simp add: get_byte_def)

lemma take_drop_map: "p + n \<le> length mem \<Longrightarrow> take n (drop p mem) = map (\<lambda>i. mem ! (p + i)) [0..<n]"
  by (rule nth_equalityI) auto

lemma take2: "p + 2 \<le> length mem \<Longrightarrow> take 2 (drop p mem) = [mem ! p, mem ! (p + 1)]"
  by (subst take_drop_map) (auto simp: upt_rec)

lemma take4:
  "p + 4 \<le> length mem \<Longrightarrow>
   take 4 (drop p mem) = [mem ! p, mem ! (p + 1), mem ! (p + 2), mem ! (p + 3)]"
  by (subst take_drop_map) (auto simp: upt_rec numeral_3_eq_3)

lemma get_bytes_add:
  "get_bytes p (m + n) mem =
     do { xs \<leftarrow> get_bytes p m mem; ys \<leftarrow> get_bytes (p + m) n mem; Some (xs @ ys) }"
  by (auto simp: get_bytes_def take_add add.commute)

subsection \<open>The loads\<close>

lemma lduw_le_p_eq: "lduw_le_p p mem = map_option le_val (get_bytes p 2 mem)"
  by (auto simp: lduw_le_p_def bind_get_byte get_bytes_def take2)

lemma lduw_be_p_eq: "lduw_be_p p mem = map_option (le_val \<circ> rev) (get_bytes p 2 mem)"
  by (auto simp: lduw_be_p_def bind_get_byte get_bytes_def take2 ac_simps)

lemma ldl_le_p_eq: "ldl_le_p p mem = map_option le_val (get_bytes p 4 mem)"
  by (auto simp: ldl_le_p_def bind_get_byte get_bytes_def take4 push_bit_or ac_simps)

lemma ldl_be_p_eq: "ldl_be_p p mem = map_option (le_val \<circ> rev) (get_bytes p 4 mem)"
  by (auto simp: ldl_be_p_def bind_get_byte get_bytes_def take4 push_bit_or ac_simps)

lemma get_bytes_length: "get_bytes p n mem = Some bs \<Longrightarrow> length bs = n"
  by (auto simp: get_bytes_def split: if_splits)

lemma ldq_le_p_eq: "ldq_le_p p mem = map_option le_val (get_bytes p 8 mem)"
  unfolding ldq_le_p_def ldl_le_p_eq
  using get_bytes_add [of p 4 4 mem]
  by (auto simp: le_val_append ucast_le_val get_bytes_length split: option.splits bind_splits)

lemma ldq_be_p_eq: "ldq_be_p p mem = map_option (le_val \<circ> rev) (get_bytes p 8 mem)"
  unfolding ldq_be_p_def ldl_be_p_eq
  using get_bytes_add [of p 4 4 mem]
  by (auto simp: le_val_append ucast_le_val get_bytes_length or.commute split: option.splits bind_splits)

subsection \<open>The stores\<close>

lemma put_bytes_fun:
  "put_bytes p [] = Some"
  "put_bytes p (b # bs) = (\<lambda>mem. put_byte p b mem \<bind> put_bytes (Suc p) bs)"
  by auto

lemmas byte_lists = le_bytes_def upt_rec put_bytes_fun numeral_2_eq_2 numeral_3_eq_3

lemma stw_le_p_eq: "stw_le_p p v mem = put_bytes p (le_bytes 2 v) mem"
  by (simp add: stw_le_p_def byte_lists)

lemma stw_be_p_eq: "stw_be_p p v mem = put_bytes p (rev (le_bytes 2 v)) mem"
  by (simp add: stw_be_p_def byte_lists)

lemma stl_le_p_eq: "stl_le_p p v mem = put_bytes p (le_bytes 4 v) mem"
  by (simp add: stl_le_p_def byte_lists)

lemma stl_be_p_eq: "stl_be_p p v mem = put_bytes p (rev (le_bytes 4 v)) mem"
  by (simp add: stl_be_p_def byte_lists)

lemma stq_le_p_eq: "stq_le_p p v mem = put_bytes p (le_bytes 8 v) mem"
  unfolding stq_le_p_def stl_le_p_eq
  using le_bytes_add [of 4 4 v] by (simp add: put_bytes_append le_bytes_ucast)

lemma stq_be_p_eq: "stq_be_p p v mem = put_bytes p (rev (le_bytes 8 v)) mem"
  unfolding stq_be_p_def stl_be_p_eq
  using le_bytes_add [of 4 4 v] by (simp add: put_bytes_append le_bytes_ucast)

section \<open>Loads after stores\<close>

text \<open>
  A load and a store of the same width are one access to a slice of memory, through a decoder
  and an encoder of its bytes.
\<close>

definition reads_back ::
  "(nat \<Rightarrow> u8 list \<Rightarrow> 'a option) \<Rightarrow> (nat \<Rightarrow> 'v \<Rightarrow> u8 list \<Rightarrow> u8 list option) \<Rightarrow> nat \<Rightarrow>
   ('v \<Rightarrow> 'a) \<Rightarrow> bool" where
  "reads_back load store n norm \<longleftrightarrow>
     (\<forall>p v mem.
        if p + n \<le> length mem
        then \<exists>mem'. store p v mem = Some mem' \<and> length mem' = length mem \<and>
               load p mem' = Some (norm v) \<and>
               take p mem' = take p mem \<and> drop (p + n) mem' = drop (p + n) mem
        else store p v mem = None \<and> load p mem = None)"

locale slice_access =
  fixes load :: "nat \<Rightarrow> u8 list \<Rightarrow> 'a option"
    and store :: "nat \<Rightarrow> 'v \<Rightarrow> u8 list \<Rightarrow> u8 list option"
    and n :: nat and dec :: "u8 list \<Rightarrow> 'a" and enc :: "'v \<Rightarrow> u8 list"
  assumes load: "load p mem = map_option dec (get_bytes p n mem)"
    and store: "store p v mem = put_bytes p (enc v) mem"
    and length_enc: "length (enc v) = n"
    and n_pos: "0 < n"
begin

lemma load_store: "reads_back load store n (\<lambda>v. dec (enc v))"
proof -
  have eq: "store p v mem =
      (if p + n \<le> length mem then Some (take p mem @ enc v @ drop (p + n) mem) else None)"
    for p v mem
    using put_bytes_eq [of "enc v" p mem] n_pos by (simp add: store length_enc)
  show ?thesis
    unfolding reads_back_def
    by (auto simp: eq load get_bytes_def length_enc)
qed

end

lemmas load_eqs = lduw_le_p_eq lduw_be_p_eq ldl_le_p_eq ldl_be_p_eq ldq_le_p_eq ldq_be_p_eq
lemmas store_eqs = stw_le_p_eq stw_be_p_eq stl_le_p_eq stl_be_p_eq stq_le_p_eq stq_be_p_eq

interpretation w_le: slice_access lduw_le_p stw_le_p 2 le_val "le_bytes 2"
  by unfold_locales (simp_all add: load_eqs store_eqs)

interpretation w_be: slice_access lduw_be_p stw_be_p 2 "le_val \<circ> rev" "\<lambda>v. rev (le_bytes 2 v)"
  by unfold_locales (simp_all add: load_eqs store_eqs)

interpretation l_le: slice_access ldl_le_p stl_le_p 4 le_val "le_bytes 4"
  by unfold_locales (simp_all add: load_eqs store_eqs)

interpretation l_be: slice_access ldl_be_p stl_be_p 4 "le_val \<circ> rev" "\<lambda>v. rev (le_bytes 4 v)"
  by unfold_locales (simp_all add: load_eqs store_eqs)

interpretation q_le: slice_access ldq_le_p stq_le_p 8 le_val "le_bytes 8"
  by unfold_locales (simp_all add: load_eqs store_eqs)

interpretation q_be: slice_access ldq_be_p stq_be_p 8 "le_val \<circ> rev" "\<lambda>v. rev (le_bytes 8 v)"
  by unfold_locales (simp_all add: load_eqs store_eqs)

lemma take_bit_word_self: "LENGTH('a) \<le> n \<Longrightarrow> take_bit n (v :: 'a::len word) = v"
  by (rule bit_word_eqI) (auto simp: bit_simps)

lemma take_bit_full: "take_bit 32 = (\<lambda>v :: u32. v)" "take_bit 64 = (\<lambda>v :: u64. v)"
  by (auto simp: fun_eq_iff take_bit_word_self)

text \<open>
  C26. Stores and loads of 16, 32 and 64 bits, in either byte order: an access inside the memory
  succeeds, changes only its own bytes, and the load that follows returns the stored value (the
  low 16 bits of it for the 16-bit store); an access that is not entirely inside has no
  behaviour.
\<close>

theorem loads_read_back_stores:
  "reads_back lduw_le_p stw_le_p 2 (take_bit 16) \<and> reads_back lduw_be_p stw_be_p 2 (take_bit 16) \<and>
   reads_back ldl_le_p stl_le_p 4 (\<lambda>v. v) \<and> reads_back ldl_be_p stl_be_p 4 (\<lambda>v. v) \<and>
   reads_back ldq_le_p stq_le_p 8 (\<lambda>v. v) \<and> reads_back ldq_be_p stq_be_p 8 (\<lambda>v. v)"
  using w_le.load_store w_be.load_store l_le.load_store l_be.load_store q_le.load_store
    q_be.load_store
  by (simp add: le_val_le_bytes take_bit_full)

section \<open>Byte order and byte swaps\<close>

text \<open>The byte at bit \<open>k\<close> moved up or down to another position.\<close>

lemma byte_up:
  "push_bit j (x AND push_bit k (mask 8)) = push_bit (k + j) (take_bit 8 (drop_bit k (x :: 'a::len word)))"
  by (rule bit_word_eqI) (auto simp: bit_simps)

lemma byte_down:
  "j \<le> k \<Longrightarrow> drop_bit j (x AND push_bit k (mask 8)) =
     push_bit (k - j) (take_bit 8 (drop_bit k (x :: 'a::len word)))"
  by (rule bit_word_eqI) (auto simp: bit_simps add.commute dest: bit_imp_le_length)

lemma byte_downs:
  "drop_bit 8 (x AND push_bit 8 (mask 8)) = take_bit 8 (drop_bit 8 (x :: 'a::len word))"
  "drop_bit 24 (x AND push_bit 24 (mask 8)) = take_bit 8 (drop_bit 24 x)"
  "drop_bit 56 (x AND push_bit 56 (mask 8)) = take_bit 8 (drop_bit 56 x)"
  "drop_bit 8 (x AND push_bit 16 (mask 8)) = push_bit 8 (take_bit 8 (drop_bit 16 x))"
  "drop_bit 8 (x AND push_bit 32 (mask 8)) = push_bit 24 (take_bit 8 (drop_bit 32 x))"
  "drop_bit 24 (x AND push_bit 40 (mask 8)) = push_bit 16 (take_bit 8 (drop_bit 40 x))"
  "drop_bit 40 (x AND push_bit 48 (mask 8)) = push_bit 8 (take_bit 8 (drop_bit 48 x))"
  using byte_down [of 8 8 x] byte_down [of 24 24 x] byte_down [of 56 56 x] byte_down [of 8 16 x]
    byte_down [of 8 32 x] byte_down [of 24 40 x] byte_down [of 40 48 x]
  by simp_all

lemma byte_masks:
  "0xff = push_bit 0 (mask 8 :: u64)" "0xff00 = push_bit 8 (mask 8 :: u64)"
  "0xff0000 = push_bit 16 (mask 8 :: u64)" "0xff000000 = push_bit 24 (mask 8 :: u64)"
  "0xff00000000 = push_bit 32 (mask 8 :: u64)" "0xff0000000000 = push_bit 40 (mask 8 :: u64)"
  "0xff000000000000 = push_bit 48 (mask 8 :: u64)" "0xff00000000000000 = push_bit 56 (mask 8 :: u64)"
  "0xff = push_bit 0 (mask 8 :: u32)" "0xff00 = push_bit 8 (mask 8 :: u32)"
  "0xff0000 = push_bit 16 (mask 8 :: u32)" "0xff000000 = push_bit 24 (mask 8 :: u32)"
  "0xff = push_bit 0 (mask 8 :: u16)" "0xff00 = push_bit 8 (mask 8 :: u16)"
  by (simp_all add: push_bit_eq_mult mask_eq_exp_minus_1)

lemma ucast_u8_ucast: "(ucast (ucast (x :: 'a::len word) :: u8) :: 'a word) = take_bit 8 x"
  by (rule bit_word_eqI) (auto simp: bit_simps)

lemma bswap16_bytes: "bswap16 x = le_val (rev (le_bytes 2 x))"
  unfolding bswap16_def bswap_16_def byte_masks byte_up byte_downs
  by (simp add: le_bytes_def upt_rec ucast_u8_ucast ac_simps)

lemma bswap32_bytes: "bswap32 x = le_val (rev (le_bytes 4 x))"
proof -
  have r: "le_bytes 4 x = [byte_of 0 x, byte_of 8 x, byte_of 16 x, byte_of 24 x]"
    by (simp add: le_bytes_def upt_rec numeral_2_eq_2 numeral_3_eq_3)
  show ?thesis
    unfolding bswap32_def bswap_32_def byte_masks byte_up byte_downs r
    by (simp add: ucast_u8_ucast push_bit_or ac_simps)
qed

lemma bswap64_bytes: "bswap64 x = le_val (rev (le_bytes 8 x))"
proof -
  have r: "le_bytes 8 x = [byte_of 0 x, byte_of 8 x, byte_of 16 x, byte_of 24 x,
      byte_of 32 x, byte_of 40 x, byte_of 48 x, byte_of 56 x]"
    by (simp add: le_bytes_def upt_rec eval_nat_numeral)
  show ?thesis
    unfolding bswap64_def bswap_64_def byte_masks byte_up byte_downs r
    by (simp add: ucast_u8_ucast push_bit_or ac_simps)
qed

text \<open>Swapping the number of a sequence of bytes reverses the sequence.\<close>

lemma le_bytes_le_val:
  assumes "8 * length bs \<le> LENGTH('a)"
  shows "le_bytes (length bs) (le_val bs :: 'a::len word) = bs"
proof (rule nth_equalityI)
  fix i assume "i < length (le_bytes (length bs) (le_val bs :: 'a word))"
  then have i: "i < length bs" by simp
  have "8 * i + k < LENGTH('a) \<and> (8 * i + k) div 8 = i \<and> (8 * i + k) mod 8 = k" if "k < 8" for k
    using assms i that by auto
  then show "le_bytes (length bs) (le_val bs :: 'a word) ! i = bs ! i"
    using i by (intro bit_word_eqI) (auto simp: le_bytes_def bit_simps bit_le_val)
qed simp

lemma bswap_le_val:
  "length bs = 2 \<Longrightarrow> bswap16 (le_val bs) = le_val (rev bs)"
  "length bs = 4 \<Longrightarrow> bswap32 (le_val bs) = le_val (rev bs)"
  "length bs = 8 \<Longrightarrow> bswap64 (le_val bs) = le_val (rev bs)"
  using le_bytes_le_val [where bs = bs and 'a = 16] le_bytes_le_val [where bs = bs and 'a = 32]
    le_bytes_le_val [where bs = bs and 'a = 64]
  by (simp_all add: bswap16_bytes bswap32_bytes bswap64_bytes)

lemma bswap_bswap:
  "bswap16 (bswap16 x) = x" "bswap32 (bswap32 y) = y" "bswap64 (bswap64 z) = z"
  by (simp_all add: bswap16_bytes [of x] bswap32_bytes [of y] bswap64_bytes [of z] bswap_le_val
      le_val_le_bytes take_bit_word_self)

lemma ucast_and_ff: "(ucast ((v :: 'a::len word) AND 0xff) :: u8) = ucast v"
proof -
  have m: "(0xff :: 'a word) = mask 8" by (simp add: mask_eq_exp_minus_1)
  show ?thesis unfolding m by (rule bit_word_eqI) (auto simp: bit_simps dest: bit_imp_le_length)
qed

lemma drop_bit_le_val:
  assumes "8 * (length xs + length ys) \<le> LENGTH('a)"
  shows "drop_bit (8 * length xs) (le_val (xs @ ys)) = (le_val ys :: 'a::len word)"
proof (rule bit_word_eqI)
  fix k assume "k < LENGTH('a)"
  have d: "(8 * length xs + k) div 8 = length xs + k div 8" "(8 * length xs + k) mod 8 = k mod 8"
    by simp_all
  have "8 * length xs + k < LENGTH('a)" if "k div 8 < length ys"
    using assms that by (simp add: div_less_iff_less_mult)
  then show "bit (drop_bit (8 * length xs) (le_val (xs @ ys)) :: 'a word) k = bit (le_val ys :: 'a word) k"
    using \<open>k < LENGTH('a)\<close> by (auto simp: bit_simps bit_le_val d nth_append)
qed

lemma bswap_len_bytes:
  assumes "0 < len" and "len \<le> 4"
  shows "qemu_bswap_len y len = Some (le_val (rev (le_bytes len y)))"
proof -
  have "le_bytes 4 y = le_bytes len y @ le_bytes (4 - len) (drop_bit (8 * len) y)"
    using le_bytes_add [of len "4 - len" y] assms by simp
  moreover have "8 * (4 - len) = 32 - 8 * len" by simp
  ultimately show ?thesis
    using assms drop_bit_le_val [where 'a = 32, of "rev (le_bytes (4 - len) (drop_bit (8 * len) y))"
        "rev (le_bytes len y)"]
    by (simp add: qemu_bswap_len_def bswap32_bytes)
qed

text \<open>
  Byte order: loading big-endian is loading little-endian and swapping the bytes, at 16, 32
  and 64 bits; the swaps are their own inverses; the unaligned conversions write what the stores
  write; and \<open>qemu_bswap_len\<close> swaps the low bytes of a value of the given length.
\<close>

theorem byte_order_swaps:
  "lduw_be_p p mem = map_option (\<lambda>v. ucast (bswap16 (ucast v))) (lduw_le_p p mem) \<and>
   ldl_be_p p mem = map_option bswap32 (ldl_le_p p mem) \<and>
   ldq_be_p p mem = map_option bswap64 (ldq_le_p p mem) \<and>
   bswap16 (bswap16 x) = x \<and> bswap32 (bswap32 y) = y \<and> bswap64 (bswap64 z) = z \<and>
   cpu_to_le16wu p x mem = stw_le_p p (ucast x) mem \<and>
   cpu_to_be16wu p x mem = stw_be_p p (ucast x) mem \<and>
   cpu_to_le32wu p y mem = stl_le_p p y mem \<and> cpu_to_be32wu p y mem = stl_be_p p y mem \<and>
   cpu_to_be64wu p z mem = stq_be_p p z mem \<and>
   le32_to_cpupu p mem = ldl_le_p p mem \<and> be32_to_cpupu p mem = ldl_be_p p mem \<and>
   qemu_bswap_len y 4 = Some (bswap32 y) \<and>
   qemu_bswap_len y 2 = Some (ucast (bswap16 (ucast y))) \<and>
   qemu_bswap_len y 1 = Some (take_bit 8 y)"
proof (intro conjI)
  show "lduw_be_p p mem = map_option (\<lambda>v. ucast (bswap16 (ucast v))) (lduw_le_p p mem)"
    by (cases "get_bytes p 2 mem")
      (simp_all add: load_eqs get_bytes_length ucast_le_val bswap_le_val)
  show "ldl_be_p p mem = map_option bswap32 (ldl_le_p p mem)"
    by (cases "get_bytes p 4 mem") (simp_all add: load_eqs get_bytes_length bswap_le_val)
  show "ldq_be_p p mem = map_option bswap64 (ldq_le_p p mem)"
    by (cases "get_bytes p 8 mem") (simp_all add: load_eqs get_bytes_length bswap_le_val)
  show "qemu_bswap_len y 4 = Some (bswap32 y)" by (simp add: bswap_len_bytes bswap32_bytes)
  show "qemu_bswap_len y 2 = Some (ucast (bswap16 (ucast y)))"
    by (simp add: bswap_len_bytes bswap16_bytes ucast_le_val le_bytes_ucast)
  show "qemu_bswap_len y 1 = Some (take_bit 8 y)"
    by (simp add: bswap_len_bytes le_bytes_def ucast_u8_ucast)
  have x: "le_bytes 2 (ucast x :: u32) = le_bytes 2 x" by (simp add: le_bytes_ucast)
  show "cpu_to_le16wu p x mem = stw_le_p p (ucast x) mem"
    unfolding stw_le_p_eq x by (simp add: cpu_to_le16wu_def byte_lists ucast_and_ff)
  show "cpu_to_be16wu p x mem = stw_be_p p (ucast x) mem"
    unfolding stw_be_p_eq x by (simp add: cpu_to_be16wu_def byte_lists ucast_and_ff)
  show "cpu_to_le32wu p y mem = stl_le_p p y mem"
    by (simp add: cpu_to_le32wu_def stl_le_p_def ucast_and_ff)
  show "cpu_to_be32wu p y mem = stl_be_p p y mem"
    by (simp add: cpu_to_be32wu_def stl_be_p_def ucast_and_ff)
  show "cpu_to_be64wu p z mem = stq_be_p p z mem"
    by (simp add: cpu_to_be64wu_def stq_be_p_eq le_bytes_def upt_rec put_bytes_fun ucast_and_ff
        eval_nat_numeral)
  show "le32_to_cpupu p mem = ldl_le_p p mem"
    by (simp add: le32_to_cpupu_def ldl_le_p_def)
  show "be32_to_cpupu p mem = ldl_be_p p mem"
    by (auto simp: be32_to_cpupu_def ldl_be_p_def bind_get_byte ac_simps)
qed (simp_all add: bswap_bswap)

end
