(* ===== verification/Memory_Access.thy ===== *)
theory Memory_Access
  imports Memory_Region Bitops Bswap
begin

text \<open>
  Accesses to I/O regions (\<open>memory.c\<close>): the adaptation of an access to the sizes that a device
  implements, the validity check, the byte order, the old-style port lists, and the entry points
  \<open>io_mem_read\<close> and \<open>io_mem_write\<close>. A callback is a function over the state \<open>'d\<close> of the
  devices. Calling through a null pointer, indexing the old-style tables out of range, shifting
  by the width of a word or more, and \<open>abort\<close> are \<open>None\<close>. Access sizes are natural numbers; the
  source keeps them in an \<open>unsigned\<close>, which the sizes in use never exceed.
\<close>

section \<open>Adapting the size of an access\<close>

type_synonym 'd accessor = "u64 \<Rightarrow> u64 \<Rightarrow> nat \<Rightarrow> nat \<Rightarrow> u64 \<Rightarrow> 'd \<Rightarrow> (u64 \<times> 'd) option"

definition memory_region_read_accessor :: "'d MemoryRegion \<Rightarrow> 'd accessor" where
  "memory_region_read_accessor mr addr value sz shift msk d =
     do {
       ops \<leftarrow> mr_ops mr;
       read \<leftarrow> ops_read ops;
       c_assert (shift < 64);
       let (tmp, d) = read (mr_opaque mr) addr sz d in
       Some (value OR push_bit shift (tmp AND msk), d)
     }"

definition memory_region_write_accessor :: "'d MemoryRegion \<Rightarrow> 'd accessor" where
  "memory_region_write_accessor mr addr value sz shift msk d =
     do {
       ops \<leftarrow> mr_ops mr;
       write \<leftarrow> ops_write ops;
       c_assert (shift < 64);
       let tmp = drop_bit shift value AND msk in
       Some (value, write (mr_opaque mr) addr tmp sz d)
     }"

text \<open>The loop of \<open>access_with_adjusted_size\<close>; with a zero step it would not end.\<close>

function access_loop ::
  "'d accessor \<Rightarrow> u64 \<Rightarrow> nat \<Rightarrow> nat \<Rightarrow> u64 \<Rightarrow> nat \<Rightarrow> u64 \<Rightarrow> 'd \<Rightarrow> (u64 \<times> 'd) option" where
  "access_loop access addr sz access_size access_mask i value d =
     (if i < sz then
        if access_size = 0 then None
        else do {
          (value, d) \<leftarrow> access (addr + of_nat i) value access_size (i * 8) access_mask d;
          access_loop access addr sz access_size access_mask (i + access_size) value d
        }
      else Some (value, d))"
  by pat_completeness auto
termination
  by (relation "measure (\<lambda>(access, addr, sz, access_size, access_mask, i, value, d). sz - i)") auto

declare access_loop.simps [simp del]

definition access_with_adjusted_size ::
  "u64 \<Rightarrow> u64 \<Rightarrow> nat \<Rightarrow> nat \<Rightarrow> nat \<Rightarrow> 'd accessor \<Rightarrow> 'd \<Rightarrow> (u64 \<times> 'd) option" where
  "access_with_adjusted_size addr value sz access_size_min access_size_max access d =
     (let access_size_min = (if access_size_min = 0 then 1 else access_size_min);
          access_size_max = (if access_size_max = 0 then 4 else access_size_max);
          access_size = max (min sz access_size_max) access_size_min
      in do {
        c_assert (access_size * 8 \<le> 64);
        let access_mask = drop_bit (64 - access_size * 8) (- 1) in
        access_loop access addr sz access_size access_mask 0 value d
      })"

section \<open>Port lists\<close>

text \<open>The list of ports ends at an entry of size zero.\<close>

fun find_portio ::
  "'d MemoryRegionPortio list \<Rightarrow> u64 \<Rightarrow> nat \<Rightarrow> bool \<Rightarrow> 'd MemoryRegionPortio option option" where
  "find_portio [] offset width write = None"
| "find_portio (mrp # mrps) offset width write =
     (if mrp_size mrp = 0 then Some None
      else if ucast (mrp_offset mrp) \<le> offset \<and> offset < ucast (mrp_offset mrp + mrp_len mrp) \<and>
              width = mrp_size mrp \<and>
              (if write then mrp_write mrp \<noteq> None else mrp_read mrp \<noteq> None)
      then Some (Some mrp)
      else find_portio mrps offset width write)"

record MemoryRegionIORange =
  mrio_mr :: ptr
  mrio_offset :: u64

definition memory_region_iorange_read ::
  "(ptr \<Rightarrow> 'd MemoryRegion) \<Rightarrow> MemoryRegionIORange \<Rightarrow> u64 \<Rightarrow> nat \<Rightarrow> 'd \<Rightarrow> (u64 \<times> 'd) option" where
  "memory_region_iorange_read h mrio offset width d =
     (let mr = h (mrio_mr mrio); offset = offset + mrio_offset mrio in do {
        ops \<leftarrow> mr_ops mr;
        case ops_old_portio ops of
          Some portio \<Rightarrow> do {
            mrp \<leftarrow> find_portio portio (offset - mrio_offset mrio) width False;
            c_assert (width * 8 < 64);
            let data = push_bit (width * 8) 1 - 1 in
            case mrp of
              Some mrp \<Rightarrow> do {
                read \<leftarrow> mrp_read mrp;
                let (v, d) = read (mr_opaque mr) (ucast offset) d in
                Some (ucast v, d)
              }
            | None \<Rightarrow>
                if width = 2 then do {
                  mrp \<leftarrow> find_portio portio (offset - mrio_offset mrio) 1 False;
                  mrp \<leftarrow> mrp;
                  read \<leftarrow> mrp_read mrp;
                  let (lo, d) = read (mr_opaque mr) (ucast offset) d;
                      (hi, d) = read (mr_opaque mr) (ucast (offset + 1)) d in
                  Some (ucast (lo OR push_bit 8 hi), d)
                }
                else Some (data, d)
          }
        | None \<Rightarrow>
            access_with_adjusted_size offset 0 width (impl_min_access_size ops)
              (impl_max_access_size ops) (memory_region_read_accessor mr) d
      })"

definition memory_region_iorange_write ::
  "(ptr \<Rightarrow> 'd MemoryRegion) \<Rightarrow> MemoryRegionIORange \<Rightarrow> u64 \<Rightarrow> nat \<Rightarrow> u64 \<Rightarrow> 'd \<Rightarrow> 'd option" where
  "memory_region_iorange_write h mrio offset width data d =
     (let mr = h (mrio_mr mrio); offset = offset + mrio_offset mrio in do {
        ops \<leftarrow> mr_ops mr;
        case ops_old_portio ops of
          Some portio \<Rightarrow> do {
            mrp \<leftarrow> find_portio portio (offset - mrio_offset mrio) width True;
            case mrp of
              Some mrp \<Rightarrow> do {
                write \<leftarrow> mrp_write mrp;
                Some (write (mr_opaque mr) (ucast offset) (ucast data) d)
              }
            | None \<Rightarrow>
                if width = 2 then do {
                  mrp \<leftarrow> find_portio portio (offset - mrio_offset mrio) 1 True;
                  mrp \<leftarrow> mrp;
                  write \<leftarrow> mrp_write mrp;
                  let d = write (mr_opaque mr) (ucast offset) (ucast (data AND 0xff)) d in
                  Some (write (mr_opaque mr) (ucast (offset + 1)) (ucast (drop_bit 8 data)) d)
                }
                else Some d
          }
        | None \<Rightarrow> do {
            (_, d) \<leftarrow> access_with_adjusted_size offset data width (impl_min_access_size ops)
              (impl_max_access_size ops) (memory_region_write_accessor mr) d;
            Some d
          }
      })"

section \<open>Dispatch\<close>

text \<open>The byte order of the target is a constant of the build.\<close>

definition memory_region_wrong_endianness :: "bool \<Rightarrow> 'd MemoryRegion \<Rightarrow> bool option" where
  "memory_region_wrong_endianness TARGET_WORDS_BIGENDIAN mr =
     do {
       ops \<leftarrow> mr_ops mr;
       Some (if TARGET_WORDS_BIGENDIAN then ops_endianness ops = DEVICE_LITTLE_ENDIAN
             else ops_endianness ops = DEVICE_BIG_ENDIAN)
     }"

definition memory_region_access_valid ::
  "'d MemoryRegion \<Rightarrow> u64 \<Rightarrow> nat \<Rightarrow> bool \<Rightarrow> 'd \<Rightarrow> bool option" where
  "memory_region_access_valid mr addr sz is_write d =
     do {
       ops \<leftarrow> mr_ops mr;
       Some (if (case valid_accepts ops of
                   Some accepts \<Rightarrow> \<not> accepts (mr_opaque mr) addr sz is_write d
                 | None \<Rightarrow> False) then False
             else if \<not> valid_unaligned ops \<and> addr AND ucast (of_nat sz - 1 :: u32) \<noteq> 0 then False
             else if valid_max_access_size ops = 0 then True
             else if sz > valid_max_access_size ops \<or> sz < valid_min_access_size ops then False
             else True)
     }"

definition old_mmio_entry :: "'f option list \<Rightarrow> nat \<Rightarrow> 'f option" where
  "old_mmio_entry table sz =
     do {
       let i = bitops_ffsl (ucast (of_nat sz :: u32));
       c_assert (i < length table);
       table ! i
     }"

definition memory_region_dispatch_read1 ::
  "'d MemoryRegion \<Rightarrow> u64 \<Rightarrow> nat \<Rightarrow> 'd \<Rightarrow> (u64 \<times> 'd) option" where
  "memory_region_dispatch_read1 mr addr sz d =
     do {
       valid \<leftarrow> memory_region_access_valid mr addr sz False d;
       if \<not> valid then Some (ucast (- 1 :: u32), d)
       else do {
         ops \<leftarrow> mr_ops mr;
         if ops_read ops = None then do {
           read \<leftarrow> old_mmio_entry (old_mmio_read ops) sz;
           let (v, d) = read (mr_opaque mr) addr d in
           Some (ucast v, d)
         }
         else
           access_with_adjusted_size addr 0 sz (impl_min_access_size ops)
             (impl_max_access_size ops) (memory_region_read_accessor mr) d
       }
     }"

definition adjust_endianness :: "bool \<Rightarrow> 'd MemoryRegion \<Rightarrow> u64 \<Rightarrow> nat \<Rightarrow> u64 option" where
  "adjust_endianness big mr data sz =
     do {
       wrong \<leftarrow> memory_region_wrong_endianness big mr;
       if wrong then
         if sz = 1 then Some data
         else if sz = 2 then Some (ucast (bswap16 (ucast data)))
         else if sz = 4 then Some (ucast (bswap32 (ucast data)))
         else None
       else Some data
     }"

definition memory_region_dispatch_read ::
  "bool \<Rightarrow> 'd MemoryRegion \<Rightarrow> u64 \<Rightarrow> nat \<Rightarrow> 'd \<Rightarrow> (u64 \<times> 'd) option" where
  "memory_region_dispatch_read big mr addr sz d =
     do {
       (ret, d) \<leftarrow> memory_region_dispatch_read1 mr addr sz d;
       ret \<leftarrow> adjust_endianness big mr ret sz;
       Some (ret, d)
     }"

definition memory_region_dispatch_write ::
  "bool \<Rightarrow> 'd MemoryRegion \<Rightarrow> u64 \<Rightarrow> u64 \<Rightarrow> nat \<Rightarrow> 'd \<Rightarrow> 'd option" where
  "memory_region_dispatch_write big mr addr data sz d =
     do {
       valid \<leftarrow> memory_region_access_valid mr addr sz True d;
       if \<not> valid then Some d
       else do {
         data \<leftarrow> adjust_endianness big mr data sz;
         ops \<leftarrow> mr_ops mr;
         if ops_write ops = None then do {
           write \<leftarrow> old_mmio_entry (old_mmio_write ops) sz;
           Some (write (mr_opaque mr) addr (ucast data) d)
         }
         else do {
           (_, d) \<leftarrow> access_with_adjusted_size addr data sz (impl_min_access_size ops)
             (impl_max_access_size ops) (memory_region_write_accessor mr) d;
           Some d
         }
       }
     }"

definition io_mem_read :: "bool \<Rightarrow> 'd MemoryRegion \<Rightarrow> u64 \<Rightarrow> nat \<Rightarrow> 'd \<Rightarrow> (u64 \<times> 'd) option" where
  "io_mem_read big mr addr sz d = memory_region_dispatch_read big mr addr sz d"

definition io_mem_write :: "bool \<Rightarrow> 'd MemoryRegion \<Rightarrow> u64 \<Rightarrow> u64 \<Rightarrow> nat \<Rightarrow> 'd \<Rightarrow> 'd option" where
  "io_mem_write big mr addr val sz d = memory_region_dispatch_write big mr addr val sz d"

section \<open>Devices that are addressed by bytes\<close>

text \<open>
  The state of such a device gives the byte at every address; its callbacks read and write little
  endian, at any size.
\<close>

definition dev_bytes :: "(u64 \<Rightarrow> u8) \<Rightarrow> u64 \<Rightarrow> nat \<Rightarrow> u8 list" where
  "dev_bytes d a n = map (\<lambda>i. d (a + of_nat i)) [0..<n]"

definition dev_store :: "u64 \<Rightarrow> u8 list \<Rightarrow> (u64 \<Rightarrow> u8) \<Rightarrow> u64 \<Rightarrow> u8" where
  "dev_store a bs d = (\<lambda>x. if unat (x - a) < length bs then bs ! unat (x - a) else d x)"

definition byte_addressed :: "(u64 \<Rightarrow> u8) MemoryRegionOps \<Rightarrow> bool" where
  "byte_addressed ops \<longleftrightarrow>
     ops_read ops = Some (\<lambda>opaque a n d. (le_val (dev_bytes d a n), d)) \<and>
     ops_write ops = Some (\<lambda>opaque a v n d. dev_store a (le_bytes n v) d)"

lemma length_dev_bytes [simp]: "length (dev_bytes d a n) = n"
  by (simp add: dev_bytes_def)

lemma dev_bytes_add: "dev_bytes d a (m + n) = dev_bytes d a m @ dev_bytes d (a + of_nat m) n"
proof -
  have "map f [m..<m + n] = map (\<lambda>i. f (m + i)) [0..<n]" for f :: "nat \<Rightarrow> u8"
    by (induction n) simp_all
  then show ?thesis by (simp add: dev_bytes_def upt_add_eq_append [of 0 m n] ac_simps)
qed

lemma unat_of_nat_lt64: "i < 2 ^ 64 \<Longrightarrow> unat (of_nat i :: u64) = i"
  by (simp add: unat_of_nat take_bit_nat_eq_self)

lemma dev_bytes_store:
  assumes "length bs \<le> 2 ^ 64"
  shows "dev_bytes (dev_store a bs d) a (length bs) = bs"
proof (rule nth_equalityI)
  fix i assume "i < length (dev_bytes (dev_store a bs d) a (length bs))"
  then show "dev_bytes (dev_store a bs d) a (length bs) ! i = bs ! i"
    using assms unat_of_nat_lt64 [of i] by (simp add: dev_bytes_def dev_store_def)
qed simp

lemma dev_store_append:
  assumes "length xs + length ys \<le> 2 ^ 64"
  shows "dev_store (a + of_nat (length xs)) ys (dev_store a xs d) = dev_store a (xs @ ys) d"
proof
  fix x
  show "dev_store (a + of_nat (length xs)) ys (dev_store a xs d) x = dev_store a (xs @ ys) d x"
  proof (cases "ys = []")
    case True
    then show ?thesis by (simp add: dev_store_def)
  next
    case False
    then have n: "length xs < 2 ^ 64" using assms by (cases ys) auto
    let ?k = "unat (x - a)" and ?n = "of_nat (length xs) :: u64"
    have un: "unat ?n = length xs" using n by (rule unat_of_nat_lt64)
    have e: "x - (a + ?n) = (x - a) - ?n" by simp
    show ?thesis
    proof (cases "length xs \<le> ?k")
      case True
      then have "unat (x - (a + ?n)) = ?k - length xs"
        unfolding e using un by (subst unat_sub) (simp_all add: word_le_nat_alt)
      then show ?thesis using True by (auto simp: dev_store_def nth_append)
    next
      case False
      then have "unat (x - (a + ?n)) = ?k + 2 ^ 64 - length xs"
        unfolding e using un unat_sub_if' [of "x - a" ?n] by (simp add: word_le_nat_alt)
      then show ?thesis using False assms by (auto simp: dev_store_def nth_append)
    qed
  qed
qed

lemma access_mask:
  assumes "a * 8 \<le> 64"
  shows "drop_bit (64 - a * 8) (- 1 :: u64) = mask (8 * a)"
  using assms by (intro bit_word_eqI) (auto simp: bit_simps)

lemma take_bit_le_val: "n = length bs \<Longrightarrow> take_bit (8 * n) (le_val bs) = (le_val bs :: 'a::len word)"
proof (rule bit_word_eqI)
  fix k assume "n = length bs"
  moreover have "k div 8 < length bs \<longleftrightarrow> k < 8 * length bs"
    by (simp add: div_less_iff_less_mult mult.commute)
  ultimately show "bit (take_bit (8 * n) (le_val bs :: 'a word)) k = bit (le_val bs :: 'a word) k"
    by (auto simp: bit_simps bit_le_val)
qed

lemma le_bytes_take_bit: "le_bytes n (take_bit (8 * n) v) = le_bytes n (v :: 'a::len word)"
proof (rule nth_equalityI)
  fix i assume "i < length (le_bytes n (take_bit (8 * n) v))"
  then have i: "i < n" by simp
  then have "8 * i + k < 8 * n" if "k < 8" for k using that by linarith
  then show "le_bytes n (take_bit (8 * n) v) ! i = le_bytes n v ! i"
    using i by (intro bit_word_eqI) (auto simp: le_bytes_def bit_simps)
qed simp

text \<open>
  The loop on such a device, in steps that divide the size: what it has done so far is the access
  to the first \<open>i\<close> bytes.
\<close>

lemma access_loop_read:
  assumes "mr_ops mr = Some ops" and "byte_addressed ops"
    and a: "0 < a" and "a dvd sz" and "sz \<le> 8"
  shows "a dvd i \<Longrightarrow> i \<le> sz \<Longrightarrow>
    access_loop (memory_region_read_accessor mr) addr sz a (mask (8 * a)) i
      (le_val (dev_bytes d addr i)) d = Some (le_val (dev_bytes d addr sz), d)"
proof (induction "sz - i" arbitrary: i rule: less_induct)
  case less
  show ?case
  proof (cases "i < sz")
    case False
    then show ?thesis using less.prems by (simp add: access_loop.simps)
  next
    case True
    have "a dvd sz - i" using less.prems assms by simp
    then have le: "i + a \<le> sz" using True by (auto dest: dvd_imp_le)
    have v: "le_val (dev_bytes d addr i) OR push_bit (i * 8) (le_val (dev_bytes d (addr + of_nat i) a) AND mask (8 * a))
        = (le_val (dev_bytes d addr (i + a)) :: u64)"
      by (simp add: dev_bytes_add le_val_append take_bit_eq_mask [symmetric] take_bit_le_val
          mult.commute [of i])
    have "access_loop (memory_region_read_accessor mr) addr sz a (mask (8 * a)) (i + a)
        (le_val (dev_bytes d addr (i + a))) d = Some (le_val (dev_bytes d addr sz), d)"
      by (rule less.hyps) (use less.prems le True a in auto)
    then show ?thesis
      using True assms v
      by (subst access_loop.simps) (simp add: memory_region_read_accessor_def byte_addressed_def)
  qed
qed

lemma access_loop_write:
  assumes "mr_ops mr = Some ops" and "byte_addressed ops"
    and a: "0 < a" and "a dvd sz" and "sz \<le> 8"
  shows "a dvd i \<Longrightarrow> i \<le> sz \<Longrightarrow>
    access_loop (memory_region_write_accessor mr) addr sz a (mask (8 * a)) i v
      (dev_store addr (le_bytes i v) d) = Some (v, dev_store addr (le_bytes sz v) d)"
proof (induction "sz - i" arbitrary: i rule: less_induct)
  case less
  show ?case
  proof (cases "i < sz")
    case False
    then show ?thesis using less.prems by (simp add: access_loop.simps)
  next
    case True
    have "a dvd sz - i" using less.prems assms by simp
    then have le: "i + a \<le> sz" using True by (auto dest: dvd_imp_le)
    have v: "dev_store (addr + of_nat i) (le_bytes a (drop_bit (i * 8) v AND mask (8 * a)))
        (dev_store addr (le_bytes i v) d) = dev_store addr (le_bytes (i + a) v) d"
      using dev_store_append [of "le_bytes i v" "le_bytes a (drop_bit (8 * i) v)" addr d] le \<open>sz \<le> 8\<close>
      by (simp add: le_bytes_add take_bit_eq_mask [symmetric] le_bytes_take_bit
          mult.commute [of i])
    have "access_loop (memory_region_write_accessor mr) addr sz a (mask (8 * a)) (i + a) v
        (dev_store addr (le_bytes (i + a) v) d) = Some (v, dev_store addr (le_bytes sz v) d)"
      by (rule less.hyps) (use less.prems le True a in auto)
    then show ?thesis
      using True assms v
      by (subst access_loop.simps) (simp add: memory_region_write_accessor_def byte_addressed_def)
  qed
qed

text \<open>Access sizes are powers of two up to eight; zero leaves an implementation size open.\<close>

definition access_sizes_ok :: "'d MemoryRegionOps \<Rightarrow> nat \<Rightarrow> bool" where
  "access_sizes_ok ops sz \<longleftrightarrow>
     sz \<in> {1, 2, 4, 8} \<and> impl_min_access_size ops \<in> {0, 1, 2, 4, 8} \<and>
     impl_max_access_size ops \<in> {0, 1, 2, 4, 8} \<and> impl_min_access_size ops \<le> sz"

definition impl_access_size :: "'d MemoryRegionOps \<Rightarrow> nat \<Rightarrow> nat" where
  "impl_access_size ops sz =
     max (min sz (if impl_max_access_size ops = 0 then 4 else impl_max_access_size ops))
         (if impl_min_access_size ops = 0 then 1 else impl_min_access_size ops)"

lemma impl_access_size:
  assumes "access_sizes_ok ops sz"
  shows "0 < impl_access_size ops sz" and "impl_access_size ops sz dvd sz" and "sz \<le> 8"
proof -
  have "impl_access_size ops sz \<in> {1, 2, 4, 8} \<and> impl_access_size ops sz \<le> sz \<and> sz \<in> {1, 2, 4, 8}"
    using assms by (auto simp: impl_access_size_def access_sizes_ok_def)
  then show "0 < impl_access_size ops sz" and "impl_access_size ops sz dvd sz" and "sz \<le> 8"
    by auto
qed

lemma access_with_adjusted_size_loop:
  assumes "access_sizes_ok ops sz"
  shows "access_with_adjusted_size addr v sz (impl_min_access_size ops) (impl_max_access_size ops)
           access d =
         access_loop access addr sz (impl_access_size ops sz) (mask (8 * impl_access_size ops sz))
           0 v d"
proof -
  have "0 < sz" using assms by (auto simp: access_sizes_ok_def)
  then have "impl_access_size ops sz * 8 \<le> 64"
    using impl_access_size [OF assms] by (auto dest: dvd_imp_le)
  then show ?thesis
    unfolding access_with_adjusted_size_def Let_def impl_access_size_def [symmetric]
    by (simp only: access_mask c_assert_bind if_True)
qed

lemma access_read:
  assumes "mr_ops mr = Some ops" and "byte_addressed ops" and "access_sizes_ok ops sz"
  shows "access_with_adjusted_size addr 0 sz (impl_min_access_size ops) (impl_max_access_size ops)
           (memory_region_read_accessor mr) d = Some (le_val (dev_bytes d addr sz), d)"
  unfolding access_with_adjusted_size_loop [OF assms(3)]
  using access_loop_read [OF assms(1,2) impl_access_size [OF assms(3)], of 0 addr d]
  by (simp add: dev_bytes_def)

lemma access_write:
  assumes "mr_ops mr = Some ops" and "byte_addressed ops" and "access_sizes_ok ops sz"
  shows "access_with_adjusted_size addr v sz (impl_min_access_size ops) (impl_max_access_size ops)
           (memory_region_write_accessor mr) d = Some (v, dev_store addr (le_bytes sz v) d)"
proof -
  have "dev_store addr (le_bytes 0 v) d = d" by (simp add: dev_store_def le_bytes_def)
  then show ?thesis
    unfolding access_with_adjusted_size_loop [OF assms(3)]
    using access_loop_write [OF assms(1,2) impl_access_size [OF assms(3)], of 0 addr v d] by simp
qed

section \<open>Dispatch on such a device\<close>

text \<open>The bytes of a value in the order in which the device has them.\<close>

definition dev_order :: "bool \<Rightarrow> 'a list \<Rightarrow> 'a list" where
  "dev_order wrong bs = (if wrong then rev bs else bs)"

lemma length_dev_order [simp]: "length (dev_order wrong bs) = length bs"
  by (simp add: dev_order_def)

lemma adjust_endianness_bytes:
  assumes "memory_region_wrong_endianness big mr = Some wrong"
    and "sz \<in> {1, 2, 4, 8}" and "wrong \<Longrightarrow> sz \<noteq> 8"
  shows "\<exists>v'. adjust_endianness big mr v sz = Some v' \<and> le_bytes sz v' = dev_order wrong (le_bytes sz v)"
proof -
  have two: "le_bytes 2 (ucast (bswap16 (ucast v)) :: u64) = rev (le_bytes 2 v)"
    using le_bytes_le_val [where 'a = 16 and bs = "rev (le_bytes 2 v)"]
    by (simp add: le_bytes_ucast bswap16_bytes)
  have four: "le_bytes 4 (ucast (bswap32 (ucast v)) :: u64) = rev (le_bytes 4 v)"
    using le_bytes_le_val [where 'a = 32 and bs = "rev (le_bytes 4 v)"]
    by (simp add: le_bytes_ucast bswap32_bytes)
  have one: "rev (le_bytes 1 v) = le_bytes 1 v" by (simp add: le_bytes_def)
  show ?thesis
    using assms two four one by (auto simp: adjust_endianness_def dev_order_def)
qed

lemma adjust_endianness_val:
  assumes "memory_region_wrong_endianness big mr = Some wrong"
    and "length bs \<in> {1, 2, 4, 8}" and "wrong \<Longrightarrow> length bs \<noteq> 8"
  shows "adjust_endianness big mr (le_val bs) (length bs) = Some (le_val (dev_order wrong bs))"
proof -
  have "length bs = 1 \<Longrightarrow> rev bs = bs" by (auto simp: length_Suc_conv)
  then show ?thesis
    using assms
    by (auto simp: adjust_endianness_def dev_order_def ucast_le_val bswap_le_val)
qed


definition example_ops :: "(u64 \<Rightarrow> u8) MemoryRegionOps" where
  "example_ops =
     \<lparr>ops_read = Some (\<lambda>opaque a n d. (le_val (dev_bytes d a n), d)),
      ops_write = Some (\<lambda>opaque a v n d. dev_store a (le_bytes n v) d),
      ops_endianness = DEVICE_BIG_ENDIAN, valid_min_access_size = 1, valid_max_access_size = 4,
      valid_unaligned = False, valid_accepts = None, impl_min_access_size = 1,
      impl_max_access_size = 2, ops_old_portio = None, old_mmio_read = [], old_mmio_write = []\<rparr>"


section \<open>Invalid accesses\<close>

lemma aligned_word:
  assumes "k < 32"
  shows "addr AND ucast (of_nat (2 ^ k) - 1 :: u32) = 0 \<longleftrightarrow> (2 ^ k :: int) dvd uint (addr :: u64)"
proof -
  have "(of_nat (2 ^ k) - 1 :: u32) = mask k" by (simp add: mask_eq_exp_minus_1)
  moreover have "(ucast (mask k :: u32) :: u64) = mask k"
    using assms by (intro bit_word_eqI) (auto simp: bit_simps)
  ultimately have "addr AND ucast (of_nat (2 ^ k) - 1 :: u32) = take_bit k addr"
    by (simp add: take_bit_eq_mask)
  moreover have "take_bit k addr = 0 \<longleftrightarrow> take_bit k (uint addr) = 0"
    by (metis uint_0_iff unsigned_take_bit_eq)
  ultimately show ?thesis by (simp add: take_bit_eq_0_iff)
qed

definition size_and_alignment_ok :: "'d MemoryRegionOps \<Rightarrow> u64 \<Rightarrow> nat \<Rightarrow> bool" where
  "size_and_alignment_ok ops addr sz \<longleftrightarrow>
     (valid_unaligned ops \<or> int sz dvd uint addr) \<and>
     (valid_max_access_size ops = 0 \<or>
      valid_min_access_size ops \<le> sz \<and> sz \<le> valid_max_access_size ops)"



section \<open>Word accesses to byte ports\<close>

definition byte_port :: "u32 \<Rightarrow> (ptr \<Rightarrow> u32 \<Rightarrow> 'd \<Rightarrow> u32 \<times> 'd) \<Rightarrow> 'd MemoryRegionPortio" where
  "byte_port offset read =
     \<lparr>mrp_offset = offset, mrp_len = 1, mrp_size = 1, mrp_read = Some read, mrp_write = None\<rparr>"

definition portio_end :: "'d MemoryRegionPortio" where
  "portio_end = \<lparr>mrp_offset = 0, mrp_len = 0, mrp_size = 0, mrp_read = None, mrp_write = None\<rparr>"

text \<open>
  C37. Two byte ports next to each other, with handlers of their own: a 2-byte read of the first
  one, which falls back to two byte reads, calls the handler of the first port for both addresses,
  the second of which its entry does not cover. The handler of the second port is never called.
\<close>

theorem portio_word_reads_past_entry:
  "memory_region_iorange_read
     (\<lambda>_. memory_region_init_io mr
        (ops\<lparr>ops_old_portio := Some [byte_port 0 read0, byte_port 1 read1, portio_end]\<rparr>) opaque
        name sz)
     \<lparr>mrio_mr = p, mrio_offset = 0x70\<rparr> 0 2 d =
   (let (lo, d) = read0 opaque 0x70 d; (hi, d) = read0 opaque 0x71 d in
    Some (ucast (lo OR push_bit 8 hi), d))"
  by (simp add: memory_region_iorange_read_def memory_region_init_io_def byte_port_def
      portio_end_def)

end
