(* ===== verification/Host_Utils.thy ===== *)
theory Host_Utils
  imports Bitops Int128
begin

text \<open>
  Arithmetic helpers: leading and trailing zeros, population counts and wide multiplication
  (\<open>host-utils.h\<close>, \<open>host-utils.c\<close>), and the powers of two, the binary-coded decimals and the
  96-bit multiply-and-divide of \<open>qemu-common.h\<close> and \<open>cutils.c\<close>. The portable code is modelled,
  not the compiler builtins and inline assembly that may replace it.
\<close>

section \<open>Leading and trailing zeros\<close>

definition clz_step :: "nat \<Rightarrow> u32 \<Rightarrow> nat \<times> u32 \<Rightarrow> nat \<times> u32" where
  "clz_step k m = (\<lambda>(cnt, val). if val AND m = 0 then (cnt + k, push_bit k val) else (cnt, val))"

definition clz32 :: "u32 \<Rightarrow> nat" where
  "clz32 val =
     (let (cnt, val) = clz_step 1 0x80000000 (clz_step 2 0xC0000000 (clz_step 4 0xF0000000
            (clz_step 8 0xFF000000 (clz_step 16 0xFFFF0000 (0, val)))))
      in if val AND 0x80000000 = 0 then cnt + 1 else cnt)"

definition clo32 :: "u32 \<Rightarrow> nat" where
  "clo32 val = clz32 (NOT val)"

definition clz64 :: "u64 \<Rightarrow> nat" where
  "clz64 val =
     (let (cnt, val) = (if drop_bit 32 val = 0 then (32, val) else (0, drop_bit 32 val))
      in cnt + clz32 (ucast val))"

definition clo64 :: "u64 \<Rightarrow> nat" where
  "clo64 val = clz64 (NOT val)"

definition ctz_step :: "nat \<Rightarrow> u32 \<Rightarrow> nat \<times> u32 \<Rightarrow> nat \<times> u32" where
  "ctz_step k m = (\<lambda>(cnt, val). if val AND m = 0 then (cnt + k, drop_bit k val) else (cnt, val))"

definition ctz32 :: "u32 \<Rightarrow> nat" where
  "ctz32 val =
     (let (cnt, val) = ctz_step 1 0x00000001 (ctz_step 2 0x00000003 (ctz_step 4 0x0000000F
            (ctz_step 8 0x000000FF (ctz_step 16 0x0000FFFF (0, val)))))
      in if val AND 0x00000001 = 0 then cnt + 1 else cnt)"

definition cto32 :: "u32 \<Rightarrow> nat" where
  "cto32 val = ctz32 (NOT val)"

definition ctz64 :: "u64 \<Rightarrow> nat" where
  "ctz64 val =
     (let (cnt, val) = (if (ucast val :: u32) = 0 then (32, drop_bit 32 val) else (0, val))
      in cnt + ctz32 (ucast val))"

definition cto64 :: "u64 \<Rightarrow> nat" where
  "cto64 val = ctz64 (NOT val)"

section \<open>Population counts\<close>

text \<open>One halving step: neighbouring fields of \<open>k\<close> bits are added.\<close>

definition pop_step :: "nat \<Rightarrow> 'a::len word \<Rightarrow> 'a word \<Rightarrow> 'a word" where
  "pop_step k m val = (val AND m) + (drop_bit k val AND m)"

definition ctpop8 :: "u8 \<Rightarrow> u8" where
  "ctpop8 val = pop_step 4 0x0f (pop_step 2 0x33 (pop_step 1 0x55 val))"

definition ctpop16 :: "u16 \<Rightarrow> u16" where
  "ctpop16 val = pop_step 8 0x00ff (pop_step 4 0x0f0f (pop_step 2 0x3333 (pop_step 1 0x5555 val)))"

definition ctpop32 :: "u32 \<Rightarrow> u32" where
  "ctpop32 val =
     pop_step 16 0x0000ffff (pop_step 8 0x00ff00ff (pop_step 4 0x0f0f0f0f
       (pop_step 2 0x33333333 (pop_step 1 0x55555555 val))))"

definition ctpop64 :: "u64 \<Rightarrow> u64" where
  "ctpop64 val =
     pop_step 32 0x00000000ffffffff (pop_step 16 0x0000ffff0000ffff (pop_step 8 0x00ff00ff00ff00ff
       (pop_step 4 0x0f0f0f0f0f0f0f0f (pop_step 2 0x3333333333333333
         (pop_step 1 0x5555555555555555 val)))))"

section \<open>Wide multiplication\<close>

text \<open>A 128-bit number is the pair of its low and its high word, in the order of the arguments.\<close>

definition add128 :: "u64 \<times> u64 \<Rightarrow> u64 \<Rightarrow> u64 \<Rightarrow> u64 \<times> u64" where
  "add128 = (\<lambda>(plow, phigh) a b.
     let plow = plow + a; phigh = (if plow < a then phigh + 1 else phigh) in (plow, phigh + b))"

definition neg128 :: "u64 \<times> u64 \<Rightarrow> u64 \<times> u64" where
  "neg128 = (\<lambda>(plow, phigh). add128 (NOT plow, NOT phigh) 1 0)"

definition mul64 :: "u64 \<Rightarrow> u64 \<Rightarrow> u64 \<times> u64" where
  "mul64 a b =
     (let a0 = ucast a :: u32; a1 = ucast (drop_bit 32 a) :: u32;
          b0 = ucast b :: u32; b1 = ucast (drop_bit 32 b) :: u32;
          v = ucast a0 * ucast b0 :: u64;
          p = (v, 0);
          v = ucast a0 * ucast b1 :: u64;
          p = add128 p (push_bit 32 v) (drop_bit 32 v);
          v = ucast a1 * ucast b0 :: u64;
          p = add128 p (push_bit 32 v) (drop_bit 32 v);
          v = ucast a1 * ucast b1 :: u64
      in (fst p, snd p + v))"

definition mulu64 :: "u64 \<Rightarrow> u64 \<Rightarrow> u64 \<times> u64" where
  "mulu64 a b = mul64 a b"

text \<open>
  Negating the most negative number wraps around to itself, as it does on a two's complement
  machine.
\<close>

definition muls64 :: "u64 \<Rightarrow> u64 \<Rightarrow> u64 \<times> u64" where
  "muls64 a b =
     (let sa = sint a < 0; a = (if sa then - a else a);
          sb = sint b < 0; b = (if sb then - b else b);
          p = mul64 a b
      in if sa \<noteq> sb then neg128 p else p)"

text \<open>The division by zero of \<open>muldiv64\<close> has no behaviour.\<close>

definition muldiv64 :: "u64 \<Rightarrow> u32 \<Rightarrow> u32 \<Rightarrow> u64 option" where
  "muldiv64 a b c =
     do {
       c_assert (c \<noteq> 0);
       let low = ucast a :: u32; high = ucast (drop_bit 32 a) :: u32;
           rl = ucast low * ucast b :: u64;
           rh = ucast high * ucast b :: u64;
           rh = rh + drop_bit 32 rl;
           res_high = ucast (rh div ucast c) :: u32;
           res_low = ucast ((push_bit 32 (rh mod ucast c) + (rl AND 0xffffffff)) div ucast c) :: u32
       in Some (push_bit 32 (ucast res_high) OR ucast res_low)
     }"

section \<open>Powers of two and binary-coded decimals\<close>

definition is_power_of_2 :: "u64 \<Rightarrow> bool" where
  "is_power_of_2 value = (if value = 0 then False else value AND (value - 1) = 0)"

text \<open>The 64-bit signed argument and result are words; shifting by 64 has no behaviour.\<close>

definition pow2floor :: "u64 \<Rightarrow> u64 option" where
  "pow2floor value =
     (if \<not> is_power_of_2 value then
        do { c_assert (clz64 value < 64); Some (drop_bit (clz64 value) 0x8000000000000000) }
      else Some value)"

definition to_bcd :: "u8 \<Rightarrow> u8" where
  "to_bcd val = push_bit 4 (val div 10) OR (val mod 10)"

definition from_bcd :: "u8 \<Rightarrow> u8" where
  "from_bcd val = drop_bit 4 val * 10 + (val AND 0x0f)"

section \<open>The zero counts\<close>

lemma unat_bound: "unat (v :: 'a::len word) < 2 ^ LENGTH('a)"
  by (rule unsigned_less)

lemma drop_bit_zero_iff: "drop_bit n (v :: 'a::len word) = 0 \<longleftrightarrow> unat v < 2 ^ n"
proof -
  have "drop_bit n v = 0 \<longleftrightarrow> unat (drop_bit n v) = 0" by (simp only: unat_eq_zero)
  also have "\<dots> \<longleftrightarrow> unat v div 2 ^ n = 0" by (simp only: unat_drop_bit_eq) (simp add: drop_bit_eq_div)
  finally show ?thesis by (simp add: div_eq_0_iff)
qed

lemma word_and_high:
  assumes "n + k = LENGTH('a)"
  shows "(v :: 'a::len word) AND push_bit n (mask k) = 0 \<longleftrightarrow> unat v < 2 ^ n"
proof -
  have "v AND push_bit n (mask k) = push_bit n (drop_bit n v)"
    using assms by (intro bit_word_eqI) (auto simp: bit_simps)
  moreover have "unat v div 2 ^ n * 2 ^ n < 2 ^ LENGTH('a)"
    by (rule le_less_trans [OF _ unat_bound [of v]]) simp
  then have "unat (push_bit n (drop_bit n v)) = unat v div 2 ^ n * 2 ^ n"
    by (simp only: unsigned_push_bit_eq unat_drop_bit_eq)
      (simp add: push_bit_eq_mult drop_bit_eq_div take_bit_nat_eq_self)
  ultimately have "v AND push_bit n (mask k) = 0 \<longleftrightarrow> unat v div 2 ^ n = 0"
    by (metis mult_eq_0_iff power_not_zero unat_eq_zero zero_neq_numeral)
  then show ?thesis by (simp add: div_eq_0_iff)
qed

lemma word_and_low: "(v :: 'a::len word) AND mask n = 0 \<longleftrightarrow> 2 ^ n dvd unat v"
proof -
  have "v AND mask n = 0 \<longleftrightarrow> unat (take_bit n v) = 0"
    by (simp only: take_bit_eq_mask unat_eq_zero)
  then show ?thesis by (simp only: unsigned_take_bit_eq take_bit_eq_0_iff)
qed

text \<open>
  What a step leaves: the number of positions counted, the number shifted by that much, and no
  room for another \<open>k\<close> positions unless it is zero.
\<close>

definition clz_inv :: "u32 \<Rightarrow> nat \<Rightarrow> nat \<times> u32 \<Rightarrow> bool" where
  "clz_inv x k = (\<lambda>(cnt, val).
     unat val = unat x * 2 ^ cnt \<and> (x \<noteq> 0 \<longrightarrow> 2 ^ (32 - k) \<le> unat val) \<and> (x = 0 \<longrightarrow> cnt = 32 - k))"

lemma clz_step_inv:
  assumes "clz_inv x (2 * k) s" and "m = push_bit (32 - k) (mask k)" and "0 < k" and "2 * k \<le> 32"
  shows "clz_inv x k (clz_step k m s)"
proof -
  obtain cnt val where s: "s = (cnt, val)" by fastforce
  have "val AND m = 0 \<longleftrightarrow> unat val < 2 ^ (32 - k)"
    unfolding assms(2) using assms(4) by (intro word_and_high) simp
  moreover have "unat (push_bit k val) = unat val * 2 ^ k" if "unat val < 2 ^ (32 - k)"
  proof -
    have "unat val * 2 ^ k < 2 ^ (32 - k) * 2 ^ k" using that by simp
    also have "\<dots> = (2 :: nat) ^ 32" using assms(4) by (simp add: power_add [symmetric])
    finally have "unat val * 2 ^ k < 2 ^ 32" .
    then show ?thesis
      by (simp only: unsigned_push_bit_eq) (simp add: push_bit_eq_mult take_bit_nat_eq_self)
  qed
  moreover have "(2 :: nat) ^ (32 - k) = 2 ^ (32 - 2 * k) * 2 ^ k"
    using assms(4) by (simp add: power_add [symmetric])
  ultimately show ?thesis
    using assms(1,3,4) unfolding s clz_inv_def clz_step_def
    by (auto simp: power_add)
qed

lemma clz_masks:
  "0xFFFF0000 = push_bit (32 - 16) (mask 16 :: u32)" "0xFF000000 = push_bit (32 - 8) (mask 8 :: u32)"
  "0xF0000000 = push_bit (32 - 4) (mask 4 :: u32)" "0xC0000000 = push_bit (32 - 2) (mask 2 :: u32)"
  "0x80000000 = push_bit (32 - 1) (mask 1 :: u32)"
  by (simp_all add: push_bit_eq_mult mask_eq_exp_minus_1)

lemma clz32_bounds:
  "(x = 0 \<longrightarrow> clz32 x = 32) \<and>
   (x \<noteq> 0 \<longrightarrow> clz32 x < 32 \<and> 2 ^ (31 - clz32 x) \<le> unat x \<and> unat x < 2 ^ (32 - clz32 x))"
proof -
  define s where "s = clz_step 1 0x80000000 (clz_step 2 0xC0000000 (clz_step 4 0xF0000000
            (clz_step 8 0xFF000000 (clz_step 16 0xFFFF0000 (0, x)))))"
  obtain cnt val where p: "s = (cnt, val)" by fastforce
  have "clz_inv x 32 (0, x)" by (simp add: clz_inv_def unat_gt_0 Suc_le_eq)
  then have "clz_inv x 1 s"
    unfolding s_def by (intro clz_step_inv clz_masks) (simp_all add: clz_step_inv clz_masks)
  then have v: "unat val = unat x * 2 ^ cnt" "x \<noteq> 0 \<Longrightarrow> 2 ^ 31 \<le> unat val" "x = 0 \<Longrightarrow> cnt = 31"
    by (simp_all add: p clz_inv_def)
  have "val AND 0x80000000 = 0 \<longleftrightarrow> unat val < 2 ^ 31"
    unfolding clz_masks using word_and_high [of "32 - 1" 1 val] by simp
  moreover have "clz32 x = (if val AND 0x80000000 = 0 then cnt + 1 else cnt)"
    unfolding clz32_def s_def [symmetric] p by simp
  ultimately have c: "clz32 x = (if x = 0 then cnt + 1 else cnt)"
    using v by (cases "x = 0") auto
  show ?thesis
  proof (cases "x = 0")
    case True
    then show ?thesis using c v(3) by simp
  next
    case False
    have lt: "unat x * 2 ^ cnt < 2 ^ 32" using v(1) unat_bound [of val] by simp
    have pos: "0 < unat x" using False by (simp add: unat_gt_0)
    then have "2 ^ cnt \<le> unat x * 2 ^ cnt" by simp
    then have "(2 :: nat) ^ cnt < 2 ^ 32" using lt by (rule le_less_trans)
    then have "cnt < 32" by (rule nat_power_less_imp_less [rotated]) simp
    then have e: "(2 :: nat) ^ 32 = 2 ^ (32 - cnt) * 2 ^ cnt" "(2 :: nat) ^ 31 = 2 ^ (31 - cnt) * 2 ^ cnt"
      by (simp_all add: power_add [symmetric])
    have "2 ^ (31 - cnt) * 2 ^ cnt \<le> unat x * 2 ^ cnt"
      using v(2) [OF False] by (simp only: v(1) e)
    moreover have "unat x * 2 ^ cnt < 2 ^ (32 - cnt) * 2 ^ cnt" using lt by (simp only: e)
    ultimately show ?thesis using False c \<open>cnt < 32\<close> by simp
  qed
qed

lemma ucast_u32_small: "unat (x :: u64) < 2 ^ 32 \<Longrightarrow> unat (ucast x :: u32) = unat x"
  by (simp add: unsigned_ucast_eq take_bit_nat_eq_self)

lemma unat_drop32: "unat (drop_bit 32 (x :: u64)) = unat x div 2 ^ 32"
  by (simp only: unat_drop_bit_eq) (simp add: drop_bit_eq_div)

lemma clz64_bounds:
  "(x = 0 \<longrightarrow> clz64 x = 64) \<and>
   (x \<noteq> 0 \<longrightarrow> clz64 x < 64 \<and> 2 ^ (63 - clz64 x) \<le> unat x \<and> unat x < 2 ^ (64 - clz64 x))"
proof (cases "unat x < 2 ^ 32")
  case True
  then have "clz64 x = 32 + clz32 (ucast x)"
    using drop_bit_zero_iff [of 32 x] by (simp add: clz64_def)
  moreover have "ucast x = (0 :: u32) \<longleftrightarrow> x = 0"
    using ucast_u32_small [OF True] by (metis unat_eq_zero)
  ultimately show ?thesis
    using clz32_bounds [of "ucast x"] ucast_u32_small [OF True] by auto
next
  case False
  let ?h = "ucast (drop_bit 32 x) :: u32"
  have h: "unat ?h = unat x div 2 ^ 32"
  proof -
    have "unat x div 2 ^ 32 < 2 ^ 32" using unat_bound [of x] by (simp add: less_mult_imp_div_less)
    then show ?thesis by (simp only: ucast_u32_small unat_drop32)
  qed
  have c: "clz64 x = clz32 ?h"
    using False drop_bit_zero_iff [of 32 x] by (simp add: clz64_def)
  have "?h \<noteq> 0" using h False by (auto simp: div_eq_0_iff simp flip: unat_eq_zero)
  then have b: "clz32 ?h < 32" "2 ^ (31 - clz32 ?h) \<le> unat x div 2 ^ 32"
    "unat x div 2 ^ 32 < 2 ^ (32 - clz32 ?h)"
    using clz32_bounds [of ?h] h by auto
  have "63 - clz32 ?h = (31 - clz32 ?h) + 32" "64 - clz32 ?h = (32 - clz32 ?h) + 32"
    using b(1) by linarith+
  then have "(2 :: nat) ^ (63 - clz32 ?h) = 2 ^ (31 - clz32 ?h) * 2 ^ 32"
    "(2 :: nat) ^ (64 - clz32 ?h) = 2 ^ (32 - clz32 ?h) * 2 ^ 32"
    by (simp_all only: power_add)
  then show ?thesis
    using b c False by (auto simp: less_eq_div_iff_mult_less_eq div_less_iff_less_mult)
qed

definition ctz_inv :: "u32 \<Rightarrow> nat \<Rightarrow> nat \<times> u32 \<Rightarrow> bool" where
  "ctz_inv x k = (\<lambda>(cnt, val).
     unat x = unat val * 2 ^ cnt \<and> (x \<noteq> 0 \<longrightarrow> \<not> 2 ^ k dvd unat val) \<and> (x = 0 \<longrightarrow> cnt = 32 - k))"

lemma ctz_step_inv:
  assumes "ctz_inv x (2 * k) s" and "m = mask k" and "2 * k \<le> 32"
  shows "ctz_inv x k (ctz_step k m s)"
proof -
  obtain cnt val where s: "s = (cnt, val)" by fastforce
  have i: "unat x = unat val * 2 ^ cnt" "x \<noteq> 0 \<Longrightarrow> \<not> 2 ^ (2 * k) dvd unat val"
    "x = 0 \<Longrightarrow> cnt = 32 - 2 * k"
    using assms(1) by (simp_all add: s ctz_inv_def)
  have z: "val AND m = 0 \<longleftrightarrow> 2 ^ k dvd unat val"
    unfolding assms(2) by (rule word_and_low)
  show ?thesis
  proof (cases "2 ^ k dvd unat val")
    case True
    then obtain q where q: "unat val = q * 2 ^ k" by (metis dvdE mult.commute)
    have d: "unat (drop_bit k val) = q"
      by (simp only: unat_drop_bit_eq) (simp add: drop_bit_eq_div q)
    have "(2 :: nat) ^ (2 * k) = 2 ^ k * 2 ^ k" by (simp add: mult_2 power_add)
    then have "x \<noteq> 0 \<Longrightarrow> \<not> 2 ^ k dvd q" using i(2) q by (metis dvd_refl mult_dvd_mono)
    moreover have "unat x = q * 2 ^ (cnt + k)" using i(1) q by (simp add: power_add)
    moreover have "x = 0 \<Longrightarrow> cnt + k = 32 - k" using i(3) assms(3) by simp
    moreover have "ctz_step k m s = (cnt + k, drop_bit k val)" using True z by (simp add: s ctz_step_def)
    ultimately show ?thesis using d by (simp add: ctz_inv_def)
  next
    case False
    then have "x \<noteq> 0" using i(1) by (cases "unat val = 0") (auto simp flip: unat_eq_zero)
    moreover have "ctz_step k m s = (cnt, val)" using False z by (simp add: s ctz_step_def)
    ultimately show ?thesis using False i(1) by (simp add: ctz_inv_def)
  qed
qed

lemma ctz_masks:
  "0xFFFF = (mask 16 :: u32)" "0xFF = (mask 8 :: u32)" "0xF = (mask 4 :: u32)"
  "0x3 = (mask 2 :: u32)" "0x1 = (mask 1 :: u32)"
  by (simp_all add: mask_eq_exp_minus_1)

lemma ctz32_dvd:
  "(x = 0 \<longrightarrow> ctz32 x = 32) \<and>
   (x \<noteq> 0 \<longrightarrow> 2 ^ ctz32 x dvd unat x \<and> \<not> 2 ^ Suc (ctz32 x) dvd unat x)"
proof -
  define s where "s = ctz_step 1 0x00000001 (ctz_step 2 0x00000003 (ctz_step 4 0x0000000F
            (ctz_step 8 0x000000FF (ctz_step 16 0x0000FFFF (0, x)))))"
  obtain cnt val where p: "s = (cnt, val)" by fastforce
  have "\<not> 2 ^ 32 dvd unat x" if "x \<noteq> 0"
    using that unat_bound [of x] by (auto simp: unat_gt_0 dest!: dvd_imp_le)
  then have "ctz_inv x 32 (0, x)" by (simp add: ctz_inv_def)
  then have "ctz_inv x 1 s"
    unfolding s_def by (intro ctz_step_inv ctz_masks) (simp_all add: ctz_step_inv ctz_masks)
  then have v: "unat x = unat val * 2 ^ cnt" "x \<noteq> 0 \<Longrightarrow> \<not> 2 ^ 1 dvd unat val" "x = 0 \<Longrightarrow> cnt = 31"
    unfolding p ctz_inv_def by simp_all
  have "val AND 0x1 = 0 \<longleftrightarrow> 2 ^ 1 dvd unat val"
    unfolding ctz_masks by (rule word_and_low)
  moreover have "ctz32 x = (if val AND 0x1 = 0 then cnt + 1 else cnt)"
    unfolding ctz32_def s_def [symmetric] p by simp
  moreover have "x = 0 \<Longrightarrow> unat val = 0" using v(1) by simp
  ultimately have c: "ctz32 x = (if x = 0 then cnt + 1 else cnt)"
    using v(2) by (cases "x = 0") auto
  have "2 ^ Suc cnt dvd unat x \<longleftrightarrow> 2 dvd unat val" unfolding v(1) by simp
  then show ?thesis using c v by auto
qed

lemma ctz64_dvd:
  "(x = 0 \<longrightarrow> ctz64 x = 64) \<and>
   (x \<noteq> 0 \<longrightarrow> 2 ^ ctz64 x dvd unat x \<and> \<not> 2 ^ Suc (ctz64 x) dvd unat x)"
proof (cases "(ucast x :: u32) = 0")
  case True
  let ?h = "ucast (drop_bit 32 x) :: u32"
  have "unat x div 2 ^ 32 < 2 ^ 32" using unat_bound [of x] by (simp add: less_mult_imp_div_less)
  then have h: "unat ?h = unat x div 2 ^ 32" by (simp only: ucast_u32_small unat_drop32)
  have "unat x mod 2 ^ 32 = unat (ucast x :: u32)"
    by (simp add: unsigned_ucast_eq take_bit_eq_mod)
  then have "unat x mod 2 ^ 32 = 0" using True by simp
  then have x: "unat x = unat ?h * 2 ^ 32" using h by (simp add: mod_eq_0_iff_dvd)
  then have "x = 0 \<longleftrightarrow> ?h = 0" by (auto simp flip: unat_eq_zero)
  moreover have c: "ctz64 x = 32 + ctz32 ?h" using True by (simp add: ctz64_def)
  ultimately show ?thesis
    using ctz32_dvd [of ?h] unfolding x c by (auto simp: power_add)
next
  case False
  let ?l = "ucast x :: u32"
  have l: "unat ?l = unat x mod 2 ^ 32" by (simp add: unsigned_ucast_eq take_bit_eq_mod)
  have c: "ctz64 x = ctz32 ?l" using False by (simp add: ctz64_def)
  have d: "2 ^ k dvd unat x \<longleftrightarrow> 2 ^ k dvd unat ?l" if "k \<le> 32" for k
    unfolding l by (rule dvd_mod_iff [OF le_imp_power_dvd [OF that], symmetric])
  have b: "2 ^ ctz32 ?l dvd unat ?l" "\<not> 2 ^ Suc (ctz32 ?l) dvd unat ?l"
    using ctz32_dvd [of ?l] False by auto
  then have "2 ^ ctz32 ?l \<le> unat ?l" using False by (auto simp: unat_gt_0 dest!: dvd_imp_le)
  then have "(2 :: nat) ^ ctz32 ?l < 2 ^ 32" using unat_bound [of ?l] by simp
  then have "ctz32 ?l < 32" by (rule nat_power_less_imp_less [rotated]) simp
  moreover have "x \<noteq> 0" using False by auto
  ultimately show ?thesis using b d [of "ctz32 ?l"] d [of "Suc (ctz32 ?l)"] by (simp add: c)
qed

section \<open>Sums of fields\<close>

text \<open>A number from its digits of \<open>w\<close> bits, and the digits of its neighbours added up.\<close>

fun digits_val :: "nat \<Rightarrow> nat list \<Rightarrow> nat" where
  "digits_val w [] = 0"
| "digits_val w (a # as) = a + 2 ^ w * digits_val w as"

fun pair_sums :: "nat list \<Rightarrow> nat list" where
  "pair_sums (a # b # as) = (a + b) # pair_sums as"
| "pair_sums as = as"

fun firsts :: "nat list \<Rightarrow> nat list" where
  "firsts (a # b # as) = a # firsts as"
| "firsts as = as"

fun seconds :: "nat list \<Rightarrow> nat list" where
  "seconds (a # b # as) = b # seconds as"
| "seconds as = []"

lemma bit_concat:
  assumes "x < 2 ^ w"
  shows "bit (x + 2 ^ w * y :: nat) n \<longleftrightarrow> (if n < w then bit x n else bit y (n - w))"
proof -
  have "take_bit w (x + 2 ^ w * y) = x" "drop_bit w (x + 2 ^ w * y) = y"
    using assms by (simp_all add: take_bit_eq_mod drop_bit_eq_div)
  then show ?thesis
    by (metis bit_drop_bit_eq bit_take_bit_iff comp_apply le_add_diff_inverse not_less)
qed

lemma and_concat:
  assumes "x < 2 ^ w" and "y < 2 ^ w"
  shows "(x + 2 ^ w * u) AND (y + 2 ^ w * v) = (x AND y) + 2 ^ w * (u AND v :: nat)"
proof (rule bit_eqI)
  fix n
  have "x AND y < 2 ^ w"
    using assms by (metis take_bit_and take_bit_nat_eq_self_iff)
  then show "bit ((x + 2 ^ w * u) AND (y + 2 ^ w * v)) n = bit ((x AND y) + 2 ^ w * (u AND v)) n"
    by (simp add: bit_concat assms bit_and_iff)
qed

lemma and_low_digit:
  assumes "b < 2 ^ w"
  shows "(b + 2 ^ w * y) AND (2 ^ w - 1) = (b :: nat)"
  unfolding mask_eq_exp_minus_1 [symmetric] take_bit_eq_mask [symmetric]
  using assms by (simp add: take_bit_eq_mod)

lemma digit_lt: "b < 2 ^ w \<Longrightarrow> a < 2 ^ w \<Longrightarrow> b + 2 ^ w * a < (2 :: nat) ^ (2 * w)"
proof -
  assume "b < 2 ^ w" "a < 2 ^ w"
  then have "b + 2 ^ w * a < 2 ^ w * Suc a" by simp
  also have "\<dots> \<le> 2 ^ w * 2 ^ w" using \<open>a < 2 ^ w\<close> by (intro mult_le_mono2) simp
  finally show ?thesis by (simp add: mult_2 power_add)
qed

lemma two_power_double: "(2 :: nat) ^ (2 * w) = 2 ^ w * 2 ^ w"
  by (simp add: mult_2 power_add)

lemma mask_lt: "(2 :: nat) ^ w - 1 < 2 ^ (2 * w)"
proof -
  have "(2 :: nat) ^ w - 1 < 2 ^ w" by simp
  also have "\<dots> \<le> 2 ^ (2 * w)" by (intro power_increasing) simp_all
  finally show ?thesis .
qed

lemma low_digits:
  assumes "0 < w" and "length ds = 2 * n" and "\<forall>a\<in>set ds. a < 2 ^ w"
  shows "digits_val w ds AND digits_val (2 * w) (replicate n (2 ^ w - 1)) = digits_val (2 * w) (firsts ds)"
  using assms(2,3)
proof (induction ds arbitrary: n rule: firsts.induct)
  case (1 a b as)
  then obtain m where n: "n = Suc m" by (cases n) auto
  have e: "digits_val w (a # b # as) = (a + 2 ^ w * b) + 2 ^ (2 * w) * digits_val w as"
    unfolding two_power_double by (simp add: algebra_simps)
  have l: "a + 2 ^ w * b < 2 ^ (2 * w)" using 1(3) by (intro digit_lt) simp_all
  have "digits_val w as AND digits_val (2 * w) (replicate m (2 ^ w - 1)) = digits_val (2 * w) (firsts as)"
    using 1 n by simp
  then show ?case
    using and_concat [OF l mask_lt] and_low_digit [of a w b] 1(3) unfolding e n by simp
qed (use assms(1) in auto)

lemma high_digits:
  assumes "0 < w" and "length ds = 2 * n" and "\<forall>a\<in>set ds. a < 2 ^ w"
  shows "(digits_val w ds div 2 ^ w) AND digits_val (2 * w) (replicate n (2 ^ w - 1)) =
    digits_val (2 * w) (seconds ds)"
  using assms(2,3)
proof (induction ds arbitrary: n rule: seconds.induct)
  case (1 a b as)
  then obtain m where n: "n = Suc m" by (cases n) auto
  let ?v = "digits_val w as"
  have "digits_val w (a # b # as) div 2 ^ w = b + 2 ^ w * ?v" using 1(3) by simp
  also have "\<dots> = (b + 2 ^ w * (?v mod 2 ^ w)) + 2 ^ (2 * w) * (?v div 2 ^ w)"
  proof -
    have "2 ^ w * ?v = 2 ^ w * (?v mod 2 ^ w + 2 ^ w * (?v div 2 ^ w))" by simp
    then show ?thesis by (simp only: two_power_double distrib_left mult.assoc add.assoc)
  qed
  finally have e: "digits_val w (a # b # as) div 2 ^ w =
    (b + 2 ^ w * (?v mod 2 ^ w)) + 2 ^ (2 * w) * (?v div 2 ^ w)" .
  have l: "b + 2 ^ w * (?v mod 2 ^ w) < 2 ^ (2 * w)" using 1(3) by (intro digit_lt) simp_all
  have "?v div 2 ^ w AND digits_val (2 * w) (replicate m (2 ^ w - 1)) = digits_val (2 * w) (seconds as)"
    using 1 n by simp
  then show ?case
    using and_concat [OF l mask_lt] and_low_digit [of b w "?v mod 2 ^ w"] 1(3)
    unfolding e n by simp
qed (use assms(1) in auto)

lemma pair_sums_val:
  "even (length ds) \<Longrightarrow>
     digits_val w (firsts ds) + digits_val w (seconds ds) = digits_val w (pair_sums ds)"
proof (induction ds rule: pair_sums.induct)
  case (1 a b as)
  then have e: "digits_val w (pair_sums as) = digits_val w (firsts as) + digits_val w (seconds as)"
    by simp
  show ?case by (simp add: e algebra_simps)
qed simp_all

lemma length_pair_sums: "even (length ds) \<Longrightarrow> 2 * length (pair_sums ds) = length ds"
  by (induction ds rule: pair_sums.induct) simp_all

lemma sum_pair_sums: "sum_list (pair_sums ds) = sum_list ds"
  by (induction ds rule: pair_sums.induct) simp_all

lemma pair_sums_lt:
  assumes "0 < w" and "even (length ds)" and "\<forall>a\<in>set ds. a < 2 ^ w"
  shows "\<forall>a\<in>set (pair_sums ds). a < 2 ^ (2 * w)"
  using assms(2,3)
proof (induction ds rule: pair_sums.induct)
  case (1 a b as)
  have "(2 :: nat) ^ Suc w \<le> 2 ^ (2 * w)" using assms(1) by (intro power_increasing) auto
  moreover have "a + b < 2 ^ Suc w" using 1(3) by simp
  ultimately show ?case using 1 by auto
qed auto

lemma digits_val_lt: "\<forall>a\<in>set ds. a < 2 ^ w \<Longrightarrow> digits_val w ds < 2 ^ (w * length ds)"
proof (induction ds)
  case (Cons a ds)
  then have "digits_val w ds + 1 \<le> 2 ^ (w * length ds)" by simp
  then have "2 ^ w * (digits_val w ds + 1) \<le> 2 ^ w * 2 ^ (w * length ds)" by (rule mult_le_mono2)
  moreover have "a < 2 ^ w" using Cons.prems by simp
  ultimately show ?case by (simp add: power_add)
qed simp

text \<open>The digits of a word, and what a halving step does to them.\<close>

definition fields :: "nat \<Rightarrow> 'a::len word \<Rightarrow> nat list \<Rightarrow> bool" where
  "fields w v ds \<longleftrightarrow>
     unat v = digits_val w ds \<and> w * length ds = LENGTH('a) \<and> (\<forall>a\<in>set ds. a < 2 ^ w)"

lemma pop_step_fields:
  assumes "fields w v ds" and "length ds = 2 * n" and "0 < w"
    and m: "unat m = digits_val (2 * w) (replicate n (2 ^ w - 1))"
  shows "fields (2 * w) (pop_step w m v) (pair_sums ds)"
proof -
  have v: "unat (v :: 'a word) = digits_val w ds" "w * length ds = LENGTH('a)" "\<forall>a\<in>set ds. a < 2 ^ w"
    using assms(1) by (simp_all add: fields_def)
  have lt: "\<forall>a\<in>set (pair_sums ds). a < 2 ^ (2 * w)"
    using pair_sums_lt [OF assms(3) _ v(3)] assms(2) by simp
  have len: "2 * w * length (pair_sums ds) = LENGTH('a)"
    using v(2) assms(2) length_pair_sums [of ds] by simp
  have "unat (v AND m) = digits_val (2 * w) (firsts ds)"
    by (simp only: unsigned_and_eq v(1) m low_digits [OF assms(3,2) v(3)])
  moreover have "unat (drop_bit w v) = digits_val w ds div 2 ^ w"
    by (simp only: unat_drop_bit_eq v(1)) (simp add: drop_bit_eq_div)
  then have "unat (drop_bit w v AND m) = digits_val (2 * w) (seconds ds)"
    by (simp only: unsigned_and_eq m high_digits [OF assms(3,2) v(3)])
  ultimately have "unat (v AND m) + unat (drop_bit w v AND m) = digits_val (2 * w) (pair_sums ds)"
    using pair_sums_val [of ds "2 * w"] assms(2) by simp
  moreover have "digits_val (2 * w) (pair_sums ds) < 2 ^ LENGTH('a)"
    using digits_val_lt [OF lt] len by simp
  ultimately have "unat (pop_step w m v) = digits_val (2 * w) (pair_sums ds)"
    unfolding pop_step_def by (simp add: unat_word_ariths(1))
  then show ?thesis using lt len by (simp add: fields_def)
qed

lemma bit_fields: "fields 1 v (map (\<lambda>i. of_bool (bit v i)) [0..<LENGTH('a)])" for v :: "'a::len word"
proof -
  have h: "horner_sum of_bool 2 bs = digits_val 1 (map of_bool bs)" for bs
    by (induction bs) simp_all
  have u: "horner_sum of_bool 2 (map (bit (unat v)) [0..<LENGTH('a)]) = unat v"
    by (simp only: horner_sum_bit_eq_take_bit) (simp add: take_bit_nat_eq_self unat_bound)
  have e: "map of_bool (map (bit (unat v)) [0..<LENGTH('a)]) =
      map (\<lambda>i. of_bool (bit v i)) [0..<LENGTH('a)]"
    by (auto simp: bit_unsigned_iff)
  have "unat v = digits_val 1 (map (\<lambda>i. of_bool (bit v i)) [0..<LENGTH('a)])"
    using h [of "map (bit (unat v)) [0..<LENGTH('a)]"] by (simp only: u e)
  then show ?thesis by (simp add: fields_def)
qed

lemma sum_of_bools: "sum_list (map (\<lambda>i. of_bool (P i)) [0..<n]) = card {i. i < n \<and> P i}"
proof (induction n)
  case (Suc n)
  have "{i. i < Suc n \<and> P i} = (if P n then insert n {i. i < n \<and> P i} else {i. i < n \<and> P i})"
    by (auto simp: less_Suc_eq)
  then show ?case using Suc by simp
qed simp

lemma sum_bits: "sum_list (map (\<lambda>i. of_bool (bit v i)) [0..<LENGTH('a)]) = card {i. bit v i}"
  for v :: "'a::len word"
proof -
  have "{i. bit v i} = {i. i < LENGTH('a) \<and> bit v i}" by (auto dest: bit_imp_le_length)
  then show ?thesis by (simp only: sum_of_bools)
qed

text \<open>A word of \<open>n\<close> fields of \<open>w\<close> bits that add up to \<open>s\<close>.\<close>

definition adds_up :: "nat \<Rightarrow> 'a::len word \<Rightarrow> nat \<Rightarrow> nat \<Rightarrow> bool" where
  "adds_up w v n s \<longleftrightarrow> (\<exists>ds. fields w v ds \<and> length ds = n \<and> sum_list ds = s)"

lemma adds_up_bits: "adds_up 1 v LENGTH('a) (card {i. bit v i})" for v :: "'a::len word"
  unfolding adds_up_def using bit_fields [of v] sum_bits [of v] by fastforce

lemma adds_up_step:
  assumes "adds_up w v (2 * n) s" and "0 < w"
    and "unat m = digits_val (2 * w) (replicate n (2 ^ w - 1))"
  shows "adds_up (2 * w) (pop_step w m v) n s"
proof -
  obtain ds where ds: "fields w v ds" "length ds = 2 * n" "sum_list ds = s"
    using assms(1) unfolding adds_up_def by blast
  have "length (pair_sums ds) = n" using length_pair_sums [of ds] ds(2) by simp
  then show ?thesis
    unfolding adds_up_def using pop_step_fields [OF ds(1,2) assms(2,3)] ds(3) sum_pair_sums [of ds]
    by blast
qed

lemma adds_up_single: "adds_up w v 1 s \<Longrightarrow> unat v = s"
  by (auto simp: adds_up_def fields_def length_Suc_conv)

lemma replicate_small:
  "replicate 2 x = [x, x]" "replicate 4 x = [x, x, x, x]"
  "replicate 8 x = [x, x, x, x, x, x, x, x]"
  "replicate 16 x = replicate 8 x @ replicate 8 x"
  "replicate 32 x = replicate 8 x @ replicate 8 x @ replicate 8 x @ replicate 8 x"
  by (simp_all add: eval_nat_numeral)

lemma ctpop8_card: "unat (ctpop8 v) = card {i. bit v i}"
proof -
  have "adds_up 2 (pop_step 1 0x55 v) 4 (card {i. bit v i})"
    using adds_up_step [of 1 v 4 _ "0x55"] adds_up_bits [of v]
    by (simp add: replicate_small)
  then have "adds_up 4 (pop_step 2 0x33 (pop_step 1 0x55 v)) 2 (card {i. bit v i})"
    using adds_up_step [of 2 "pop_step 1 0x55 v" 2 _ "0x33"] by (simp add: replicate_small)
  then have "adds_up 8 (ctpop8 v) 1 (card {i. bit v i})"
    unfolding ctpop8_def using adds_up_step [of 4 "pop_step 2 0x33 (pop_step 1 0x55 v)" 1 _ "0xf"]
    by (simp add: replicate_small)
  then show ?thesis by (rule adds_up_single)
qed

lemma ctpop16_card: "unat (ctpop16 v) = card {i. bit v i}"
proof -
  define v1 where "v1 = pop_step 1 0x5555 v"
  define v2 where "v2 = pop_step 2 0x3333 v1"
  define v4 where "v4 = pop_step 4 0x0f0f v2"
  have "adds_up 2 v1 8 (card {i. bit v i})"
    unfolding v1_def using adds_up_step [of 1 v 8 _ "0x5555"] adds_up_bits [of v]
    by (simp add: replicate_small)
  then have "adds_up 4 v2 4 (card {i. bit v i})"
    unfolding v2_def using adds_up_step [of 2 v1 4 _ "0x3333"] by (simp add: replicate_small)
  then have "adds_up 8 v4 2 (card {i. bit v i})"
    unfolding v4_def using adds_up_step [of 4 v2 2 _ "0x0f0f"] by (simp add: replicate_small)
  then have "adds_up 16 (ctpop16 v) 1 (card {i. bit v i})"
    unfolding ctpop16_def v1_def [symmetric] v2_def [symmetric] v4_def [symmetric]
    using adds_up_step [of 8 v4 1 _ "0xff"] by (simp add: replicate_small)
  then show ?thesis by (rule adds_up_single)
qed

lemma ctpop32_card: "unat (ctpop32 v) = card {i. bit v i}"
proof -
  define v1 where "v1 = pop_step 1 0x55555555 v"
  define v2 where "v2 = pop_step 2 0x33333333 v1"
  define v4 where "v4 = pop_step 4 0x0f0f0f0f v2"
  define v8 where "v8 = pop_step 8 0x00ff00ff v4"
  have "adds_up 2 v1 16 (card {i. bit v i})"
    unfolding v1_def using adds_up_step [of 1 v 16 _ "0x55555555"] adds_up_bits [of v]
    by (simp add: replicate_small)
  then have "adds_up 4 v2 8 (card {i. bit v i})"
    unfolding v2_def using adds_up_step [of 2 v1 8 _ "0x33333333"] by (simp add: replicate_small)
  then have "adds_up 8 v4 4 (card {i. bit v i})"
    unfolding v4_def using adds_up_step [of 4 v2 4 _ "0x0f0f0f0f"] by (simp add: replicate_small)
  then have "adds_up 16 v8 2 (card {i. bit v i})"
    unfolding v8_def using adds_up_step [of 8 v4 2 _ "0x00ff00ff"] by (simp add: replicate_small)
  then have "adds_up 32 (ctpop32 v) 1 (card {i. bit v i})"
    unfolding ctpop32_def v1_def [symmetric] v2_def [symmetric] v4_def [symmetric] v8_def [symmetric]
    using adds_up_step [of 16 v8 1 _ "0xffff"] by (simp add: replicate_small)
  then show ?thesis by (rule adds_up_single)
qed

lemma ctpop64_card: "unat (ctpop64 v) = card {i. bit v i}"
proof -
  define v1 where "v1 = pop_step 1 0x5555555555555555 v"
  define v2 where "v2 = pop_step 2 0x3333333333333333 v1"
  define v4 where "v4 = pop_step 4 0x0f0f0f0f0f0f0f0f v2"
  define v8 where "v8 = pop_step 8 0x00ff00ff00ff00ff v4"
  define v16 where "v16 = pop_step 16 0x0000ffff0000ffff v8"
  have "adds_up 2 v1 32 (card {i. bit v i})"
    unfolding v1_def using adds_up_step [of 1 v 32 _ "0x5555555555555555"] adds_up_bits [of v]
    by (simp add: replicate_small)
  then have "adds_up 4 v2 16 (card {i. bit v i})"
    unfolding v2_def using adds_up_step [of 2 v1 16 _ "0x3333333333333333"] by (simp add: replicate_small)
  then have "adds_up 8 v4 8 (card {i. bit v i})"
    unfolding v4_def using adds_up_step [of 4 v2 8 _ "0x0f0f0f0f0f0f0f0f"] by (simp add: replicate_small)
  then have "adds_up 16 v8 4 (card {i. bit v i})"
    unfolding v8_def using adds_up_step [of 8 v4 4 _ "0x00ff00ff00ff00ff"] by (simp add: replicate_small)
  then have "adds_up 32 v16 2 (card {i. bit v i})"
    unfolding v16_def using adds_up_step [of 16 v8 2 _ "0x0000ffff0000ffff"] by (simp add: replicate_small)
  then have "adds_up 64 (ctpop64 v) 1 (card {i. bit v i})"
    unfolding ctpop64_def v1_def [symmetric] v2_def [symmetric] v4_def [symmetric] v8_def [symmetric]
      v16_def [symmetric]
    using adds_up_step [of 32 v16 1 _ "0xffffffff"] by (simp add: replicate_small)
  then show ?thesis by (rule adds_up_single)
qed

section \<open>Products\<close>

definition val128 :: "u64 \<times> u64 \<Rightarrow> int" where
  "val128 p = uint (fst p) + 2 ^ 64 * uint (snd p)"

lemma val128_of_int: "val128 (l, of_int h) = (uint l + 2 ^ 64 * h) mod 2 ^ 128"
proof -
  have "(uint l + 2 ^ 64 * h) mod (2 ^ 64 * 2 ^ 64) =
      2 ^ 64 * ((uint l + 2 ^ 64 * h) div 2 ^ 64 mod 2 ^ 64) + (uint l + 2 ^ 64 * h) mod 2 ^ 64"
    by (rule zmod_zmult2_eq) simp
  also have "(uint l + 2 ^ 64 * h) div 2 ^ 64 = h" using uint64_lt [of l] by simp
  also have "(uint l + 2 ^ 64 * h) mod 2 ^ 64 = uint l" using uint64_lt [of l] by simp
  finally show ?thesis
    by (simp add: val128_def unsigned_of_int take_bit_eq_mod)
qed

lemma add128_val: "val128 (add128 p a b) = (val128 p + uint a + 2 ^ 64 * uint b) mod 2 ^ 128"
proof -
  obtain l h where p: "p = (l, h)" by fastforce
  let ?c = "l + a < a"
  have c: "?c \<longleftrightarrow> 2 ^ 64 \<le> uint l + uint a"
    unfolding word_less_def uint_add64_carry
    using uint64_lt [of l] uint64_lt [of a] uint64_ge [of l] by auto
  have "add128 p a b = (l + a, of_int (uint h + of_bool ?c + uint b))"
    by (simp add: p add128_def Let_def)
  then have "val128 (add128 p a b) = (uint (l + a) + 2 ^ 64 * (uint h + of_bool ?c + uint b)) mod 2 ^ 128"
    by (simp only: val128_of_int)
  also have "uint (l + a) + 2 ^ 64 * (uint h + of_bool ?c + uint b) = val128 p + uint a + 2 ^ 64 * uint b"
    unfolding uint_add64_carry c [symmetric] p val128_def by (cases ?c) simp_all
  finally show ?thesis .
qed

lemma neg128_val: "val128 (neg128 p) = (- val128 p) mod 2 ^ 128"
proof -
  obtain l h where p: "p = (l, h)" by fastforce
  have "val128 (neg128 p) = (val128 (NOT l, NOT h) + 1) mod 2 ^ 128"
    using add128_val [of "(NOT l, NOT h)" 1 0] by (simp add: p neg128_def)
  also have "val128 (NOT l, NOT h) + 1 = - val128 p + 2 ^ 128"
    by (simp add: p val128_def uint_not64)
  also have "(- val128 p + 2 ^ 128) mod 2 ^ 128 = (- val128 p) mod 2 ^ 128"
    by (rule mod_add_self2)
  finally show ?thesis .
qed

lemma uint32_lt: "uint (x :: u32) < 2 ^ 32"
  using uint_bounded [of x] by simp

lemma uint_ucast_u32: "uint (ucast (x :: u32) :: u64) = uint x"
  by (rule uint_up_ucast) (simp add: is_up)

lemma uint_ucast_mult: "uint (ucast (x :: u32) * ucast (y :: u32) :: u64) = uint x * uint y"
proof -
  have "uint x * uint y < 2 ^ 32 * 2 ^ 32"
    using uint32_lt [of x] uint32_lt [of y] by (intro mult_strict_mono) auto
  then show ?thesis
    by (simp add: uint_word_arith_bintrs(3) take_bit_eq_mod uint_ucast_u32)
qed

lemma uint_low32: "uint (ucast (a :: u64) :: u32) = uint a mod 2 ^ 32"
  by (simp add: unsigned_ucast_eq take_bit_eq_mod)

lemma uint_drop32: "uint (drop_bit 32 (a :: u64)) = uint a div 2 ^ 32"
  by (simp add: drop_bit_eq_div uint_div)

lemma uint_high32: "uint (ucast (drop_bit 32 (a :: u64)) :: u32) = uint a div 2 ^ 32"
proof -
  have "uint a div 2 ^ 32 < 2 ^ 32" using uint64_lt [of a] by auto
  then show ?thesis
    unfolding uint_low32 uint_drop32
    by (intro mod_pos_pos_trivial) (simp_all add: pos_imp_zdiv_nonneg_iff)
qed

text \<open>A word shifted by 32 bits across the two halves of a 128-bit number.\<close>

lemma split_shift32: "uint (push_bit 32 (v :: u64)) + 2 ^ 64 * uint (drop_bit 32 v) = 2 ^ 32 * uint v"
proof -
  have "uint (push_bit 32 v) = 2 ^ 32 * uint v mod (2 ^ 32 * 2 ^ 32)"
    by (simp only: unsigned_push_bit_eq) (simp add: push_bit_eq_mult take_bit_eq_mod mult.commute)
  also have "\<dots> = 2 ^ 32 * (uint v mod 2 ^ 32)" by (rule mult_mod_right [symmetric])
  finally have p: "uint (push_bit 32 v) = 2 ^ 32 * (uint v mod 2 ^ 32)" .
  define q r where "q = uint v div 2 ^ 32" and "r = uint v mod 2 ^ 32"
  have "uint v = 2 ^ 32 * q + r" unfolding q_def r_def by (simp only: mult_div_mod_eq)
  then show ?thesis
    unfolding uint_drop32 p q_def [symmetric] r_def [symmetric] by simp
qed

lemma product_of_halves:
  fixes a0 :: int
  shows "a0 * b0 + 2 ^ 32 * (a0 * b1) + 2 ^ 32 * (a1 * b0) + 2 ^ 64 * (a1 * b1) =
    (a0 + 2 ^ 32 * a1) * (b0 + 2 ^ 32 * b1)"
  by (simp add: algebra_simps)

lemma mul64_val: "val128 (mul64 a b) = uint a * uint b"
proof -
  let ?a0 = "uint a mod 2 ^ 32" and ?a1 = "uint a div 2 ^ 32"
    and ?b0 = "uint b mod 2 ^ 32" and ?b1 = "uint b div 2 ^ 32"
  define v0 v1 v2 v3 :: u64 where
    "v0 = ucast (ucast a :: u32) * ucast (ucast b :: u32)" and
    "v1 = ucast (ucast a :: u32) * ucast (ucast (drop_bit 32 b) :: u32)" and
    "v2 = ucast (ucast (drop_bit 32 a) :: u32) * ucast (ucast b :: u32)" and
    "v3 = ucast (ucast (drop_bit 32 a) :: u32) * ucast (ucast (drop_bit 32 b) :: u32)"
  have v: "uint v0 = ?a0 * ?b0" "uint v1 = ?a0 * ?b1" "uint v2 = ?a1 * ?b0" "uint v3 = ?a1 * ?b1"
    unfolding v0_def v1_def v2_def v3_def uint_ucast_mult
    unfolding uint_high32 unfolding uint_low32 by simp_all
  define p1 where "p1 = add128 (v0, 0) (push_bit 32 v1) (drop_bit 32 v1)"
  define p2 where "p2 = add128 p1 (push_bit 32 v2) (drop_bit 32 v2)"
  have "mul64 a b = (fst p2, of_int (uint (snd p2) + uint v3))"
    by (simp add: mul64_def Let_def v0_def v1_def v2_def v3_def p1_def p2_def)
  then have "val128 (mul64 a b) = (val128 p2 + 2 ^ 64 * uint v3) mod 2 ^ 128"
    by (simp only: val128_of_int) (simp only: val128_def distrib_left add.assoc)
  moreover have "val128 p1 = (uint v0 + 2 ^ 32 * uint v1) mod 2 ^ 128"
    using split_shift32 [of v1] by (simp only: p1_def add128_val) (simp add: val128_def add.assoc)
  moreover have "val128 p2 = (val128 p1 + 2 ^ 32 * uint v2) mod 2 ^ 128"
    using split_shift32 [of v2] by (simp only: p2_def add128_val add.assoc)
  ultimately have "val128 (mul64 a b) =
      (uint v0 + 2 ^ 32 * uint v1 + 2 ^ 32 * uint v2 + 2 ^ 64 * uint v3) mod 2 ^ 128"
    by (simp only: mod_add_left_eq)
  also have "uint v0 + 2 ^ 32 * uint v1 + 2 ^ 32 * uint v2 + 2 ^ 64 * uint v3 =
      (?a0 + 2 ^ 32 * ?a1) * (?b0 + 2 ^ 32 * ?b1)"
    unfolding v by (rule product_of_halves)
  also have "\<dots> = uint a * uint b" by (simp only: mod_mult_div_eq)
  also have "uint a * uint b mod 2 ^ 128 = uint a * uint b"
  proof -
    have "uint a * uint b < 2 ^ 64 * 2 ^ 64"
      using uint64_lt [of a] uint64_lt [of b] by (intro mult_strict_mono) auto
    then show ?thesis by (intro mod_pos_pos_trivial) simp_all
  qed
  finally show ?thesis .
qed

lemma uint_of_int_mod: "uint (of_int k :: u64) = k mod 2 ^ 64"
  by (simp add: unsigned_of_int take_bit_eq_mod)

lemma uint_sint64: "uint (a :: u64) = sint a mod 2 ^ 64"
  using uint_of_int_mod [of "sint a"] by simp

lemma abs_word: "uint (if sint a < 0 then - a else a) = \<bar>sint (a :: u64)\<bar>"
proof (cases "sint a < 0")
  case True
  have "uint (- a) = (- sint a) mod 2 ^ 64" using uint_of_int_mod [of "- sint a"] by simp
  also have "\<dots> = - sint a" using True sint64_range [of a] by (intro mod_pos_pos_trivial) auto
  finally show ?thesis using True by simp
next
  case False
  have "uint a = sint a"
    unfolding uint_sint64 using False sint64_range [of a] by (intro mod_pos_pos_trivial) auto
  then show ?thesis using False by simp
qed

lemma signed_val128: "uint l + 2 ^ 64 * sint h = wrap128 (val128 (l, h))"
proof -
  have "(uint h + 2 ^ 63) mod 2 ^ 64 = (sint h + 2 ^ 63) mod 2 ^ 64"
    unfolding uint_sint64 by (rule mod_add_left_eq)
  also have "\<dots> = sint h + 2 ^ 63" using sint64_range [of h] by (intro mod_pos_pos_trivial) auto
  finally have "(uint h + 2 ^ 63) mod 2 ^ 64 - 2 ^ 63 = sint h" by simp
  then show ?thesis
    using wrap128_split [of "uint l" "uint h"] uint64_lt [of l] by (simp add: val128_def algebra_simps)
qed

lemma muls64_val: "val128 (muls64 a b) mod 2 ^ 128 = (sint a * sint b) mod 2 ^ 128"
proof -
  have m: "val128 (mul64 (if sint a < 0 then - a else a) (if sint b < 0 then - b else b)) =
      \<bar>sint a\<bar> * \<bar>sint b\<bar>"
    by (simp only: mul64_val abs_word)
  show ?thesis
  proof (cases "(sint a < 0) = (sint b < 0)")
    case True
    then have "val128 (muls64 a b) = \<bar>sint a\<bar> * \<bar>sint b\<bar>" using m by (simp add: muls64_def Let_def)
    then show ?thesis using True by (auto simp: abs_if)
  next
    case False
    then have "val128 (muls64 a b) = (- (\<bar>sint a\<bar> * \<bar>sint b\<bar>)) mod 2 ^ 128"
      using m by (simp only: muls64_def Let_def neg128_val if_True not_False_eq_True)
    moreover have "- (\<bar>sint a\<bar> * \<bar>sint b\<bar>) = sint a * sint b"
      using False by (auto simp: abs_if)
    ultimately show ?thesis by (simp only: mod_mod_trivial)
  qed
qed

lemma product_in_int128: "in_int128 (sint (a :: u64) * sint (b :: u64))"
proof -
  have "\<bar>sint a * sint b\<bar> \<le> 2 ^ 63 * 2 ^ 63"
    unfolding abs_mult using sint64_range [of a] sint64_range [of b] by (intro mult_mono) auto
  then show ?thesis by (auto simp: in_int128_def)
qed

lemma wrap128_mod: "x mod 2 ^ 128 = y mod 2 ^ 128 \<Longrightarrow> wrap128 x = wrap128 y"
  unfolding wrap128_def by (metis mod_add_left_eq)

text \<open>The long division of \<open>muldiv64\<close>, on the integers.\<close>

lemma long_division:
  fixes h l c d :: int
  assumes "0 < d"
  shows "(2 ^ 32 * h + l) div d = 2 ^ 32 * (h div d) + (2 ^ 32 * (h mod d) + l) div d"
proof -
  have e: "2 ^ 32 * h + l = (2 ^ 32 * (h mod d) + l) + d * (2 ^ 32 * (h div d))"
  proof -
    define q r where "q = h div d" and "r = h mod d"
    have "h = d * q + r" by (simp add: q_def r_def)
    then show ?thesis unfolding q_def [symmetric] r_def [symmetric] by (simp add: algebra_simps)
  qed
  show ?thesis unfolding e using assms by (subst div_mult_self2) simp_all
qed

lemma int_div_less:
  fixes x d k :: int
  assumes "0 < d" and "x < k * d"
  shows "x div d < k"
proof -
  have "x div d * d \<le> x" using assms(1) by (simp add: minus_mod_eq_div_mult [symmetric])
  then have "x div d * d < k * d" using assms(2) by simp
  then show ?thesis using assms(1) by simp
qed

lemma concat_words:
  "push_bit 32 (ucast (h :: u32)) OR ucast (l :: u32) = (of_int (2 ^ 32 * uint h + uint l) :: u64)"
proof -
  have "push_bit 32 (ucast h) OR ucast l = push_bit 32 (ucast h) + (ucast l :: u64)"
    by (rule disjunctive_add [symmetric]) (auto simp: bit_simps dest: bit_imp_le_length)
  moreover have "of_int (uint x) = (ucast x :: u64)" for x :: u32
    by (metis uint_ucast_u32 of_int_uint64)
  ultimately show ?thesis by (simp add: push_bit_eq_mult)
qed

lemma of_int_mod_shift32: "(of_int (2 ^ 32 * (k mod 2 ^ 32)) :: u64) = of_int (2 ^ 32 * k)"
proof -
  have "2 ^ 32 * (k mod 2 ^ 32) = 2 ^ 32 * k mod 2 ^ 64" by (simp add: mult_mod_right)
  then show ?thesis by (simp only: uint_of_int_mod [symmetric] of_int_uint64)
qed

lemma muldiv64_val:
  assumes "d \<noteq> 0"
  shows "muldiv64 a c d = Some (of_int (uint a * uint c div uint d))"
proof -
  have d: "0 < uint d" "uint d < 2 ^ 32"
    using assms uint32_lt [of d] by (simp_all add: uint_ge_0 order_less_le uint_0_iff)
  define rl :: u64 where "rl = ucast (ucast a :: u32) * ucast c"
  define rh :: u64 where "rh = ucast (ucast (drop_bit 32 a) :: u32) * ucast c + drop_bit 32 rl"
  let ?h = "uint a div 2 ^ 32 * uint c + uint rl div 2 ^ 32"
  have rl: "uint rl = uint a mod 2 ^ 32 * uint c"
    by (simp only: rl_def uint_ucast_mult uint_low32)
  have "?h \<le> (2 ^ 32 - 1) * (2 ^ 32 - 1) + (2 ^ 32 - 1)"
  proof (intro add_mono mult_mono)
    show "uint a div 2 ^ 32 \<le> 2 ^ 32 - 1" using uint64_lt [of a] by simp
    show "uint c \<le> 2 ^ 32 - 1" using uint32_lt [of c] by simp
    show "uint rl div 2 ^ 32 \<le> 2 ^ 32 - 1" using uint64_lt [of rl] by simp
  qed simp_all
  then have "?h < 2 ^ 64" by simp
  moreover have "0 \<le> ?h" by (simp add: pos_imp_zdiv_nonneg_iff)
  ultimately have rh: "uint rh = ?h"
    unfolding rh_def uint_add64 uint_ucast_mult uint_high32 uint_drop32
    by (intro mod_pos_pos_trivial) auto
  have t: "uint a * uint c = 2 ^ 32 * uint rh + uint rl mod 2 ^ 32"
  proof -
    have "uint a * uint c = (2 ^ 32 * (uint a div 2 ^ 32) + uint a mod 2 ^ 32) * uint c"
      by (simp only: mult_div_mod_eq)
    also have "\<dots> = 2 ^ 32 * (uint a div 2 ^ 32 * uint c) + uint rl"
      by (simp only: rl distrib_right mult.assoc)
    also have "uint rl = 2 ^ 32 * (uint rl div 2 ^ 32) + uint rl mod 2 ^ 32"
      by (simp only: mult_div_mod_eq)
    finally show ?thesis by (simp only: rh distrib_left add.assoc)
  qed
  let ?x = "2 ^ 32 * (uint rh mod uint d) + uint rl mod 2 ^ 32"
  have x: "0 \<le> ?x" "?x < 2 ^ 32 * uint d"
  proof -
    have "uint rh mod uint d \<le> uint d - 1" using d by simp
    then have "2 ^ 32 * (uint rh mod uint d) \<le> 2 ^ 32 * (uint d - 1)" by simp
    moreover have "uint rl mod 2 ^ 32 < 2 ^ 32" by simp
    ultimately show "?x < 2 ^ 32 * uint d" by (simp add: algebra_simps)
  qed (use d in simp)
  have "2 ^ 32 * uint d < 2 ^ 64" using d by simp
  then have x64: "?x < 2 ^ 64" using x(2) by linarith
  have p: "uint (push_bit 32 (rh mod ucast d)) = 2 ^ 32 * (uint rh mod uint d)"
  proof -
    have "2 ^ 32 * (uint rh mod uint d) < 2 ^ 64" using x64 by (rule le_less_trans [rotated]) simp
    then show ?thesis
      by (simp only: unsigned_push_bit_eq uint_mod uint_ucast_u32)
        (simp add: push_bit_eq_mult take_bit_eq_mod mult.commute d pos_mod_sign)
  qed
  have "uint (rl AND 0xffffffff) = uint rl mod 2 ^ 32"
  proof -
    have "rl AND 0xffffffff = take_bit 32 rl" by (simp add: take_bit_eq_mask mask_eq_exp_minus_1)
    then show ?thesis by (simp only: unsigned_take_bit_eq) (simp only: take_bit_eq_mod)
  qed
  then have "uint (push_bit 32 (rh mod ucast d) + (rl AND 0xffffffff)) = ?x"
    unfolding uint_add64 p using x(1) x64 by (simp only: mod_pos_pos_trivial)
  then have lo: "uint (ucast ((push_bit 32 (rh mod ucast d) + (rl AND 0xffffffff)) div ucast d) :: u32) =
      ?x div uint d"
  proof -
    have "?x div uint d < 2 ^ 32" using x(2) d(1) by (intro int_div_less) simp_all
    moreover have "0 \<le> ?x div uint d" using x(1) d(1) by (simp add: pos_imp_zdiv_nonneg_iff)
    ultimately show ?thesis
      using \<open>uint (push_bit 32 (rh mod ucast d) + (rl AND 0xffffffff)) = ?x\<close>
      by (simp only: uint_low32 uint_div uint_ucast_u32 mod_pos_pos_trivial)
  qed
  have hi: "uint (ucast (rh div ucast d) :: u32) = uint rh div uint d mod 2 ^ 32"
    by (simp only: uint_low32 uint_div uint_ucast_u32)
  have m: "muldiv64 a c d = Some (of_int (2 ^ 32 * (uint rh div uint d mod 2 ^ 32) + ?x div uint d))"
    unfolding muldiv64_def Let_def rl_def [symmetric] rh_def [symmetric] concat_words lo hi
    using assms by (simp only: c_assert_bind if_True not_False_eq_True)
  show ?thesis
    unfolding m t long_division [OF d(1), of "uint rh" "uint rl mod 2 ^ 32"] of_int_add
      of_int_mod_shift32 by (rule refl)
qed

text \<open>
  C27. Wide multiplication: \<open>mulu64\<close> and \<open>muls64\<close> return the exact unsigned and signed product of
  any two 64-bit numbers, in two words, and \<open>muldiv64\<close> returns the quotient of the exact 96-bit
  product, cut to 64 bits, for every divisor but zero.
\<close>

theorem wide_multiplication:
  "uint (fst (mulu64 a b)) + 2 ^ 64 * uint (snd (mulu64 a b)) = uint a * uint b \<and>
   uint (fst (muls64 a b)) + 2 ^ 64 * sint (snd (muls64 a b)) = sint a * sint b \<and>
   muldiv64 a c d =
     (if d = 0 then None else Some (of_int (uint a * uint c div uint d)))"
proof (intro conjI)
  show "uint (fst (mulu64 a b)) + 2 ^ 64 * uint (snd (mulu64 a b)) = uint a * uint b"
    using mul64_val [of a b] by (simp add: val128_def mulu64_def)
  show "uint (fst (muls64 a b)) + 2 ^ 64 * sint (snd (muls64 a b)) = sint a * sint b"
    using wrap128_mod [OF muls64_val [of a b]] wrap128_id [OF product_in_int128 [of a b]]
      signed_val128 [of "fst (muls64 a b)" "snd (muls64 a b)"] by simp
  show "muldiv64 a c d = (if d = 0 then None else Some (of_int (uint a * uint c div uint d)))"
    using muldiv64_val [of d a c] by (simp add: muldiv64_def)
qed

section \<open>Powers of two\<close>

lemma top_bit:
  assumes "2 ^ k \<le> unat (v :: u64)" and "unat v < 2 ^ Suc k"
  shows "bit v k"
proof -
  have "unat v div 2 ^ k = 1"
    using assms by (intro div_nat_eqI) simp_all
  then have "bit (unat v) k" by (simp add: bit_iff_odd)
  then show ?thesis by (simp add: bit_unsigned_iff)
qed

lemma unat_exp64:
  assumes "k < 64"
  shows "unat (2 ^ k :: u64) = 2 ^ k"
proof -
  have "(2 :: nat) ^ k < 2 ^ 64" using assms by (intro power_strict_increasing) simp_all
  then have "unat (of_nat (2 ^ k) :: u64) = 2 ^ k" by (simp only: unat_of_nat) simp
  then show ?thesis by simp
qed

lemma drop_bit_exp64: "n \<le> k \<Longrightarrow> k < 64 \<Longrightarrow> drop_bit n (2 ^ k :: u64) = 2 ^ (k - n)"
  by (rule bit_word_eqI) (auto simp: bit_simps)

lemma power_of_2_iff:
  assumes "2 ^ k \<le> unat v" and "unat v < 2 ^ Suc k" and "k < 64"
  shows "is_power_of_2 v \<longleftrightarrow> unat v = 2 ^ k"
proof -
  note p = unat_exp64 [OF assms(3)]
  have nz: "v \<noteq> 0" using assms(1) by auto
  show ?thesis
  proof (cases "unat v = 2 ^ k")
    case True
    then have v: "v = 2 ^ k" using p by (metis word_unat_eq_iff)
    have "(2 ^ k :: u64) AND mask k = 0" by (rule bit_word_eqI) (auto simp: bit_simps)
    then show ?thesis using True nz unfolding is_power_of_2_def v by (simp add: mask_eq_exp_minus_1)
  next
    case False
    have u: "unat (v - 1) = unat v - 1" using nz by (simp add: unat_sub word_le_nat_alt unat_gt_0 Suc_le_eq)
    have "bit v k" "bit (v - 1) k"
      using assms False u by (auto intro!: top_bit)
    then have "bit (v AND (v - 1)) k" by (simp add: bit_and_iff)
    then show ?thesis using False by (auto simp: is_power_of_2_def)
  qed
qed

lemma pow2floor_exp:
  assumes "v \<noteq> 0"
  shows "\<exists>k<64. pow2floor v = Some (2 ^ k) \<and> 2 ^ k \<le> unat v \<and> unat v < 2 ^ Suc k \<and>
      (is_power_of_2 v \<longleftrightarrow> unat v = 2 ^ k)"
proof (intro exI conjI)
  let ?k = "63 - clz64 v"
  have c: "clz64 v < 64" using clz64_bounds [of v] assms by blast
  then have "Suc ?k = 64 - clz64 v" by simp
  then have b: "clz64 v < 64" "2 ^ ?k \<le> unat v" "unat v < 2 ^ Suc ?k"
    using clz64_bounds [of v] assms by (simp_all only:) simp_all
  show "?k < 64" "2 ^ ?k \<le> unat v" "unat v < 2 ^ Suc ?k" using b by simp_all
  show iff: "is_power_of_2 v \<longleftrightarrow> unat v = 2 ^ ?k" using b by (intro power_of_2_iff) simp_all
  have "drop_bit (clz64 v) (0x8000000000000000 :: u64) = 2 ^ ?k"
  proof -
    have "(0x8000000000000000 :: u64) = 2 ^ 63" by simp
    moreover have "drop_bit (clz64 v) (2 ^ 63 :: u64) = 2 ^ ?k"
      by (rule drop_bit_exp64) (use b(1) in simp_all)
    ultimately show ?thesis by (simp only:)
  qed
  moreover have "v = 2 ^ ?k" if "is_power_of_2 v"
    using that iff unat_exp64 [of ?k] by (simp add: word_unat_eq_iff)
  ultimately show "pow2floor v = Some (2 ^ ?k)" using b(1) by (simp add: pow2floor_def)
qed

text \<open>
  Powers of two: \<open>pow2floor\<close> returns the largest power of two that is not above its argument,
  and \<open>is_power_of_2\<close> recognises exactly the powers of two. For zero there is no such power, and
  the shift by 64 that the code then does has no behaviour.
\<close>

theorem pow2floor_correct:
  "pow2floor 0 = None \<and>
   (v \<noteq> 0 \<longrightarrow> (\<exists>k<64. pow2floor v = Some (2 ^ k) \<and> 2 ^ k \<le> unat v \<and> unat v < 2 ^ Suc k \<and>
      (is_power_of_2 v \<longleftrightarrow> unat v = 2 ^ k)))"
  using clz64_bounds [of 0] pow2floor_exp [of v] by (simp add: pow2floor_def is_power_of_2_def)

section \<open>Counting bits\<close>

text \<open>
  C28. The zero counts of a 32- or 64-bit word: for zero they are the width; otherwise the number
  of leading zeros locates the word between two powers of two, and the number of trailing zeros is
  the exponent of the largest power of two that divides it. The population counts are the number
  of set bits, at all four widths.
\<close>

theorem bit_counts_correct:
  "clz32 0 = 32 \<and> clz64 0 = 64 \<and> ctz32 0 = 32 \<and> ctz64 0 = 64 \<and>
   (x \<noteq> 0 \<longrightarrow> clz32 x < 32 \<and> 2 ^ (31 - clz32 x) \<le> unat x \<and> unat x < 2 ^ (32 - clz32 x) \<and>
      2 ^ ctz32 x dvd unat x \<and> \<not> 2 ^ Suc (ctz32 x) dvd unat x) \<and>
   (y \<noteq> 0 \<longrightarrow> clz64 y < 64 \<and> 2 ^ (63 - clz64 y) \<le> unat y \<and> unat y < 2 ^ (64 - clz64 y) \<and>
      2 ^ ctz64 y dvd unat y \<and> \<not> 2 ^ Suc (ctz64 y) dvd unat y) \<and>
   unat (ctpop8 u) = card {i. bit u i} \<and> unat (ctpop16 w) = card {i. bit w i} \<and>
   unat (ctpop32 x) = card {i. bit x i} \<and> unat (ctpop64 y) = card {i. bit y i}"
  using clz32_bounds [of 0] clz64_bounds [of 0] ctz32_dvd [of 0] ctz64_dvd [of 0]
    clz32_bounds [of x] clz64_bounds [of y] ctz32_dvd [of x] ctz64_dvd [of y]
  by (simp only: ctpop8_card ctpop16_card ctpop32_card ctpop64_card) blast

theorem bit_counts_correct_witness:
  "2 ^ (31 - clz32 20) \<le> (20 :: nat) \<and> (20 :: nat) < 2 ^ (32 - clz32 20) \<and>
   2 ^ ctz64 40 dvd (40 :: nat) \<and> \<not> 2 ^ Suc (ctz64 40) dvd (40 :: nat)"
  using bit_counts_correct [of 20 40 0 0] by simp

section \<open>Binary-coded decimals\<close>

text \<open>
  Binary-coded decimals: below 100 the code of a number has its tens in the high and its ones
  in the low four bits, and decoding gives the number back.
\<close>

lemma bcd_roundtrip:
  assumes "unat v < 100"
  shows "unat (to_bcd v) = 16 * (unat v div 10) + unat v mod 10 \<and> from_bcd (to_bcd v) = v"
proof -
  let ?q = "unat v div 10" and ?r = "unat v mod 10"
  have qr: "?q < 10" "?r < 10" using assms by simp_all
  have q: "unat (push_bit 4 (v div 10)) = 2 ^ 4 * ?q"
    using qr by (simp add: push_bit_eq_mult unat_word_ariths(2) unat_div)
  have "?r < 2 ^ 4" using qr by simp
  then have "bit (2 ^ 4 * ?q OR ?r) n = bit (?r + 2 ^ 4 * ?q) n" for n
    using bit_concat [of 0 4 ?q n] bit_concat [of ?r 4 0 n] bit_concat [of ?r 4 ?q n]
    by (auto simp: bit_or_iff)
  then have "2 ^ 4 * ?q OR ?r = ?r + 2 ^ 4 * ?q" by (rule bit_eqI)
  then have t: "unat (to_bcd v) = 16 * ?q + ?r"
    by (simp add: to_bcd_def unsigned_or_eq q unat_mod)
  have "unat (drop_bit 4 (to_bcd v)) = ?q"
    using qr by (simp only: unat_drop_bit_eq t) (simp add: drop_bit_eq_div)
  moreover have "to_bcd v AND 0x0f = take_bit 4 (to_bcd v)" by (simp add: take_bit_eq_mask mask_eq_exp_minus_1)
  then have "unat (to_bcd v AND 0x0f) = ?r"
    using qr by (simp only: unsigned_take_bit_eq t) (simp add: take_bit_eq_mod)
  ultimately have "unat (from_bcd (to_bcd v)) = unat v"
    using assms by (simp add: from_bcd_def unat_word_ariths)
  then show ?thesis using t by (simp add: word_unat_eq_iff)
qed

end
