(* ===== verification/Xbzrle.thy ===== *)
theory Xbzrle
  imports Bswap
begin

text \<open>
  The delta compression of pages in live migration: the ULEB128 numbers of \<open>cutils.c\<close> and the
  encoder and decoder of \<open>savevm.c\<close>. Buffers are lists of bytes, and an access outside of one is
  \<open>None\<close>, as a failed assertion is. Lengths and positions are natural numbers: the buffers are
  pages, and the counts of the source, 32-bit integers, never reach their limits. The comparison
  of words at a time is on a host with 64-bit longs; the alignment of the buffers, which the
  encoder asserts together with the alignment of their length, is not modelled.
\<close>

section \<open>ULEB128\<close>

definition uleb128_encode_small :: "nat \<Rightarrow> nat \<Rightarrow> u8 list \<Rightarrow> (nat \<times> u8 list) option" where
  "uleb128_encode_small out n mem =
     do {
       c_assert (n \<le> 0x3fff);
       if n < 0x80 then do {
         mem \<leftarrow> put_byte out (of_nat n) mem;
         Some (1, mem)
       }
       else do {
         mem \<leftarrow> put_byte out (of_nat ((n AND 0x7f) OR 0x80)) mem;
         mem \<leftarrow> put_byte (out + 1) (of_nat (drop_bit 7 n)) mem;
         Some (2, mem)
       }
     }"

text \<open>The result is the value returned and the number stored.\<close>

definition uleb128_decode_small :: "nat \<Rightarrow> u8 list \<Rightarrow> (int \<times> nat) option" where
  "uleb128_decode_small inp mem =
     do {
       b \<leftarrow> get_byte mem inp;
       if b AND 0x80 = 0 then Some (1, unat b)
       else do {
         c \<leftarrow> get_byte mem (inp + 1);
         if c AND 0x80 \<noteq> 0 then Some (- 1, unat (b AND 0x7f))
         else Some (2, unat (b AND 0x7f) OR push_bit 7 (unat c))
       }
     }"

section \<open>Runs\<close>

definition get_long :: "u8 list \<Rightarrow> nat \<Rightarrow> u64 option" where
  "get_long buf i = map_option le_val (get_bytes i 8 buf)"

text \<open>Equal bytes: those before an aligned position, whole words, and the rest.\<close>

fun zrun_head :: "u8 list \<Rightarrow> u8 list \<Rightarrow> nat \<Rightarrow> nat \<Rightarrow> nat \<Rightarrow> (nat \<times> nat \<times> nat) option" where
  "zrun_head old_buf new_buf i zrun_len 0 = Some (i, zrun_len, 0)"
| "zrun_head old_buf new_buf i zrun_len (Suc res) =
     do {
       a \<leftarrow> get_byte old_buf i;
       b \<leftarrow> get_byte new_buf i;
       if a = b then zrun_head old_buf new_buf (i + 1) (zrun_len + 1) res
       else Some (i, zrun_len, Suc res)
     }"

function zrun_words :: "u8 list \<Rightarrow> u8 list \<Rightarrow> nat \<Rightarrow> nat \<Rightarrow> nat \<Rightarrow> (nat \<times> nat) option" where
  "zrun_words old_buf new_buf slen i zrun_len =
     (if i < slen then do {
        a \<leftarrow> get_long old_buf i;
        b \<leftarrow> get_long new_buf i;
        if a = b then zrun_words old_buf new_buf slen (i + 8) (zrun_len + 8)
        else Some (i, zrun_len)
      }
      else Some (i, zrun_len))"
  by pat_completeness auto
termination
  by (relation "measure (\<lambda>(old_buf, new_buf, slen, i, zrun_len). slen - i)") auto

function zrun_tail :: "u8 list \<Rightarrow> u8 list \<Rightarrow> nat \<Rightarrow> nat \<Rightarrow> nat \<Rightarrow> (nat \<times> nat) option" where
  "zrun_tail old_buf new_buf slen i zrun_len =
     (if i < slen then do {
        a \<leftarrow> get_byte old_buf i;
        b \<leftarrow> get_byte new_buf i;
        if a = b then zrun_tail old_buf new_buf slen (i + 1) (zrun_len + 1)
        else Some (i, zrun_len)
      }
      else Some (i, zrun_len))"
  by pat_completeness auto
termination
  by (relation "measure (\<lambda>(old_buf, new_buf, slen, i, zrun_len). slen - i)") auto

definition zrun_scan :: "u8 list \<Rightarrow> u8 list \<Rightarrow> nat \<Rightarrow> nat \<Rightarrow> nat \<Rightarrow> (nat \<times> nat) option" where
  "zrun_scan old_buf new_buf slen i zrun_len =
     do {
       (i, zrun_len, res) \<leftarrow> zrun_head old_buf new_buf i zrun_len ((slen - i) mod 8);
       if res = 0 then do {
         (i, zrun_len) \<leftarrow> zrun_words old_buf new_buf slen i zrun_len;
         zrun_tail old_buf new_buf slen i zrun_len
       }
       else Some (i, zrun_len)
     }"

text \<open>
  Different bytes: those before an aligned position, whole words as long as a word has no equal
  byte, and then the bytes of the word that has one. That last loop does not look at the end of
  the buffers.
\<close>

fun nzrun_head :: "u8 list \<Rightarrow> u8 list \<Rightarrow> nat \<Rightarrow> nat \<Rightarrow> nat \<Rightarrow> (nat \<times> nat \<times> nat) option" where
  "nzrun_head old_buf new_buf i nzrun_len 0 = Some (i, nzrun_len, 0)"
| "nzrun_head old_buf new_buf i nzrun_len (Suc res) =
     do {
       a \<leftarrow> get_byte old_buf i;
       b \<leftarrow> get_byte new_buf i;
       if a \<noteq> b then nzrun_head old_buf new_buf (i + 1) (nzrun_len + 1) res
       else Some (i, nzrun_len, Suc res)
     }"

function nzrun_tail :: "u8 list \<Rightarrow> u8 list \<Rightarrow> nat \<Rightarrow> nat \<Rightarrow> (nat \<times> nat) option" where
  "nzrun_tail old_buf new_buf i nzrun_len =
     do {
       a \<leftarrow> get_byte old_buf i;
       b \<leftarrow> get_byte new_buf i;
       if a \<noteq> b then nzrun_tail old_buf new_buf (i + 1) (nzrun_len + 1)
       else Some (i, nzrun_len)
     }"
  by pat_completeness auto
termination
  by (relation "measure (\<lambda>(old_buf, new_buf, i, nzrun_len). length old_buf - i)")
    (auto simp: get_byte_def split: if_splits)

definition long_mask :: u64 where
  "long_mask = 0x0101010101010101"

function nzrun_words :: "u8 list \<Rightarrow> u8 list \<Rightarrow> nat \<Rightarrow> nat \<Rightarrow> nat \<Rightarrow> (nat \<times> nat) option" where
  "nzrun_words old_buf new_buf slen i nzrun_len =
     (if i < slen then do {
        a \<leftarrow> get_long old_buf i;
        b \<leftarrow> get_long new_buf i;
        let x = a XOR b in
        if (x - long_mask) AND NOT x AND push_bit 7 long_mask \<noteq> 0
        then nzrun_tail old_buf new_buf i nzrun_len
        else nzrun_words old_buf new_buf slen (i + 8) (nzrun_len + 8)
      }
      else Some (i, nzrun_len))"
  by pat_completeness auto
termination
  by (relation "measure (\<lambda>(old_buf, new_buf, slen, i, nzrun_len). slen - i)") auto

definition nzrun_scan :: "u8 list \<Rightarrow> u8 list \<Rightarrow> nat \<Rightarrow> nat \<Rightarrow> nat \<Rightarrow> (nat \<times> nat) option" where
  "nzrun_scan old_buf new_buf slen i nzrun_len =
     do {
       (i, nzrun_len, res) \<leftarrow> nzrun_head old_buf new_buf i nzrun_len ((slen - i) mod 8);
       if res = 0 then nzrun_words old_buf new_buf slen i nzrun_len
       else Some (i, nzrun_len)
     }"

declare zrun_words.simps [simp del] zrun_tail.simps [simp del] nzrun_tail.simps [simp del]
  nzrun_words.simps [simp del]

section \<open>The encoder and the decoder\<close>

text \<open>
  The loops return the value of the C function and the destination buffer. At the head of the
  encoder's loop both run lengths are zero.
\<close>

partial_function (option) xbzrle_encode_loop ::
  "u8 list \<Rightarrow> u8 list \<Rightarrow> nat \<Rightarrow> nat \<Rightarrow> nat \<Rightarrow> nat \<Rightarrow> u8 list \<Rightarrow> (int \<times> u8 list) option" where
  "xbzrle_encode_loop old_buf new_buf slen dlen i d dst =
     (if i < slen then
        if d + 2 > dlen then Some (- 1, dst)
        else do {
          (i, zrun_len) \<leftarrow> zrun_scan old_buf new_buf slen i 0;
          if zrun_len = slen then Some (0, dst)
          else if i = slen then Some (int d, dst)
          else do {
            (n, dst) \<leftarrow> uleb128_encode_small d zrun_len dst;
            let d = d + n; nzrun_start = i in
            if d + 2 > dlen then Some (- 1, dst)
            else do {
              (i, nzrun_len) \<leftarrow> nzrun_scan old_buf new_buf slen i 0;
              (n, dst) \<leftarrow> uleb128_encode_small d nzrun_len dst;
              let d = d + n in
              if d + nzrun_len > dlen then Some (- 1, dst)
              else do {
                bytes \<leftarrow> get_bytes nzrun_start nzrun_len new_buf;
                dst \<leftarrow> put_bytes d bytes dst;
                xbzrle_encode_loop old_buf new_buf slen dlen i (d + nzrun_len) dst
              }
            }
          }
        }
      else Some (int d, dst))"

definition xbzrle_encode_buffer ::
  "u8 list \<Rightarrow> u8 list \<Rightarrow> nat \<Rightarrow> u8 list \<Rightarrow> nat \<Rightarrow> (int \<times> u8 list) option" where
  "xbzrle_encode_buffer old_buf new_buf slen dst dlen =
     do { c_assert (slen mod 8 = 0); xbzrle_encode_loop old_buf new_buf slen dlen 0 0 dst }"

partial_function (option) xbzrle_decode_loop ::
  "u8 list \<Rightarrow> nat \<Rightarrow> nat \<Rightarrow> nat \<Rightarrow> nat \<Rightarrow> u8 list \<Rightarrow> (int \<times> u8 list) option" where
  "xbzrle_decode_loop src slen dlen i d dst =
     (if i < slen then
        if slen < i + 2 then Some (- 1, dst)
        else do {
          (ret, count) \<leftarrow> uleb128_decode_small i src;
          if ret < 0 \<or> i \<noteq> 0 \<and> count = 0 then Some (- 1, dst)
          else
            let i = i + nat ret; d = d + count in
            if d > dlen then Some (- 1, dst)
            else if slen < i + 2 then Some (- 1, dst)
            else do {
              (ret, count) \<leftarrow> uleb128_decode_small i src;
              if ret < 0 \<or> count = 0 then Some (- 1, dst)
              else
                let i = i + nat ret in
                if d + count > dlen \<or> i + count > slen then Some (- 1, dst)
                else do {
                  bytes \<leftarrow> get_bytes i count src;
                  dst \<leftarrow> put_bytes d bytes dst;
                  xbzrle_decode_loop src slen dlen (i + count) (d + count) dst
                }
            }
        }
      else Some (int d, dst))"

definition xbzrle_decode_buffer ::
  "u8 list \<Rightarrow> nat \<Rightarrow> u8 list \<Rightarrow> nat \<Rightarrow> (int \<times> u8 list) option" where
  "xbzrle_decode_buffer src slen dst dlen = xbzrle_decode_loop src slen dlen 0 0 dst"

section \<open>The scans\<close>

text \<open>\<open>j\<close> is the end of the run of positions with \<open>P\<close> that starts at \<open>i\<close>.\<close>

definition run_end :: "(nat \<Rightarrow> bool) \<Rightarrow> nat \<Rightarrow> nat \<Rightarrow> nat \<Rightarrow> bool" where
  "run_end P i n j \<longleftrightarrow> i \<le> j \<and> j \<le> n \<and> (\<forall>k. i \<le> k \<longrightarrow> k < j \<longrightarrow> P k) \<and> (j < n \<longrightarrow> \<not> P j)"

lemma run_end_extend:
  "run_end P m n j \<Longrightarrow> i \<le> m \<Longrightarrow> (\<And>k. i \<le> k \<Longrightarrow> k < m \<Longrightarrow> P k) \<Longrightarrow> run_end P i n j"
  unfolding run_end_def by (meson le_trans not_less)

abbreviation same_at :: "u8 list \<Rightarrow> u8 list \<Rightarrow> nat \<Rightarrow> bool" where
  "same_at xs ys k \<equiv> xs ! k = ys ! k"

lemma get_byte_Some [simp]: "i < length mem \<Longrightarrow> get_byte mem i = Some (mem ! i)"
  by (simp add: get_byte_def)

lemma zrun_head_run:
  assumes "length old = n" and "length new = n"
  shows "i + res \<le> n \<Longrightarrow> \<exists>j. zrun_head old new i z res = Some (j, z + (j - i), i + res - j) \<and>
    i \<le> j \<and> j \<le> i + res \<and> (\<forall>k. i \<le> k \<longrightarrow> k < j \<longrightarrow> same_at old new k) \<and>
    (j < i + res \<longrightarrow> \<not> same_at old new j)"
proof (induction res arbitrary: i z)
  case (Suc res)
  show ?case
  proof (cases "same_at old new i")
    case True
    obtain j where "zrun_head old new (i + 1) (z + 1) res = Some (j, z + 1 + (j - (i + 1)), i + 1 + res - j)"
      and j: "i + 1 \<le> j" "j \<le> i + 1 + res" "\<forall>k. i + 1 \<le> k \<longrightarrow> k < j \<longrightarrow> same_at old new k"
        "j < i + 1 + res \<longrightarrow> \<not> same_at old new j"
      using Suc.IH [of "i + 1" "z + 1"] Suc.prems by auto
    moreover have "\<forall>k. i \<le> k \<longrightarrow> k < j \<longrightarrow> same_at old new k"
      using j(3) True by (metis Suc_eq_plus1 le_eq_less_or_eq Suc_leI)
    ultimately show ?thesis using Suc.prems assms True by (intro exI [of _ j]) auto
  next
    case False
    then show ?thesis using Suc.prems assms by (intro exI [of _ i]) auto
  qed
qed simp

lemma nzrun_head_run:
  assumes "length old = n" and "length new = n"
  shows "i + res \<le> n \<Longrightarrow> \<exists>j. nzrun_head old new i z res = Some (j, z + (j - i), i + res - j) \<and>
    i \<le> j \<and> j \<le> i + res \<and> (\<forall>k. i \<le> k \<longrightarrow> k < j \<longrightarrow> \<not> same_at old new k) \<and>
    (j < i + res \<longrightarrow> same_at old new j)"
proof (induction res arbitrary: i z)
  case (Suc res)
  show ?case
  proof (cases "same_at old new i")
    case False
    obtain j where "nzrun_head old new (i + 1) (z + 1) res = Some (j, z + 1 + (j - (i + 1)), i + 1 + res - j)"
      and j: "i + 1 \<le> j" "j \<le> i + 1 + res" "\<forall>k. i + 1 \<le> k \<longrightarrow> k < j \<longrightarrow> \<not> same_at old new k"
        "j < i + 1 + res \<longrightarrow> same_at old new j"
      using Suc.IH [of "i + 1" "z + 1"] Suc.prems by auto
    moreover have "\<forall>k. i \<le> k \<longrightarrow> k < j \<longrightarrow> \<not> same_at old new k"
      using j(3) False by (metis Suc_eq_plus1 le_eq_less_or_eq Suc_leI)
    ultimately show ?thesis using Suc.prems assms False by (intro exI [of _ j]) auto
  next
    case True
    then show ?thesis using Suc.prems assms by (intro exI [of _ i]) auto
  qed
qed simp

lemma zrun_tail_run:
  assumes "length old = n" and "length new = n"
  shows "i \<le> n \<Longrightarrow> \<exists>j. zrun_tail old new n i z = Some (j, z + (j - i)) \<and> run_end (same_at old new) i n j"
proof (induction "n - i" arbitrary: i z)
  case 0
  then show ?case by (simp add: zrun_tail.simps run_end_def)
next
  case (Suc m)
  then have i: "i < n" and m: "m = n - (i + 1)" by simp_all
  show ?case
  proof (cases "same_at old new i")
    case True
    obtain j where "zrun_tail old new n (i + 1) (z + 1) = Some (j, z + 1 + (j - (i + 1)))"
      and j: "run_end (same_at old new) (i + 1) n j"
      using Suc.hyps(1) [OF m, of "z + 1"] i by auto
    moreover have "run_end (same_at old new) i n j"
      using j True by (rule_tac run_end_extend) (auto simp: less_Suc_eq)
    ultimately show ?thesis
      using i assms True j by (subst zrun_tail.simps) (auto simp: run_end_def)
  next
    case False
    then show ?thesis using i assms by (subst zrun_tail.simps) (auto simp: run_end_def)
  qed
qed

lemma get_long_in: "i + 8 \<le> length buf \<Longrightarrow> get_long buf i = Some (le_val (take 8 (drop i buf)))"
  by (simp add: get_long_def get_bytes_def)

lemma le_val_inj8:
  assumes "le_val xs = (le_val ys :: u64)" and "length xs = 8" and "length ys = 8"
  shows "xs = ys"
  using assms le_bytes_le_val [where 'a = 64 and bs = xs] le_bytes_le_val [where 'a = 64 and bs = ys]
  by simp

lemma take_drop_same:
  assumes "take m (drop i xs) = take m (drop i ys)" and "i \<le> k" and "k < i + m"
    and "i + m \<le> length xs" and "i + m \<le> length ys"
  shows "xs ! k = ys ! k"
proof -
  have "take m (drop i zs) ! (k - i) = zs ! k" if "i + m \<le> length zs" for zs :: "'a list"
    using assms(2,3) that by simp
  then show ?thesis using assms(1,4,5) by metis
qed

lemma zrun_words_run:
  assumes "length old = n" and "length new = n"
  shows "i \<le> n \<Longrightarrow> (n - i) mod 8 = 0 \<Longrightarrow>
    \<exists>j. zrun_words old new n i z = Some (j, z + (j - i)) \<and> i \<le> j \<and> j \<le> n \<and>
      (\<forall>k. i \<le> k \<longrightarrow> k < j \<longrightarrow> same_at old new k)"
proof (induction "n - i" arbitrary: i z rule: less_induct)
  case less
  show ?case
  proof (cases "i < n")
    case False
    then show ?thesis using less.prems by (intro exI [of _ i]) (simp add: zrun_words.simps)
  next
    case True
    then have i8: "i + 8 \<le> n" using less.prems by presburger
    let ?a = "take 8 (drop i old)" and ?b = "take 8 (drop i new)"
    show ?thesis
    proof (cases "le_val ?a = (le_val ?b :: u64)")
      case False
      then show ?thesis
        using True i8 assms by (intro exI [of _ i]) (simp add: zrun_words.simps [of old] get_long_in)
    next
      case eq: True
      then have "?a = ?b" using i8 assms by (intro le_val_inj8) simp_all
      then have same: "i \<le> k \<Longrightarrow> k < i + 8 \<Longrightarrow> same_at old new k" for k
        using i8 assms by (intro take_drop_same) simp_all
      have m8: "(n - (i + 8)) mod 8 = 0" using less.prems(2) i8 by presburger
      have lt: "n - (i + 8) < n - i" using i8 by simp
      obtain j where "zrun_words old new n (i + 8) (z + 8) = Some (j, z + 8 + (j - (i + 8)))"
        and j: "i + 8 \<le> j" "j \<le> n" "\<forall>k. i + 8 \<le> k \<longrightarrow> k < j \<longrightarrow> same_at old new k"
        using less.hyps [OF lt i8 m8, of "z + 8"] by blast
      moreover have "\<forall>k. i \<le> k \<longrightarrow> k < j \<longrightarrow> same_at old new k" using same j(3) by (meson not_less)
      ultimately show ?thesis
        using True i8 assms eq by (intro exI [of _ j]) (simp add: zrun_words.simps [of old] get_long_in)
    qed
  qed
qed

lemma unaligned_bytes:
  assumes "i \<le> (n :: nat)"
  obtains res where "res = (n - i) mod 8" and "i + res \<le> n" and "(n - (i + res)) mod 8 = 0"
proof
  show "i + (n - i) mod 8 \<le> n" using assms mod_less_eq_dividend [of "n - i" 8] by linarith
  have "n - (i + (n - i) mod 8) = 8 * ((n - i) div 8)"
    by (simp add: diff_diff_left [symmetric] minus_mod_eq_mult_div del: diff_diff_left)
  then show "(n - (i + (n - i) mod 8)) mod 8 = 0" by (simp only: mod_mult_self1_is_0)
qed simp

lemma zrun_scan_run:
  assumes "length old = n" and "length new = n" and "i \<le> n"
  shows "\<exists>j. zrun_scan old new n i 0 = Some (j, j - i) \<and> run_end (same_at old new) i n j"
proof -
  obtain res where res: "res = (n - i) mod 8" "i + res \<le> n" "(n - (i + res)) mod 8 = 0"
    using assms(3) by (rule unaligned_bytes)
  obtain j where h: "zrun_head old new i 0 res = Some (j, j - i, i + res - j)"
    "i \<le> j" "j \<le> i + res" "\<forall>k. i \<le> k \<longrightarrow> k < j \<longrightarrow> same_at old new k"
    "j < i + res \<longrightarrow> \<not> same_at old new j"
    using zrun_head_run [OF assms(1,2) res(2), of 0] by auto
  show ?thesis
  proof (cases "j = i + res")
    case False
    then have "j < i + res" using h(3) by simp
    then have "zrun_scan old new n i 0 = Some (j, j - i)"
      using h(1) unfolding zrun_scan_def res(1) [symmetric] by simp
    moreover have "run_end (same_at old new) i n j"
      using h \<open>j < i + res\<close> res(2) by (simp add: run_end_def)
    ultimately show ?thesis by blast
  next
    case True
    have j: "j \<le> n" "(n - j) mod 8 = 0" using True res(2,3) by simp_all
    obtain m where w: "zrun_words old new n j (j - i) = Some (m, j - i + (m - j))"
      "j \<le> m" "m \<le> n" "\<forall>k. j \<le> k \<longrightarrow> k < m \<longrightarrow> same_at old new k"
      using zrun_words_run [OF assms(1,2) j] by blast
    obtain e where t: "zrun_tail old new n m (j - i + (m - j)) = Some (e, j - i + (m - j) + (e - m))"
      and e: "run_end (same_at old new) m n e"
      using zrun_tail_run [OF assms(1,2) w(3)] by blast
    have "run_end (same_at old new) i n e"
    proof (rule run_end_extend [OF e])
      show "i \<le> m" using h(2) w(2) by simp
      show "same_at old new k" if "i \<le> k" and "k < m" for k using h(4) w(4) that by (meson not_less)
    qed
    moreover have "j - i + (m - j) + (e - m) = e - i"
      using e h(2) w(2) by (simp add: run_end_def)
    then have "zrun_scan old new n i 0 = Some (e, e - i)"
      using h(1) w(1) t True unfolding zrun_scan_def res(1) [symmetric] by simp
    ultimately show ?thesis by blast
  qed
qed

section \<open>The test for a zero byte\<close>

fun bytes_int :: "u8 list \<Rightarrow> int" where
  "bytes_int [] = 0"
| "bytes_int (b # bs) = uint b + 2 ^ 8 * bytes_int bs"

fun ones_int :: "nat \<Rightarrow> int" where
  "ones_int 0 = 0"
| "ones_int (Suc n) = 1 + 2 ^ 8 * ones_int n"

lemma bit_digit:
  fixes c y :: int
  assumes "0 \<le> c" and "c < 2 ^ 8"
  shows "bit (c + 2 ^ 8 * y) 7 \<longleftrightarrow> 2 ^ 7 \<le> c" and "bit (c + 2 ^ 8 * y) (8 + k) \<longleftrightarrow> bit y k"
proof -
  have t: "take_bit 8 (c + 2 ^ 8 * y) = c" and d: "drop_bit 8 (c + 2 ^ 8 * y) = y"
    using assms by (simp_all add: take_bit_eq_mod drop_bit_eq_div)
  have "bit (c + 2 ^ 8 * y) 7 \<longleftrightarrow> bit (take_bit 8 (c + 2 ^ 8 * y)) 7" by (simp add: bit_take_bit_iff)
  also have "\<dots> \<longleftrightarrow> odd (c div 2 ^ 7)" unfolding t by (rule bit_iff_odd)
  also have "c div 2 ^ 7 = (if 2 ^ 7 \<le> c then 1 else 0)"
    using assms by (auto simp: div_pos_geq)
  also have "odd (if 2 ^ 7 \<le> c then 1 else 0 :: int) \<longleftrightarrow> 2 ^ 7 \<le> c" by simp
  finally show "bit (c + 2 ^ 8 * y) 7 \<longleftrightarrow> 2 ^ 7 \<le> c" .
  show "bit (c + 2 ^ 8 * y) (8 + k) \<longleftrightarrow> bit y k" using d by (metis bit_drop_bit_eq comp_apply)
qed

lemma uint8_lt: "uint (b :: u8) < 2 ^ 8"
  using uint_bounded [of b] by simp

lemma zero_byte_int:
  "(\<exists>k<length bs. bit (bytes_int bs - ones_int (length bs)) (8 * k + 7) \<and> \<not> bit (bytes_int bs) (8 * k + 7))
   \<longleftrightarrow> 0 \<in> set bs"
proof (induction bs)
  case (Cons b bs)
  define x y d e where "x = bytes_int (b # bs)" and "y = bytes_int bs"
    and "d = bytes_int (b # bs) - ones_int (Suc (length bs))" and "e = y - ones_int (length bs)"
  define P where "P k \<longleftrightarrow> bit d (8 * k + 7) \<and> \<not> bit x (8 * k + 7)" for k
  have "(\<exists>k<Suc (length bs). P k) \<longleftrightarrow> P 0 \<or> (\<exists>k<length bs. P (Suc k))"
    by (auto simp: less_Suc_eq_0_disj)
  moreover have ih: "(\<exists>k<length bs. bit e (8 * k + 7) \<and> \<not> bit y (8 * k + 7)) \<longleftrightarrow> 0 \<in> set bs"
    using Cons.IH by (simp only: e_def y_def)
  have xe: "x = uint b + 2 ^ 8 * y" by (simp add: x_def y_def)
  have x: "bit x 7 \<longleftrightarrow> 2 ^ 7 \<le> uint b" "bit x (8 + k) \<longleftrightarrow> bit y k" for k
    unfolding xe by (rule bit_digit; simp add: uint8_lt [simplified])+
  have "P 0 \<or> (\<exists>k<length bs. P (Suc k)) \<longleftrightarrow> 0 \<in> set (b # bs)"
  proof (cases "b = 0")
    case True
    have d: "d = 255 + 2 ^ 8 * (e - 1)" using True by (simp add: d_def e_def y_def)
    have "bit (255 + 2 ^ 8 * (e - 1)) 7 \<longleftrightarrow> 2 ^ 7 \<le> (255 :: int)"
      by (rule bit_digit) simp_all
    then have "bit d 7" unfolding d by simp
    moreover have "\<not> bit x 7" using x(1) True by simp
    ultimately have "P 0" by (simp add: P_def)
    then show ?thesis using True by simp
  next
    case False
    then have "uint b \<noteq> 0" by (simp add: uint_0_iff)
    moreover have "0 \<le> uint b" by simp
    ultimately have b: "1 \<le> uint b" by linarith
    have de: "d = (uint b - 1) + 2 ^ 8 * e" by (simp add: d_def e_def y_def)
    have dd: "bit d 7 \<longleftrightarrow> 2 ^ 7 \<le> uint b - 1" "bit d (8 + k) \<longleftrightarrow> bit e k" for k
      unfolding de using b uint8_lt [of b] by (intro bit_digit; simp)+
    have "P (Suc k) \<longleftrightarrow> bit e (8 * k + 7) \<and> \<not> bit y (8 * k + 7)" for k
      using dd(2) [of "8 * k + 7"] x(2) [of "8 * k + 7"] by (simp add: P_def add.assoc)
    moreover have "\<not> P 0" using dd(1) x(1) by (simp add: P_def)
    ultimately show ?thesis using ih False by auto
  qed
  ultimately show ?case by (simp only: P_def x_def d_def list.size add_Suc_right add_0_right)
qed simp

lemma le_val_of_int: "le_val bs = (of_int (bytes_int bs) :: u64)"
proof (induction bs)
  case (Cons b bs)
  have "ucast b OR push_bit 8 (le_val bs :: u64) = ucast b + push_bit 8 (le_val bs)"
  proof (rule disjunctive_add [symmetric])
    fix n
    show "\<not> bit (ucast b :: u64) n \<or> \<not> bit (push_bit 8 (le_val bs :: u64)) n"
    proof (cases "n < 8")
      case True
      then show ?thesis by (simp add: bit_push_bit_iff)
    next
      case False
      then have "\<not> bit b n" using bit_imp_le_length [of b n] by auto
      then show ?thesis by (simp add: bit_unsigned_iff)
    qed
  qed
  moreover have "(ucast b :: u64) = of_int (uint b)" by (rule ucast_eq)
  ultimately show ?case
    by (simp only: le_val.simps bytes_int.simps Cons.IH push_bit_eq_mult of_int_add of_int_mult
        of_int_power of_int_numeral mult.commute)
qed simp

lemma bit_long_mask: "bit (push_bit 7 long_mask) n \<longleftrightarrow> n < 64 \<and> n mod 8 = 7"
proof -
  have "replicate 8 x = [x, x, x, x, x, x, x, x]" for x :: u8 by (simp add: eval_nat_numeral)
  then have m: "long_mask = le_val (replicate 8 1)"
    by (simp only: le_val_of_int) (simp add: long_mask_def)
  have l: "bit long_mask n \<longleftrightarrow> n < 64 \<and> n mod 8 = 0" for n
  proof (cases "n < 64")
    case True
    then have "n div 8 < 8" by simp
    then show ?thesis using True unfolding m bit_le_val by (simp add: bit_1_iff)
  next
    case False
    then show ?thesis unfolding m bit_le_val by simp
  qed
  have b: "bit (push_bit 7 long_mask) n \<longleftrightarrow> 7 \<le> n \<and> n < 64 \<and> (n - 7) mod 8 = 0"
    using l [of "n - 7"] by (cases "7 \<le> n") (simp_all add: bit_push_bit_iff, linarith)
  show ?thesis
  proof (cases "7 \<le> n")
    case True
    then obtain m where "n = m + 7" using le_Suc_ex by (metis add.commute)
    moreover have "(m + 7) mod 8 = 7 \<longleftrightarrow> m mod 8 = 0" by presburger
    ultimately show ?thesis unfolding b by simp
  next
    case False
    then show ?thesis unfolding b by simp
  qed
qed

lemma zero_byte_test:
  assumes "length bs = 8"
  shows "((le_val bs :: u64) - long_mask) AND NOT (le_val bs) AND push_bit 7 long_mask \<noteq> 0 \<longleftrightarrow> 0 \<in> set bs"
proof -
  let ?x = "le_val bs :: u64" and ?i = "bytes_int bs" and ?d = "bytes_int bs - ones_int (length bs)"
  have "ones_int 8 = 0x0101010101010101" by (simp add: eval_nat_numeral)
  then have e: "?x - long_mask = of_int ?d"
    using assms by (simp only: le_val_of_int long_mask_def of_int_diff of_int_numeral)
  have d: "bit (?x - long_mask) n \<longleftrightarrow> n < 64 \<and> bit ?d n" for n
    unfolding e bit_word_of_int_iff by simp
  have x: "bit ?x n \<longleftrightarrow> n < 64 \<and> bit ?i n" for n
    unfolding le_val_of_int by (simp add: bit_word_of_int_iff)
  have "(?x - long_mask) AND NOT ?x AND push_bit 7 long_mask \<noteq> 0 \<longleftrightarrow>
      (\<exists>n. n < 64 \<and> n mod 8 = 7 \<and> bit ?d n \<and> \<not> bit ?i n)"
    by (auto simp: bit_eq_iff bit_and_iff bit_not_iff bit_long_mask d x)
  also have "\<dots> \<longleftrightarrow> (\<exists>k<length bs. bit ?d (8 * k + 7) \<and> \<not> bit ?i (8 * k + 7))"
  proof
    assume "\<exists>n. n < 64 \<and> n mod 8 = 7 \<and> bit ?d n \<and> \<not> bit ?i n"
    then obtain n where n: "n < 64" "n mod 8 = 7" "bit ?d n" "\<not> bit ?i n" by blast
    have "8 * (n div 8) + 7 = n" "n div 8 < length bs"
      using n(1,2) assms mult_div_mod_eq [of 8 n] by simp_all
    then show "\<exists>k<length bs. bit ?d (8 * k + 7) \<and> \<not> bit ?i (8 * k + 7)" using n(3,4) by metis
  next
    assume "\<exists>k<length bs. bit ?d (8 * k + 7) \<and> \<not> bit ?i (8 * k + 7)"
    then obtain k where k: "k < 8" "bit ?d (8 * k + 7)" "\<not> bit ?i (8 * k + 7)" using assms by auto
    have "8 * k + 7 < 64" "(8 * k + 7) mod 8 = 7" using k(1) by simp_all
    then show "\<exists>n. n < 64 \<and> n mod 8 = 7 \<and> bit ?d n \<and> \<not> bit ?i n" using k(2,3) by blast
  qed
  also have "\<dots> \<longleftrightarrow> 0 \<in> set bs" by (rule zero_byte_int)
  finally show ?thesis .
qed

lemma le_val_xor:
  "length xs = length ys \<Longrightarrow> le_val xs XOR le_val ys = (le_val (map2 (XOR) xs ys) :: 'a::len word)"
  by (rule bit_word_eqI) (auto simp: bit_xor_iff bit_le_val)

lemma equal_byte_test:
  assumes "length xs = 8" and "length ys = 8"
  shows "((le_val xs XOR le_val ys :: u64) - long_mask) AND NOT (le_val xs XOR le_val ys) AND
      push_bit 7 long_mask \<noteq> 0 \<longleftrightarrow> (\<exists>k<8. xs ! k = ys ! k)"
proof -
  have "0 \<in> set (map2 (XOR) xs ys) \<longleftrightarrow> (\<exists>k<8. xs ! k XOR ys ! k = 0)"
    unfolding in_set_conv_nth using assms by (intro ex_cong1) auto
  moreover have "x XOR y = 0 \<longleftrightarrow> x = y" for x y :: u8
    by (metis xor.assoc xor.left_neutral xor_self_eq)
  ultimately show ?thesis
    using assms zero_byte_test [of "map2 (XOR) xs ys"] by (simp add: le_val_xor)
qed

abbreviation differ_at :: "u8 list \<Rightarrow> u8 list \<Rightarrow> nat \<Rightarrow> bool" where
  "differ_at xs ys k \<equiv> xs ! k \<noteq> ys ! k"

lemma nzrun_tail_run:
  assumes "length old = n" and "length new = n" and "e < n" and "same_at old new e"
  shows "i \<le> e \<Longrightarrow> \<exists>j. nzrun_tail old new i z = Some (j, z + (j - i)) \<and> run_end (differ_at old new) i n j"
proof (induction "e - i" arbitrary: i z rule: less_induct)
  case less
  have i: "i < n" using less.prems assms(3) by simp
  show ?case
  proof (cases "same_at old new i")
    case True
    then show ?thesis using i assms by (subst nzrun_tail.simps) (simp add: run_end_def)
  next
    case False
    then have "i < e" using less.prems assms(4) by (metis le_neq_implies_less)
    then have lt: "e - (i + 1) < e - i" and le: "i + 1 \<le> e" by simp_all
    obtain j where t: "nzrun_tail old new (i + 1) (z + 1) = Some (j, z + 1 + (j - (i + 1)))"
      and j: "run_end (differ_at old new) (i + 1) n j"
      using less.hyps [OF lt le] by blast
    have "run_end (differ_at old new) i n j"
      by (rule run_end_extend [OF j]) (use False in \<open>auto simp: less_Suc_eq\<close>)
    moreover have "z + 1 + (j - (i + 1)) = z + (j - i)" using j unfolding run_end_def by linarith
    ultimately show ?thesis
      using i assms False t by (subst nzrun_tail.simps) simp
  qed
qed

lemma nzrun_words_run:
  assumes "length old = n" and "length new = n"
  shows "i \<le> n \<Longrightarrow> (n - i) mod 8 = 0 \<Longrightarrow>
    \<exists>j. nzrun_words old new n i z = Some (j, z + (j - i)) \<and> run_end (differ_at old new) i n j"
proof (induction "n - i" arbitrary: i z rule: less_induct)
  case less
  show ?case
  proof (cases "i < n")
    case False
    then show ?thesis using less.prems by (subst nzrun_words.simps) (simp add: run_end_def)
  next
    case True
    then have i8: "i + 8 \<le> n" using less.prems by presburger
    let ?a = "take 8 (drop i old)" and ?b = "take 8 (drop i new)"
    have l: "get_long old i = Some (le_val ?a)" "get_long new i = Some (le_val ?b)"
      using i8 assms by (simp_all add: get_long_in)
    have t: "((le_val ?a XOR le_val ?b :: u64) - long_mask) AND NOT (le_val ?a XOR le_val ?b) AND
      push_bit 7 long_mask \<noteq> 0 \<longleftrightarrow> (\<exists>k<8. same_at old new (i + k))"
    proof -
      have "(\<exists>k<8. ?a ! k = ?b ! k) \<longleftrightarrow> (\<exists>k<8. same_at old new (i + k))"
        using i8 assms by (intro ex_cong1) auto
      moreover have "length ?a = 8" "length ?b = 8" using i8 assms by simp_all
      ultimately show ?thesis by (simp only: equal_byte_test)
    qed
    show ?thesis
    proof (cases "\<exists>k<8. same_at old new (i + k)")
      case eq: True
      then obtain k where "k < 8" "same_at old new (i + k)" by blast
      then show ?thesis
        using nzrun_tail_run [OF assms, of "i + k" i z] i8 True l t eq
        by (subst nzrun_words.simps) (simp add: Let_def)
    next
      case neq: False
      have m8: "(n - (i + 8)) mod 8 = 0" using less.prems(2) i8 by presburger
      have lt: "n - (i + 8) < n - i" using i8 by simp
      obtain j where w: "nzrun_words old new n (i + 8) (z + 8) = Some (j, z + 8 + (j - (i + 8)))"
        and j: "run_end (differ_at old new) (i + 8) n j"
        using less.hyps [OF lt i8 m8] by blast
      have "run_end (differ_at old new) i n j"
      proof (rule run_end_extend [OF j])
        fix k assume "i \<le> k" "k < i + 8"
        then have "k - i < 8" "i + (k - i) = k" by simp_all
        then show "differ_at old new k" using neq by metis
      qed simp
      moreover have "z + 8 + (j - (i + 8)) = z + (j - i)" using j unfolding run_end_def by linarith
      ultimately show ?thesis
        using True l t neq w by (subst nzrun_words.simps) (simp add: Let_def)
    qed
  qed
qed

lemma nzrun_scan_run:
  assumes "length old = n" and "length new = n" and "i \<le> n"
  shows "\<exists>j. nzrun_scan old new n i 0 = Some (j, j - i) \<and> run_end (differ_at old new) i n j"
proof -
  obtain res where res: "res = (n - i) mod 8" "i + res \<le> n" "(n - (i + res)) mod 8 = 0"
    using assms(3) by (rule unaligned_bytes)
  obtain j where h: "nzrun_head old new i 0 res = Some (j, j - i, i + res - j)"
    "i \<le> j" "j \<le> i + res" "\<forall>k. i \<le> k \<longrightarrow> k < j \<longrightarrow> differ_at old new k"
    "j < i + res \<longrightarrow> same_at old new j"
    using nzrun_head_run [OF assms(1,2) res(2), of 0] by auto
  show ?thesis
  proof (cases "j = i + res")
    case False
    then have "j < i + res" using h(3) by simp
    then have "nzrun_scan old new n i 0 = Some (j, j - i)"
      using h(1) unfolding nzrun_scan_def res(1) [symmetric] by simp
    moreover have "run_end (differ_at old new) i n j"
      using h \<open>j < i + res\<close> res(2) by (simp add: run_end_def)
    ultimately show ?thesis by blast
  next
    case True
    have j: "j \<le> n" "(n - j) mod 8 = 0" using True res(2,3) by simp_all
    obtain e where w: "nzrun_words old new n j (j - i) = Some (e, j - i + (e - j))"
      and e: "run_end (differ_at old new) j n e"
      using nzrun_words_run [OF assms(1,2) j] by blast
    have "run_end (differ_at old new) i n e"
      by (rule run_end_extend [OF e h(2)]) (use h(4) in blast)
    moreover have "j - i + (e - j) = e - i"
      using e h(2) by (simp add: run_end_def)
    then have "nzrun_scan old new n i 0 = Some (e, e - i)"
      using h(1) w True unfolding nzrun_scan_def res(1) [symmetric] by simp
    ultimately show ?thesis by blast
  qed
qed

section \<open>Encoded numbers\<close>

definition uleb :: "nat \<Rightarrow> u8 list" where
  "uleb n = (if n < 0x80 then [of_nat n] else [of_nat ((n AND 0x7f) OR 0x80), of_nat (drop_bit 7 n)])"

lemma length_uleb: "length (uleb n) = (if n < 0x80 then 1 else 2)"
  by (simp add: uleb_def)

lemma uleb_pos: "0 < length (uleb n)" "length (uleb n) \<le> 2"
  by (simp_all add: length_uleb)

lemma encode_uleb:
  "n \<le> 0x3fff \<Longrightarrow> uleb128_encode_small p n mem = map_option (Pair (length (uleb n))) (put_bytes p (uleb n) mem)"
  by (cases "put_byte p (of_nat n) mem")
    (auto simp: uleb128_encode_small_def uleb_def put_bytes_fun map_conv_bind_option split: bind_splits)

lemma byte_high_bit: "(b :: u8) AND 0x80 = 0 \<longleftrightarrow> \<not> bit b 7"
  using and_exp_eq_0_iff_not_bit [of b 7] by simp

lemma byte_low_bits: "(b :: u8) AND 0x7f = take_bit 7 b"
  by (simp add: take_bit_eq_mask mask_eq_exp_minus_1)

lemma bit_of_nat_u8: "bit (of_nat k :: u8) n \<longleftrightarrow> n < 8 \<and> bit k n"
  using bit_word_of_int_iff [where 'a = 8, of "int k" n] by (simp add: bit_of_nat_iff_bit)

lemma nat_low_bits: "(n :: nat) AND 0x7f = take_bit 7 n"
  by (simp add: take_bit_eq_mask mask_eq_exp_minus_1)

lemma not_bit_small: "k < 2 ^ m \<Longrightarrow> m \<le> j \<Longrightarrow> \<not> bit (k :: nat) j"
  by (metis bit_take_bit_iff linorder_not_less take_bit_nat_eq_self)

lemma take_or_push: "take_bit m k OR push_bit m (drop_bit m k) = (k :: nat)"
proof (rule bit_eqI)
  fix j
  show "bit (take_bit m k OR push_bit m (drop_bit m k)) j = bit k j"
    by (cases "j < m") (simp_all add: bit_or_iff bit_take_bit_iff bit_push_bit_iff bit_drop_bit_eq)
qed

lemma decode_uleb:
  assumes "n \<le> 0x3fff"
  shows "uleb128_decode_small (length pre) (pre @ uleb n @ post) = Some (int (length (uleb n)), n)"
proof (cases "n < 0x80")
  case True
  have "\<not> bit (of_nat n :: u8) 7" using True not_bit_small [of n 7 7] by (simp add: bit_of_nat_u8)
  moreover have "unat (of_nat n :: u8) = n" using True by (simp add: unat_of_nat)
  ultimately show ?thesis
    using True by (simp add: uleb128_decode_small_def uleb_def bind_get_byte byte_high_bit)
next
  case False
  define b where "b = (n AND 0x7f) OR 0x80"
  define c where "c = drop_bit 7 n"
  have c: "c < 2 ^ 7" using assms by (simp add: c_def drop_bit_eq_div)
  have tb: "take_bit 7 b = take_bit 7 n"
    unfolding b_def nat_low_bits by (simp add: take_bit_or)
  have "bit (0x80 :: nat) 7" using bit_exp_iff [of 7 7, where 'a = nat] by simp
  then have "bit (of_nat b :: u8) 7" by (simp add: bit_of_nat_u8 b_def bit_or_iff)
  moreover have "\<not> bit (of_nat c :: u8) 7" using c not_bit_small [of c 7 7] by (simp add: bit_of_nat_u8)
  moreover have "unat (take_bit 7 (of_nat b :: u8)) = take_bit 7 n"
  proof -
    have "take_bit 7 (b mod 256) = take_bit 7 b" by (simp add: take_bit_eq_mod mod_mod_cancel)
    then show ?thesis using tb by (simp add: unsigned_take_bit_eq unat_of_nat)
  qed
  moreover have "unat (of_nat c :: u8) = c" using c by (simp add: unat_of_nat)
  moreover have "take_bit 7 n OR push_bit 7 c = n" unfolding c_def by (rule take_or_push)
  ultimately show ?thesis
    using False
    by (simp add: uleb128_decode_small_def uleb_def b_def [symmetric] c_def [symmetric] bind_get_byte
        nth_append byte_high_bit byte_low_bits)
qed

section \<open>Encoded runs\<close>

text \<open>
  What the encoder writes is a sequence of runs: a number of equal bytes, and the bytes that
  differ after them. A sequence is valid from position \<open>i\<close> on when it turns the old buffer into the
  new one there; only the first run may have no equal bytes.
\<close>

type_synonym xrun = "nat \<times> u8 list"

definition enc_run :: "xrun \<Rightarrow> u8 list" where
  "enc_run = (\<lambda>(z, ds). uleb z @ uleb (length ds) @ ds)"

definition enc_runs :: "xrun list \<Rightarrow> u8 list" where
  "enc_runs rs = concat (map enc_run rs)"

fun valid_runs :: "u8 list \<Rightarrow> u8 list \<Rightarrow> bool \<Rightarrow> nat \<Rightarrow> xrun list \<Rightarrow> bool" where
  "valid_runs old new first i [] \<longleftrightarrow> drop i old = drop i new"
| "valid_runs old new first i ((z, ds) # rs) \<longleftrightarrow>
     (first \<or> 0 < z) \<and> ds \<noteq> [] \<and> z \<le> 0x3fff \<and> length ds \<le> 0x3fff \<and>
     i + z + length ds \<le> length old \<and> take z (drop i old) = take z (drop i new) \<and>
     take (length ds) (drop (i + z) new) = ds \<and>
     valid_runs old new False (i + z + length ds) rs"

text \<open>The bytes of a run differ from the old ones.\<close>

fun exact_runs :: "u8 list \<Rightarrow> u8 list \<Rightarrow> nat \<Rightarrow> xrun list \<Rightarrow> bool" where
  "exact_runs old new i [] \<longleftrightarrow> True"
| "exact_runs old new i ((z, ds) # rs) \<longleftrightarrow>
     (\<forall>k<length ds. old ! (i + z + k) \<noteq> new ! (i + z + k)) \<and> exact_runs old new (i + z + length ds) rs"

lemma enc_runs_simps [simp]:
  "enc_runs [] = []" "enc_runs (r # rs) = enc_run r @ enc_runs rs"
  by (simp_all add: enc_runs_def)

lemma run_end_take:
  assumes "run_end (same_at old new) i n j" and "length old = n" and "length new = n"
  shows "take (j - i) (drop i old) = take (j - i) (drop i new)"
  by (rule nth_equalityI) (use assms in \<open>auto simp: run_end_def\<close>)

text \<open>One store of a number or of bytes after what has been written.\<close>

lemma put_after:
  assumes "bs \<noteq> []" and "d + length bs \<le> length dst"
  shows "\<exists>dst'. put_bytes d bs dst = Some dst' \<and> length dst' = length dst \<and>
    take (d + length bs) dst' = take d dst @ bs"
  using assms by (simp add: put_bytes_eq)

lemma encode_after:
  assumes "n \<le> 0x3fff" and "d + 2 \<le> length dst"
  shows "\<exists>dst'. uleb128_encode_small d n dst = Some (length (uleb n), dst') \<and> length dst' = length dst \<and>
    take (d + length (uleb n)) dst' = take d dst @ uleb n"
proof -
  have "uleb n \<noteq> []" "d + length (uleb n) \<le> length dst"
    using uleb_pos [of n] assms(2) by (auto simp: uleb_def)
  then obtain dst' where "put_bytes d (uleb n) dst = Some dst'" "length dst' = length dst"
    "take (d + length (uleb n)) dst' = take d dst @ uleb n"
    using put_after by blast
  then show ?thesis using assms(1) by (simp add: encode_uleb)
qed

lemma encode_one_run:
  assumes len: "length old = n" "length new = n" "n \<le> 0x3fff"
    and z: "zrun_scan old new n i 0 = Some (j, j - i)" and ij: "i \<le> j" "j < k" "k \<le> n"
    and nz: "nzrun_scan old new n j 0 = Some (k, k - j)" and dlen: "dlen \<le> length dst"
  defines "run \<equiv> enc_run (j - i, take (k - j) (drop j new))"
  shows "(\<exists>dst'. xbzrle_encode_loop old new n dlen i d dst = Some (- 1, dst') \<and> length dst' = length dst) \<or>
    (\<exists>dst'. xbzrle_encode_loop old new n dlen i d dst = xbzrle_encode_loop old new n dlen k (d + length run) dst' \<and>
       length dst' = length dst \<and> d + length run \<le> dlen \<and> take (d + length run) dst' = take d dst @ run)"
proof -
  let ?z = "j - i" and ?l = "k - j"
  have small: "?z \<le> 0x3fff" "?l \<le> 0x3fff" "?z \<noteq> n" "j \<noteq> n" "i < n" using ij len(3) by simp_all
  define d1 d2 where "d1 = d + length (uleb ?z)" and "d2 = d1 + length (uleb ?l)"
  define ds where "ds = take ?l (drop j new)"
  have ds: "get_bytes j ?l new = Some ds" "length ds = ?l" "ds \<noteq> []"
    using ij len by (auto simp: get_bytes_def ds_def)
  note step = xbzrle_encode_loop.simps [of old new n dlen i d dst]
  consider "dlen < d + 2" | "d + 2 \<le> dlen" "dlen < d1 + 2" | "d + 2 \<le> dlen" "d1 + 2 \<le> dlen"
    by linarith
  then show ?thesis
  proof cases
    case 1
    then show ?thesis using small by (simp add: step)
  next
    case 2
    obtain dst1 where "uleb128_encode_small d ?z dst = Some (length (uleb ?z), dst1)" "length dst1 = length dst"
      using encode_after [OF small(1), of d dst] 2(1) dlen by auto
    then show ?thesis using 2 small z by (simp add: step Let_def d1_def)
  next
    case 3
    obtain dst1 where e1: "uleb128_encode_small d ?z dst = Some (length (uleb ?z), dst1)"
      "length dst1 = length dst" "take d1 dst1 = take d dst @ uleb ?z"
      using encode_after [OF small(1), of d dst] 3(1) dlen unfolding d1_def by auto
    obtain dst2 where e2: "uleb128_encode_small d1 ?l dst1 = Some (length (uleb ?l), dst2)"
      "length dst2 = length dst1" "take d2 dst2 = take d1 dst1 @ uleb ?l"
      using encode_after [OF small(2), of d1 dst1] 3(2) dlen e1(2) unfolding d2_def by auto
    show ?thesis
    proof (cases "d2 + ?l \<le> dlen")
      case False
      then show ?thesis
        using 3 small z nz e1(1,2) e2(1,2) by (simp add: step Let_def d1_def d2_def)
    next
      case True
      obtain dst3 where e3: "put_bytes d2 ds dst2 = Some dst3" "length dst3 = length dst2"
        "take (d2 + ?l) dst3 = take d2 dst2 @ ds"
        using put_after [OF ds(3), of d2 dst2] ds(2) True dlen e1(2) e2(2) by auto
      have r: "run = uleb ?z @ uleb ?l @ ds" using ds(2) by (simp add: run_def enc_run_def ds_def)
      then have dr: "d + length run = d2 + ?l" using ds(2) by (simp add: d1_def d2_def)
      have "xbzrle_encode_loop old new n dlen i d dst = xbzrle_encode_loop old new n dlen k (d2 + ?l) dst3"
        using 3 small z nz e1(1,2) e2(1,2) e3(1) True ds(1) by (simp add: step Let_def d1_def d2_def)
      moreover have "take (d2 + ?l) dst3 = take d dst @ run" using e1(3) e2(3) e3(3) r by simp
      ultimately show ?thesis
        unfolding dr using True e1(2) e2(2) e3(2) by auto
    qed
  qed
qed

lemma encode_loop_runs:
  assumes len: "length old = n" "length new = n" "n \<le> 0x3fff"
  shows "i \<le> n \<Longrightarrow> dlen \<le> length dst \<Longrightarrow> d \<le> dlen \<Longrightarrow> (d = 0 \<longleftrightarrow> i = 0) \<Longrightarrow>
    (0 < i \<longrightarrow> i < n \<longrightarrow> same_at old new i) \<Longrightarrow>
    \<exists>r dst'. xbzrle_encode_loop old new n dlen i d dst = Some (r, dst') \<and> length dst' = length dst \<and>
      (r = - 1 \<or> (\<exists>rs. valid_runs old new (i = 0) i rs \<and> exact_runs old new i rs \<and>
         r = int (d + length (enc_runs rs)) \<and> r \<le> int dlen \<and> take (nat r) dst' = take d dst @ enc_runs rs))"
proof (induction "n - i" arbitrary: i d dst rule: less_induct)
  case less
  note step = xbzrle_encode_loop.simps [of old new n dlen i d dst]
  obtain j where z: "zrun_scan old new n i 0 = Some (j, j - i)" and j: "run_end (same_at old new) i n j"
    using zrun_scan_run [OF len(1,2) less.prems(1)] by blast
  have ij: "i \<le> j" "j \<le> n" "j < n \<longrightarrow> \<not> same_at old new j" using j by (simp_all add: run_end_def)
  note zs = run_end_take [OF j len(1,2)]
  show ?case
  proof (cases "j = n")
    case True
    have "drop i old = drop i new" using zs True len by simp
    moreover have "n - i = n \<Longrightarrow> i < n \<Longrightarrow> d = 0" using less.prems(4) by auto
    ultimately show ?thesis
      using z True less.prems(1,3) by (auto simp: step intro!: exI [of _ "[]"])
  next
    case False
    then have jn: "j < n" using ij by simp
    obtain k where nz: "nzrun_scan old new n j 0 = Some (k, k - j)" and k: "run_end (differ_at old new) j n k"
      using nzrun_scan_run [OF len(1,2) ij(2)] by blast
    have jk: "j < k" "k \<le> n" "k < n \<longrightarrow> same_at old new k"
      using k ij(3) jn by (auto simp: run_end_def le_less)
    define ds where "ds = take (k - j) (drop j new)"
    have ds: "length ds = k - j" "ds \<noteq> []" using jk len by (auto simp: ds_def)
    let ?d = "d + length (enc_run (j - i, ds))"
    consider (overflow) dst' where "xbzrle_encode_loop old new n dlen i d dst = Some (- 1, dst')" "length dst' = length dst"
      | (run) dst' where "xbzrle_encode_loop old new n dlen i d dst = xbzrle_encode_loop old new n dlen k ?d dst'"
        "length dst' = length dst" "?d \<le> dlen" "take ?d dst' = take d dst @ enc_run (j - i, ds)"
      using encode_one_run [OF len z ij(1) jk(1,2) nz less.prems(2), of d] unfolding ds_def by blast
    then show ?thesis
    proof cases
      case overflow
      then show ?thesis by simp
    next
      case run
      have "n - k < n - i" using ij jk jn by simp
      moreover have "?d = 0 \<longleftrightarrow> k = 0" using jk ds by (simp add: enc_run_def)
      ultimately obtain r dst2 where r: "xbzrle_encode_loop old new n dlen k ?d dst' = Some (r, dst2)"
        "length dst2 = length dst'"
        "r = - 1 \<or> (\<exists>rs. valid_runs old new (k = 0) k rs \<and> exact_runs old new k rs \<and>
           r = int (?d + length (enc_runs rs)) \<and> r \<le> int dlen \<and> take (nat r) dst2 = take ?d dst' @ enc_runs rs)"
        using less.hyps [of k dst' ?d] jk run(2,3) less.prems(2) by auto
      have "i = 0 \<or> 0 < j - i"
        using less.prems(5) ij jn by (metis gr0I le_neq_implies_less zero_less_diff)
      then have v: "valid_runs old new (i = 0) i ((j - i, ds) # rs)" if "valid_runs old new (k = 0) k rs" for rs
        using that ds zs ij jk len by (auto simp: ds_def)
      have x: "exact_runs old new i ((j - i, ds) # rs)" if "exact_runs old new k rs" for rs
        using that ds ij jk k by (auto simp: run_end_def)
      show ?thesis
      proof (cases "r = - 1")
        case True
        then show ?thesis using r(1,2) run(1,2) by simp
      next
        case False
        then obtain rs where rs: "valid_runs old new (k = 0) k rs" "r = int (?d + length (enc_runs rs))"
          "r \<le> int dlen" "take (nat r) dst2 = take ?d dst' @ enc_runs rs" "exact_runs old new k rs"
          using r(3) by blast
        have "r = int (d + length (enc_runs ((j - i, ds) # rs)))" using rs(2) by simp
        moreover have "take (nat r) dst2 = take d dst @ enc_runs ((j - i, ds) # rs)"
          using rs(4) run(4) by simp
        moreover have "length dst2 = length dst" using r(2) run(2) by simp
        ultimately show ?thesis unfolding run(1) r(1) using v [OF rs(1)] x [OF rs(5)] rs(3) by blast
      qed
    qed
  qed
qed

section \<open>Decoding\<close>

lemma decode_at:
  assumes "n \<le> 0x3fff" and "src = pre @ uleb n @ post" and "i = length pre"
  shows "uleb128_decode_small i src = Some (int (length (uleb n)), n)"
  using decode_uleb [OF assms(1), of pre post] assms(2,3) by simp

lemma get_bytes_at: "src = pre @ bs @ post \<Longrightarrow> i = length pre \<Longrightarrow> get_bytes i (length bs) src = Some bs"
  by (simp add: get_bytes_def)

text \<open>Patching the equal part and the run into the buffer that is new up to \<open>p\<close>.\<close>

lemma patch_run:
  assumes "length old = n" and "length new = n" and "p + z + length ds \<le> n" and "ds \<noteq> []"
    and "take z (drop p old) = take z (drop p new)" and "take (length ds) (drop (p + z) new) = ds"
  shows "put_bytes (p + z) ds (take p new @ drop p old) =
    Some (take (p + z + length ds) new @ drop (p + z + length ds) old)"
proof -
  let ?m = "take p new @ drop p old"
  have l: "length ?m = n" using assms(1-3) by simp
  have "take (p + z) ?m = take p new @ take z (drop p old)" using assms(1-3) by simp
  also have "\<dots> = take (p + z) new" using assms(5) by (simp add: take_add)
  finally have "put_bytes (p + z) ds ?m = Some (take (p + z) new @ ds @ drop (p + z + length ds) ?m)"
    using l assms(3,4) by (simp add: put_bytes_eq)
  moreover have "take (p + z) new @ ds = take (p + z + length ds) new"
    using assms(6) by (simp add: take_add)
  moreover have "drop (p + z + length ds) ?m = drop (p + z + length ds) old"
    using assms(1-3) by (simp add: ac_simps)
  ultimately show ?thesis by (metis append.assoc)
qed

lemma decode_one_run:
  assumes "uleb128_decode_small i src = Some (int l1, z)" and "i = 0 \<or> 0 < z"
    and "uleb128_decode_small (i + l1) src = Some (int l2, c)" and "0 < c"
    and "get_bytes (i + l1 + l2) c src = Some bs" and "put_bytes (d + z) bs dst = Some dst'"
    and "i + 2 \<le> slen" and "i + l1 + 2 \<le> slen" and "i + l1 + l2 + c \<le> slen" and "d + z + c \<le> dlen"
  shows "xbzrle_decode_loop src slen dlen i d dst =
    xbzrle_decode_loop src slen dlen (i + l1 + l2 + c) (d + z + c) dst'"
proof -
  have "i < slen" using assms(7) by simp
  then show ?thesis
    using assms by (subst xbzrle_decode_loop.simps) (auto simp: Let_def)
qed

lemma decode_loop_runs:
  assumes "length old = n" and "length new = n"
  shows "valid_runs old new first p rs \<Longrightarrow> p \<le> n \<Longrightarrow> (first \<longrightarrow> pre = []) \<Longrightarrow>
    \<exists>q\<le>n. xbzrle_decode_loop (pre @ enc_runs rs @ post) (length (pre @ enc_runs rs)) n (length pre) p
      (take p new @ drop p old) = Some (int q, new)"
proof (induction rs arbitrary: first p pre)
  case Nil
  then show ?case
    by (subst xbzrle_decode_loop.simps) (auto intro!: exI [of _ p] simp del: append_take_drop_id
        simp: append_take_drop_id [of p new])
next
  case (Cons r rs)
  obtain z ds where r: "r = (z, ds)" by fastforce
  have v: "first \<or> 0 < z" "ds \<noteq> []" "z \<le> 0x3fff" "length ds \<le> 0x3fff" "p + z + length ds \<le> n"
    "take z (drop p old) = take z (drop p new)" "take (length ds) (drop (p + z) new) = ds"
    "valid_runs old new False (p + z + length ds) rs"
    using Cons.prems(1) assms by (simp_all add: r)
  let ?src = "pre @ enc_runs (r # rs) @ post" and ?slen = "length (pre @ enc_runs (r # rs))"
  let ?i1 = "length pre + length (uleb z)"
  let ?i2 = "?i1 + length (uleb (length ds))"
  have d1: "uleb128_decode_small (length pre) ?src = Some (int (length (uleb z)), z)"
    by (rule decode_at [OF v(3)]) (simp_all add: r enc_run_def)
  have d2: "uleb128_decode_small ?i1 ?src = Some (int (length (uleb (length ds))), length ds)"
    by (rule decode_at [OF v(4), where pre = "pre @ uleb z"]) (simp_all add: r enc_run_def)
  have g: "get_bytes ?i2 (length ds) ?src = Some ds"
    by (rule get_bytes_at [where pre = "pre @ uleb z @ uleb (length ds)"]) (simp_all add: r enc_run_def)
  have lens: "length pre + 2 \<le> ?slen" "?i1 + 2 \<le> ?slen" "?i2 + length ds \<le> ?slen"
  proof -
    have "?slen = length pre + length (uleb z) + length (uleb (length ds)) + length ds + length (enc_runs rs)"
      by (simp add: r enc_run_def)
    moreover have "0 < length ds" using v(2) by simp
    ultimately show "length pre + 2 \<le> ?slen" "?i1 + 2 \<le> ?slen" "?i2 + length ds \<le> ?slen"
      using uleb_pos(1) [of z] uleb_pos(1) [of "length ds"] by linarith+
  qed
  let ?pre = "pre @ enc_run r"
  have "xbzrle_decode_loop ?src ?slen n (length pre) p (take p new @ drop p old) =
      xbzrle_decode_loop ?src ?slen n (?i2 + length ds) (p + z + length ds)
        (take (p + z + length ds) new @ drop (p + z + length ds) old)"
    by (rule decode_one_run [OF d1 _ d2 _ g patch_run [OF assms v(5,2,6,7)] lens v(5)])
      (use v(1,2) Cons.prems(3) in auto)
  moreover have "?src = ?pre @ enc_runs rs @ post" "?slen = length (?pre @ enc_runs rs)"
    "?i2 + length ds = length ?pre"
    by (simp_all add: r enc_run_def)
  moreover have "\<exists>q\<le>n. xbzrle_decode_loop (?pre @ enc_runs rs @ post) (length (?pre @ enc_runs rs)) n
      (length ?pre) (p + z + length ds)
      (take (p + z + length ds) new @ drop (p + z + length ds) old) = Some (int q, new)"
    using Cons.IH [OF v(8,5)] by blast
  ultimately show ?case by (simp only:)
qed

section \<open>Properties\<close>

lemma valid_runs_nil:
  assumes "valid_runs old new True 0 rs" and "enc_runs rs = []"
  shows "old = new"
  using assms by (cases rs) (auto simp: enc_run_def)

text \<open>
  What a delta between two pages makes of a third one: the bytes in which the two differ become the
  new ones, and the others stay.
\<close>

definition merge :: "u8 list \<Rightarrow> u8 list \<Rightarrow> u8 list \<Rightarrow> u8 list" where
  "merge old new page = map (\<lambda>i. if old ! i = new ! i then page ! i else new ! i) [0..<length page]"

lemma length_merge [simp]: "length (merge old new page) = length page"
  by (simp add: merge_def)

lemma merge_nth [simp]: "i < length page \<Longrightarrow> merge old new page ! i = (if old ! i = new ! i then page ! i else new ! i)"
  by (simp add: merge_def)

lemma merge_old: "length old = length new \<Longrightarrow> merge old new old = new"
  by (rule nth_equalityI) auto

lemma merge_runs:
  assumes "length old = n" and "length new = n" and "length page = n"
  shows "valid_runs old new first i rs \<Longrightarrow> exact_runs old new i rs \<Longrightarrow>
    valid_runs page (merge old new page) first i rs"
proof (induction rs arbitrary: first i)
  case Nil
  then have d: "drop i old = drop i new" by simp
  have "old ! (i + k) = new ! (i + k)" if "i + k < n" for k
    using arg_cong [OF d, of "\<lambda>xs. xs ! k"] that assms(1,2) by simp
  then show ?case using assms by (auto intro!: nth_equalityI)
next
  case (Cons r rs)
  obtain z ds where r: "r = (z, ds)" by fastforce
  have v: "i + z + length ds \<le> n" "take z (drop i old) = take z (drop i new)"
    "take (length ds) (drop (i + z) new) = ds" using Cons.prems(1) assms by (simp_all add: r)
  have eq: "old ! (i + k) = new ! (i + k)" if "k < z" for k
    using arg_cong [OF v(2), of "\<lambda>xs. xs ! k"] that v(1) assms by simp
  have "take z (drop i page) = take z (drop i (merge old new page))"
    using eq v(1) assms by (auto intro!: nth_equalityI)
  moreover have "take (length ds) (drop (i + z) (merge old new page)) = take (length ds) (drop (i + z) new)"
    using Cons.prems(2) v(1) assms by (auto intro!: nth_equalityI simp: r)
  ultimately show ?case using Cons assms v by (simp add: r)
qed

text \<open>
  The encoder gives up or writes a delta, and the decoder applies a delta to any page of the same
  length.
\<close>

lemma xbzrle_delta:
  assumes "length old = n" and "length new = n" and "n mod 8 = 0" and "n \<le> 0x3fff"
    and "dlen \<le> length dst"
  shows "\<exists>r dst'. xbzrle_encode_buffer old new n dst dlen = Some (r, dst') \<and> length dst' = length dst \<and>
    (r = - 1 \<or>
     0 \<le> r \<and> r \<le> int dlen \<and> (r = 0 \<longrightarrow> old = new) \<and>
     (\<forall>src page. take (nat r) src = take (nat r) dst' \<longrightarrow> nat r \<le> length src \<longrightarrow> length page = n \<longrightarrow>
        (\<exists>q\<le>n. xbzrle_decode_buffer src (nat r) page n = Some (int q, merge old new page))))"
proof -
  obtain r dst' where r: "xbzrle_encode_loop old new n dlen 0 0 dst = Some (r, dst')" "length dst' = length dst"
    "r = - 1 \<or> (\<exists>rs. valid_runs old new True 0 rs \<and> exact_runs old new 0 rs \<and> r = int (length (enc_runs rs)) \<and>
         r \<le> int dlen \<and> take (nat r) dst' = enc_runs rs)"
    using encode_loop_runs [OF assms(1,2,4), of 0 dlen dst 0] assms(5) by auto
  have e: "xbzrle_encode_buffer old new n dst dlen = Some (r, dst')"
    using r(1) assms(3) by (simp add: xbzrle_encode_buffer_def)
  show ?thesis
  proof (cases "r = - 1")
    case True
    then show ?thesis using e r(2) by simp
  next
    case False
    then obtain rs where rs: "valid_runs old new True 0 rs" "exact_runs old new 0 rs" "r = int (length (enc_runs rs))"
      "r \<le> int dlen" "take (nat r) dst' = enc_runs rs"
      using r(3) by blast
    have dec: "\<exists>q\<le>n. xbzrle_decode_buffer src (nat r) page n = Some (int q, merge old new page)"
      if src: "take (nat r) src = take (nat r) dst'" and page: "length page = n" for src page
    proof -
      have v: "valid_runs page (merge old new page) True 0 rs"
        by (rule merge_runs [OF assms(1,2) page rs(1,2)])
      have "src = enc_runs rs @ drop (nat r) src" using rs(5) src by (metis append_take_drop_id)
      then show ?thesis
        using decode_loop_runs [OF page _ v, of "[]" "drop (nat r) src"] rs(3) page
        by (auto simp: xbzrle_decode_buffer_def)
    qed
    moreover have "r = 0 \<longrightarrow> old = new" using valid_runs_nil [OF rs(1)] rs(3) by simp
    ultimately show ?thesis using e r(2) rs(3,4) by auto
  qed
qed

text \<open>
  C15. XBZRLE round trip. For any two pages of the same length, a multiple of eight bytes of at
  most 16383, and any destination buffer of the stated size: the encoder returns; it never writes
  outside of the buffer; it gives up with -1 or returns the length of what it has written, which
  fits; and decoding that into a copy of the old page always succeeds and gives the new page. Zero
  is returned only for equal pages.
\<close>

theorem xbzrle_roundtrip:
  assumes "length old = n" and "length new = n" and "n mod 8 = 0" and "n \<le> 0x3fff"
    and "dlen \<le> length dst"
  shows "\<exists>r dst'. xbzrle_encode_buffer old new n dst dlen = Some (r, dst') \<and>
    length dst' = length dst \<and>
    (r = - 1 \<or>
     0 \<le> r \<and> r \<le> int dlen \<and> (r = 0 \<longrightarrow> old = new) \<and>
     (\<exists>q\<le>n. xbzrle_decode_buffer dst' (nat r) old n = Some (int q, new)))"
proof -
  obtain r dst' where r: "xbzrle_encode_buffer old new n dst dlen = Some (r, dst')" "length dst' = length dst"
    "r = - 1 \<or> 0 \<le> r \<and> r \<le> int dlen \<and> (r = 0 \<longrightarrow> old = new) \<and>
     (\<forall>src page. take (nat r) src = take (nat r) dst' \<longrightarrow> nat r \<le> length src \<longrightarrow> length page = n \<longrightarrow>
        (\<exists>q\<le>n. xbzrle_decode_buffer src (nat r) page n = Some (int q, merge old new page)))"
    using xbzrle_delta [OF assms] by blast
  moreover have "r \<noteq> - 1 \<Longrightarrow> nat r \<le> length dst'" using r assms(5) by auto
  ultimately show ?thesis using merge_old [of old new] assms(1,2) by metis
qed

theorem xbzrle_roundtrip_witness:
  "\<exists>r dst'. xbzrle_encode_buffer (replicate 16 0) ((replicate 16 0)[3 := 7, 9 := 8]) 16 (replicate 16 0) 16 =
     Some (r, dst') \<and>
   (r = - 1 \<or> 0 \<le> r \<and> (\<exists>q\<le>16. xbzrle_decode_buffer dst' (nat r) (replicate 16 0) 16 =
      Some (int q, (replicate 16 0)[3 := 7, 9 := 8])))"
  using xbzrle_roundtrip [of "replicate 16 0" 16 "(replicate 16 0)[3 := 7, 9 := 8]" 16 "replicate 16 0"]
  by auto

lemma decode_small_cases:
  assumes "i + 2 \<le> length src"
  obtains (bad) c where "uleb128_decode_small i src = Some (- 1, c)"
    | (good) l c where "uleb128_decode_small i src = Some (int l, c)" and "0 < l" and "l \<le> 2"
proof (cases "src ! i AND 0x80 = 0")
  case True
  then have "uleb128_decode_small i src = Some (int 1, unat (src ! i))"
    using assms by (simp add: uleb128_decode_small_def)
  then show thesis by (rule good) simp_all
next
  case False
  let ?b = "src ! i" and ?c = "src ! (i + 1)"
  have "uleb128_decode_small i src =
      (if ?c AND 0x80 \<noteq> 0 then Some (- 1, unat (?b AND 0x7f))
       else Some (int 2, unat (?b AND 0x7f) OR push_bit 7 (unat ?c)))"
    using False assms by (simp add: uleb128_decode_small_def)
  then show thesis using bad good [of 2] by (cases "?c AND 0x80 = 0") simp_all
qed

lemma put_bytes_within:
  assumes "d + length bs \<le> dlen" and "dlen \<le> length dst" and "bs \<noteq> []"
  shows "\<exists>dst'. put_bytes d bs dst = Some dst' \<and> length dst' = length dst \<and> drop dlen dst' = drop dlen dst"
  using assms by (simp add: put_bytes_eq)

lemma decode_loop_safe:
  assumes "slen \<le> length src" and "dlen \<le> length dst" and "d \<le> dlen"
  shows "\<exists>r dst'. xbzrle_decode_loop src slen dlen i d dst = Some (r, dst') \<and> length dst' = length dst \<and>
    drop dlen dst' = drop dlen dst \<and> (r = - 1 \<or> 0 \<le> r \<and> r \<le> int dlen)"
  using assms(2,3)
proof (induction "slen - i" arbitrary: i d dst rule: less_induct)
  case less
  note step = xbzrle_decode_loop.simps [of src slen dlen i d dst]
  show ?case
  proof (cases "i + 2 \<le> slen")
    case False
    then show ?thesis using less.prems by (auto simp: step)
  next
    case i2: True
    then have "i + 2 \<le> length src" "i < slen" using assms(1) by simp_all
    show ?thesis
      using \<open>i + 2 \<le> length src\<close>
    proof (cases rule: decode_small_cases)
      case bad
      then show ?thesis using i2 by (simp add: step)
    next
      case (good l z)
      show ?thesis
      proof (cases "i + l + 2 \<le> slen \<and> (i = 0 \<or> 0 < z) \<and> d + z \<le> dlen")
        case False
        then show ?thesis using i2 good by (auto simp: step Let_def)
      next
        case ok: True
        then have "i + l + 2 \<le> length src" using assms(1) by simp
        then show ?thesis
        proof (cases rule: decode_small_cases)
          case bad
          then show ?thesis using i2 good ok by (auto simp: step Let_def)
        next
          case g2: (good m c)
          show ?thesis
          proof (cases "0 < c \<and> d + z + c \<le> dlen \<and> i + l + m + c \<le> slen")
            case False
            then show ?thesis using i2 good ok g2 by (auto simp: step Let_def)
          next
            case run: True
            define bs where "bs = take c (drop (i + l + m) src)"
            have bs: "get_bytes (i + l + m) c src = Some bs" "length bs = c" "bs \<noteq> []"
              using run assms(1) by (auto simp: bs_def get_bytes_def)
            obtain dst1 where p: "put_bytes (d + z) bs dst = Some dst1" "length dst1 = length dst"
              "drop dlen dst1 = drop dlen dst"
              using put_bytes_within [of "d + z" bs dlen dst] bs run less.prems by auto
            have "xbzrle_decode_loop src slen dlen i d dst =
                xbzrle_decode_loop src slen dlen (i + l + m + c) (d + z + c) dst1"
              by (rule decode_one_run [OF good(1) _ g2(1) _ bs(1) p(1)]) (use i2 ok run in auto)
            moreover have "slen - (i + l + m + c) < slen - i" using i2 good(2) by simp
            ultimately show ?thesis
              using less.hyps [of "i + l + m + c" dst1 "d + z + c"] p(2,3) less.prems run by simp
          qed
        qed
      qed
    qed
  qed
qed

text \<open>
  C16. The decoder is safe on any input: whatever bytes it is given, it returns, never reads
  outside of them, writes only the first \<open>dlen\<close> bytes of the destination, and reports an error or
  a length within it.
\<close>

theorem xbzrle_decode_safe:
  assumes "slen \<le> length src" and "dlen \<le> length dst"
  shows "\<exists>r dst'. xbzrle_decode_buffer src slen dst dlen = Some (r, dst') \<and> length dst' = length dst \<and>
    drop dlen dst' = drop dlen dst \<and> (r = - 1 \<or> 0 \<le> r \<and> r \<le> int dlen)"
  unfolding xbzrle_decode_buffer_def by (rule decode_loop_safe [OF assms]) simp

theorem xbzrle_decode_safe_witness:
  "\<exists>r dst'. xbzrle_decode_buffer [0x81, 0x80, 1, 2] 4 [0, 0, 0, 0] 4 = Some (r, dst') \<and> length dst' = 4"
  using xbzrle_decode_safe [of 4 "[0x81, 0x80, 1, 2]" 4 "[0, 0, 0, 0]"] by auto

end
