(* ===== verification/Page_Cache.thy ===== *)
theory Page_Cache
  imports Host_Utils "HOL-Library.Multiset"
begin

text \<open>
  The page cache of live migration (\<open>page_cache.c\<close>). The pointer to the contents of a page is of
  an arbitrary type \<open>'p\<close>, and \<open>NULL\<close> is \<open>None\<close>; an operation that frees pages also returns those
  it has freed. The 64-bit integers are words. A failed \<open>g_assert\<close>, a division by zero and the
  shift by 64 in \<open>pow2floor\<close> are \<open>None\<close>; where a function may return \<open>NULL\<close>, that is a second
  option.
\<close>

section \<open>The cache\<close>

record 'p CacheItem =
  it_addr :: u64
  it_age :: u64
  it_data :: "'p option"

record 'p PageCache =
  page_cache :: "'p CacheItem list option"
  page_size :: u32
  max_num_items :: u64
  max_item_age :: u64
  num_items :: u64

definition cache_init :: "u64 \<Rightarrow> u32 \<Rightarrow> 'p PageCache option option" where
  "cache_init num_pages pgsize =
     (if sint num_pages \<le> 0 then Some None
      else do {
        num_pages \<leftarrow> (if \<not> is_power_of_2 num_pages then pow2floor num_pages else Some num_pages);
        Some (Some
          \<lparr>page_cache = Some (replicate (unat num_pages) \<lparr>it_addr = - 1, it_age = 0, it_data = None\<rparr>),
           page_size = pgsize, max_num_items = num_pages, max_item_age = 0, num_items = 0\<rparr>)
      })"

definition g_free :: "'p option \<Rightarrow> 'p list" where
  "g_free p = (case p of None \<Rightarrow> [] | Some p \<Rightarrow> [p])"

definition cache_fini :: "'p PageCache \<Rightarrow> ('p PageCache \<times> 'p list) option" where
  "cache_fini cache =
     do {
       items \<leftarrow> page_cache cache;
       Some (cache\<lparr>page_cache := None\<rparr>, concat (map (\<lambda>it. g_free (it_data it)) items))
     }"

definition cache_get_cache_pos :: "'p PageCache \<Rightarrow> u64 \<Rightarrow> nat option" where
  "cache_get_cache_pos cache address =
     do {
       c_assert (max_num_items cache \<noteq> 0);
       c_assert (page_size cache \<noteq> 0);
       Some (unat ((address div ucast (page_size cache)) AND (max_num_items cache - 1)))
     }"

definition cache_is_cached :: "'p PageCache \<Rightarrow> u64 \<Rightarrow> bool option" where
  "cache_is_cached cache addr =
     do {
       items \<leftarrow> page_cache cache;
       pos \<leftarrow> cache_get_cache_pos cache addr;
       c_assert (pos < length items);
       Some (it_addr (items ! pos) = addr)
     }"

text \<open>The item that an address belongs to, as its position in the array.\<close>

definition cache_get_by_addr :: "'p PageCache \<Rightarrow> u64 \<Rightarrow> nat option" where
  "cache_get_by_addr cache addr =
     do {
       items \<leftarrow> page_cache cache;
       pos \<leftarrow> cache_get_cache_pos cache addr;
       c_assert (pos < length items);
       Some pos
     }"

definition get_cached_data :: "'p PageCache \<Rightarrow> u64 \<Rightarrow> 'p option option" where
  "get_cached_data cache addr =
     do {
       pos \<leftarrow> cache_get_by_addr cache addr;
       items \<leftarrow> page_cache cache;
       Some (it_data (items ! pos))
     }"

definition cache_insert :: "'p PageCache \<Rightarrow> u64 \<Rightarrow> 'p option \<Rightarrow> 'p PageCache option" where
  "cache_insert cache addr pdata =
     do {
       pos \<leftarrow> cache_get_by_addr cache addr;
       items \<leftarrow> page_cache cache;
       let cache = (if it_data (items ! pos) = None then cache\<lparr>num_items := num_items cache + 1\<rparr> else cache);
           age = max_item_age cache + 1 in
       Some (cache\<lparr>max_item_age := age,
                   page_cache := Some (items[pos := \<lparr>it_addr = addr, it_age = age, it_data = pdata\<rparr>])\<rparr>)
     }"

text \<open>The loop body that moves an item of the old cache to the new one.\<close>

definition move_item ::
  "'p CacheItem \<Rightarrow> 'p PageCache \<times> 'p list \<Rightarrow> ('p PageCache \<times> 'p list) option" where
  "move_item old_it = (\<lambda>(new_cache, freed).
     if it_addr old_it \<noteq> - 1 then do {
       pos \<leftarrow> cache_get_by_addr new_cache (it_addr old_it);
       items \<leftarrow> page_cache new_cache;
       let new_it = items ! pos in
       if it_data new_it \<noteq> None then
         if it_age new_it \<ge> it_age old_it then Some (new_cache, freed @ g_free (it_data old_it))
         else Some (new_cache\<lparr>page_cache := Some (items[pos := new_it\<lparr>it_data := it_data old_it,
                      it_age := it_age old_it, it_addr := it_addr old_it\<rparr>])\<rparr>,
                    freed @ g_free (it_data new_it))
       else do {
         new_cache \<leftarrow> cache_insert new_cache (it_addr old_it) (it_data old_it);
         Some (new_cache, freed)
       }
     }
     else Some (new_cache, freed))"

definition cache_resize :: "'p PageCache \<Rightarrow> u64 \<Rightarrow> (u64 \<times> 'p PageCache \<times> 'p list) option" where
  "cache_resize cache new_num_pages =
     (case page_cache cache of
        None \<Rightarrow> Some (- 1, cache, [])
      | Some items \<Rightarrow> do {
          p \<leftarrow> pow2floor new_num_pages;
          if p = max_num_items cache then Some (max_num_items cache, cache, [])
          else do {
            new_cache \<leftarrow> cache_init new_num_pages (page_size cache);
            case new_cache of
              None \<Rightarrow> Some (- 1, cache, [])
            | Some new_cache \<Rightarrow> do {
                (new_cache, freed) \<leftarrow> foldM move_item items (new_cache, []);
                let cache = cache\<lparr>page_cache := page_cache new_cache,
                                  max_num_items := max_num_items new_cache,
                                  num_items := num_items new_cache\<rparr> in
                Some (max_num_items cache, cache, freed)
              }
          }
        })"

section \<open>The cache as a map\<close>

text \<open>The slot of an address, and the pages that the cache has.\<close>

definition slot :: "'p PageCache \<Rightarrow> u64 \<Rightarrow> nat" where
  "slot c a = unat ((a div ucast (page_size c)) AND (max_num_items c - 1))"

definition items_of :: "'p PageCache \<Rightarrow> 'p CacheItem list" where
  "items_of c = (case page_cache c of None \<Rightarrow> [] | Some items \<Rightarrow> items)"

definition cache_map :: "'p PageCache \<Rightarrow> u64 \<Rightarrow> 'p option" where
  "cache_map c a =
     (if it_addr (items_of c ! slot c a) = a then it_data (items_of c ! slot c a) else None)"

text \<open>The pages of all slots.\<close>

definition pages_of :: "'p CacheItem list \<Rightarrow> 'p list" where
  "pages_of items = concat (map (\<lambda>it. g_free (it_data it)) items)"

text \<open>
  The invariant: the number of slots is a power of two; a slot is empty, with the address -1 and
  no data, or has data of an address that belongs there; and the slots in use are counted.
\<close>

definition item_ok :: "'p PageCache \<Rightarrow> nat \<Rightarrow> 'p CacheItem \<Rightarrow> bool" where
  "item_ok c i it \<longleftrightarrow>
     (it_addr it = - 1 \<and> it_data it = None) \<or> (it_addr it \<noteq> - 1 \<and> it_data it \<noteq> None \<and> slot c (it_addr it) = i)"

definition cache_inv :: "'p PageCache \<Rightarrow> bool" where
  "cache_inv c \<longleftrightarrow>
     (\<exists>k<63. max_num_items c = 2 ^ k \<and> length (items_of c) = 2 ^ k) \<and>
     page_cache c \<noteq> None \<and> page_size c \<noteq> 0 \<and>
     (\<forall>i<length (items_of c). item_ok c i (items_of c ! i)) \<and>
     num_items c = of_nat (length (pages_of (items_of c)))"

lemma slot_less:
  assumes "max_num_items c = 2 ^ k" and "k < 63"
  shows "slot c a < 2 ^ k"
proof -
  have "(a div ucast (page_size c)) AND (2 ^ k - 1 :: u64) = take_bit k (a div ucast (page_size c))"
    by (simp add: take_bit_eq_mask mask_eq_exp_minus_1)
  then have "slot c a = take_bit k (unat (a div ucast (page_size c)))"
    using assms(1) by (simp add: slot_def unsigned_take_bit_eq)
  then show ?thesis by simp
qed

lemma inv_slot: "cache_inv c \<Longrightarrow> slot c a < length (items_of c)"
  unfolding cache_inv_def using slot_less by auto

lemma inv_pos:
  assumes "cache_inv c"
  shows "cache_get_by_addr c a = Some (slot c a)" and "page_cache c = Some (items_of c)"
proof -
  have m: "max_num_items c \<noteq> 0" "page_size c \<noteq> 0" "page_cache c \<noteq> None"
    using assms unat_exp64 by (auto simp: cache_inv_def)
  then show p: "page_cache c = Some (items_of c)" by (auto simp: items_of_def)
  show "cache_get_by_addr c a = Some (slot c a)"
    using m p inv_slot [OF assms, of a]
    by (simp add: cache_get_by_addr_def cache_get_cache_pos_def slot_def)
qed

lemma items_of_update [simp]:
  "items_of (c\<lparr>page_cache := Some items\<rparr>) = items"
  "items_of (c\<lparr>max_item_age := x\<rparr>) = items_of c" "items_of (c\<lparr>num_items := n\<rparr>) = items_of c"
  by (simp_all add: items_of_def)

lemma slot_update [simp]:
  "slot (c\<lparr>page_cache := items\<rparr>) a = slot c a" "slot (c\<lparr>max_item_age := x\<rparr>) a = slot c a"
  "slot (c\<lparr>num_items := n\<rparr>) a = slot c a"
  by (simp_all add: slot_def)

lemma item_ok_update [simp]:
  "item_ok (c\<lparr>page_cache := items\<rparr>) = item_ok c" "item_ok (c\<lparr>max_item_age := x\<rparr>) = item_ok c"
  "item_ok (c\<lparr>num_items := n\<rparr>) = item_ok c"
  by (simp_all add: item_ok_def fun_eq_iff)

lemma pages_update:
  assumes "i < length items"
  shows "mset (pages_of (items[i := it])) + mset (g_free (it_data (items ! i))) =
    mset (pages_of items) + mset (g_free (it_data it))"
proof -
  have "mset (pages_of (items[i := x])) =
      mset (pages_of (take i items)) + mset (g_free (it_data x)) + mset (pages_of (drop (Suc i) items))" for x
    using assms by (simp add: pages_of_def upd_conv_take_nth_drop)
  from this [of it] this [of "items ! i"] show ?thesis by (simp add: list_update_id)
qed

lemma length_pages_update:
  assumes "i < length items"
  shows "length (pages_of (items[i := it])) + length (g_free (it_data (items ! i))) =
    length (pages_of items) + length (g_free (it_data it))"
  using arg_cong [OF pages_update [OF assms, of it], of size] by simp

text \<open>Storing an item in its slot.\<close>

lemma inv_set_item:
  assumes "cache_inv c" and "i < length (items_of c)" and "item_ok c i it"
    and "n + of_nat (length (g_free (it_data (items_of c ! i)))) =
         num_items c + of_nat (length (g_free (it_data it)))"
  shows "cache_inv (c\<lparr>num_items := n, max_item_age := x, page_cache := Some ((items_of c)[i := it])\<rparr>)"
proof -
  have "of_nat (length (pages_of ((items_of c)[i := it])) + length (g_free (it_data (items_of c ! i)))) =
      (of_nat (length (pages_of (items_of c)) + length (g_free (it_data it))) :: u64)"
    by (simp only: length_pages_update [OF assms(2)])
  then have "of_nat (length (pages_of ((items_of c)[i := it]))) + of_nat (length (g_free (it_data (items_of c ! i)))) =
      (of_nat (length (pages_of (items_of c))) + of_nat (length (g_free (it_data it))) :: u64)"
    by (simp only: of_nat_add)
  moreover have "num_items c = of_nat (length (pages_of (items_of c)))"
    using assms(1) by (simp add: cache_inv_def)
  ultimately have "n = of_nat (length (pages_of ((items_of c)[i := it])))"
    using assms(4) by (metis add_right_cancel)
  then show ?thesis
    using assms(1,2,3) by (auto simp: cache_inv_def nth_list_update)
qed

lemma map_set_item:
  assumes "cache_inv c" and "a \<noteq> - 1" and "it_addr it = a" and "slot c a = i"
    and "page_cache c' = Some ((items_of c)[i := it])" and "page_size c' = page_size c"
    and "max_num_items c' = max_num_items c"
  shows "cache_map c' b =
    (if b = a then it_data it else if slot c b = i then None else cache_map c b)"
proof -
  have s: "slot c' b = slot c b" using assms(6,7) by (simp add: slot_def)
  have i: "items_of c' = (items_of c)[i := it]" using assms(5) by (simp add: items_of_def)
  show ?thesis
    using assms(3,4) inv_slot [OF assms(1), of b] unfolding cache_map_def s i
    by (auto simp: nth_list_update)
qed

section \<open>The operations on the map\<close>

lemma cache_insert_map:
  assumes "cache_inv c" and "a \<noteq> - 1"
  shows "\<exists>c'. cache_insert c a (Some p) = Some c' \<and> cache_inv c' \<and>
    page_size c' = page_size c \<and> max_num_items c' = max_num_items c \<and>
    cache_map c' = (\<lambda>b. if b = a then Some p else if slot c b = slot c a then None else cache_map c b)"
proof -
  let ?i = "slot c a" and ?age = "max_item_age c + 1"
  let ?old = "items_of c ! ?i" and ?it = "\<lparr>it_addr = a, it_age = ?age, it_data = Some p\<rparr>"
  let ?n = "if it_data ?old = None then num_items c + 1 else num_items c"
  let ?c = "c\<lparr>num_items := ?n, max_item_age := ?age, page_cache := Some ((items_of c)[?i := ?it])\<rparr>"
  have "cache_insert c a (Some p) = Some ?c"
    using inv_pos [OF assms(1)] by (simp add: cache_insert_def Let_def)
  moreover have "cache_inv ?c"
  proof (rule inv_set_item [OF assms(1) inv_slot [OF assms(1)]])
    show "item_ok c ?i ?it" using assms(2) by (simp add: item_ok_def)
  qed (simp add: g_free_def split: option.split)
  moreover have "cache_map ?c b = (if b = a then Some p else if slot c b = slot c a then None else cache_map c b)" for b
    using map_set_item [OF assms, of ?it ?i ?c b] by simp
  ultimately show ?thesis by auto
qed

lemma cache_init_map:
  assumes "0 < sint n" and "pgsize \<noteq> 0"
  shows "\<exists>c :: 'p PageCache. cache_init n pgsize = Some (Some c) \<and> cache_inv c \<and> page_size c = pgsize \<and>
    pow2floor n = Some (max_num_items c) \<and>
    items_of c = replicate (unat (max_num_items c)) \<lparr>it_addr = - 1, it_age = 0, it_data = None\<rparr>"
proof -
  have "\<not> sint n < 0" using assms(1) by linarith
  then have "uint n = sint n" using abs_word [of n] assms(1) by (simp only: if_False abs_of_pos)
  then have "uint n < 2 ^ 63" using sint64_range [of n] by (simp only:)
  then have "int (unat n) < int (2 ^ 63)" by (simp only: of_nat_unat of_nat_power of_nat_numeral)
  then have lt: "unat n < 2 ^ 63" by (simp only: of_nat_less_iff)
  have "n \<noteq> 0" using assms(1) by auto
  then obtain k where k: "pow2floor n = Some (2 ^ k)" "2 ^ k \<le> unat n" "k < 64"
    using pow2floor_exp by blast
  have "(2 :: nat) ^ k < 2 ^ 63" using k(2) lt by (rule le_less_trans)
  then have k63: "k < 63" by (rule nat_power_less_imp_less [rotated]) simp
  let ?items = "replicate (2 ^ k) \<lparr>it_addr = - 1, it_age = 0, it_data = None\<rparr> :: 'p CacheItem list"
  let ?c = "\<lparr>page_cache = Some ?items, page_size = pgsize, max_num_items = 2 ^ k, max_item_age = 0, num_items = 0\<rparr>"
  have "cache_init n pgsize = Some (Some ?c)"
    using assms(1) k(1,3) unat_exp64 [of k] by (simp add: cache_init_def pow2floor_def split: if_splits)
  moreover have "pages_of ?items = []" by (simp add: pages_of_def g_free_def)
  then have "cache_inv ?c"
    using k63 assms(2) by (auto simp: cache_inv_def items_of_def item_ok_def)
  moreover have "items_of ?c = replicate (unat (max_num_items ?c)) \<lparr>it_addr = - 1, it_age = 0, it_data = None\<rparr>"
    using unat_exp64 [of k] k(3) by (simp add: items_of_def)
  ultimately show ?thesis using k(1) by (intro exI [of _ ?c]) simp
qed

section \<open>Resizing\<close>

text \<open>
  What holds of the new cache while items are moved: it is well formed, every page in it is one of
  the items moved so far, and those are all either in it or freed.
\<close>

definition moved :: "u32 \<Rightarrow> u64 \<Rightarrow> 'p CacheItem list \<Rightarrow> 'p PageCache \<times> 'p list \<Rightarrow> bool" where
  "moved pgsize n ps = (\<lambda>(c, freed).
     cache_inv c \<and> page_size c = pgsize \<and> max_num_items c = n \<and>
     (\<forall>it\<in>set (items_of c). it_addr it \<noteq> - 1 \<longrightarrow>
        (\<exists>old\<in>set ps. it_addr old = it_addr it \<and> it_data old = it_data it)) \<and>
     mset (pages_of (items_of c)) + mset freed = mset (pages_of ps))"

lemma pages_of_snoc: "pages_of (ps @ [it]) = pages_of ps @ g_free (it_data it)"
  by (simp add: pages_of_def)

lemma moved_mono:
  assumes "moved pgsize n ps (c, freed)" and "cache_inv c'" and "page_size c' = pgsize" and "max_num_items c' = n"
    and "\<forall>x\<in>set (items_of c'). x \<in> set (items_of c) \<or> it_addr x = it_addr it \<and> it_data x = it_data it"
    and "mset (pages_of (items_of c')) + mset freed' =
      mset (pages_of (items_of c)) + mset freed + mset (g_free (it_data it))"
  shows "moved pgsize n (ps @ [it]) (c', freed')"
  using assms unfolding moved_def by (fastforce simp: pages_of_snoc)

lemma move_item_moved:
  assumes m: "moved pgsize n ps (c, freed)"
    and it: "it_addr it = - 1 \<and> it_data it = None \<or> it_addr it \<noteq> - 1 \<and> it_data it \<noteq> None"
  shows "\<exists>s. move_item it (c, freed) = Some s \<and> moved pgsize n (ps @ [it]) s"
proof -
  have inv: "cache_inv c" "page_size c = pgsize" "max_num_items c = n" using m by (simp_all add: moved_def)
  show ?thesis
  proof (cases "it_addr it = - 1")
    case True
    then have "moved pgsize n (ps @ [it]) (c, freed)"
      using it inv by (intro moved_mono [OF m]) (auto simp: g_free_def)
    then show ?thesis using True by (simp add: move_item_def)
  next
    case False
    then obtain p where p: "it_data it = Some p" using it by auto
    let ?i = "slot c (it_addr it)"
    let ?new = "items_of c ! ?i"
    note pos = inv_pos(1) [OF inv(1), of "it_addr it"] inv_pos(2) [OF inv(1)]
      inv_slot [OF inv(1), of "it_addr it"]
    consider (empty) "it_data ?new = None" | (keep) "it_data ?new \<noteq> None" "it_age ?new \<ge> it_age it"
      | (replace) q where "it_data ?new = Some q" "\<not> it_age ?new \<ge> it_age it"
      by blast
    then show ?thesis
    proof cases
      case empty
      obtain c' where c': "cache_insert c (it_addr it) (Some p) = Some c'" "cache_inv c'"
        "page_size c' = page_size c" "max_num_items c' = max_num_items c"
        using cache_insert_map [OF inv(1) False] by blast
      have i: "items_of c' = (items_of c)[?i := \<lparr>it_addr = it_addr it, it_age = max_item_age c + 1, it_data = Some p\<rparr>]"
        using c'(1) pos empty by (auto simp: cache_insert_def Let_def)
      have "moved pgsize n (ps @ [it]) (c', freed)"
      proof (rule moved_mono [OF m c'(2)])
        show "\<forall>x\<in>set (items_of c'). x \<in> set (items_of c) \<or> it_addr x = it_addr it \<and> it_data x = it_data it"
          unfolding i using p set_update_subset_insert by fastforce
        show "mset (pages_of (items_of c')) + mset freed =
            mset (pages_of (items_of c)) + mset freed + mset (g_free (it_data it))"
          unfolding i using pages_update [OF pos(3), of "\<lparr>it_addr = it_addr it, it_age = max_item_age c + 1, it_data = Some p\<rparr>"]
            empty p by (simp add: g_free_def)
      qed (use c' inv in simp_all)
      then show ?thesis using False pos empty c'(1) p by (simp add: move_item_def)
    next
      case keep
      have "moved pgsize n (ps @ [it]) (c, freed @ g_free (it_data it))"
        using inv by (intro moved_mono [OF m]) auto
      then show ?thesis using False pos keep by (simp add: move_item_def)
    next
      case (replace q)
      let ?it = "?new\<lparr>it_data := it_data it, it_age := it_age it, it_addr := it_addr it\<rparr>"
      let ?c = "c\<lparr>page_cache := Some ((items_of c)[?i := ?it])\<rparr>"
      have ci: "cache_inv ?c"
        using inv_set_item [OF inv(1) pos(3), of ?it "num_items c" "max_item_age c"] False p replace(1)
        by (simp add: item_ok_def g_free_def)
      have "moved pgsize n (ps @ [it]) (?c, freed @ g_free (it_data ?new))"
      proof (rule moved_mono [OF m ci])
        show "\<forall>x\<in>set (items_of ?c). x \<in> set (items_of c) \<or> it_addr x = it_addr it \<and> it_data x = it_data it"
          using set_update_subset_insert by fastforce
        show "mset (pages_of (items_of ?c)) + mset (freed @ g_free (it_data ?new)) =
            mset (pages_of (items_of c)) + mset freed + mset (g_free (it_data it))"
          using pages_update [OF pos(3), of ?it] by (simp add: ac_simps)
      qed (use inv in simp_all)
      then show ?thesis using False pos replace by (simp add: move_item_def Let_def)
    qed
  qed
qed

lemma foldM_moved:
  assumes "moved pgsize n ps s"
    and "\<forall>it\<in>set xs. it_addr it = - 1 \<and> it_data it = None \<or> it_addr it \<noteq> - 1 \<and> it_data it \<noteq> None"
  shows "\<exists>s'. foldM move_item xs s = Some s' \<and> moved pgsize n (ps @ xs) s'"
  using assms
proof (induction xs arbitrary: ps s)
  case (Cons x xs)
  obtain s' where s': "move_item x s = Some s'" "moved pgsize n (ps @ [x]) s'"
    using move_item_moved [of pgsize n ps "fst s" "snd s" x] Cons.prems by auto
  then show ?case using Cons.IH [OF s'(2)] Cons.prems(2) by simp
qed simp

lemma inv_items:
  assumes "cache_inv c" and "it \<in> set (items_of c)"
  shows "it_addr it = - 1 \<and> it_data it = None \<or>
    it_addr it \<noteq> - 1 \<and> it_data it \<noteq> None \<and> cache_map c (it_addr it) = it_data it"
proof -
  obtain i where i: "i < length (items_of c)" "it = items_of c ! i" using assms(2) by (metis in_set_conv_nth)
  then have "item_ok c i it" using assms(1) by (simp add: cache_inv_def)
  then show ?thesis using i by (auto simp: item_ok_def cache_map_def)
qed

lemma map_item:
  assumes "cache_inv c" and "cache_map c a = Some p"
  shows "\<exists>it\<in>set (items_of c). it_addr it = a \<and> it_data it = Some p \<and> a \<noteq> - 1"
proof -
  let ?it = "items_of c ! slot c a"
  have "?it \<in> set (items_of c)" using inv_slot [OF assms(1)] by simp
  then show ?thesis
    using assms(2) inv_items [OF assms(1)] by (fastforce simp: cache_map_def split: if_splits)
qed

lemma cache_lookup:
  assumes "cache_inv c" and "a \<noteq> - 1"
  shows "cache_is_cached c a = Some (cache_map c a \<noteq> None)"
proof -
  have "items_of c ! slot c a \<in> set (items_of c)" using inv_slot [OF assms(1)] by simp
  then have d: "it_addr (items_of c ! slot c a) = a \<Longrightarrow> it_data (items_of c ! slot c a) \<noteq> None"
    using inv_items [OF assms(1), of "items_of c ! slot c a"] assms(2) by auto
  have pos: "cache_get_cache_pos c a = Some (slot c a)"
    using inv_pos(1) [OF assms(1), of a] inv_pos(2) [OF assms(1)]
    by (auto simp: cache_get_by_addr_def bind_eq_Some_conv split: if_splits)
  show ?thesis
    using pos inv_pos(2) [OF assms(1)] inv_slot [OF assms(1), of a] d
    by (auto simp: cache_is_cached_def cache_map_def split: if_splits)
qed

text \<open>
  C20. The page cache is a map with one page per slot. On a well-formed cache the operations never
  fail for a page address: \<open>cache_is_cached\<close> tells whether the page is in the map,
  \<open>get_cached_data\<close> returns a page that is, and \<open>cache_insert\<close> keeps the cache well formed, maps
  the address to the page and evicts exactly the other page of the same slot.
\<close>

theorem page_cache_refines_map:
  assumes "cache_inv c" and "a \<noteq> - 1"
  shows "cache_is_cached c a = Some (a \<in> dom (cache_map c)) \<and>
    (\<forall>p. cache_map c a = Some p \<longrightarrow> get_cached_data c a = Some (Some p)) \<and>
    (\<exists>c'. cache_insert c a (Some q) = Some c' \<and> cache_inv c' \<and>
       cache_map c' = (\<lambda>b. if b = a then Some q else if slot c b = slot c a then None else cache_map c b))"
proof -
  have "cache_is_cached c a = Some (a \<in> dom (cache_map c))"
    using cache_lookup [OF assms] by (simp add: dom_def)
  moreover have "cache_map c a = Some p \<Longrightarrow> get_cached_data c a = Some (Some p)" for p
    using inv_pos(1) [OF assms(1), of a] inv_pos(2) [OF assms(1)]
    by (auto simp: get_cached_data_def cache_map_def split: if_splits)
  ultimately show ?thesis using cache_insert_map [OF assms, of q] by blast
qed

definition example_cache :: "nat PageCache option" where
  "example_cache =
     do {
       c \<leftarrow> cache_init 5 0x1000;
       c \<leftarrow> c;
       c \<leftarrow> cache_insert c 0x1000 (Some 1);
       c \<leftarrow> cache_insert c 0x2000 (Some 2);
       cache_insert c 0 (Some 3)
     }"

lemma example_cache_eq:
  "example_cache = Some
     \<lparr>page_cache = Some
        [\<lparr>it_addr = 0, it_age = 3, it_data = Some 3\<rparr>, \<lparr>it_addr = 0x1000, it_age = 1, it_data = Some 1\<rparr>,
         \<lparr>it_addr = 0x2000, it_age = 2, it_data = Some 2\<rparr>, \<lparr>it_addr = - 1, it_age = 0, it_data = None\<rparr>],
      page_size = 0x1000, max_num_items = 4, max_item_age = 3, num_items = 3\<rparr>"
  by code_simp

definition example_state :: "nat PageCache" where
  "example_state = the example_cache"

lemma example_state_map:
  "cache_map example_state 0x1000 = Some 1" "cache_map example_state 0x2000 = Some 2"
  "cache_map example_state 0 = Some 3" "slot example_state 0x1000 = 1" "slot example_state 0x5000 = 1"
  by (simp_all add: example_state_def example_cache_eq cache_map_def items_of_def slot_def)

lemma example_state_inv: "cache_inv example_state"
proof -
  have "\<exists>k<63. (4 :: u64) = 2 ^ k \<and> Suc (Suc (Suc (Suc 0))) = 2 ^ k" by (intro exI [of _ 2]) simp
  then show ?thesis
    by (simp add: cache_inv_def example_state_def example_cache_eq items_of_def All_less_Suc item_ok_def
        slot_def pages_of_def g_free_def)
qed

theorem page_cache_refines_map_witness:
  "cache_is_cached example_state 0x5000 = Some False \<and> cache_is_cached example_state 0x1000 = Some True \<and>
   get_cached_data example_state 0x1000 = Some (Some 1) \<and>
   (\<exists>c'. cache_insert example_state 0x5000 (Some 4) = Some c' \<and> cache_map c' 0x5000 = Some 4 \<and>
      cache_map c' 0x1000 = None)"
proof -
  have "cache_map example_state 0x5000 = None"
    by (simp add: example_state_def example_cache_eq cache_map_def items_of_def slot_def)
  then show ?thesis
    using page_cache_refines_map [OF example_state_inv, of "0x5000" 4]
      page_cache_refines_map [OF example_state_inv, of "0x1000" 4] example_state_map
    by auto
qed

section \<open>Properties of resizing\<close>

lemma inv_transfer:
  assumes "cache_inv c" and "page_cache c' = page_cache c" and "page_size c' = page_size c"
    and "max_num_items c' = max_num_items c" and "num_items c' = num_items c"
  shows "cache_inv c'" and "cache_map c' = cache_map c" and "items_of c' = items_of c"
proof -
  show i: "items_of c' = items_of c" using assms(2) by (simp add: items_of_def)
  have s: "slot c' = slot c" using assms(3,4) by (simp add: slot_def fun_eq_iff)
  show "cache_map c' = cache_map c" by (simp add: cache_map_def fun_eq_iff i s)
  show "cache_inv c'" using assms by (simp add: cache_inv_def item_ok_def i s)
qed

lemma moved_map:
  assumes "cache_inv c" and "moved pgsize n (items_of c) (c', freed)" and "cache_map c' a = Some p"
  shows "cache_map c a = Some p"
proof -
  obtain it where it: "it \<in> set (items_of c')" "it_addr it = a" "it_data it = Some p" "a \<noteq> - 1"
    using map_item [OF _ assms(3)] assms(2) by (auto simp: moved_def)
  then obtain old where "old \<in> set (items_of c)" "it_addr old = a" "it_data old = Some p"
    using assms(2) by (auto simp: moved_def)
  then show ?thesis using inv_items [OF assms(1), of old] it(4) by auto
qed

text \<open>
  C22. Resizing a well-formed cache to any number of pages but zero succeeds or reports -1 and
  changes nothing. It keeps the cache well formed, every page that is still in the cache was there
  under the same address, and the pages that were in it are, each exactly once, in it or freed: no
  page is lost, freed twice, or freed and kept.
\<close>

theorem cache_resize_keeps_pages:
  assumes "cache_inv c" and "n \<noteq> 0"
  shows "\<exists>r c' freed. cache_resize c n = Some (r, c', freed) \<and> cache_inv c' \<and>
    (r = max_num_items c' \<or> r = - 1 \<and> c' = c) \<and> cache_map c' \<subseteq>\<^sub>m cache_map c \<and>
    mset (pages_of (items_of c')) + mset freed = mset (pages_of (items_of c))"
proof -
  note pc = inv_pos(2) [OF assms(1)]
  obtain k where k: "pow2floor n = Some (2 ^ k)" using pow2floor_exp [OF assms(2)] by blast
  consider (same) "2 ^ k = max_num_items c" | (bad) "2 ^ k \<noteq> max_num_items c" "sint n \<le> 0"
    | (new) "2 ^ k \<noteq> max_num_items c" "0 < sint n"
    by linarith
  then show ?thesis
  proof cases
    case same
    then show ?thesis using assms(1) k pc by (simp add: cache_resize_def map_le_def)
  next
    case bad
    then show ?thesis using assms(1) k pc by (simp add: cache_resize_def cache_init_def map_le_def)
  next
    case new
    have "page_size c \<noteq> 0" using assms(1) by (simp add: cache_inv_def)
    then obtain c0 :: "'a PageCache" where c0: "cache_init n (page_size c) = Some (Some c0)" "cache_inv c0"
      "page_size c0 = page_size c"
      "items_of c0 = replicate (unat (max_num_items c0)) \<lparr>it_addr = - 1, it_age = 0, it_data = None\<rparr>"
      using cache_init_map [OF new(2), of "page_size c"] by blast
    have "moved (page_size c) (max_num_items c0) [] (c0, [])"
      using c0(2-4) by (simp add: moved_def pages_of_def g_free_def)
    moreover have "\<forall>it\<in>set (items_of c). it_addr it = - 1 \<and> it_data it = None \<or> it_addr it \<noteq> - 1 \<and> it_data it \<noteq> None"
      using inv_items [OF assms(1)] by blast
    ultimately obtain s' where "foldM move_item (items_of c) (c0, []) = Some s'"
      "moved (page_size c) (max_num_items c0) (items_of c) s'"
      using foldM_moved [of "page_size c" "max_num_items c0" "[]" "(c0, [])" "items_of c"] by auto
    then obtain c1 freed where c1: "foldM move_item (items_of c) (c0, []) = Some (c1, freed)"
      "moved (page_size c) (max_num_items c0) (items_of c) (c1, freed)"
      by (cases s') simp
    define c' where "c' = c\<lparr>page_cache := page_cache c1, max_num_items := max_num_items c1, num_items := num_items c1\<rparr>"
    have "cache_inv c1" "page_size c1 = page_size c" using c1(2) by (simp_all add: moved_def)
    then have t: "cache_inv c'" "cache_map c' = cache_map c1" "items_of c' = items_of c1"
      using inv_transfer [of c1 c'] by (simp_all add: c'_def)
    have "cache_resize c n = Some (max_num_items c', c', freed)"
      using k pc new(1) c0(1) c1(1) by (simp add: cache_resize_def c'_def Let_def)
    moreover have "cache_map c' \<subseteq>\<^sub>m cache_map c"
      unfolding t(2) map_le_def using moved_map [OF assms(1) c1(2)] by (auto simp: dom_def)
    moreover have "mset (pages_of (items_of c')) + mset freed = mset (pages_of (items_of c))"
      unfolding t(3) using c1(2) by (simp add: moved_def)
    ultimately show ?thesis using t(1) by blast
  qed
qed

theorem cache_resize_keeps_pages_witness:
  "\<exists>r c' freed. cache_resize example_state 2 = Some (r, c', freed) \<and> cache_inv c' \<and>
     mset (pages_of (items_of c')) + mset freed = {#1, 2, 3#}"
  using cache_resize_keeps_pages [OF example_state_inv, of 2]
  by (auto simp: example_state_def example_cache_eq items_of_def pages_of_def g_free_def add_mset_commute)


text \<open>
  Two pages of the same slot. While one is in the cache, \<open>get_cached_data\<close> of the other, which
  is not, returns its data; and inserting the other drops the only pointer to that data, which is
  not freed.
\<close>

theorem cache_collision:
  assumes "cache_inv c" and "cache_map c b = Some q" and "a \<noteq> b" and "a \<noteq> - 1" and "slot c a = slot c b"
  shows "cache_is_cached c a = Some False \<and> get_cached_data c a = Some (Some q) \<and>
    (\<exists>c'. cache_insert c a (Some p) = Some c' \<and>
       add_mset q (mset (pages_of (items_of c'))) = add_mset p (mset (pages_of (items_of c))))"
proof -
  let ?i = "slot c a"
  let ?it = "items_of c ! ?i"
  note pos = inv_pos(1) [OF assms(1), of a] inv_pos(2) [OF assms(1)] inv_slot [OF assms(1), of a]
  have it: "it_addr ?it = b" "it_data ?it = Some q"
    using assms(2,5) by (auto simp: cache_map_def split: if_splits)
  have cp: "cache_get_cache_pos c a = Some ?i"
    using pos(1,2) by (auto simp: cache_get_by_addr_def bind_eq_Some_conv split: if_splits)
  have "cache_is_cached c a = Some False"
    using cp pos(2,3) it(1) assms(3) by (simp add: cache_is_cached_def)
  moreover have "get_cached_data c a = Some (Some q)"
    using pos(1,2) it(2) by (simp add: get_cached_data_def)
  moreover have "\<exists>c'. cache_insert c a (Some p) = Some c' \<and>
      items_of c' = (items_of c)[?i := \<lparr>it_addr = a, it_age = max_item_age c + 1, it_data = Some p\<rparr>]"
    using pos(1,2) it(2) by (simp add: cache_insert_def Let_def)
  ultimately show ?thesis
    using pages_update [OF pos(3), of "\<lparr>it_addr = a, it_age = max_item_age c + 1, it_data = Some p\<rparr>"] it(2)
    by (auto simp: g_free_def)
qed

section \<open>The interface for migration\<close>

text \<open>
  What the sender relies on: a map that may lose pages when another one is inserted, but never has
  a page that was not put there.
\<close>

locale evicting_map =
  fixes inv :: "'c \<Rightarrow> bool" and lookup :: "'c \<Rightarrow> u64 \<Rightarrow> 'p option"
    and is_cached :: "'c \<Rightarrow> u64 \<Rightarrow> bool option" and get_data :: "'c \<Rightarrow> u64 \<Rightarrow> 'p option option"
    and insert :: "'c \<Rightarrow> u64 \<Rightarrow> 'p option \<Rightarrow> 'c option"
  assumes is_cached: "inv c \<Longrightarrow> a \<noteq> - 1 \<Longrightarrow> is_cached c a = Some (lookup c a \<noteq> None)"
    and get_data: "inv c \<Longrightarrow> lookup c a = Some p \<Longrightarrow> get_data c a = Some (Some p)"
    and insert: "inv c \<Longrightarrow> a \<noteq> - 1 \<Longrightarrow> \<exists>c'. insert c a (Some p) = Some c' \<and> inv c' \<and>
      lookup c' a = Some p \<and> (\<forall>b. b \<noteq> a \<longrightarrow> lookup c' b = lookup c b \<or> lookup c' b = None)"
begin

text \<open>A property of all pages in the map survives an insertion of a page that has it.\<close>

lemma insert_all:
  assumes "inv c" and "a \<noteq> - 1" and "\<forall>b q. b \<noteq> a \<longrightarrow> lookup c b = Some q \<longrightarrow> Q b q" and "Q a p"
  shows "\<exists>c'. insert c a (Some p) = Some c' \<and> inv c' \<and> lookup c' a = Some p \<and>
    (\<forall>b q. lookup c' b = Some q \<longrightarrow> Q b q)"
proof -
  obtain c' where c': "insert c a (Some p) = Some c'" "inv c'" "lookup c' a = Some p"
    "\<forall>b. b \<noteq> a \<longrightarrow> lookup c' b = lookup c b \<or> lookup c' b = None"
    using insert [OF assms(1,2)] by blast
  have "\<forall>b q. lookup c' b = Some q \<longrightarrow> Q b q"
    using assms(3,4) c'(3,4) by (metis option.distinct(1) option.inject)
  then show ?thesis using c' by blast
qed

end

interpretation pc: evicting_map cache_inv cache_map cache_is_cached get_cached_data cache_insert
proof
  fix c :: "'p PageCache" and a p
  assume c: "cache_inv c"
  note pos = inv_pos(1) [OF c, of a] inv_pos(2) [OF c] inv_slot [OF c, of a]
  show "get_cached_data c a = Some (Some p)" if "cache_map c a = Some p"
    using pos that by (auto simp: get_cached_data_def cache_map_def split: if_splits)
  assume a: "a \<noteq> - 1"
  show "cache_is_cached c a = Some (cache_map c a \<noteq> None)"
    using cache_lookup [OF c a] .
  show "\<exists>c'. cache_insert c a (Some p) = Some c' \<and> cache_inv c' \<and> cache_map c' a = Some p \<and>
      (\<forall>b. b \<noteq> a \<longrightarrow> cache_map c' b = cache_map c b \<or> cache_map c' b = None)"
    using cache_insert_map [OF c a, of p] by auto
qed

end
