(* ===== verification/Qemu_File.thy ===== *)
theory Qemu_File
  imports Bswap
begin

text \<open>
  The buffered streams that machine state is saved to and loaded from (\<open>QEMUFile\<close> of
  \<open>savevm.c\<close>), with the back end for files. A back end is a set of functions over its own state
  \<open>'s\<close>, the \<open>opaque\<close> pointer of the source. A call of \<open>abort\<close> and an access outside the buffer
  are \<open>None\<close>. The standard library's files are modelled by their contents, the position and the
  size to which they may grow.
\<close>

section \<open>Streams\<close>

definition IO_BUF_SIZE :: nat where
  "IO_BUF_SIZE = 32768"

definition EINVAL :: int where "EINVAL = 22"
definition EIO :: int where "EIO = 5"
definition EAGAIN :: int where "EAGAIN = 11"

record 's QEMUFile =
  put_buffer :: "('s \<Rightarrow> u8 list \<Rightarrow> int \<Rightarrow> int \<times> 's) option"
  get_buffer :: "('s \<Rightarrow> int \<Rightarrow> nat \<Rightarrow> int \<times> u8 list \<times> 's) option"
  close_func :: "('s \<Rightarrow> int \<times> 's) option"
  rate_limit :: "('s \<Rightarrow> int) option"
  set_rate_limit :: "('s \<Rightarrow> int \<Rightarrow> int \<times> 's) option"
  get_rate_limit :: "('s \<Rightarrow> int) option"
  opaque :: 's
  is_write :: bool
  buf_offset :: int
  buf_index :: nat
  buf_size :: nat
  buf :: "u8 list"
  last_error :: int

definition qemu_fopen_ops where
  "qemu_fopen_ops op put get cl rate set_rate get_rate =
     \<lparr>put_buffer = put, get_buffer = get, close_func = cl, rate_limit = rate, set_rate_limit = set_rate,
      get_rate_limit = get_rate, opaque = op, is_write = False, buf_offset = 0, buf_index = 0,
      buf_size = 0, buf = replicate IO_BUF_SIZE 0, last_error = 0\<rparr>"

definition qemu_file_get_error :: "'s QEMUFile \<Rightarrow> int" where
  "qemu_file_get_error f = last_error f"

definition qemu_file_set_error :: "'s QEMUFile \<Rightarrow> int \<Rightarrow> 's QEMUFile" where
  "qemu_file_set_error f ret = f\<lparr>last_error := ret\<rparr>"

definition qemu_file_set_if_error :: "'s QEMUFile \<Rightarrow> int \<Rightarrow> 's QEMUFile" where
  "qemu_file_set_if_error f ret = (if ret < 0 \<and> last_error f = 0 then qemu_file_set_error f ret else f)"

definition qemu_fflush :: "'s QEMUFile \<Rightarrow> 's QEMUFile" where
  "qemu_fflush f =
     (case put_buffer f of
        None \<Rightarrow> f
      | Some put \<Rightarrow>
          if is_write f \<and> buf_index f > 0 then
            let (len, op) = put (opaque f) (take (buf_index f) (buf f)) (buf_offset f);
                f = f\<lparr>opaque := op\<rparr>;
                f = (if len > 0 then f\<lparr>buf_offset := buf_offset f + int (buf_index f)\<rparr>
                     else qemu_file_set_error f (- EINVAL)) in
            f\<lparr>buf_index := 0\<rparr>
          else f)"

definition qemu_fill_buffer :: "'s QEMUFile \<Rightarrow> 's QEMUFile option" where
  "qemu_fill_buffer f =
     (case get_buffer f of
        None \<Rightarrow> Some f
      | Some get \<Rightarrow> do {
          c_assert (\<not> is_write f);
          let pending = buf_size f - buf_index f;
          b \<leftarrow> (if pending > 0 then put_bytes 0 (take pending (drop (buf_index f) (buf f))) (buf f)
                else Some (buf f));
          let f = f\<lparr>buf := b, buf_index := 0, buf_size := pending\<rparr>;
          let (len, bs, op) = get (opaque f) (buf_offset f) (IO_BUF_SIZE - pending);
          b \<leftarrow> put_bytes pending bs (buf f);
          let f = f\<lparr>opaque := op, buf := b\<rparr>;
          Some (if len > 0 then f\<lparr>buf_size := buf_size f + nat len, buf_offset := buf_offset f + len\<rparr>
                else if len = 0 then f\<lparr>last_error := - EIO\<rparr>
                else if len \<noteq> - EAGAIN then qemu_file_set_error f len
                else f)
        })"

definition qemu_fclose_internal :: "'s QEMUFile \<Rightarrow> int \<times> 's QEMUFile" where
  "qemu_fclose_internal f =
     (case close_func f of
        None \<Rightarrow> (0, f)
      | Some cl \<Rightarrow>
          let (ret, op) = cl (opaque f); f = qemu_file_set_if_error (f\<lparr>opaque := op\<rparr>) ret in (ret, f))"

text \<open>Closing returns the result and the state the back end is left in.\<close>

definition qemu_fclose :: "'s QEMUFile \<Rightarrow> int \<times> 's" where
  "qemu_fclose f =
     (let f = qemu_fflush f; (ret, f) = qemu_fclose_internal f;
          ret = (if last_error f \<noteq> 0 then last_error f else ret) in
      (ret, opaque f))"

section \<open>Writing\<close>

text \<open>The loop of \<open>qemu_put_buffer\<close>, over the bytes that are still to be written.\<close>

partial_function (option) put_buffer_loop :: "u8 list \<Rightarrow> 's QEMUFile \<Rightarrow> 's QEMUFile option" where
  [code]: "put_buffer_loop bs f =
     (if last_error f = 0 \<and> length bs > 0 then do {
        let l = min (IO_BUF_SIZE - buf_index f) (length bs);
        b \<leftarrow> put_bytes (buf_index f) (take l bs) (buf f);
        let f = f\<lparr>buf := b, is_write := True, buf_index := buf_index f + l\<rparr>;
        put_buffer_loop (drop l bs) (if buf_index f \<ge> IO_BUF_SIZE then qemu_fflush f else f)
      }
      else Some f)"

definition qemu_put_buffer :: "u8 list \<Rightarrow> 's QEMUFile \<Rightarrow> 's QEMUFile option" where
  "qemu_put_buffer bs f =
     do {
       c_assert (\<not> (last_error f = 0 \<and> \<not> is_write f \<and> buf_index f > 0));
       put_buffer_loop bs f
     }"

definition qemu_put_byte :: "u8 \<Rightarrow> 's QEMUFile \<Rightarrow> 's QEMUFile option" where
  "qemu_put_byte v f =
     do {
       c_assert (\<not> (last_error f = 0 \<and> \<not> is_write f \<and> buf_index f > 0));
       b \<leftarrow> put_byte (buf_index f) v (buf f);
       let f = f\<lparr>buf := b, is_write := True, buf_index := buf_index f + 1\<rparr>;
       Some (if buf_index f \<ge> IO_BUF_SIZE then qemu_fflush f else f)
     }"

definition qemu_put_be16 :: "u32 \<Rightarrow> 's QEMUFile \<Rightarrow> 's QEMUFile option" where
  "qemu_put_be16 v f = do { f \<leftarrow> qemu_put_byte (byte_of 8 v) f; qemu_put_byte (byte_of 0 v) f }"

definition qemu_put_be32 :: "u32 \<Rightarrow> 's QEMUFile \<Rightarrow> 's QEMUFile option" where
  "qemu_put_be32 v f =
     do {
       f \<leftarrow> qemu_put_byte (byte_of 24 v) f;
       f \<leftarrow> qemu_put_byte (byte_of 16 v) f;
       f \<leftarrow> qemu_put_byte (byte_of 8 v) f;
       qemu_put_byte (byte_of 0 v) f
     }"

definition qemu_put_be64 :: "u64 \<Rightarrow> 's QEMUFile \<Rightarrow> 's QEMUFile option" where
  "qemu_put_be64 v f =
     do { f \<leftarrow> qemu_put_be32 (ucast (drop_bit 32 v)) f; qemu_put_be32 (ucast v) f }"

section \<open>Reading\<close>

definition qemu_file_skip :: "nat \<Rightarrow> 's QEMUFile \<Rightarrow> 's QEMUFile" where
  "qemu_file_skip n f = (if buf_index f + n \<le> buf_size f then f\<lparr>buf_index := buf_index f + n\<rparr> else f)"

definition qemu_peek_buffer :: "nat \<Rightarrow> nat \<Rightarrow> 's QEMUFile \<Rightarrow> (u8 list \<times> 's QEMUFile) option" where
  "qemu_peek_buffer n offset f =
     do {
       c_assert (\<not> is_write f);
       f \<leftarrow> (if int (buf_size f) - int (buf_index f + offset) < int n then qemu_fill_buffer f else Some f);
       let index = buf_index f + offset;
       let pending = int (buf_size f) - int index;
       if pending \<le> 0 then Some ([], f)
       else do {
         bs \<leftarrow> get_bytes index (min n (nat pending)) (buf f);
         Some (bs, f)
       }
     }"

text \<open>
  The loop of \<open>qemu_get_buffer\<close>: \<open>pending\<close> bytes are still wanted, and \<open>acc\<close> are those already
  copied. The result has the bytes copied, which may be fewer than asked for.
\<close>

partial_function (option) get_buffer_loop ::
  "nat \<Rightarrow> u8 list \<Rightarrow> 's QEMUFile \<Rightarrow> (u8 list \<times> 's QEMUFile) option" where
  [code]: "get_buffer_loop pending acc f =
     (if pending > 0 then do {
        r \<leftarrow> qemu_peek_buffer pending 0 f;
        let (bs, f) = r;
        if bs = [] then Some (acc, f)
        else get_buffer_loop (pending - length bs) (acc @ bs) (qemu_file_skip (length bs) f)
      }
      else Some (acc, f))"

definition qemu_get_buffer :: "nat \<Rightarrow> 's QEMUFile \<Rightarrow> (u8 list \<times> 's QEMUFile) option" where
  "qemu_get_buffer n f = get_buffer_loop n [] f"

definition qemu_peek_byte :: "nat \<Rightarrow> 's QEMUFile \<Rightarrow> (u8 \<times> 's QEMUFile) option" where
  "qemu_peek_byte offset f =
     do {
       c_assert (\<not> is_write f);
       f \<leftarrow> (if buf_index f + offset \<ge> buf_size f then qemu_fill_buffer f else Some f);
       let index = buf_index f + offset;
       if index \<ge> buf_size f then Some (0, f)
       else do { v \<leftarrow> get_byte (buf f) index; Some (v, f) }
     }"

definition qemu_get_byte :: "'s QEMUFile \<Rightarrow> (u8 \<times> 's QEMUFile) option" where
  "qemu_get_byte f = do { (v, f) \<leftarrow> qemu_peek_byte 0 f; Some (v, qemu_file_skip 1 f) }"

definition qemu_get_be16 :: "'s QEMUFile \<Rightarrow> (u32 \<times> 's QEMUFile) option" where
  "qemu_get_be16 f =
     do {
       (a, f) \<leftarrow> qemu_get_byte f;
       (b, f) \<leftarrow> qemu_get_byte f;
       Some (push_bit 8 (ucast a) OR ucast b, f)
     }"

definition qemu_get_be32 :: "'s QEMUFile \<Rightarrow> (u32 \<times> 's QEMUFile) option" where
  "qemu_get_be32 f =
     do {
       (a, f) \<leftarrow> qemu_get_byte f;
       (b, f) \<leftarrow> qemu_get_byte f;
       (c, f) \<leftarrow> qemu_get_byte f;
       (d, f) \<leftarrow> qemu_get_byte f;
       Some (push_bit 24 (ucast a) OR push_bit 16 (ucast b) OR push_bit 8 (ucast c) OR ucast d, f)
     }"

definition qemu_get_be64 :: "'s QEMUFile \<Rightarrow> (u64 \<times> 's QEMUFile) option" where
  "qemu_get_be64 f =
     do {
       (a, f) \<leftarrow> qemu_get_be32 f;
       (b, f) \<leftarrow> qemu_get_be32 f;
       Some (push_bit 32 (ucast a) OR ucast b, f)
     }"

section \<open>Positions and rate limits\<close>

definition qemu_ftell :: "'s QEMUFile \<Rightarrow> int" where
  "qemu_ftell f = buf_offset f - int (buf_size f) + int (buf_index f)"

datatype whence = SEEK_SET | SEEK_CUR | SEEK_END

definition qemu_fseek :: "'s QEMUFile \<Rightarrow> int \<Rightarrow> whence \<Rightarrow> int \<times> 's QEMUFile" where
  "qemu_fseek f pos whence =
     (if whence = SEEK_END then (- 1, f)
      else
        let pos = (if whence = SEEK_SET then pos else pos + qemu_ftell f) in
        if put_buffer f \<noteq> None then (pos, (qemu_fflush f)\<lparr>buf_offset := pos\<rparr>)
        else (pos, f\<lparr>buf_offset := pos, buf_index := 0, buf_size := 0\<rparr>))"

definition qemu_file_rate_limit :: "'s QEMUFile \<Rightarrow> int" where
  "qemu_file_rate_limit f = (case rate_limit f of None \<Rightarrow> 0 | Some r \<Rightarrow> r (opaque f))"

definition qemu_file_get_rate_limit :: "'s QEMUFile \<Rightarrow> int" where
  "qemu_file_get_rate_limit f = (case get_rate_limit f of None \<Rightarrow> 0 | Some r \<Rightarrow> r (opaque f))"

definition qemu_file_set_rate_limit :: "'s QEMUFile option \<Rightarrow> int \<Rightarrow> int \<times> 's QEMUFile option" where
  "qemu_file_set_rate_limit f new_rate =
     (case f of
        None \<Rightarrow> (0, None)
      | Some f \<Rightarrow>
          case set_rate_limit f of
            None \<Rightarrow> (0, Some f)
          | Some r \<Rightarrow> let (rate, op) = r (opaque f) new_rate in (rate, Some (f\<lparr>opaque := op\<rparr>)))"

section \<open>The back end for files\<close>

text \<open>
  A file of the standard library: its bytes, the position, and the number of bytes that there is
  room for, if that is limited. \<open>fwrite\<close> writes what fits and returns how much that was.
\<close>

record FILE =
  file_bytes :: "u8 list"
  file_pos :: nat
  file_room :: "nat option"

definition fseek_set :: "FILE \<Rightarrow> int \<Rightarrow> FILE" where
  "fseek_set fp pos = fp\<lparr>file_pos := nat pos\<rparr>"

definition fwrite :: "u8 list \<Rightarrow> FILE \<Rightarrow> nat \<times> FILE" where
  "fwrite bs fp =
     (let n = (case file_room fp of None \<Rightarrow> length bs | Some room \<Rightarrow> min (length bs) (room - file_pos fp));
          old = file_bytes fp; p = file_pos fp in
      (n, fp\<lparr>file_bytes := take p (old @ replicate (p - length old) 0) @ take n bs @ drop (p + n) old,
             file_pos := p + n\<rparr>))"

definition fread :: "nat \<Rightarrow> FILE \<Rightarrow> u8 list \<times> FILE" where
  "fread n fp =
     (let bs = take n (drop (file_pos fp) (file_bytes fp)) in
      (bs, fp\<lparr>file_pos := file_pos fp + length bs\<rparr>))"

definition file_put_buffer :: "FILE \<Rightarrow> u8 list \<Rightarrow> int \<Rightarrow> int \<times> FILE" where
  "file_put_buffer s bs pos = (let fp = fseek_set s pos; (n, fp) = fwrite bs fp in (int n, fp))"

definition file_get_buffer :: "FILE \<Rightarrow> int \<Rightarrow> nat \<Rightarrow> int \<times> u8 list \<times> FILE" where
  "file_get_buffer s pos n =
     (let fp = fseek_set s pos; (bs, fp) = fread n fp in (int (length bs), bs, fp))"

definition stdio_put_buffer :: "FILE \<Rightarrow> u8 list \<Rightarrow> int \<Rightarrow> int \<times> FILE" where
  "stdio_put_buffer s bs pos = (let (n, fp) = fwrite bs s in (int n, fp))"

definition stdio_get_buffer :: "FILE \<Rightarrow> int \<Rightarrow> nat \<Rightarrow> int \<times> u8 list \<times> FILE" where
  "stdio_get_buffer s pos n = (let (bs, fp) = fread n s in (int (length bs), bs, fp))"

text \<open>
  Opening a file: the file that \<open>fopen\<close> opened, or \<open>None\<close> where it failed, and the mode. Closing
  a file of the standard library succeeds.
\<close>

definition stdio_fclose :: "FILE \<Rightarrow> int \<times> FILE" where
  "stdio_fclose s = (0, s)"

definition qemu_fopen :: "FILE option \<Rightarrow> string \<Rightarrow> FILE QEMUFile option" where
  "qemu_fopen opened mode =
     (if mode \<noteq> ''rb'' \<and> mode \<noteq> ''wb'' then None
      else case opened of
        None \<Rightarrow> None
      | Some fp \<Rightarrow>
          if hd mode = CHR ''w''
          then Some (qemu_fopen_ops fp (Some file_put_buffer) None (Some stdio_fclose) None None None)
          else Some (qemu_fopen_ops fp None (Some file_get_buffer) (Some stdio_fclose) None None None))"

definition qemu_fdopen :: "FILE option \<Rightarrow> string \<Rightarrow> FILE QEMUFile option" where
  "qemu_fdopen opened mode =
     (if mode \<noteq> ''rb'' \<and> mode \<noteq> ''wb'' then None
      else case opened of
        None \<Rightarrow> None
      | Some fp \<Rightarrow>
          if hd mode = CHR ''r''
          then Some (qemu_fopen_ops fp None (Some stdio_get_buffer) (Some stdio_fclose) None None None)
          else Some (qemu_fopen_ops fp (Some stdio_put_buffer) None (Some stdio_fclose) None None None))"

section \<open>Writing to a back end that takes everything\<close>

text \<open>
  A back end that keeps the bytes it is given: \<open>out\<close> are those it has, and \<open>good\<close> describes the
  states in which it does not fail. The position it is called with is the number of bytes it has.
\<close>

locale byte_sink =
  fixes put :: "'s \<Rightarrow> u8 list \<Rightarrow> int \<Rightarrow> int \<times> 's" and out :: "'s \<Rightarrow> u8 list" and good :: "'s \<Rightarrow> bool"
  assumes put_all: "good s \<Longrightarrow> bs \<noteq> [] \<Longrightarrow> fst (put s bs (int (length (out s)))) = int (length bs)"
    and put_out: "good s \<Longrightarrow> bs \<noteq> [] \<Longrightarrow> out (snd (put s bs (int (length (out s))))) = out s @ bs"
    and put_good: "good s \<Longrightarrow> bs \<noteq> [] \<Longrightarrow> good (snd (put s bs (int (length (out s)))))"

text \<open>
  A stream in the course of being written, the bytes written to it so far, and the operations
  that append given bytes.
\<close>

definition writing ::
  "('s \<Rightarrow> u8 list \<Rightarrow> int \<Rightarrow> int \<times> 's) \<Rightarrow> ('s \<Rightarrow> u8 list) \<Rightarrow> ('s \<Rightarrow> bool) \<Rightarrow> 's QEMUFile \<Rightarrow> bool" where
  "writing put out good f \<longleftrightarrow>
     put_buffer f = Some put \<and> last_error f = 0 \<and> length (buf f) = IO_BUF_SIZE \<and>
     buf_index f < IO_BUF_SIZE \<and> (buf_index f > 0 \<longrightarrow> is_write f) \<and> good (opaque f) \<and>
     buf_offset f = int (length (out (opaque f)))"

definition written :: "('s \<Rightarrow> u8 list) \<Rightarrow> 's QEMUFile \<Rightarrow> u8 list" where
  "written out f = out (opaque f) @ take (buf_index f) (buf f)"

definition emits ::
  "('s \<Rightarrow> u8 list \<Rightarrow> int \<Rightarrow> int \<times> 's) \<Rightarrow> ('s \<Rightarrow> u8 list) \<Rightarrow> ('s \<Rightarrow> bool) \<Rightarrow>
   ('s QEMUFile \<Rightarrow> 's QEMUFile option) \<Rightarrow> u8 list \<Rightarrow> bool" where
  "emits put out good g bs \<longleftrightarrow>
     (\<forall>f. writing put out good f \<longrightarrow>
        (\<exists>f'. g f = Some f' \<and> writing put out good f' \<and> written out f' = written out f @ bs \<and>
           close_func f' = close_func f))"

lemma fflush_close [simp]: "close_func (qemu_fflush f) = close_func f"
  by (simp add: qemu_fflush_def qemu_file_set_error_def Let_def split: option.split prod.split)

lemma emits_bind:
  "emits put out good g xs \<Longrightarrow> emits put out good h ys \<Longrightarrow> emits put out good (\<lambda>f. g f \<bind> h) (xs @ ys)"
  unfolding emits_def by fastforce

lemma emits_Some: "emits put out good Some []"
  by (simp add: emits_def)

lemma emitsD:
  assumes "emits put out good g bs" and "writing put out good f"
  obtains f' where "g f = Some f'" and "writing put out good f'" and "written out f' = written out f @ bs"
    and "close_func f' = close_func f"
  using assms by (auto simp: emits_def)

context byte_sink
begin

lemma flush_writing:
  assumes "put_buffer f = Some put" and "last_error f = 0" and "length (buf f) = IO_BUF_SIZE"
    and "buf_index f \<le> IO_BUF_SIZE" and "buf_index f > 0 \<longrightarrow> is_write f" and "good (opaque f)"
    and "buf_offset f = int (length (out (opaque f)))"
  shows "writing put out good (qemu_fflush f) \<and> written out (qemu_fflush f) = written out f \<and>
    out (opaque (qemu_fflush f)) = written out f"
proof (cases "buf_index f > 0")
  case True
  let ?bs = "take (buf_index f) (buf f)"
  have ne: "?bs \<noteq> []" using True assms(3,4) by (auto simp: IO_BUF_SIZE_def)
  have len: "length ?bs = buf_index f" using assms(3,4) by simp
  obtain l op where p: "put (opaque f) ?bs (int (length (out (opaque f)))) = (l, op)" by fastforce
  have "l = int (buf_index f)" "out op = out (opaque f) @ ?bs" "good op"
    using put_all [OF assms(6) ne] put_out [OF assms(6) ne] put_good [OF assms(6) ne] p len by auto
  then show ?thesis
    using True assms p len
    by (simp add: qemu_fflush_def writing_def written_def IO_BUF_SIZE_def)
next
  case False
  then have "qemu_fflush f = f" by (simp add: qemu_fflush_def split: option.split)
  then show ?thesis using assms False by (simp add: writing_def written_def IO_BUF_SIZE_def)
qed

lemma flush_all:
  assumes "writing put out good f"
  shows "writing put out good (qemu_fflush f) \<and> written out (qemu_fflush f) = written out f \<and>
    out (opaque (qemu_fflush f)) = written out f"
  by (rule flush_writing) (use assms in \<open>auto simp: writing_def\<close>)

text \<open>Bytes put into the buffer, which is written out when it is full.\<close>

lemma store_bytes:
  assumes w: "writing put out good f" and bs: "bs \<noteq> []" "buf_index f + length bs \<le> IO_BUF_SIZE"
    and b: "put_bytes (buf_index f) bs (buf f) = Some b"
    and f': "f' = f\<lparr>buf := b, is_write := True, buf_index := buf_index f + length bs\<rparr>"
  shows "writing put out good (if buf_index f' \<ge> IO_BUF_SIZE then qemu_fflush f' else f') \<and>
    written out (if buf_index f' \<ge> IO_BUF_SIZE then qemu_fflush f' else f') = written out f @ bs"
proof -
  have b_eq: "b = take (buf_index f) (buf f) @ bs @ drop (buf_index f + length bs) (buf f)"
    using b bs by (auto simp: put_bytes_eq split: if_splits)
  have len: "length (buf f) = IO_BUF_SIZE" "buf_index f < IO_BUF_SIZE" using w by (auto simp: writing_def)
  have wr: "written out f' = written out f @ bs"
    using len by (simp add: f' written_def b_eq)
  have lb: "length b = IO_BUF_SIZE" using b_eq len bs by simp
  have "writing put out good (qemu_fflush f') \<and> written out (qemu_fflush f') = written out f'"
    using flush_writing [of f'] w bs lb by (simp add: f' writing_def)
  moreover have "writing put out good f'" if "buf_index f' < IO_BUF_SIZE"
    using w that lb by (simp add: f' writing_def)
  ultimately show ?thesis using wr by auto
qed

lemma emits_byte: "emits put out good (qemu_put_byte v) [v]"
  unfolding emits_def
proof (intro allI impI)
  fix f :: "'s QEMUFile"
  assume w: "writing put out good f"
  then have i: "buf_index f < length (buf f)" by (simp add: writing_def)
  define f' where "f' = f\<lparr>buf := (buf f)[buf_index f := v], is_write := True, buf_index := buf_index f + 1\<rparr>"
  have "qemu_put_byte v f = Some (if buf_index f' \<ge> IO_BUF_SIZE then qemu_fflush f' else f')"
    using w i by (auto simp: qemu_put_byte_def put_byte_def writing_def f'_def Let_def)
  moreover have "put_bytes (buf_index f) [v] (buf f) = Some ((buf f)[buf_index f := v])"
    using i by (simp add: put_byte_def)
  ultimately show "\<exists>f'. qemu_put_byte v f = Some f' \<and> writing put out good f' \<and>
      written out f' = written out f @ [v] \<and> close_func f' = close_func f"
    using store_bytes [OF w, of "[v]" "(buf f)[buf_index f := v]" f'] w by (auto simp: f'_def writing_def)
qed

lemma emits_loop: "emits put out good (put_buffer_loop bs) bs"
  unfolding emits_def
proof (induction "length bs" arbitrary: bs rule: less_induct)
  case less
  show ?case
  proof (intro allI impI)
    fix f :: "'s QEMUFile"
    assume w: "writing put out good f"
    show "\<exists>f'. put_buffer_loop bs f = Some f' \<and> writing put out good f' \<and>
        written out f' = written out f @ bs \<and> close_func f' = close_func f"
    proof (cases "bs = []")
      case True
      then show ?thesis using w by (subst put_buffer_loop.simps) simp
    next
      case False
      define l where "l = min (IO_BUF_SIZE - buf_index f) (length bs)"
      have l: "0 < l" "l \<le> length bs" "buf_index f + l \<le> IO_BUF_SIZE" "length (take l bs) = l"
        using False w by (auto simp: l_def writing_def)
      define b where "b = take (buf_index f) (buf f) @ take l bs @ drop (buf_index f + l) (buf f)"
      have b: "put_bytes (buf_index f) (take l bs) (buf f) = Some b"
        using l w by (simp add: put_bytes_eq b_def writing_def)
      define f' where "f' = f\<lparr>buf := b, is_write := True, buf_index := buf_index f + l\<rparr>"
      define f'' where "f'' = (if buf_index f' \<ge> IO_BUF_SIZE then qemu_fflush f' else f')"
      have f'': "writing put out good f''" "written out f'' = written out f @ take l bs" "close_func f'' = close_func f"
        using store_bytes [OF w _ _ b, of f'] l False by (auto simp: f''_def f'_def)
      have "put_buffer_loop bs f = put_buffer_loop (drop l bs) f''"
        using w False b
        by (subst put_buffer_loop.simps) (simp add: writing_def l_def [symmetric] Let_def f''_def f'_def)
      moreover have "length (drop l bs) < length bs" using l by simp
      then obtain g where "put_buffer_loop (drop l bs) f'' = Some g" "writing put out good g"
        "written out g = written out f'' @ drop l bs" "close_func g = close_func f''"
        using less f''(1) by blast
      ultimately show ?thesis using f''(2,3) by simp
    qed
  qed
qed

lemma emits_buffer: "emits put out good (qemu_put_buffer bs) bs"
  using emits_loop [of bs] unfolding emits_def qemu_put_buffer_def by (auto simp: writing_def)

lemma emits_be16: "emits put out good (qemu_put_be16 v) [byte_of 8 v, ucast v]"
  using emits_bind [OF emits_byte emits_byte, of "byte_of 8 v" "byte_of 0 v"]
  by (simp add: qemu_put_be16_def [abs_def])

lemma emits_be32: "emits put out good (qemu_put_be32 v) (rev (le_bytes 4 v))"
  using emits_bind [OF emits_byte emits_bind [OF emits_byte emits_bind [OF emits_byte emits_byte]],
    of "byte_of 24 v" "byte_of 16 v" "byte_of 8 v" "byte_of 0 v"]
  by (simp add: qemu_put_be32_def [abs_def] byte_lists)

lemma emits_be64: "emits put out good (qemu_put_be64 v) (rev (le_bytes 8 v))"
  using emits_bind [OF emits_be32 emits_be32, of "ucast (drop_bit 32 v)" "ucast v"]
    le_bytes_add [of 4 4 v]
  by (simp add: qemu_put_be64_def [abs_def] le_bytes_ucast)

end

section \<open>Reading from a back end that delivers everything\<close>

text \<open>
  A back end that delivers, in pieces of any size, the bytes that \<open>rest\<close> says there are from a
  position on.
\<close>

locale byte_source =
  fixes get :: "'s \<Rightarrow> int \<Rightarrow> nat \<Rightarrow> int \<times> u8 list \<times> 's" and rest :: "'s \<Rightarrow> int \<Rightarrow> u8 list"
  assumes get_some: "rest s pos \<noteq> [] \<Longrightarrow> n > 0 \<Longrightarrow> get s pos n = (len, bs, s') \<Longrightarrow>
      bs \<noteq> [] \<and> length bs \<le> n \<and> len = int (length bs) \<and> rest s pos = bs @ rest s' (pos + len)"

definition reading ::
  "('s \<Rightarrow> int \<Rightarrow> nat \<Rightarrow> int \<times> u8 list \<times> 's) \<Rightarrow> 's QEMUFile \<Rightarrow> bool" where
  "reading get f \<longleftrightarrow>
     get_buffer f = Some get \<and> \<not> is_write f \<and> last_error f = 0 \<and> length (buf f) = IO_BUF_SIZE \<and>
     buf_index f \<le> buf_size f \<and> buf_size f \<le> IO_BUF_SIZE \<and> buf_size f - buf_index f < IO_BUF_SIZE"

definition unread :: "('s \<Rightarrow> int \<Rightarrow> u8 list) \<Rightarrow> 's QEMUFile \<Rightarrow> u8 list" where
  "unread rest f = take (buf_size f - buf_index f) (drop (buf_index f) (buf f)) @ rest (opaque f) (buf_offset f)"

definition consumes ::
  "('s \<Rightarrow> int \<Rightarrow> nat \<Rightarrow> int \<times> u8 list \<times> 's) \<Rightarrow> ('s \<Rightarrow> int \<Rightarrow> u8 list) \<Rightarrow>
   ('s QEMUFile \<Rightarrow> ('v \<times> 's QEMUFile) option) \<Rightarrow> u8 list \<Rightarrow> 'v \<Rightarrow> bool" where
  "consumes get rest g bs v \<longleftrightarrow>
     (\<forall>f post. reading get f \<and> unread rest f = bs @ post \<longrightarrow>
        (\<exists>f'. g f = Some (v, f') \<and> reading get f' \<and> unread rest f' = post))"

lemma consumesD:
  assumes "consumes get rest g bs v" and "reading get f" and "unread rest f = bs @ post"
  obtains f' where "g f = Some (v, f')" and "reading get f'" and "unread rest f' = post"
  using assms unfolding consumes_def by blast

lemma consumes_bind:
  assumes g: "consumes get rest g bs v" and h: "consumes get rest (\<lambda>f. h v f) cs w"
  shows "consumes get rest (\<lambda>f. g f \<bind> (\<lambda>(v, f). h v f)) (bs @ cs) w"
  unfolding consumes_def
proof (intro allI impI)
  fix f post
  assume "reading get f \<and> unread rest f = (bs @ cs) @ post"
  then obtain f' where f': "g f = Some (v, f')" "reading get f'" "unread rest f' = cs @ post"
    using consumesD [OF g, of f "cs @ post"] by auto
  obtain f'' where "h v f' = Some (w, f'')" "reading get f''" "unread rest f'' = post"
    by (rule consumesD [OF h f'(2,3)])
  then show "\<exists>f'. g f \<bind> (\<lambda>(v, f). h v f) = Some (w, f') \<and> reading get f' \<and> unread rest f' = post"
    using f'(1) by simp
qed

lemma consumes_Some: "consumes get rest (\<lambda>f. Some (v, f)) [] v"
  by (simp add: consumes_def)

context byte_source
begin

lemma fill_buffer:
  assumes r: "reading get f" and ne: "rest (opaque f) (buf_offset f) \<noteq> []"
  obtains f' where "qemu_fill_buffer f = Some f'" and "get_buffer f' = Some get" and "\<not> is_write f'"
    and "last_error f' = 0" and "length (buf f') = IO_BUF_SIZE" and "buf_index f' = 0"
    and "buf_size f - buf_index f < buf_size f'" and "buf_size f' \<le> IO_BUF_SIZE"
    and "unread rest f' = unread rest f"
proof -
  define k where "k = buf_size f - buf_index f"
  define old where "old = take k (drop (buf_index f) (buf f))"
  have len: "length (buf f) = IO_BUF_SIZE" "k < IO_BUF_SIZE" "length old = k"
    using r by (auto simp: reading_def k_def old_def)
  obtain l bs op where g: "get (opaque f) (buf_offset f) (IO_BUF_SIZE - k) = (l, bs, op)"
    using prod_cases3 by blast
  have bs: "bs \<noteq> []" "length bs \<le> IO_BUF_SIZE - k" "l = int (length bs)"
    "rest (opaque f) (buf_offset f) = bs @ rest op (buf_offset f + l)"
    using get_some [OF ne _ g] len by auto
  define b where "b = (if k > 0 then old @ drop k (buf f) else buf f)"
  have b: "(if k > 0 then put_bytes 0 old (buf f) else Some (buf f)) = Some b" "length b = IO_BUF_SIZE"
    using len by (auto simp: b_def put_bytes_eq)
  have tb: "take k b = old" using len by (simp add: b_def old_def)
  define c where "c = take k b @ bs @ drop (k + length bs) b"
  have c: "put_bytes k bs b = Some c" "length c = IO_BUF_SIZE" "take (k + length bs) c = old @ bs"
    using bs len b(2) tb by (auto simp: c_def put_bytes_eq)
  define f' where "f' = f\<lparr>buf := c, buf_index := 0, buf_size := k + length bs, opaque := op,
    buf_offset := buf_offset f + l\<rparr>"
  have "qemu_fill_buffer f = Some f'"
    using r g bs b(1) c(1) unfolding qemu_fill_buffer_def f'_def old_def
    by (simp add: reading_def k_def [symmetric] Let_def)
  moreover have "unread rest f' = unread rest f"
    using bs c(3) by (simp add: unread_def f'_def k_def [symmetric] old_def [symmetric])
  ultimately show thesis
    using that [of f'] r bs c(2) len(2) by (auto simp: f'_def reading_def k_def [symmetric])
qed

lemma skip_reading:
  assumes "get_buffer f = Some get" and "\<not> is_write f" and "last_error f = 0"
    and "length (buf f) = IO_BUF_SIZE" and "buf_size f \<le> IO_BUF_SIZE"
    and "0 < n" and "buf_index f + n \<le> buf_size f"
  shows "reading get (qemu_file_skip n f) \<and> unread rest (qemu_file_skip n f) = drop n (unread rest f)"
  using assms by (auto simp: reading_def unread_def qemu_file_skip_def drop_take add.commute)

lemma peek_buffer:
  assumes r: "reading get f" and n: "0 < n" "n \<le> length (unread rest f)"
  obtains bs f' where "qemu_peek_buffer n 0 f = Some (bs, f')" and "bs \<noteq> []" and "length bs \<le> n"
    and "bs = take (length bs) (unread rest f)" and "reading get (qemu_file_skip (length bs) f')"
    and "unread rest (qemu_file_skip (length bs) f') = drop (length bs) (unread rest f)"
proof -
  obtain f1 where f1: "(if int (buf_size f) - int (buf_index f + 0) < int n then qemu_fill_buffer f else Some f) = Some f1"
    "get_buffer f1 = Some get" "\<not> is_write f1" "last_error f1 = 0" "length (buf f1) = IO_BUF_SIZE"
    "buf_index f1 < buf_size f1" "buf_size f1 \<le> IO_BUF_SIZE" "unread rest f1 = unread rest f"
  proof (cases "buf_size f - buf_index f < n")
    case True
    then have "rest (opaque f) (buf_offset f) \<noteq> []"
      using n r by (auto simp: unread_def reading_def)
    from fill_buffer [OF r this] show ?thesis using True r n that
      by (smt (verit) reading_def of_nat_diff of_nat_less_iff add_0_right zero_less_iff_neq_zero not_less_zero)
  next
    case False
    then have "\<not> int (buf_size f) - int (buf_index f + 0) < int n" using r unfolding reading_def by linarith
    then show ?thesis using that [of f] False r n by (auto simp: reading_def)
  qed
  define m where "m = min n (buf_size f1 - buf_index f1)"
  define bs where "bs = take m (drop (buf_index f1) (buf f1))"
  have m: "0 < m" "m \<le> n" "buf_index f1 + m \<le> buf_size f1" "length bs = m"
    using f1 n by (auto simp: m_def bs_def)
  have "get_bytes (buf_index f1) m (buf f1) = Some bs"
    using m f1 by (simp add: get_bytes_def bs_def)
  then have "qemu_peek_buffer n 0 f = Some (bs, f1)"
    using r f1(1,6) unfolding qemu_peek_buffer_def
    by (simp add: reading_def Let_def m_def nat_diff_distrib)
  moreover have "bs = take m (unread rest f1)"
    using m f1(5,6,7) by (simp add: unread_def bs_def)
  moreover have "reading get (qemu_file_skip m f1) \<and> unread rest (qemu_file_skip m f1) = drop m (unread rest f1)"
    by (rule skip_reading) (use f1 m in auto)
  ultimately show thesis
    using that [of bs f1] m f1(8) n by fastforce
qed

lemma get_buffer_loop_reads:
  assumes "reading get f" and "n \<le> length (unread rest f)"
  shows "\<exists>f'. get_buffer_loop n acc f = Some (acc @ take n (unread rest f), f') \<and> reading get f' \<and>
    unread rest f' = drop n (unread rest f)"
  using assms
proof (induction n arbitrary: acc f rule: less_induct)
  case (less n)
  show ?case
  proof (cases "n = 0")
    case True
    then show ?thesis using less.prems by (subst get_buffer_loop.simps) simp
  next
    case False
    then obtain bs f' where p: "qemu_peek_buffer n 0 f = Some (bs, f')" "bs \<noteq> []" "length bs \<le> n"
      "bs = take (length bs) (unread rest f)" "reading get (qemu_file_skip (length bs) f')"
      "unread rest (qemu_file_skip (length bs) f') = drop (length bs) (unread rest f)"
      using peek_buffer [OF less.prems(1), of n] less.prems(2) by auto
    let ?f = "qemu_file_skip (length bs) f'"
    have "get_buffer_loop n acc f = get_buffer_loop (n - length bs) (acc @ bs) ?f"
      using p(1,2) False by (subst get_buffer_loop.simps) simp
    moreover have "\<exists>f''. get_buffer_loop (n - length bs) (acc @ bs) ?f =
        Some ((acc @ bs) @ take (n - length bs) (unread rest ?f), f'') \<and> reading get f'' \<and>
        unread rest f'' = drop (n - length bs) (unread rest ?f)"
      by (rule less.IH) (use p False less.prems(2) in auto)
    moreover have "bs @ take (n - length bs) (drop (length bs) (unread rest f)) = take n (unread rest f)"
      using p(3,4) by (metis append_take_drop_id le_add_diff_inverse take_add)
    ultimately show ?thesis using p(3,6) by auto
  qed
qed

lemma consumes_buffer: "consumes get rest (qemu_get_buffer (length bs)) bs bs"
  unfolding consumes_def
proof (intro allI impI)
  fix f :: "'s QEMUFile" and post
  assume "reading get f \<and> unread rest f = bs @ post"
  then show "\<exists>f'. qemu_get_buffer (length bs) f = Some (bs, f') \<and> reading get f' \<and> unread rest f' = post"
    using get_buffer_loop_reads [of f "length bs" "[]"] by (simp add: qemu_get_buffer_def)
qed

lemma consumes_byte: "consumes get rest qemu_get_byte [b] b"
  unfolding consumes_def
proof (intro allI impI)
  fix f :: "'s QEMUFile" and post
  assume "reading get f \<and> unread rest f = [b] @ post"
  then have r: "reading get f" and u: "unread rest f = b # post" by auto
  obtain f1 where f1: "(if buf_index f + 0 \<ge> buf_size f then qemu_fill_buffer f else Some f) = Some f1"
    "get_buffer f1 = Some get" "\<not> is_write f1" "last_error f1 = 0" "length (buf f1) = IO_BUF_SIZE"
    "buf_index f1 < buf_size f1" "buf_size f1 \<le> IO_BUF_SIZE" "unread rest f1 = unread rest f"
  proof (cases "buf_index f \<ge> buf_size f")
    case True
    then have "rest (opaque f) (buf_offset f) \<noteq> []" using u by (auto simp: unread_def)
    from fill_buffer [OF r this] show ?thesis using True that
      by (metis add_0_right gr_implies_not0 neq0_conv)
  next
    case False
    then show ?thesis using that [of f] r by (auto simp: reading_def)
  qed
  have i: "buf_index f1 < length (buf f1)" using f1 by simp
  have "b = hd (unread rest f1)" using u f1(8) by simp
  also have "\<dots> = buf f1 ! buf_index f1"
    using f1(6) i by (simp add: unread_def hd_append hd_drop_conv_nth)
  finally have "get_byte (buf f1) (buf_index f1) = Some b" using i by (simp add: get_byte_def)
  then have "qemu_get_byte f = Some (b, qemu_file_skip 1 f1)"
    using r f1(1,6) by (simp add: qemu_get_byte_def qemu_peek_byte_def reading_def Let_def)
  moreover have "reading get (qemu_file_skip 1 f1) \<and> unread rest (qemu_file_skip 1 f1) = drop 1 (unread rest f1)"
    by (rule skip_reading) (use f1 in auto)
  ultimately show "\<exists>f'. qemu_get_byte f = Some (b, f') \<and> reading get f' \<and> unread rest f' = post"
    using u f1(8) by auto
qed

lemma consumes_be16:
  "consumes get rest qemu_get_be16 [a, b] (push_bit 8 (ucast a) OR ucast b)"
proof -
  have "consumes get rest qemu_get_be16 ([a] @ [b] @ []) (push_bit 8 (ucast a) OR ucast b)"
    unfolding qemu_get_be16_def [abs_def]
    by (rule consumes_bind consumes_byte consumes_Some)+
  then show ?thesis by simp
qed

lemma consumes_be32:
  assumes "length bs = 4"
  shows "consumes get rest qemu_get_be32 bs (le_val (rev bs))"
proof -
  obtain a b c d where bs: "bs = [a, b, c, d]"
    using assms by (auto simp: numeral_eq_Suc length_Suc_conv)
  have "consumes get rest qemu_get_be32 ([a] @ [b] @ [c] @ [d] @ [])
      (push_bit 24 (ucast a) OR push_bit 16 (ucast b) OR push_bit 8 (ucast c) OR ucast d)"
    unfolding qemu_get_be32_def [abs_def]
    by (rule consumes_bind consumes_byte consumes_Some)+
  then show ?thesis by (simp add: bs push_bit_or ac_simps)
qed

lemma consumes_be64: "consumes get rest qemu_get_be64 (rev (le_bytes 8 v)) v"
proof -
  let ?h = "rev (le_bytes 4 (drop_bit 32 v))" and ?l = "rev (le_bytes 4 v)"
  have "consumes get rest qemu_get_be64 (?h @ ?l)
      (push_bit 32 (ucast (le_val (rev ?h) :: u32)) OR ucast (le_val (rev ?l) :: u32))"
    using consumes_bind [OF consumes_be32 [of ?h] consumes_bind [OF consumes_be32 [of ?l] consumes_Some]]
    by (simp add: qemu_get_be64_def [abs_def])
  moreover have "push_bit 32 (ucast (le_val (rev ?h) :: u32)) OR ucast (le_val (rev ?l) :: u32) = v"
    using le_val_le_bytes [of 8 v] le_bytes_add [of 4 4 v] take_bit_word_eq_self [of 64 v]
    by (simp add: le_val_append ucast_le_val or.commute)
  moreover have "rev (le_bytes 8 v) = ?h @ ?l" using le_bytes_add [of 4 4 v] by simp
  ultimately show ?thesis by simp
qed

end

section \<open>Files as back ends\<close>

definition bytes_from :: "FILE \<Rightarrow> int \<Rightarrow> u8 list" where
  "bytes_from s pos = (if pos < 0 then [] else drop (nat pos) (file_bytes s))"

lemma drop_pieces: "drop p xs = take n (drop p xs) @ drop (p + min (length xs - p) n) xs"
proof (cases "n \<le> length xs - p")
  case True
  then show ?thesis using append_take_drop_id [of n "drop p xs"] by (simp add: add.commute)
qed simp

interpretation file_sink: byte_sink file_put_buffer file_bytes "\<lambda>s. file_room s = None"
  by unfold_locales (auto simp: file_put_buffer_def fwrite_def fseek_set_def Let_def)

interpretation file_source: byte_source file_get_buffer bytes_from
  by unfold_locales
    (auto simp: file_get_buffer_def fread_def fseek_set_def bytes_from_def nat_add_distrib
      split: if_splits intro: drop_pieces)

interpretation stdio_sink: byte_sink stdio_put_buffer file_bytes
    "\<lambda>s. file_room s = None \<and> file_pos s = length (file_bytes s)"
  by unfold_locales (auto simp: stdio_put_buffer_def fwrite_def Let_def)

interpretation stdio_source: byte_source stdio_get_buffer "\<lambda>s pos. drop (file_pos s) (file_bytes s)"
  by unfold_locales (auto simp: stdio_get_buffer_def fread_def intro: drop_pieces)

text \<open>The values that are written to a stream one after the other.\<close>

datatype item = Byte u8 | Be16 u32 | Be32 u32 | Be64 u64 | Buffer "u8 list"

fun put_item :: "item \<Rightarrow> 's QEMUFile \<Rightarrow> 's QEMUFile option" where
  "put_item (Byte v) = qemu_put_byte v"
| "put_item (Be16 v) = qemu_put_be16 v"
| "put_item (Be32 v) = qemu_put_be32 v"
| "put_item (Be64 v) = qemu_put_be64 v"
| "put_item (Buffer bs) = qemu_put_buffer bs"

text \<open>Reading a value of the same kind, and for a buffer of the same length, as a given one.\<close>

fun get_item :: "item \<Rightarrow> 's QEMUFile \<Rightarrow> (item \<times> 's QEMUFile) option" where
  "get_item (Byte v) = (\<lambda>f. map_option (map_prod Byte id) (qemu_get_byte f))"
| "get_item (Be16 v) = (\<lambda>f. map_option (map_prod Be16 id) (qemu_get_be16 f))"
| "get_item (Be32 v) = (\<lambda>f. map_option (map_prod Be32 id) (qemu_get_be32 f))"
| "get_item (Be64 v) = (\<lambda>f. map_option (map_prod Be64 id) (qemu_get_be64 f))"
| "get_item (Buffer bs) = (\<lambda>f. map_option (map_prod Buffer id) (qemu_get_buffer (length bs) f))"

fun get_items :: "item list \<Rightarrow> 's QEMUFile \<Rightarrow> (item list \<times> 's QEMUFile) option" where
  "get_items [] f = Some ([], f)"
| "get_items (x # xs) f = do { (y, f) \<leftarrow> get_item x f; (ys, f) \<leftarrow> get_items xs f; Some (y # ys, f) }"

fun item_bytes :: "item \<Rightarrow> u8 list" where
  "item_bytes (Byte v) = [v]"
| "item_bytes (Be16 v) = [byte_of 8 v, ucast v]"
| "item_bytes (Be32 v) = rev (le_bytes 4 v)"
| "item_bytes (Be64 v) = rev (le_bytes 8 v)"
| "item_bytes (Buffer bs) = bs"

fun item_read :: "item \<Rightarrow> item" where
  "item_read (Be16 v) = Be16 (take_bit 16 v)"
| "item_read x = x"

lemma be16_bytes:
  "push_bit 8 (ucast (byte_of 8 v :: u8)) OR ucast (ucast v :: u8) = take_bit 16 (v :: u32)"
  using le_val_le_bytes [of 2 v] by (simp add: byte_lists or.commute)

context byte_sink
begin

lemma emits_items: "emits put out good (foldM put_item xs) (concat (map item_bytes xs))"
proof (induction xs)
  case Nil
  then show ?case by (simp add: emits_def)
next
  case (Cons x xs)
  have "emits put out good (put_item x) (item_bytes x)"
    by (cases x) (simp_all add: emits_byte emits_be16 emits_be32 emits_be64 emits_buffer)
  from emits_bind [OF this Cons] show ?case by (simp add: emits_def)
qed

end

context byte_source
begin

lemma consumes_map:
  "consumes get rest g bs v \<Longrightarrow> consumes get rest (\<lambda>f. map_option (map_prod h id) (g f)) bs (h v)"
  by (fastforce simp: consumes_def)

lemma consumes_item: "consumes get rest (get_item x) (item_bytes x) (item_read x)"
proof (cases x)
  case (Be16 v)
  then show ?thesis using consumes_map [OF consumes_be16] by (simp add: be16_bytes [symmetric])
next
  case (Be32 v)
  then show ?thesis
    using consumes_map [OF consumes_be32 [of "rev (le_bytes 4 v)"], of Be32] le_val_le_bytes [of 4 v]
      take_bit_word_eq_self [of 32 v] by simp
qed (auto intro: consumes_map consumes_byte consumes_be64 consumes_buffer)

lemma consumes_items: "consumes get rest (get_items xs) (concat (map item_bytes xs)) (map item_read xs)"
proof (induction xs)
  case Nil
  then show ?case by (simp add: consumes_def)
next
  case (Cons x xs)
  have "consumes get rest (\<lambda>f. get_item x f \<bind> (\<lambda>(y, f). get_items xs f \<bind> (\<lambda>(ys, f). Some (y # ys, f))))
      (item_bytes x @ concat (map item_bytes xs) @ []) (item_read x # map item_read xs)"
    by (rule consumes_bind consumes_item Cons consumes_Some)+
  then show ?case by simp
qed

end

text \<open>Streams that have just been opened.\<close>

lemma open_writing:
  assumes "qemu_fopen (Some fp) ''wb'' = Some f" and "file_bytes fp = []" and "file_room fp = None"
  shows "writing file_put_buffer file_bytes (\<lambda>s. file_room s = None) f" and "written file_bytes f = []"
    and "close_func f = Some stdio_fclose"
  using assms by (auto simp: qemu_fopen_def qemu_fopen_ops_def writing_def written_def IO_BUF_SIZE_def)

lemma open_reading:
  assumes "qemu_fopen (Some fp) ''rb'' = Some f"
  shows "reading file_get_buffer f" and "unread bytes_from f = file_bytes fp"
  using assms
  by (auto simp: qemu_fopen_def qemu_fopen_ops_def reading_def unread_def IO_BUF_SIZE_def bytes_from_def)

lemma close_written:
  assumes "writing file_put_buffer file_bytes (\<lambda>s. file_room s = None) f" and "close_func f = Some stdio_fclose"
  shows "\<exists>fp. qemu_fclose f = (0, fp) \<and> file_bytes fp = written file_bytes f"
  using file_sink.flush_all [OF assms(1)] assms(2)
  by (auto simp: qemu_fclose_def qemu_fclose_internal_def stdio_fclose_def qemu_file_set_if_error_def
    writing_def Let_def)

section \<open>Properties\<close>

text \<open>
  C14. Values written to a stream that is opened on an empty file, and read back after the stream is
  closed and the file opened again, are those that were written (of a 16-bit value the low half),
  in the same order; neither the size of the stream's buffer nor the pieces in which the file is
  read show, and the file holds the encodings of the values one after the other.
\<close>

theorem stream_roundtrip:
  assumes "file_bytes fp = []" and "file_room fp = None" and "qemu_fopen (Some fp) ''wb'' = Some f"
  shows "\<exists>f' fp' g g'. foldM put_item xs f = Some f' \<and> qemu_fclose f' = (0, fp') \<and>
    file_bytes fp' = concat (map item_bytes xs) \<and> qemu_fopen (Some fp') ''rb'' = Some g \<and>
    get_items xs g = Some (map item_read xs, g') \<and> qemu_file_get_error g' = 0"
proof -
  note o = open_writing [OF assms(3,1,2)]
  obtain f' where f': "foldM put_item xs f = Some f'"
    "writing file_put_buffer file_bytes (\<lambda>s. file_room s = None) f'"
    "written file_bytes f' = concat (map item_bytes xs)" "close_func f' = Some stdio_fclose"
    by (rule emitsD [OF file_sink.emits_items o(1), of xs]) (use o in auto)
  obtain fp' where fp': "qemu_fclose f' = (0, fp')" "file_bytes fp' = concat (map item_bytes xs)"
    using close_written [OF f'(2,4)] f'(3) by auto
  obtain g where g: "qemu_fopen (Some fp') ''rb'' = Some g" by (simp add: qemu_fopen_def)
  obtain g' where "get_items xs g = Some (map item_read xs, g')" "reading file_get_buffer g'"
    by (rule consumesD [OF file_source.consumes_items open_reading(1) [OF g], of xs "[]"])
      (use open_reading(2) [OF g] fp' in auto)
  then show ?thesis using f'(1) fp' g by (auto simp: reading_def qemu_file_get_error_def)
qed

theorem stream_roundtrip_witness:
  "\<exists>f' fp' g g'. foldM put_item [Be16 0x12345, Byte 7, Buffer [1, 2, 3]]
      (qemu_fopen_ops \<lparr>file_bytes = [], file_pos = 0, file_room = None\<rparr> (Some file_put_buffer) None
        (Some stdio_fclose) None None None) = Some f' \<and>
    qemu_fclose f' = (0, fp') \<and> file_bytes fp' = [0x23, 0x45, 7, 1, 2, 3] \<and>
    qemu_fopen (Some fp') ''rb'' = Some g \<and>
    get_items [Be16 0x12345, Byte 7, Buffer [1, 2, 3]] g = Some ([Be16 0x2345, Byte 7, Buffer [1, 2, 3]], g')"
  using stream_roundtrip [of "\<lparr>file_bytes = [], file_pos = 0, file_room = None\<rparr>"
    "qemu_fopen_ops \<lparr>file_bytes = [], file_pos = 0, file_room = None\<rparr> (Some file_put_buffer) None
        (Some stdio_fclose) None None None" "[Be16 0x12345, Byte 7, Buffer [1, 2, 3]]"]
  by (auto simp: qemu_fopen_def simp del: foldM.simps get_items.simps)



end
