(* ===== verification/Ram_List.thy ===== *)
theory Ram_List
  imports Memory_Types Bswap
begin

text \<open>
  Guest RAM (\<open>exec.c\<close>, \<open>exec-obsolete.h\<close> and the dirty tracking of \<open>memory.c\<close>): the list of RAM
  blocks, their allocation and lookup, and the dirty flags of their pages. The page size is a
  property of the target, so that \<open>TARGET_PAGE_BITS\<close> is an argument, \<open>tpb\<close>. Blocks are in a heap,
  and the list has pointers to them; a pointer into the memory of a block is the block with an
  offset. The memory regions are those of the memory API. An \<open>abort\<close>, a failed assertion and an
  access outside an array are \<open>None\<close>. The target is not Xen, whose RAM is not mapped, and the
  translation cache is not part of the state.
\<close>

section \<open>Pages\<close>

definition TARGET_PAGE_SIZE :: "nat \<Rightarrow> u64" where
  "TARGET_PAGE_SIZE tpb = push_bit tpb 1"

definition TARGET_PAGE_MASK :: "nat \<Rightarrow> u64" where
  "TARGET_PAGE_MASK tpb = NOT (TARGET_PAGE_SIZE tpb - 1)"

definition TARGET_PAGE_ALIGN :: "nat \<Rightarrow> u64 \<Rightarrow> u64" where
  "TARGET_PAGE_ALIGN tpb addr = (addr + TARGET_PAGE_SIZE tpb - 1) AND TARGET_PAGE_MASK tpb"

text \<open>A loop over the pages from an address up to an end.\<close>

partial_function (option) for_pages ::
  "nat \<Rightarrow> (u64 \<Rightarrow> 's \<Rightarrow> 's option) \<Rightarrow> u64 \<Rightarrow> u64 \<Rightarrow> 's \<Rightarrow> 's option" where
  [code]: "for_pages tpb body end addr s =
     (if addr < end then body addr s \<bind> for_pages tpb body end (addr + TARGET_PAGE_SIZE tpb) else Some s)"

section \<open>Blocks\<close>

record RAMBlock =
  rb_mr :: ptr
  rb_host :: "u8 list"
  rb_offset :: u64
  rb_length :: u64
  rb_flags :: u32
  rb_idstr :: "u8 list"

record RAMList =
  phys_dirty :: "u8 list"
  rl_blocks :: "ptr list"
  dirty_pages :: u64

record ram_state =
  ram_list :: RAMList
  rb_at :: "ptr \<Rightarrow> RAMBlock"

type_synonym host_ptr = "ptr \<times> u64"

definition RAM_ADDR_MAX :: u64 where
  "RAM_ADDR_MAX = - 1"

definition RAM_PREALLOC_MASK :: u32 where
  "RAM_PREALLOC_MASK = push_bit 0 1"

section \<open>Dirty flags\<close>

definition CODE_DIRTY_FLAG :: u32 where "CODE_DIRTY_FLAG = 0x02"
definition MIGRATION_DIRTY_FLAG :: u32 where "MIGRATION_DIRTY_FLAG = 0x08"
definition DIRTY_MEMORY_MIGRATION :: nat where "DIRTY_MEMORY_MIGRATION = 3"

definition cpu_physical_memory_get_dirty_flags :: "nat \<Rightarrow> u64 \<Rightarrow> RAMList \<Rightarrow> u8 option" where
  "cpu_physical_memory_get_dirty_flags tpb addr rl = get_byte (phys_dirty rl) (unat (drop_bit tpb addr))"

definition cpu_physical_memory_is_dirty :: "nat \<Rightarrow> u64 \<Rightarrow> RAMList \<Rightarrow> bool option" where
  "cpu_physical_memory_is_dirty tpb addr rl =
     do { b \<leftarrow> cpu_physical_memory_get_dirty_flags tpb addr rl; Some (b = 0xff) }"

definition cpu_physical_memory_get_dirty :: "nat \<Rightarrow> u64 \<Rightarrow> u64 \<Rightarrow> u32 \<Rightarrow> RAMList \<Rightarrow> u32 option" where
  "cpu_physical_memory_get_dirty tpb start len dirty_flags rl =
     (let end = TARGET_PAGE_ALIGN tpb (start + len);
          start = start AND TARGET_PAGE_MASK tpb in
      for_pages tpb
        (\<lambda>addr ret. do {
           b \<leftarrow> cpu_physical_memory_get_dirty_flags tpb addr rl;
           Some (ret OR (ucast b AND dirty_flags))
         }) end start 0)"

definition cpu_physical_memory_set_dirty_flags :: "nat \<Rightarrow> u64 \<Rightarrow> u32 \<Rightarrow> RAMList \<Rightarrow> RAMList option" where
  "cpu_physical_memory_set_dirty_flags tpb addr dirty_flags rl =
     do {
       fresh \<leftarrow> (if dirty_flags AND MIGRATION_DIRTY_FLAG \<noteq> 0
                then do {
                  d \<leftarrow> cpu_physical_memory_get_dirty tpb addr (TARGET_PAGE_SIZE tpb) MIGRATION_DIRTY_FLAG rl;
                  Some (d = 0)
                }
                else Some False);
       let rl = (if fresh then rl\<lparr>dirty_pages := dirty_pages rl + 1\<rparr> else rl);
       let i = unat (drop_bit tpb addr);
       b \<leftarrow> get_byte (phys_dirty rl) i;
       pd \<leftarrow> put_byte i (ucast (ucast b OR dirty_flags)) (phys_dirty rl);
       Some (rl\<lparr>phys_dirty := pd\<rparr>)
     }"

definition cpu_physical_memory_set_dirty :: "nat \<Rightarrow> u64 \<Rightarrow> RAMList \<Rightarrow> RAMList option" where
  "cpu_physical_memory_set_dirty tpb addr = cpu_physical_memory_set_dirty_flags tpb addr 0xff"

definition cpu_physical_memory_clear_dirty_flags :: "nat \<Rightarrow> u64 \<Rightarrow> u32 \<Rightarrow> RAMList \<Rightarrow> RAMList option" where
  "cpu_physical_memory_clear_dirty_flags tpb addr dirty_flags rl =
     do {
       let msk = NOT dirty_flags;
       was \<leftarrow> (if dirty_flags AND MIGRATION_DIRTY_FLAG \<noteq> 0
              then do {
                d \<leftarrow> cpu_physical_memory_get_dirty tpb addr (TARGET_PAGE_SIZE tpb) MIGRATION_DIRTY_FLAG rl;
                Some (d \<noteq> 0)
              }
              else Some False);
       let rl = (if was then rl\<lparr>dirty_pages := dirty_pages rl - 1\<rparr> else rl);
       let i = unat (drop_bit tpb addr);
       b \<leftarrow> get_byte (phys_dirty rl) i;
       pd \<leftarrow> put_byte i (ucast (ucast b AND msk)) (phys_dirty rl);
       Some (rl\<lparr>phys_dirty := pd\<rparr>)
     }"

definition cpu_physical_memory_set_dirty_range :: "nat \<Rightarrow> u64 \<Rightarrow> u64 \<Rightarrow> u32 \<Rightarrow> RAMList \<Rightarrow> RAMList option" where
  "cpu_physical_memory_set_dirty_range tpb start len dirty_flags rl =
     (let end = TARGET_PAGE_ALIGN tpb (start + len);
          start = start AND TARGET_PAGE_MASK tpb in
      for_pages tpb (\<lambda>addr. cpu_physical_memory_set_dirty_flags tpb addr dirty_flags) end start rl)"

definition cpu_physical_memory_mask_dirty_range :: "nat \<Rightarrow> u64 \<Rightarrow> u64 \<Rightarrow> u32 \<Rightarrow> RAMList \<Rightarrow> RAMList option" where
  "cpu_physical_memory_mask_dirty_range tpb start len dirty_flags rl =
     (let end = TARGET_PAGE_ALIGN tpb (start + len);
          start = start AND TARGET_PAGE_MASK tpb in
      for_pages tpb (\<lambda>addr. cpu_physical_memory_clear_dirty_flags tpb addr dirty_flags) end start rl)"

section \<open>Lookup\<close>

text \<open>The test by which every lookup decides that an address is in a block.\<close>

abbreviation in_block :: "ram_state \<Rightarrow> u64 \<Rightarrow> ptr \<Rightarrow> bool" where
  "in_block st addr b \<equiv> addr - rb_offset (rb_at st b) < rb_length (rb_at st b)"

definition qemu_get_ram_ptr :: "u64 \<Rightarrow> ram_state \<Rightarrow> (host_ptr \<times> ram_state) option" where
  "qemu_get_ram_ptr addr st =
     do {
       block \<leftarrow> find (in_block st addr) (rl_blocks (ram_list st));
       let st = (if block \<noteq> hd (rl_blocks (ram_list st))
                 then st\<lparr>ram_list := (ram_list st)\<lparr>rl_blocks := block # remove1 block (rl_blocks (ram_list st))\<rparr>\<rparr>
                 else st);
       Some ((block, addr - rb_offset (rb_at st block)), st)
     }"

definition qemu_safe_ram_ptr :: "u64 \<Rightarrow> ram_state \<Rightarrow> host_ptr option" where
  "qemu_safe_ram_ptr addr st =
     do {
       block \<leftarrow> find (in_block st addr) (rl_blocks (ram_list st));
       Some (block, addr - rb_offset (rb_at st block))
     }"

definition qemu_ram_ptr_length :: "u64 \<Rightarrow> u64 \<Rightarrow> ram_state \<Rightarrow> (host_ptr option \<times> u64) option" where
  "qemu_ram_ptr_length addr sz st =
     (if sz = 0 then Some (None, sz)
      else do {
        block \<leftarrow> find (in_block st addr) (rl_blocks (ram_list st));
        let off = rb_offset (rb_at st block);
        let len = rb_length (rb_at st block);
        let sz = (if addr - off + sz > len then len - addr + off else sz);
        Some (Some (block, addr - off), sz)
      })"

definition qemu_ram_addr_from_host :: "host_ptr \<Rightarrow> ram_state \<Rightarrow> u64 option" where
  "qemu_ram_addr_from_host = (\<lambda>(b, off) st.
     map_option (\<lambda>block. rb_offset (rb_at st block) + off)
       (find (\<lambda>block. block = b \<and> off < rb_length (rb_at st block)) (rl_blocks (ram_list st))))"

section \<open>Allocation\<close>

text \<open>The inner loop of the search: the lowest offset of a block at or above an address.\<close>

definition next_offset :: "ram_state \<Rightarrow> u64 \<Rightarrow> u64" where
  "next_offset st end =
     fold (\<lambda>b next. if rb_offset (rb_at st b) \<ge> end then min next (rb_offset (rb_at st b)) else next)
       (rl_blocks (ram_list st)) RAM_ADDR_MAX"

definition find_ram_offset :: "u64 \<Rightarrow> ram_state \<Rightarrow> u64 option" where
  "find_ram_offset sz st =
     (if rl_blocks (ram_list st) = [] then Some 0
      else
        let (offset, mingap) =
          fold (\<lambda>b (offset, mingap).
                  let end = rb_offset (rb_at st b) + rb_length (rb_at st b);
                      next = next_offset st end in
                  if next - end \<ge> sz \<and> next - end < mingap then (end, next - end) else (offset, mingap))
            (rl_blocks (ram_list st)) (RAM_ADDR_MAX, RAM_ADDR_MAX) in
        if offset = RAM_ADDR_MAX then None else Some offset)"

definition last_ram_offset :: "ram_state \<Rightarrow> u64" where
  "last_ram_offset st =
     fold (\<lambda>b last. max last (rb_offset (rb_at st b) + rb_length (rb_at st b))) (rl_blocks (ram_list st)) 0"

definition qemu_ram_set_idstr :: "u64 \<Rightarrow> u8 list \<Rightarrow> u8 list option \<Rightarrow> ram_state \<Rightarrow> ram_state option" where
  "qemu_ram_set_idstr addr name dev st =
     do {
       new_block \<leftarrow> find (\<lambda>b. rb_offset (rb_at st b) = addr) (rl_blocks (ram_list st));
       c_assert (rb_idstr (rb_at st new_block) = []);
       let s = (case dev of None \<Rightarrow> [] | Some path \<Rightarrow> take 255 (path @ [0x2f]));
       let s = s @ take (255 - length s) name;
       let st = st\<lparr>rb_at := (rb_at st)(new_block := (rb_at st new_block)\<lparr>rb_idstr := s\<rparr>)\<rparr>;
       c_assert (\<forall>b\<in>set (rl_blocks (ram_list st)). b \<noteq> new_block \<longrightarrow> rb_idstr (rb_at st b) \<noteq> s);
       Some st
     }"

text \<open>
  A new block. The pointer that the allocator returns and the memory that it or the caller provides
  are arguments, and so is \<open>junk\<close>, what \<open>g_realloc\<close> leaves in the bytes it adds.
\<close>

definition qemu_ram_alloc_from_ptr ::
  "nat \<Rightarrow> u64 \<Rightarrow> u8 list option \<Rightarrow> ptr \<Rightarrow> ptr \<Rightarrow> u8 list \<Rightarrow> (nat \<Rightarrow> u8) \<Rightarrow> ram_state \<Rightarrow> (u64 \<times> ram_state) option" where
  "qemu_ram_alloc_from_ptr tpb sz host mr new_block area junk st =
     do {
       let sz = TARGET_PAGE_ALIGN tpb sz;
       offset \<leftarrow> find_ram_offset sz st;
       let blk = (case host of
                    Some h \<Rightarrow> \<lparr>rb_mr = mr, rb_host = h, rb_offset = offset, rb_length = sz,
                                 rb_flags = RAM_PREALLOC_MASK, rb_idstr = []\<rparr>
                  | None \<Rightarrow> \<lparr>rb_mr = mr, rb_host = area, rb_offset = offset, rb_length = sz,
                               rb_flags = 0, rb_idstr = []\<rparr>);
       let rl = (ram_list st)\<lparr>rl_blocks := new_block # rl_blocks (ram_list st)\<rparr>;
       let st = \<lparr>ram_list = rl, rb_at = (rb_at st)(new_block := blk)\<rparr>;
       let n = unat (drop_bit tpb (last_ram_offset st));
       let pd = map (\<lambda>i. if i < length (phys_dirty rl) then phys_dirty rl ! i else junk i) [0..<n];
       pd \<leftarrow> put_bytes (unat (drop_bit tpb offset)) (replicate (unat (drop_bit tpb sz)) 0) pd;
       rl \<leftarrow> cpu_physical_memory_set_dirty_range tpb offset sz 0xff (rl\<lparr>phys_dirty := pd\<rparr>);
       Some (offset, st\<lparr>ram_list := rl\<rparr>)
     }"

definition qemu_ram_alloc ::
  "nat \<Rightarrow> u64 \<Rightarrow> ptr \<Rightarrow> ptr \<Rightarrow> u8 list \<Rightarrow> (nat \<Rightarrow> u8) \<Rightarrow> ram_state \<Rightarrow> (u64 \<times> ram_state) option" where
  "qemu_ram_alloc tpb sz mr = qemu_ram_alloc_from_ptr tpb sz None mr"

definition qemu_ram_free_from_ptr :: "u64 \<Rightarrow> ram_state \<Rightarrow> ram_state" where
  "qemu_ram_free_from_ptr addr st =
     (case find (\<lambda>b. addr = rb_offset (rb_at st b)) (rl_blocks (ram_list st)) of
        None \<Rightarrow> st
      | Some b \<Rightarrow> st\<lparr>ram_list := (ram_list st)\<lparr>rl_blocks := remove1 b (rl_blocks (ram_list st))\<rparr>\<rparr>)"

text \<open>\<open>qemu_ram_free\<close> also gives the memory of the block back to the host, if QEMU allocated it.\<close>

definition qemu_ram_free :: "u64 \<Rightarrow> ram_state \<Rightarrow> ptr option \<times> ram_state" where
  "qemu_ram_free addr st =
     (case find (\<lambda>b. addr = rb_offset (rb_at st b)) (rl_blocks (ram_list st)) of
        None \<Rightarrow> (None, st)
      | Some b \<Rightarrow>
          (if rb_flags (rb_at st b) AND RAM_PREALLOC_MASK \<noteq> 0 then None else Some b,
           st\<lparr>ram_list := (ram_list st)\<lparr>rl_blocks := remove1 b (rl_blocks (ram_list st))\<rparr>\<rparr>))"

section \<open>Writes and the dirty flags of regions\<close>

text \<open>
  The check that \<open>tlb_reset_dirty_range_all\<close> makes before it resets the translation caches.
\<close>

definition tlb_reset_dirty_range_all :: "u64 \<Rightarrow> u64 \<Rightarrow> ram_state \<Rightarrow> unit option" where
  "tlb_reset_dirty_range_all start end st =
     do {
       (b1, o1) \<leftarrow> qemu_safe_ram_ptr start st;
       (b2, o2) \<leftarrow> qemu_safe_ram_ptr (end - 1) st;
       c_assert (b1 = b2 \<and> o2 - o1 = (end - 1) - start)
     }"

definition cpu_physical_memory_reset_dirty ::
  "nat \<Rightarrow> bool \<Rightarrow> u64 \<Rightarrow> u64 \<Rightarrow> u32 \<Rightarrow> ram_state \<Rightarrow> ram_state option" where
  "cpu_physical_memory_reset_dirty tpb tcg start end dirty_flags st =
     (let start = start AND TARGET_PAGE_MASK tpb;
          end = TARGET_PAGE_ALIGN tpb end;
          len = end - start in
      if len = 0 then Some st
      else do {
        rl \<leftarrow> cpu_physical_memory_mask_dirty_range tpb start len dirty_flags (ram_list st);
        let st = st\<lparr>ram_list := rl\<rparr>;
        (if tcg then tlb_reset_dirty_range_all start end st else Some ());
        Some st
      })"

definition memory_region_get_dirty ::
  "nat \<Rightarrow> (ptr \<Rightarrow> 'd MemoryRegion) \<Rightarrow> ptr \<Rightarrow> u64 \<Rightarrow> u64 \<Rightarrow> nat \<Rightarrow> ram_state \<Rightarrow> bool option" where
  "memory_region_get_dirty tpb mrs mr addr sz client st =
     do {
       c_assert (mr_terminates (mrs mr));
       d \<leftarrow> cpu_physical_memory_get_dirty tpb (mr_ram_addr (mrs mr) + addr) sz (push_bit client 1) (ram_list st);
       Some (d \<noteq> 0)
     }"

definition memory_region_set_dirty ::
  "nat \<Rightarrow> (ptr \<Rightarrow> 'd MemoryRegion) \<Rightarrow> ptr \<Rightarrow> u64 \<Rightarrow> u64 \<Rightarrow> ram_state \<Rightarrow> ram_state option" where
  "memory_region_set_dirty tpb mrs mr addr sz st =
     do {
       c_assert (mr_terminates (mrs mr));
       rl \<leftarrow> cpu_physical_memory_set_dirty_range tpb (mr_ram_addr (mrs mr) + addr) sz (- 1) (ram_list st);
       Some (st\<lparr>ram_list := rl\<rparr>)
     }"

definition memory_region_reset_dirty ::
  "nat \<Rightarrow> bool \<Rightarrow> (ptr \<Rightarrow> 'd MemoryRegion) \<Rightarrow> ptr \<Rightarrow> u64 \<Rightarrow> u64 \<Rightarrow> nat \<Rightarrow> ram_state \<Rightarrow> ram_state option" where
  "memory_region_reset_dirty tpb tcg mrs mr addr sz client st =
     do {
       c_assert (mr_terminates (mrs mr));
       cpu_physical_memory_reset_dirty tpb tcg (mr_ram_addr (mrs mr) + addr)
         (mr_ram_addr (mrs mr) + addr + sz) (push_bit client 1) st
     }"

partial_function (option) memory_region_get_ram_ptr ::
  "nat \<Rightarrow> (ptr \<Rightarrow> 'd MemoryRegion) \<Rightarrow> ptr \<Rightarrow> ram_state \<Rightarrow> (host_ptr \<times> ram_state) option" where
  [code]: "memory_region_get_ram_ptr tpb mrs mr st =
     (case mr_alias (mrs mr) of
        Some a \<Rightarrow> do {
          r \<leftarrow> memory_region_get_ram_ptr tpb mrs a st;
          Some ((fst (fst r), snd (fst r) + mr_alias_offset (mrs mr)), snd r)
        }
      | None \<Rightarrow> do {
          c_assert (mr_terminates (mrs mr));
          qemu_get_ram_ptr (mr_ram_addr (mrs mr) AND TARGET_PAGE_MASK tpb) st
        })"

text \<open>Memory behind a host pointer.\<close>

definition host_read :: "host_ptr \<Rightarrow> nat \<Rightarrow> ram_state \<Rightarrow> u8 list option" where
  "host_read = (\<lambda>(b, off) n st. get_bytes (unat off) n (rb_host (rb_at st b)))"

definition host_write :: "host_ptr \<Rightarrow> u8 list \<Rightarrow> ram_state \<Rightarrow> ram_state option" where
  "host_write = (\<lambda>(b, off) bs st. do {
     h \<leftarrow> put_bytes (unat off) bs (rb_host (rb_at st b));
     Some (st\<lparr>rb_at := (rb_at st)(b := (rb_at st b)\<lparr>rb_host := h\<rparr>)\<rparr>)
   })"

text \<open>
  The write of a device to RAM, the RAM case of \<open>cpu_physical_memory_rw\<close>, with the bytes that fall
  into one page: \<open>addr1\<close> is the address in RAM. The invalidation of translated code, which may
  change flags, is an argument.
\<close>

definition cpu_physical_memory_rw_ram ::
  "nat \<Rightarrow> (u64 \<Rightarrow> u64 \<Rightarrow> ram_state \<Rightarrow> ram_state) \<Rightarrow> u64 \<Rightarrow> u8 list \<Rightarrow> ram_state \<Rightarrow> ram_state option" where
  "cpu_physical_memory_rw_ram tpb tb_invalidate addr1 bs st =
     do {
       (p, st) \<leftarrow> qemu_get_ram_ptr addr1 st;
       st \<leftarrow> host_write p bs st;
       d \<leftarrow> cpu_physical_memory_is_dirty tpb addr1 (ram_list st);
       if \<not> d then do {
         let st = tb_invalidate addr1 (addr1 + of_nat (length bs)) st;
         rl \<leftarrow> cpu_physical_memory_set_dirty_flags tpb addr1 (0xff AND NOT CODE_DIRTY_FLAG) (ram_list st);
         Some (st\<lparr>ram_list := rl\<rparr>)
       }
       else Some st
     }"

section \<open>Pages as numbers\<close>

lemma two_power_pos: "0 < (2 :: nat) ^ k"
  by simp

text \<open>The address of a page.\<close>

definition page_addr :: "nat \<Rightarrow> nat \<Rightarrow> u64" where
  "page_addr tpb p = of_nat (p * 2 ^ tpb)"

lemma unat_page_addr: "p * 2 ^ tpb < 2 ^ 64 \<Longrightarrow> unat (page_addr tpb p) = p * 2 ^ tpb"
  unfolding page_addr_def by (subst unat_of_nat) simp

lemma page_addr_unat: "unat a = p * 2 ^ tpb \<Longrightarrow> a = page_addr tpb p"
  unfolding page_addr_def by (metis of_nat_unat ucast_id)

lemma unat_page_size: "tpb < 64 \<Longrightarrow> unat (TARGET_PAGE_SIZE tpb) = 2 ^ tpb"
  using unat_page_addr [of 1 tpb] power_strict_increasing [of tpb 64 "2 :: nat"]
  by (simp add: TARGET_PAGE_SIZE_def page_addr_def)

lemma unat_add64: "unat a + unat b < 2 ^ 64 \<Longrightarrow> unat (a + b :: u64) = unat a + unat b"
  by (simp add: unat_word_ariths)

lemma page_mask: "tpb < 64 \<Longrightarrow> a AND TARGET_PAGE_MASK tpb = push_bit tpb (drop_bit tpb a)"
  unfolding TARGET_PAGE_MASK_def TARGET_PAGE_SIZE_def
  by (rule bit_word_eqI) (auto simp: bit_simps push_bit_of_1 mask_eq_exp_minus_1 [symmetric])

lemma unat_drop_page: "unat (drop_bit tpb a) = unat (a :: u64) div 2 ^ tpb"
  using drop_bit_eq_div [of tpb "unat a"] by (simp add: unat_drop_bit_eq)

lemma unat_page_mask:
  assumes "tpb < 64"
  shows "unat (a AND TARGET_PAGE_MASK tpb) = unat a div 2 ^ tpb * 2 ^ tpb"
proof -
  have "unat a div 2 ^ tpb * 2 ^ tpb \<le> unat a" by simp
  also have "\<dots> < 2 ^ 64" using unsigned_less [of a] by simp
  finally show ?thesis
    using assms push_bit_eq_mult [of tpb "unat a div 2 ^ tpb"]
    by (simp add: page_mask unsigned_push_bit_eq unat_drop_page take_bit_nat_eq_self)
qed

lemma drop_page_addr: "p * 2 ^ tpb < 2 ^ 64 \<Longrightarrow> unat (drop_bit tpb (page_addr tpb p)) = p"
  by (simp add: unat_drop_page unat_page_addr)

lemma mask_page_addr: "tpb < 64 \<Longrightarrow> p * 2 ^ tpb < 2 ^ 64 \<Longrightarrow> page_addr tpb p AND TARGET_PAGE_MASK tpb = page_addr tpb p"
  by (rule page_addr_unat) (simp add: unat_page_mask unat_page_addr)

lemma align_page_addr:
  assumes "tpb < 64" and "p * 2 ^ tpb + 2 ^ tpb \<le> 2 ^ 64"
  shows "TARGET_PAGE_ALIGN tpb (page_addr tpb p) = page_addr tpb p"
proof -
  have lt: "p * 2 ^ tpb < 2 ^ 64" using assms(2) two_power_pos [of tpb] by linarith
  have one: "unat (TARGET_PAGE_SIZE tpb - 1) = 2 ^ tpb - 1"
    using unat_page_size [OF assms(1)] by (metis One_nat_def one_le_numeral one_le_power unat_1 unat_sub word_le_nat_alt)
  have "unat (page_addr tpb p + (TARGET_PAGE_SIZE tpb - 1)) = p * 2 ^ tpb + (2 ^ tpb - 1)"
    using assms(2) two_power_pos [of tpb] one unat_page_addr [OF lt]
    by (subst unat_add64) auto
  moreover have "(p * 2 ^ tpb + (2 ^ tpb - 1)) div 2 ^ tpb = (p :: nat)"
    using div_mult_self3 [of "2 ^ tpb" p "2 ^ tpb - 1"] by simp
  ultimately show ?thesis
    unfolding TARGET_PAGE_ALIGN_def using assms(1)
    by (intro page_addr_unat) (simp add: unat_page_mask add_diff_eq)
qed

lemma page_addr_add:
  assumes "tpb < 64" and "(p + q) * 2 ^ tpb < 2 ^ 64"
  shows "page_addr tpb p + page_addr tpb q = page_addr tpb (p + q)"
  by (simp add: page_addr_def algebra_simps)

lemma page_addr_next: "tpb < 64 \<Longrightarrow> page_addr tpb p + TARGET_PAGE_SIZE tpb = page_addr tpb (Suc p)"
  by (simp add: page_addr_def TARGET_PAGE_SIZE_def push_bit_eq_mult add.commute)

lemma page_addr_less:
  "p * 2 ^ tpb < 2 ^ 64 \<Longrightarrow> q * 2 ^ tpb < 2 ^ 64 \<Longrightarrow> page_addr tpb p < page_addr tpb q \<longleftrightarrow> p < q"
  by (simp add: word_less_nat_alt unat_page_addr)

lemma page_addr_inject:
  "p * 2 ^ tpb < 2 ^ 64 \<Longrightarrow> q * 2 ^ tpb < 2 ^ 64 \<Longrightarrow> page_addr tpb p = page_addr tpb q \<longleftrightarrow> p = q"
  by (metis mult_cancel2 power_not_zero unat_page_addr zero_neq_numeral)

text \<open>A loop over pages is a loop over their numbers.\<close>

lemma for_pages_foldM:
  assumes "tpb < 64" and "q * 2 ^ tpb < 2 ^ 64" and "p \<le> q"
  shows "for_pages tpb body (page_addr tpb q) (page_addr tpb p) s = foldM (\<lambda>i. body (page_addr tpb i)) [p..<q] s"
  using assms(3)
proof (induction "q - p" arbitrary: p s)
  case 0
  then show ?case by (simp add: for_pages.simps)
next
  case (Suc n)
  then have p: "p < q" "p * 2 ^ tpb < 2 ^ 64"
    using le_less_trans [OF mult_le_mono1 assms(2)] by simp_all
  have IH: "for_pages tpb body (page_addr tpb q) (page_addr tpb (Suc p)) =
      foldM (\<lambda>i. body (page_addr tpb i)) [Suc p..<q]"
    by (rule ext) (use Suc p in auto)
  show ?case
    using p assms(2)
    by (subst for_pages.simps) (simp add: page_addr_less page_addr_next assms(1) upt_conv_Cons IH)
qed

section \<open>Flags of a page\<close>

text \<open>
  The flags of a page change by a function, and the number of pages that are dirty for migration
  with them.
\<close>

abbreviation mig :: "u8 \<Rightarrow> bool" where
  "mig b \<equiv> bit b 3"

definition update_page :: "(u8 \<Rightarrow> u8) \<Rightarrow> nat \<Rightarrow> RAMList \<Rightarrow> RAMList" where
  "update_page F p rl =
     rl\<lparr>phys_dirty := (phys_dirty rl)[p := F (phys_dirty rl ! p)],
        dirty_pages := dirty_pages rl + of_bool (mig (F (phys_dirty rl ! p))) - of_bool (mig (phys_dirty rl ! p))\<rparr>"

definition pages_fit :: "nat \<Rightarrow> RAMList \<Rightarrow> bool" where
  "pages_fit tpb rl \<longleftrightarrow> tpb < 64 \<and> Suc (length (phys_dirty rl)) * 2 ^ tpb \<le> 2 ^ 64"

definition dirty_count :: "RAMList \<Rightarrow> nat" where
  "dirty_count rl = length (filter mig (phys_dirty rl))"

definition counted :: "RAMList \<Rightarrow> bool" where
  "counted rl \<longleftrightarrow> dirty_pages rl = of_nat (dirty_count rl)"

lemma pages_fitD:
  assumes "pages_fit tpb rl" and "p < length (phys_dirty rl)"
  shows "tpb < 64" and "p * 2 ^ tpb < 2 ^ 64" and "Suc p * 2 ^ tpb < 2 ^ 64" and "Suc p * 2 ^ tpb + 2 ^ tpb \<le> 2 ^ 64"
proof -
  have "Suc (Suc p) * 2 ^ tpb \<le> Suc (length (phys_dirty rl)) * 2 ^ tpb"
    using assms(2) by (intro mult_le_mono1) simp
  then have *: "Suc (Suc p) * 2 ^ tpb \<le> 2 ^ 64" using assms(1) unfolding pages_fit_def by linarith
  have "0 < (2 :: nat) ^ tpb" by simp
  then show "p * 2 ^ tpb < 2 ^ 64" "Suc p * 2 ^ tpb < 2 ^ 64" "Suc p * 2 ^ tpb + 2 ^ tpb \<le> 2 ^ 64"
    using * by (simp_all only: mult_Suc)
  show "tpb < 64" using assms(1) by (simp add: pages_fit_def)
qed

lemma get_dirty_page:
  assumes "pages_fit tpb rl" and "p < length (phys_dirty rl)"
  shows "cpu_physical_memory_get_dirty tpb (page_addr tpb p) (TARGET_PAGE_SIZE tpb) flags rl =
    Some (ucast (phys_dirty rl ! p) AND flags)"
proof -
  note d = pages_fitD [OF assms]
  have "[p..<Suc p] = [p]" by simp
  then show ?thesis
    unfolding cpu_physical_memory_get_dirty_def Let_def
    using d(1,2) assms(2) align_page_addr [OF d(1,4)]
    by (simp add: page_addr_next mask_page_addr for_pages_foldM [OF d(1,3)]
      cpu_physical_memory_get_dirty_flags_def drop_page_addr get_byte_def)
qed

lemma mig_flag:
  "bit (ucast (b :: u8) :: u32) 3 \<longleftrightarrow> mig b"
  "(f AND MIGRATION_DIRTY_FLAG = 0) \<longleftrightarrow> \<not> bit f 3"
proof -
  have m: "MIGRATION_DIRTY_FLAG = 2 ^ 3" by (simp add: MIGRATION_DIRTY_FLAG_def)
  show "(f AND MIGRATION_DIRTY_FLAG = 0) \<longleftrightarrow> \<not> bit f 3"
    unfolding m by (rule and_exp_eq_0_iff_not_bit)
qed (simp add: bit_simps)

lemma ucast_flags:
  "ucast (ucast b OR f :: u32) = b OR (ucast f :: u8)" "ucast (ucast b AND f :: u32) = b AND (ucast f :: u8)"
  by (rule bit_word_eqI, auto simp: bit_simps)+

lemma set_flags_page:
  assumes "pages_fit tpb rl" and "p < length (phys_dirty rl)"
  shows "cpu_physical_memory_set_dirty_flags tpb (page_addr tpb p) flags rl =
    Some (update_page (\<lambda>b. b OR ucast flags) p rl)"
proof -
  have "mig (phys_dirty rl ! p OR ucast flags) \<longleftrightarrow> mig (phys_dirty rl ! p) \<or> bit flags 3"
    by (simp add: bit_simps)
  then show ?thesis
    unfolding cpu_physical_memory_set_dirty_flags_def
    using get_dirty_page [OF assms, of MIGRATION_DIRTY_FLAG] assms(2) pages_fitD [OF assms]
    by (auto simp: mig_flag drop_page_addr get_byte_def put_byte_def ucast_flags update_page_def)
qed

lemma clear_flags_page:
  assumes "pages_fit tpb rl" and "p < length (phys_dirty rl)"
  shows "cpu_physical_memory_clear_dirty_flags tpb (page_addr tpb p) flags rl =
    Some (update_page (\<lambda>b. b AND NOT (ucast flags)) p rl)"
proof -
  have "mig (phys_dirty rl ! p AND NOT (ucast flags)) \<longleftrightarrow> mig (phys_dirty rl ! p) \<and> \<not> bit flags 3"
    by (simp add: bit_simps)
  moreover have "(ucast (NOT flags) :: u8) = NOT (ucast flags)"
    by (rule bit_word_eqI) (auto simp: bit_simps)
  ultimately show ?thesis
    unfolding cpu_physical_memory_clear_dirty_flags_def
    using get_dirty_page [OF assms, of MIGRATION_DIRTY_FLAG] assms(2) pages_fitD [OF assms]
    by (auto simp: mig_flag drop_page_addr get_byte_def put_byte_def ucast_flags update_page_def)
qed

lemma length_filter_update:
  assumes "i < length xs"
  shows "length (filter P (xs[i := x])) + of_bool (P (xs ! i)) = length (filter P xs) + of_bool (P x)"
proof -
  let ?ys = "take i xs" and ?zs = "drop (Suc i) xs"
  have "length (filter P (?ys @ xs ! i # ?zs)) =
      length (filter P ?ys) + of_bool (P (xs ! i)) + length (filter P ?zs)" by simp
  moreover have "xs = ?ys @ xs ! i # ?zs" using assms by (rule id_take_nth_drop)
  ultimately have "length (filter P xs) = length (filter P ?ys) + of_bool (P (xs ! i)) + length (filter P ?zs)"
    by metis
  then show ?thesis using assms by (simp add: upd_conv_take_nth_drop)
qed

lemma update_page_simps [simp]:
  "length (phys_dirty (update_page F p rl)) = length (phys_dirty rl)"
  "rl_blocks (update_page F p rl) = rl_blocks rl"
  "pages_fit tpb (update_page F p rl) = pages_fit tpb rl"
  by (simp_all add: update_page_def pages_fit_def)

lemma counted_update:
  assumes "counted rl" and "p < length (phys_dirty rl)"
  shows "counted (update_page F p rl)"
proof -
  let ?b = "phys_dirty rl ! p"
  have "dirty_count (update_page F p rl) + of_bool (mig ?b) = dirty_count rl + of_bool (mig (F ?b))"
    using length_filter_update [OF assms(2), of mig "F ?b"] by (simp add: dirty_count_def update_page_def)
  then have "(of_nat (dirty_count (update_page F p rl)) + of_bool (mig ?b) :: u64) =
      of_nat (dirty_count rl) + of_bool (mig (F ?b))"
    by (metis of_nat_add of_nat_of_bool)
  then have "(of_nat (dirty_count (update_page F p rl)) :: u64) =
      of_nat (dirty_count rl) + of_bool (mig (F ?b)) - of_bool (mig ?b)"
    by (simp add: eq_diff_eq)
  then show ?thesis using assms(1) by (simp add: counted_def) (simp add: update_page_def)
qed

text \<open>A range of pages.\<close>

definition update_pages :: "(u8 \<Rightarrow> u8) \<Rightarrow> nat \<Rightarrow> nat \<Rightarrow> RAMList \<Rightarrow> RAMList" where
  "update_pages F p q rl = fold (update_page F) [p..<q] rl"

lemma update_pages_0 [simp]: "update_pages F p 0 rl = rl"
  by (simp add: update_pages_def)

lemma update_pages_Suc [simp]:
  "update_pages F p (Suc q) rl = (if p \<le> q then update_page F q (update_pages F p q rl) else rl)"
  by (simp add: update_pages_def)

lemma update_pages_simps [simp]:
  "length (phys_dirty (update_pages F p q rl)) = length (phys_dirty rl)"
  "rl_blocks (update_pages F p q rl) = rl_blocks rl"
  "pages_fit tpb (update_pages F p q rl) = pages_fit tpb rl"
  by (induction q) simp_all

lemma update_pages_nth:
  assumes "q \<le> length (phys_dirty rl)" and "i < length (phys_dirty rl)"
  shows "phys_dirty (update_pages F p q rl) ! i =
    (if p \<le> i \<and> i < q then F (phys_dirty rl ! i) else phys_dirty rl ! i)"
  using assms(1)
proof (induction q)
  case 0
  then show ?case by simp
next
  case (Suc q)
  then show ?case
    using assms(2) by (auto simp: update_page_def nth_list_update less_Suc_eq)
qed

lemma counted_update_pages:
  "counted rl \<Longrightarrow> q \<le> length (phys_dirty rl) \<Longrightarrow> counted (update_pages F p q rl)"
proof (induction q)
  case 0
  then show ?case by simp
next
  case (Suc q)
  then show ?case by (auto intro!: counted_update)
qed

lemma foldM_update_pages:
  assumes "\<And>i r. i < q \<Longrightarrow> pages_fit tpb r \<Longrightarrow> length (phys_dirty r) = length (phys_dirty rl) \<Longrightarrow>
      g i r = Some (update_page F i r)"
    and "pages_fit tpb rl"
  shows "foldM g [p..<q] rl = Some (update_pages F p q rl)"
  using assms(1)
proof (induction q)
  case 0
  then show ?case by simp
next
  case (Suc q)
  then have "foldM g [p..<q] rl = Some (update_pages F p q rl)" by simp
  then show ?case
    using Suc.prems [of q "update_pages F p q rl"] assms(2)
    by (auto simp: foldM_append)
qed

lemma range_pages:
  assumes "pages_fit tpb rl" and "p \<le> q" and "q \<le> length (phys_dirty rl)"
  shows "TARGET_PAGE_ALIGN tpb (page_addr tpb p + page_addr tpb (q - p)) = page_addr tpb q"
    and "page_addr tpb p AND TARGET_PAGE_MASK tpb = page_addr tpb p"
    and "for_pages tpb body (page_addr tpb q) (page_addr tpb p) s = foldM (\<lambda>i. body (page_addr tpb i)) [p..<q] s"
proof -
  have le: "q * 2 ^ tpb \<le> length (phys_dirty rl) * 2 ^ tpb" "p * 2 ^ tpb \<le> q * 2 ^ tpb"
    using assms by simp_all
  have fit: "tpb < 64" "length (phys_dirty rl) * 2 ^ tpb + 2 ^ tpb \<le> 2 ^ 64"
    using assms(1) by (simp_all add: pages_fit_def add.commute)
  have "0 < (2 :: nat) ^ tpb" by simp
  then have q: "q * 2 ^ tpb + 2 ^ tpb \<le> 2 ^ 64" "q * 2 ^ tpb < 2 ^ 64" "p * 2 ^ tpb < 2 ^ 64"
    using le fit by linarith+
  show "TARGET_PAGE_ALIGN tpb (page_addr tpb p + page_addr tpb (q - p)) = page_addr tpb q"
    using page_addr_add [of tpb p "q - p"] align_page_addr [OF fit(1) q(1)] q fit(1) assms(2) by simp
  show "page_addr tpb p AND TARGET_PAGE_MASK tpb = page_addr tpb p"
    by (rule mask_page_addr [OF fit(1) q(3)])
  show "for_pages tpb body (page_addr tpb q) (page_addr tpb p) s = foldM (\<lambda>i. body (page_addr tpb i)) [p..<q] s"
    by (rule for_pages_foldM [OF fit(1) q(2) assms(2)])
qed

lemma set_range_pages:
  assumes "pages_fit tpb rl" and "p \<le> q" and "q \<le> length (phys_dirty rl)"
  shows "cpu_physical_memory_set_dirty_range tpb (page_addr tpb p) (page_addr tpb (q - p)) flags rl =
    Some (update_pages (\<lambda>b. b OR ucast flags) p q rl)"
  unfolding cpu_physical_memory_set_dirty_range_def Let_def range_pages [OF assms]
  by (rule foldM_update_pages [OF set_flags_page assms(1)]) (use assms(3) in auto)

lemma mask_range_pages:
  assumes "pages_fit tpb rl" and "p \<le> q" and "q \<le> length (phys_dirty rl)"
  shows "cpu_physical_memory_mask_dirty_range tpb (page_addr tpb p) (page_addr tpb (q - p)) flags rl =
    Some (update_pages (\<lambda>b. b AND NOT (ucast flags)) p q rl)"
  unfolding cpu_physical_memory_mask_dirty_range_def Let_def range_pages [OF assms]
  by (rule foldM_update_pages [OF clear_flags_page assms(1)]) (use assms(3) in auto)

section \<open>Blocks as ranges of pages\<close>

definition first_page :: "nat \<Rightarrow> RAMBlock \<Rightarrow> nat" where
  "first_page tpb B = unat (rb_offset B) div 2 ^ tpb"

definition num_pages :: "nat \<Rightarrow> RAMBlock \<Rightarrow> nat" where
  "num_pages tpb B = unat (rb_length B) div 2 ^ tpb"

abbreviation end_page :: "nat \<Rightarrow> RAMBlock \<Rightarrow> nat" where
  "end_page tpb B \<equiv> first_page tpb B + num_pages tpb B"

definition block_ok :: "nat \<Rightarrow> nat \<Rightarrow> RAMBlock \<Rightarrow> bool" where
  "block_ok tpb n B \<longleftrightarrow>
     rb_offset B = page_addr tpb (first_page tpb B) \<and> rb_length B = page_addr tpb (num_pages tpb B) \<and>
     0 < num_pages tpb B \<and> end_page tpb B \<le> n \<and> length (rb_host B) = num_pages tpb B * 2 ^ tpb"

definition apart :: "nat \<Rightarrow> RAMBlock \<Rightarrow> RAMBlock \<Rightarrow> bool" where
  "apart tpb B C \<longleftrightarrow> end_page tpb B \<le> first_page tpb C \<or> end_page tpb C \<le> first_page tpb B"

text \<open>
  The blocks are page-aligned and do not overlap, and there is a byte of flags for each of their
  pages.
\<close>

definition ram_ok :: "nat \<Rightarrow> ram_state \<Rightarrow> bool" where
  "ram_ok tpb st \<longleftrightarrow>
     pages_fit tpb (ram_list st) \<and> distinct (rl_blocks (ram_list st)) \<and>
     (\<forall>b\<in>set (rl_blocks (ram_list st)). block_ok tpb (length (phys_dirty (ram_list st))) (rb_at st b)) \<and>
     (\<forall>b\<in>set (rl_blocks (ram_list st)). \<forall>c\<in>set (rl_blocks (ram_list st)).
        b \<noteq> c \<longrightarrow> apart tpb (rb_at st b) (rb_at st c))"

lemma ram_ok_block:
  assumes "ram_ok tpb st" and "b \<in> set (rl_blocks (ram_list st))"
  shows "tpb < 64" and "unat (rb_offset (rb_at st b)) = first_page tpb (rb_at st b) * 2 ^ tpb"
    and "unat (rb_length (rb_at st b)) = num_pages tpb (rb_at st b) * 2 ^ tpb"
    and "0 < num_pages tpb (rb_at st b)" and "end_page tpb (rb_at st b) \<le> length (phys_dirty (ram_list st))"
    and "end_page tpb (rb_at st b) * 2 ^ tpb + 2 ^ tpb \<le> 2 ^ 64"
    and "rb_offset (rb_at st b) = page_addr tpb (first_page tpb (rb_at st b))"
    and "rb_length (rb_at st b) = page_addr tpb (num_pages tpb (rb_at st b))"
    and "length (rb_host (rb_at st b)) = num_pages tpb (rb_at st b) * 2 ^ tpb"
proof -
  let ?B = "rb_at st b" and ?n = "length (phys_dirty (ram_list st))"
  have B: "block_ok tpb ?n ?B" "tpb < 64" "Suc ?n * 2 ^ tpb \<le> 2 ^ 64"
    using assms by (auto simp: ram_ok_def pages_fit_def)
  have le: "Suc (end_page tpb ?B) * 2 ^ tpb \<le> 2 ^ 64"
    using B by (intro order_trans [OF _ B(3)] mult_le_mono1) (simp add: block_ok_def)
  then have lt: "end_page tpb ?B * 2 ^ tpb < 2 ^ 64"
    using two_power_pos [of tpb] unfolding mult_Suc by linarith
  have "first_page tpb ?B * 2 ^ tpb < 2 ^ 64" "num_pages tpb ?B * 2 ^ tpb < 2 ^ 64"
    using le_less_trans [OF _ lt] by simp_all
  then show "unat (rb_offset ?B) = first_page tpb ?B * 2 ^ tpb" "unat (rb_length ?B) = num_pages tpb ?B * 2 ^ tpb"
    using B(1) by (metis block_ok_def unat_page_addr)+
  show "end_page tpb ?B * 2 ^ tpb + 2 ^ tpb \<le> 2 ^ 64" using le by (simp add: add.commute)
qed (use assms in \<open>auto simp: ram_ok_def block_ok_def pages_fit_def\<close>)

lemma block_end:
  assumes "ram_ok tpb st" and "b \<in> set (rl_blocks (ram_list st))"
  shows "rb_offset (rb_at st b) + rb_length (rb_at st b) = page_addr tpb (end_page tpb (rb_at st b))"
    and "unat (rb_offset (rb_at st b) + rb_length (rb_at st b)) = end_page tpb (rb_at st b) * 2 ^ tpb"
proof -
  note B = ram_ok_block [OF assms]
  have lt: "end_page tpb (rb_at st b) * 2 ^ tpb < 2 ^ 64"
    using B(6) two_power_pos [of tpb] by linarith
  show "rb_offset (rb_at st b) + rb_length (rb_at st b) = page_addr tpb (end_page tpb (rb_at st b))"
    using B(1,7,8) lt page_addr_add by metis
  then show "unat (rb_offset (rb_at st b) + rb_length (rb_at st b)) = end_page tpb (rb_at st b) * 2 ^ tpb"
    using unat_page_addr [OF lt] by simp
qed

text \<open>An address belongs to a block if its page does.\<close>

lemma in_block_iff:
  assumes "ram_ok tpb st" and "b \<in> set (rl_blocks (ram_list st))"
  shows "in_block st a b \<longleftrightarrow>
    first_page tpb (rb_at st b) \<le> unat a div 2 ^ tpb \<and> unat a div 2 ^ tpb < end_page tpb (rb_at st b)"
proof -
  note B = ram_ok_block [OF assms]
  let ?p = "first_page tpb (rb_at st b)" and ?n = "num_pages tpb (rb_at st b)" and ?P = "2 ^ tpb :: nat"
  have *: "unat a div ?P < ?p \<longleftrightarrow> unat a < ?p * ?P" "unat a div ?P < ?p + ?n \<longleftrightarrow> unat a < (?p + ?n) * ?P"
    by (simp_all add: div_less_iff_less_mult)
  have d: "(?p + ?n) * ?P = ?p * ?P + ?n * ?P" by (rule add_mult_distrib)
  show ?thesis
  proof (cases "unat a < ?p * ?P")
    case True
    then have "unat (a - rb_offset (rb_at st b)) = 2 ^ 64 + unat a - ?p * ?P"
      using B(2) by (simp add: unat_sub_if')
    moreover have "?p * ?P + ?n * ?P + ?P \<le> 2 ^ 64" using B(6) d by simp
    ultimately have "\<not> in_block st a b"
      using B(3) True unfolding word_less_nat_alt by linarith
    then show ?thesis using True * by simp
  next
    case False
    then have "unat (a - rb_offset (rb_at st b)) = unat a - ?p * ?P"
      using B(2) by (simp add: unat_sub_if')
    then show ?thesis using False B(3) * d unfolding word_less_nat_alt by auto
  qed
qed

lemma find_unique:
  assumes "b \<in> set xs" and "P b" and "\<And>c. c \<in> set xs \<Longrightarrow> P c \<Longrightarrow> c = b"
  shows "find P xs = Some b"
proof (cases "find P xs")
  case None
  then show ?thesis using assms(1,2) by (auto simp: find_None_iff)
next
  case (Some c)
  then show ?thesis using assms(3) [of c] by (auto simp: find_Some_iff)
qed

lemma find_block:
  assumes "ram_ok tpb st" and "b \<in> set (rl_blocks (ram_list st))" and "in_block st a b"
  shows "find (in_block st a) (rl_blocks (ram_list st)) = Some b"
proof (rule find_unique [where P = "in_block st a", OF assms(2,3)])
  fix c assume c: "c \<in> set (rl_blocks (ram_list st))" "in_block st a c"
  have "b \<noteq> c \<Longrightarrow> apart tpb (rb_at st b) (rb_at st c)"
    using assms(1,2) c(1) by (auto simp: ram_ok_def)
  then show "c = b"
    using assms(3) c(2) unfolding in_block_iff [OF assms(1,2)] in_block_iff [OF assms(1) c(1)] apart_def
    by (metis leD le_trans)
qed

text \<open>The block that an access moves to the head of the list.\<close>

definition to_front :: "ptr \<Rightarrow> ram_state \<Rightarrow> ram_state" where
  "to_front b st = st\<lparr>ram_list := (ram_list st)\<lparr>rl_blocks := b # remove1 b (rl_blocks (ram_list st))\<rparr>\<rparr>"

lemma to_front_simps [simp]:
  "rb_at (to_front b st) = rb_at st" "phys_dirty (ram_list (to_front b st)) = phys_dirty (ram_list st)"
  "dirty_pages (ram_list (to_front b st)) = dirty_pages (ram_list st)"
  "pages_fit tpb (ram_list (to_front b st)) = pages_fit tpb (ram_list st)"
  "counted (ram_list (to_front b st)) = counted (ram_list st)"
  by (simp_all add: to_front_def pages_fit_def counted_def dirty_count_def)

lemma set_to_front [simp]:
  "b \<in> set (rl_blocks (ram_list st)) \<Longrightarrow> distinct (rl_blocks (ram_list st)) \<Longrightarrow>
   set (rl_blocks (ram_list (to_front b st))) = set (rl_blocks (ram_list st))"
  by (auto simp: to_front_def)

lemma to_front_ok:
  assumes "ram_ok tpb st" and "b \<in> set (rl_blocks (ram_list st))"
  shows "ram_ok tpb (to_front b st)"
proof -
  have d: "distinct (rl_blocks (ram_list st))" using assms(1) by (simp add: ram_ok_def)
  have "distinct (rl_blocks (ram_list (to_front b st)))" using d by (simp add: to_front_def)
  then show ?thesis using assms d unfolding ram_ok_def by simp
qed

lemma get_ram_ptr_block:
  assumes "ram_ok tpb st" and "b \<in> set (rl_blocks (ram_list st))" and "in_block st a b"
  shows "qemu_get_ram_ptr a st = Some ((b, a - rb_offset (rb_at st b)), to_front b st)"
proof -
  have ne: "rl_blocks (ram_list st) \<noteq> []" using assms(2) by auto
  have "st\<lparr>ram_list := (ram_list st)\<lparr>rl_blocks := rl_blocks (ram_list st)\<rparr>\<rparr> = st" by simp
  moreover have "hd (rl_blocks (ram_list st)) # remove1 (hd (rl_blocks (ram_list st))) (rl_blocks (ram_list st)) =
      rl_blocks (ram_list st)" using ne by (cases "rl_blocks (ram_list st)") auto
  ultimately have "b = hd (rl_blocks (ram_list st)) \<Longrightarrow> to_front b st = st"
    by (simp add: to_front_def)
  then show ?thesis
    unfolding qemu_get_ram_ptr_def by (auto simp: find_block [OF assms] to_front_def)
qed

end
