(* ===== verification/Ram_Alloc.thy ===== *)
theory Ram_Alloc
  imports Ram_List
begin

text \<open>
  The allocation of RAM blocks: the search for the smallest sufficient gap, the invariant of the
  block list under allocation, and what happens to the count of dirty pages when flags are set at
  an address inside a page and when a block is freed.
\<close>

section \<open>The search for a gap\<close>

lemma unat_diff64: "b \<le> a \<Longrightarrow> unat (a - b :: u64) = unat a - unat b"
  by (rule unat_sub)

lemma unat_lt64: "unat (a :: u64) < 2 ^ 64"
  using unsigned_less [of a] by simp

text \<open>The inner loop finds the lowest offset of a block at or above an address.\<close>

lemma next_offset_props:
  shows "a \<le> next_offset st a"
    and "b \<in> set (rl_blocks (ram_list st)) \<Longrightarrow> a \<le> rb_offset (rb_at st b) \<Longrightarrow>
      next_offset st a \<le> rb_offset (rb_at st b)"
proof -
  let ?f = "\<lambda>b next. if rb_offset (rb_at st b) \<ge> a then min next (rb_offset (rb_at st b)) else next"
  have "a \<le> m \<Longrightarrow> a \<le> fold ?f bs m \<and> fold ?f bs m \<le> m \<and>
      (\<forall>b\<in>set bs. a \<le> rb_offset (rb_at st b) \<longrightarrow> fold ?f bs m \<le> rb_offset (rb_at st b))" for bs m
  proof (induction bs arbitrary: m)
    case (Cons b bs)
    then have "a \<le> ?f b m" by simp
    from Cons.IH [OF this] show ?case by (auto split: if_splits)
  qed simp
  from this [of RAM_ADDR_MAX "rl_blocks (ram_list st)"] show "a \<le> next_offset st a"
    "b \<in> set (rl_blocks (ram_list st)) \<Longrightarrow> a \<le> rb_offset (rb_at st b) \<Longrightarrow>
      next_offset st a \<le> rb_offset (rb_at st b)"
    unfolding next_offset_def by (auto simp: RAM_ADDR_MAX_def word_order.extremum)
qed

definition end_of :: "ram_state \<Rightarrow> ptr \<Rightarrow> u64" where
  "end_of st b = rb_offset (rb_at st b) + rb_length (rb_at st b)"

definition gap_after :: "ram_state \<Rightarrow> ptr \<Rightarrow> u64" where
  "gap_after st b = next_offset st (end_of st b) - end_of st b"

text \<open>The outer loop finds the smallest of the gaps that are large enough.\<close>

lemma find_ram_offset_gap:
  assumes "find_ram_offset sz st = Some offset" and "rl_blocks (ram_list st) \<noteq> []"
  shows "\<exists>b\<in>set (rl_blocks (ram_list st)). offset = end_of st b \<and> sz \<le> gap_after st b \<and>
    (\<forall>c\<in>set (rl_blocks (ram_list st)). sz \<le> gap_after st c \<longrightarrow> gap_after st b \<le> gap_after st c)"
proof -
  let ?f = "\<lambda>b (offset, mingap).
    let end = rb_offset (rb_at st b) + rb_length (rb_at st b); next = next_offset st end in
    if next - end \<ge> sz \<and> next - end < mingap then (end, next - end) else (offset, mingap)"
  define Q where "Q A om \<longleftrightarrow> (\<forall>c\<in>A. sz \<le> gap_after st c \<longrightarrow> snd om \<le> gap_after st c) \<and>
      (om = (RAM_ADDR_MAX, RAM_ADDR_MAX) \<or>
       (\<exists>b\<in>A. om = (end_of st b, gap_after st b) \<and> sz \<le> gap_after st b))" for A and om :: "u64 \<times> u64"
  have step: "Q (insert b A) (?f b om)" if "Q A om" for b A om
    using that unfolding Q_def
    by (cases om) (auto simp: Let_def gap_after_def end_of_def)
  have "Q A om \<Longrightarrow> Q (A \<union> set bs) (fold ?f bs om)" for A bs om
  proof (induction bs arbitrary: A om)
    case (Cons b bs)
    show ?case using Cons.IH [OF step [OF Cons.prems, of b]] by simp
  qed simp
  from this [of "{}" "(RAM_ADDR_MAX, RAM_ADDR_MAX)" "rl_blocks (ram_list st)"]
  have "Q (set (rl_blocks (ram_list st))) (fold ?f (rl_blocks (ram_list st)) (RAM_ADDR_MAX, RAM_ADDR_MAX))"
    by (simp add: Q_def)
  then show ?thesis
    using assms unfolding find_ram_offset_def Q_def
    by (auto simp: Let_def split: prod.splits if_splits)
qed

text \<open>The gap that is found has room for the new block and is clear of the others.\<close>

definition fresh_range :: "nat \<Rightarrow> nat \<Rightarrow> nat \<Rightarrow> ram_state \<Rightarrow> bool" where
  "fresh_range tpb p n st \<longleftrightarrow> (p + n) * 2 ^ tpb < 2 ^ 64 \<and>
     (\<forall>c\<in>set (rl_blocks (ram_list st)). end_page tpb (rb_at st c) \<le> p \<or> p + n \<le> first_page tpb (rb_at st c))"

lemma find_ram_offset_fresh:
  assumes ok: "ram_ok tpb st" and f: "find_ram_offset (page_addr tpb n) st = Some offset"
    and n: "0 < n" "n * 2 ^ tpb < 2 ^ 64"
  shows "\<exists>p. offset = page_addr tpb p \<and> fresh_range tpb p n st \<and>
    (p = 0 \<or> (\<exists>b\<in>set (rl_blocks (ram_list st)). p = end_page tpb (rb_at st b)))"
proof (cases "rl_blocks (ram_list st) = []")
  case True
  then show ?thesis
    using f n by (intro exI [of _ 0]) (simp add: find_ram_offset_def fresh_range_def page_addr_def)
next
  case False
  then obtain b where b: "b \<in> set (rl_blocks (ram_list st))" "offset = end_of st b"
    "page_addr tpb n \<le> gap_after st b"
    using find_ram_offset_gap [OF f] by auto
  let ?p = "end_page tpb (rb_at st b)" and ?P = "2 ^ tpb :: nat"
  have e: "offset = page_addr tpb ?p" "unat offset = ?p * ?P"
    using block_end [OF ok b(1)] b(2) by (simp_all add: end_of_def)
  have room: "unat offset + n * ?P \<le> unat (next_offset st offset)"
    using b(2,3) next_offset_props(1) [of offset st] unat_page_addr [OF n(2)]
    by (simp add: gap_after_def word_le_nat_alt unat_diff64)
  have "end_page tpb (rb_at st c) \<le> ?p \<or> ?p + n \<le> first_page tpb (rb_at st c)"
    if c: "c \<in> set (rl_blocks (ram_list st))" for c
  proof (cases "offset \<le> rb_offset (rb_at st c)")
    case True
    then have "unat (next_offset st offset) \<le> first_page tpb (rb_at st c) * ?P"
      using next_offset_props(2) [OF c] ram_ok_block(2) [OF ok c] by (simp add: word_le_nat_alt)
    then have "(?p + n) * ?P \<le> first_page tpb (rb_at st c) * ?P"
      using room e(2) by (simp add: add_mult_distrib)
    then show ?thesis by simp
  next
    case False
    then have "first_page tpb (rb_at st c) * ?P < ?p * ?P"
      using ram_ok_block(2) [OF ok c] e(2) by (simp add: word_le_nat_alt)
    then have "first_page tpb (rb_at st c) < ?p" by simp
    moreover have "b \<noteq> c \<Longrightarrow> apart tpb (rb_at st b) (rb_at st c)"
      using ok b(1) c by (simp add: ram_ok_def)
    ultimately show ?thesis by (cases "b = c") (auto simp: apart_def)
  qed
  moreover have "(?p + n) * ?P < 2 ^ 64"
    using room e(2) unat_lt64 [of "next_offset st offset"] by (simp add: add_mult_distrib)
  ultimately show ?thesis using e(1) b(1) by (auto simp: fresh_range_def)
qed

section \<open>The invariant of the block list\<close>

definition in_ram :: "nat \<Rightarrow> ram_state \<Rightarrow> nat \<Rightarrow> bool" where
  "in_ram tpb st p \<longleftrightarrow>
     (\<exists>b\<in>set (rl_blocks (ram_list st)). first_page tpb (rb_at st b) \<le> p \<and> p < end_page tpb (rb_at st b))"

text \<open>
  Besides the shape of the list: the flags end with the last block, the pages dirty for migration
  are counted, and only pages of blocks are.
\<close>

definition ram_inv :: "nat \<Rightarrow> ram_state \<Rightarrow> bool" where
  "ram_inv tpb st \<longleftrightarrow>
     ram_ok tpb st \<and> counted (ram_list st) \<and>
     unat (last_ram_offset st) = length (phys_dirty (ram_list st)) * 2 ^ tpb \<and>
     (\<forall>p<length (phys_dirty (ram_list st)). mig (phys_dirty (ram_list st) ! p) \<longrightarrow> in_ram tpb st p)"

lemma fold_max: "fold (\<lambda>b m. max m (g b)) bs (max a m) = max a (fold (\<lambda>b m. max m (g b)) bs (m :: 'a::linorder))"
  by (induction bs arbitrary: m) (simp_all add: max.assoc)

lemma fold_max_cong: "(\<And>b. b \<in> set bs \<Longrightarrow> g b = h b) \<Longrightarrow> fold (\<lambda>b m. max m (g b)) bs m = fold (\<lambda>b m. max m (h b)) bs m"
  by (rule fold_cong) auto

lemma page_fits:
  assumes "k * 2 ^ tpb < 2 ^ 64" and "tpb < 64"
  shows "Suc k * 2 ^ tpb \<le> (2 :: nat) ^ 64"
proof -
  have e: "(2 :: nat) ^ 64 = 2 ^ (64 - tpb) * 2 ^ tpb" using assms(2) by (simp flip: power_add)
  then have "k < 2 ^ (64 - tpb)" using assms(1) by (metis mult_less_cancel2)
  then show ?thesis unfolding e by (intro mult_le_mono1) simp
qed

lemma align_pages:
  assumes "unat sz + 2 ^ tpb \<le> 2 ^ 64" and "tpb < 64"
  shows "TARGET_PAGE_ALIGN tpb sz = page_addr tpb ((unat sz + 2 ^ tpb - 1) div 2 ^ tpb)"
proof -
  have one: "unat (TARGET_PAGE_SIZE tpb - 1) = 2 ^ tpb - 1"
    using unat_page_size [OF assms(2)] by (metis One_nat_def one_le_numeral one_le_power unat_1 unat_sub word_le_nat_alt)
  have "unat (sz + (TARGET_PAGE_SIZE tpb - 1)) = unat sz + (2 ^ tpb - 1)"
    using assms(1) two_power_pos [of tpb] one by (subst unat_add64) auto
  then show ?thesis
    unfolding TARGET_PAGE_ALIGN_def using assms(2) two_power_pos [of tpb]
    by (intro page_addr_unat) (simp add: unat_page_mask add_diff_eq)
qed

text \<open>The flags after the reallocation and the \<open>memset\<close>.\<close>

lemma realloc_flags:
  assumes "p \<le> length pd" and "n' = max (length pd) (p + n)" and "0 < n"
  shows "put_bytes p (replicate n 0) (map (\<lambda>i. if i < length pd then pd ! i else junk i) [0..<n']) =
    Some (take p pd @ replicate n 0 @ drop (p + n) pd)"
proof -
  let ?m = "map (\<lambda>i. if i < length pd then pd ! i else junk i) [0..<n']"
  have "take p ?m = take p pd" using assms by (intro nth_equalityI) auto
  moreover have "drop (p + n) ?m = drop (p + n) pd" using assms by (intro nth_equalityI) auto
  ultimately show ?thesis using assms by (simp add: put_bytes_eq)
qed

lemma count_cleared:
  assumes "\<And>i. p \<le> i \<Longrightarrow> i < p + n \<Longrightarrow> i < length pd \<Longrightarrow> \<not> P (pd ! i)" and "\<not> P z"
  shows "length (filter P (take p pd @ replicate n z @ drop (p + n) pd)) = length (filter P pd)"
proof -
  have "filter P (take n (drop p pd)) = []"
    using assms(1) by (auto simp: filter_empty_conv in_set_conv_nth)
  moreover have "pd = take p pd @ take n (drop p pd) @ drop (p + n) pd"
    by (metis add.commute append_take_drop_id drop_drop)
  ultimately have "length (filter P pd) = length (filter P (take p pd)) + length (filter P (drop (p + n) pd))"
    by (metis append_Nil filter_append length_append)
  then show ?thesis using assms(2) by simp
qed

section \<open>Allocation\<close>

text \<open>The state after the allocation of \<open>n\<close> pages at page \<open>p\<close>.\<close>

definition with_block :: "nat \<Rightarrow> nat \<Rightarrow> nat \<Rightarrow> ptr \<Rightarrow> RAMBlock \<Rightarrow> ram_state \<Rightarrow> ram_state" where
  "with_block tpb p n b B st =
     \<lparr>ram_list = update_pages (\<lambda>x. x OR 0xff) p (p + n)
        ((ram_list st)\<lparr>rl_blocks := b # rl_blocks (ram_list st),
           phys_dirty := take p (phys_dirty (ram_list st)) @ replicate n 0 @ drop (p + n) (phys_dirty (ram_list st))\<rparr>),
      rb_at = (rb_at st)(b := B)\<rparr>"

lemma last_offset_cons:
  assumes "b \<notin> set (rl_blocks (ram_list st))" and "rl_blocks rl = b # rl_blocks (ram_list st)"
  shows "last_ram_offset \<lparr>ram_list = rl, rb_at = (rb_at st)(b := B)\<rparr> =
    max (rb_offset B + rb_length B) (last_ram_offset st)"
proof -
  let ?e = "\<lambda>h b. rb_offset (h b) + rb_length (h b)"
  let ?bs = "rl_blocks (ram_list st)"
  have "fold (\<lambda>b m. max m (?e ((rb_at st)(b0 := B)) b)) ?bs m = fold (\<lambda>b m. max m (?e (rb_at st) b)) ?bs m"
    if "b0 = b" for m b0
    using assms that by (intro fold_max_cong) auto
  then show ?thesis
    using fold_max [of "?e (rb_at st)" ?bs "rb_offset B + rb_length B" 0]
    by (simp add: last_ram_offset_def assms(2))
qed

lemma alloc_result:
  assumes inv: "ram_inv tpb st" and new: "b \<notin> set (rl_blocks (ram_list st))"
    and sz: "unat sz + 2 ^ tpb \<le> 2 ^ 64" "n = (unat sz + 2 ^ tpb - 1) div 2 ^ tpb" "0 < n"
    and f: "find_ram_offset (TARGET_PAGE_ALIGN tpb sz) st = Some offset"
    and mem: "mem = (case host of Some h \<Rightarrow> h | None \<Rightarrow> area)"
    and B: "B = \<lparr>rb_mr = mr, rb_host = mem, rb_offset = offset, rb_length = page_addr tpb n,
      rb_flags = (if host = None then 0 else RAM_PREALLOC_MASK), rb_idstr = []\<rparr>"
  shows "\<exists>p. offset = page_addr tpb p \<and> fresh_range tpb p n st \<and> p \<le> length (phys_dirty (ram_list st)) \<and>
    n * 2 ^ tpb < 2 ^ 64 \<and>
    qemu_ram_alloc_from_ptr tpb sz host mr b area junk st = Some (offset, with_block tpb p n b B st)"
proof -
  have ok: "ram_ok tpb st" and t: "tpb < 64" using inv by (auto simp: ram_inv_def ram_ok_def pages_fit_def)
  have a: "TARGET_PAGE_ALIGN tpb sz = page_addr tpb n" using align_pages [OF sz(1) t] sz(2) by simp
  have "n * 2 ^ tpb \<le> unat sz + 2 ^ tpb - 1" unfolding sz(2) by simp
  then have n: "n * 2 ^ tpb < 2 ^ 64" using sz(1) two_power_pos [of tpb] by linarith
  obtain p where p: "offset = page_addr tpb p" "fresh_range tpb p n st"
    "p = 0 \<or> (\<exists>b\<in>set (rl_blocks (ram_list st)). p = end_page tpb (rb_at st b))"
    using find_ram_offset_fresh [OF ok _ sz(3) n] f a by auto
  let ?pd = "phys_dirty (ram_list st)"
  have le: "p \<le> length ?pd" using p(3) ram_ok_block(5) [OF ok] by auto
  have pn: "(p + n) * 2 ^ tpb < 2 ^ 64" using p(2) by (simp add: fresh_range_def)
  have pa: "unat (page_addr tpb p) = p * 2 ^ tpb"
    by (rule unat_page_addr, rule le_less_trans [OF _ pn]) simp
  have dp: "unat (drop_bit tpb (page_addr tpb k)) = k" if "k * 2 ^ tpb < 2 ^ 64" for k
    by (rule drop_page_addr [OF that])
  have ul: "unat (last_ram_offset st) = length ?pd * 2 ^ tpb" using inv by (simp add: ram_inv_def)
  have last: "last_ram_offset st = page_addr tpb (length ?pd)" by (rule page_addr_unat [OF ul])
  have fit: "length ?pd * 2 ^ tpb < 2 ^ 64" using unat_lt64 [of "last_ram_offset st"] ul by simp
  let ?n = "max (length ?pd) (p + n)"
  have "max (offset + page_addr tpb n) (last_ram_offset st) = page_addr tpb ?n"
    unfolding last p(1) page_addr_add [OF t pn]
    by (simp add: max_def word_le_nat_alt unat_page_addr [OF fit] unat_page_addr [OF pn])
  moreover have nn: "?n * 2 ^ tpb < 2 ^ 64" using fit pn by (simp add: max_def)
  ultimately have N: "unat (drop_bit tpb (max (offset + page_addr tpb n) (last_ram_offset st))) = ?n"
    by (simp only: dp)
  have fl: "put_bytes p (replicate n 0) (map (\<lambda>i. if i < length ?pd then ?pd ! i else junk i) [0..<?n]) =
      Some (take p ?pd @ replicate n 0 @ drop (p + n) ?pd)"
    by (rule realloc_flags [OF le refl sz(3)])
  let ?rl = "(ram_list st)\<lparr>rl_blocks := b # rl_blocks (ram_list st),
    phys_dirty := take p ?pd @ replicate n 0 @ drop (p + n) ?pd\<rparr>"
  have "pages_fit tpb ?rl"
    using page_fits [OF nn t] t le by (simp add: pages_fit_def max_def split: if_splits)
  from set_range_pages [OF this, of p "p + n" "0xff"]
  have r: "cpu_physical_memory_set_dirty_range tpb offset (page_addr tpb n) 0xff ?rl =
      Some (update_pages (\<lambda>x. x OR 0xff) p (p + n) ?rl)"
    using le by (simp add: p(1))
  have Bh: "(case host of
      Some h \<Rightarrow> \<lparr>rb_mr = mr, rb_host = h, rb_offset = offset, rb_length = page_addr tpb n,
                 rb_flags = RAM_PREALLOC_MASK, rb_idstr = []\<rparr>
    | None \<Rightarrow> \<lparr>rb_mr = mr, rb_host = area, rb_offset = offset, rb_length = page_addr tpb n,
               rb_flags = 0, rb_idstr = []\<rparr>) = B"
    by (simp add: B mem split: option.split)
  have lo: "last_ram_offset \<lparr>ram_list = (ram_list st)\<lparr>rl_blocks := b # rl_blocks (ram_list st)\<rparr>,
      rb_at = (rb_at st)(b := B)\<rparr> = max (offset + page_addr tpb n) (last_ram_offset st)"
    using last_offset_cons [OF new, of _ B] by (simp add: B)
  have uo: "unat (drop_bit tpb offset) = p" using pa p(1) by (simp add: unat_drop_page)
  have "qemu_ram_alloc_from_ptr tpb sz host mr b area junk st = Some (offset, with_block tpb p n b B st)"
    unfolding qemu_ram_alloc_from_ptr_def with_block_def a Let_def
    using f [unfolded a] by (simp add: Bh lo N fl r uo dp [OF n] cong: if_cong)
  then show ?thesis using p le n by blast
qed

lemma pages_of_block:
  assumes "offset = page_addr tpb p" and "(p + n) * 2 ^ tpb < 2 ^ 64"
    and "rb_offset B = offset" and "rb_length B = page_addr tpb n"
  shows "first_page tpb B = p" and "num_pages tpb B = n"
  using assms drop_page_addr [of p tpb] drop_page_addr [of n tpb]
  by (auto simp: first_page_def num_pages_def unat_drop_page add_mult_distrib)

lemma with_block_flags:
  assumes "p \<le> length (phys_dirty (ram_list st))" and "0 < n"
  shows "length (phys_dirty (ram_list (with_block tpb p n b B st))) = max (length (phys_dirty (ram_list st))) (p + n)"
    and "i < max (length (phys_dirty (ram_list st))) (p + n) \<Longrightarrow>
      phys_dirty (ram_list (with_block tpb p n b B st)) ! i =
        (if p \<le> i \<and> i < p + n then 0xff else phys_dirty (ram_list st) ! i)"
  using assms by (auto simp: with_block_def update_pages_nth nth_append)

lemma with_block_inv:
  assumes inv: "ram_inv tpb st" and new: "b \<notin> set (rl_blocks (ram_list st))"
    and p: "fresh_range tpb p n st" "p \<le> length (phys_dirty (ram_list st))" "0 < n"
    and B: "rb_offset B = page_addr tpb p" "rb_length B = page_addr tpb n" "length (rb_host B) = n * 2 ^ tpb"
  shows "ram_inv tpb (with_block tpb p n b B st)"
proof -
  let ?st = "with_block tpb p n b B st" and ?pd = "phys_dirty (ram_list st)"
  have ok: "ram_ok tpb st" and t: "tpb < 64" using inv by (auto simp: ram_inv_def ram_ok_def pages_fit_def)
  have pn: "(p + n) * 2 ^ tpb < 2 ^ 64" using p(1) by (simp add: fresh_range_def)
  note Bp = pages_of_block [OF refl pn B(1,2)]
  have ul: "unat (last_ram_offset st) = length ?pd * 2 ^ tpb" using inv by (simp add: ram_inv_def)
  have fit: "length ?pd * 2 ^ tpb < 2 ^ 64" using unat_lt64 [of "last_ram_offset st"] ul by simp
  have nn: "max (length ?pd) (p + n) * 2 ^ tpb < 2 ^ 64" using fit pn by (simp add: max_def)
  have bl: "rl_blocks (ram_list ?st) = b # rl_blocks (ram_list st)" "rb_at ?st = (rb_at st)(b := B)"
    by (simp_all add: with_block_def)
  have far: "apart tpb B (rb_at st c)" "apart tpb (rb_at st c) B" if "c \<in> set (rl_blocks (ram_list st))" for c
    using p(1) that by (auto simp: fresh_range_def apart_def Bp)
  have "block_ok tpb (max (length ?pd) (p + n)) (rb_at st c)" if "c \<in> set (rl_blocks (ram_list st))" for c
    using ok that by (auto simp: ram_ok_def block_ok_def)
  moreover have "block_ok tpb (max (length ?pd) (p + n)) B" using B p(3) by (simp add: block_ok_def Bp)
  moreover have "pages_fit tpb (ram_list ?st)"
    using page_fits [OF nn t] t by (simp add: pages_fit_def with_block_flags(1) [OF p(2,3)])
  ultimately have ok': "ram_ok tpb ?st"
    using ok new far unfolding ram_ok_def bl with_block_flags(1) [OF p(2,3)] by auto
  have "\<not> mig (?pd ! i)" if "p \<le> i" "i < p + n" "i < length ?pd" for i
    using inv p(1) that by (fastforce simp: ram_inv_def in_ram_def fresh_range_def)
  then have "dirty_count ((ram_list st)\<lparr>rl_blocks := b # rl_blocks (ram_list st),
      phys_dirty := take p ?pd @ replicate n 0 @ drop (p + n) ?pd\<rparr>) = dirty_count (ram_list st)"
    using count_cleared [of p n ?pd mig 0] by (simp add: dirty_count_def)
  then have "counted ((ram_list st)\<lparr>rl_blocks := b # rl_blocks (ram_list st),
      phys_dirty := take p ?pd @ replicate n 0 @ drop (p + n) ?pd\<rparr>)"
    using inv by (simp add: ram_inv_def counted_def)
  from counted_update_pages [OF this] have "counted (ram_list ?st)"
    using p(2) unfolding with_block_def by simp
  moreover have "unat (last_ram_offset ?st) = length (phys_dirty (ram_list ?st)) * 2 ^ tpb"
  proof -
    have "last_ram_offset ?st = max (page_addr tpb (p + n)) (last_ram_offset st)"
      using last_offset_cons [OF new, of "ram_list ?st" B] bl B page_addr_add [OF t pn]
      by (simp add: with_block_def)
    then show ?thesis
      using ul unat_page_addr [OF pn]
      by (auto simp: with_block_flags(1) [OF p(2,3)] max_def word_le_nat_alt)
  qed
  moreover have "in_ram tpb ?st i" if i: "i < length (phys_dirty (ram_list ?st))" "mig (phys_dirty (ram_list ?st) ! i)" for i
  proof (cases "p \<le> i \<and> i < p + n")
    case True
    then show ?thesis by (simp add: in_ram_def bl Bp)
  next
    case False
    then have "i < length ?pd" "mig (?pd ! i)"
      using i p(2) unfolding with_block_flags(1) [OF p(2,3)] by (auto simp: with_block_flags(2) [OF p(2,3)])
    then have "in_ram tpb st i" using inv by (simp add: ram_inv_def)
    then show ?thesis using new by (auto simp: in_ram_def bl)
  qed
  ultimately show ?thesis using ok' by (simp add: ram_inv_def)
qed

section \<open>Properties\<close>

text \<open>
  C17. Unless there is no gap, where it aborts, \<open>qemu_ram_alloc_from_ptr\<close> puts a new block at the
  head of the list, in a range of whole pages that holds the requested size and does not overlap
  another block; it marks exactly the pages of the new block dirty for all clients, and keeps the
  invariant of the list, the count of dirty pages included.
\<close>

theorem qemu_ram_alloc_correct:
  assumes "ram_inv tpb st" and "b \<notin> set (rl_blocks (ram_list st))"
    and "0 < unat sz" and "unat sz + 2 ^ tpb \<le> 2 ^ 64" and "n = (unat sz + 2 ^ tpb - 1) div 2 ^ tpb"
    and "find_ram_offset (TARGET_PAGE_ALIGN tpb sz) st \<noteq> None"
    and "mem = (case host of Some h \<Rightarrow> h | None \<Rightarrow> area)" and "length mem = n * 2 ^ tpb"
  shows "\<exists>offset st'. qemu_ram_alloc_from_ptr tpb sz host mr b area junk st = Some (offset, st') \<and>
    ram_inv tpb st' \<and> rl_blocks (ram_list st') = b # rl_blocks (ram_list st) \<and>
    rb_offset (rb_at st' b) = offset \<and> unat sz \<le> unat (rb_length (rb_at st' b)) \<and>
    rb_host (rb_at st' b) = mem \<and> rb_mr (rb_at st' b) = mr \<and>
    (\<forall>c\<in>set (rl_blocks (ram_list st)). rb_at st' c = rb_at st c \<and> apart tpb (rb_at st' b) (rb_at st c)) \<and>
    (\<forall>i<length (phys_dirty (ram_list st')). phys_dirty (ram_list st') ! i =
       (if first_page tpb (rb_at st' b) \<le> i \<and> i < end_page tpb (rb_at st' b) then 0xff
        else phys_dirty (ram_list st) ! i))"
proof -
  obtain offset where f: "find_ram_offset (TARGET_PAGE_ALIGN tpb sz) st = Some offset" using assms(6) by auto
  have dm: "n * 2 ^ tpb = unat sz + 2 ^ tpb - 1 - (unat sz + 2 ^ tpb - 1) mod 2 ^ tpb"
    unfolding assms(5) by (simp add: minus_mod_eq_div_mult)
  have "(unat sz + 2 ^ tpb - 1) mod 2 ^ tpb < (2 :: nat) ^ tpb" by simp
  then have n: "unat sz \<le> n * 2 ^ tpb" using dm by linarith
  then have n0: "0 < n" using assms(3) by (cases n) auto
  define B where "B = \<lparr>rb_mr = mr, rb_host = mem, rb_offset = offset, rb_length = page_addr tpb n,
      rb_flags = (if host = None then 0 else RAM_PREALLOC_MASK), rb_idstr = []\<rparr>"
  obtain p where p: "offset = page_addr tpb p" "fresh_range tpb p n st" "p \<le> length (phys_dirty (ram_list st))"
    "n * 2 ^ tpb < 2 ^ 64"
    "qemu_ram_alloc_from_ptr tpb sz host mr b area junk st = Some (offset, with_block tpb p n b B st)"
    using alloc_result [OF assms(1,2,4,5) n0 f assms(7) B_def] by blast
  have pn: "(p + n) * 2 ^ tpb < 2 ^ 64" using p(2) by (simp add: fresh_range_def)
  have sel: "rb_offset B = page_addr tpb p" "rb_length B = page_addr tpb n" "length (rb_host B) = n * 2 ^ tpb"
    using assms(8) by (simp_all add: B_def p(1))
  note Bp = pages_of_block [OF refl pn sel(1,2)]
  let ?st = "with_block tpb p n b B st"
  have "rb_at ?st b = B" "rl_blocks (ram_list ?st) = b # rl_blocks (ram_list st)"
    "\<forall>c\<in>set (rl_blocks (ram_list st)). rb_at ?st c = rb_at st c"
    using assms(2) by (auto simp: with_block_def)
  moreover have "\<forall>c\<in>set (rl_blocks (ram_list st)). apart tpb B (rb_at st c)"
    using p(2) by (auto simp: fresh_range_def apart_def Bp)
  moreover have "unat sz \<le> unat (rb_length B)" using n unat_page_addr [OF p(4)] by (simp add: B_def)
  ultimately show ?thesis
    using p(5) with_block_inv [OF assms(1,2) p(2,3) n0 sel] with_block_flags [OF p(3) n0] Bp
    by (intro exI [of _ offset] exI [of _ ?st]) (simp add: B_def)
qed

definition no_ram :: ram_state where
  "no_ram = \<lparr>ram_list = \<lparr>phys_dirty = [], rl_blocks = [], dirty_pages = 0\<rparr>,
     rb_at = (\<lambda>_. \<lparr>rb_mr = 0, rb_host = [], rb_offset = 0, rb_length = 0, rb_flags = 0, rb_idstr = []\<rparr>)\<rparr>"

lemma no_ram_inv: "ram_inv 10 no_ram"
  by (simp add: no_ram_def ram_inv_def ram_ok_def pages_fit_def counted_def dirty_count_def last_ram_offset_def)

theorem qemu_ram_alloc_correct_witness:
  "\<exists>offset st'. qemu_ram_alloc_from_ptr 10 1500 None 7 1 (replicate 2048 0) (\<lambda>_. 0) no_ram = Some (offset, st') \<and>
    ram_inv 10 st' \<and> rl_blocks (ram_list st') = [1] \<and> 1500 \<le> unat (rb_length (rb_at st' 1))"
  using qemu_ram_alloc_correct [OF no_ram_inv, where b = 1 and sz = 1500 and n = 2 and host = None
      and mem = "replicate 2048 0" and area = "replicate 2048 0" and mr = 7 and junk = "\<lambda>_. 0"]
  by (fastforce simp: no_ram_def find_ram_offset_def)

text \<open>
  C18. On a range of whole pages, setting and clearing flags never fails, changes the flags of
  exactly those pages, and keeps the number of pages that are dirty for migration right.
\<close>

theorem dirty_ranges_correct:
  assumes "pages_fit tpb rl" and "p \<le> q" and "q \<le> length (phys_dirty rl)" and "counted rl"
  shows "\<exists>set_rl clear_rl.
    cpu_physical_memory_set_dirty_range tpb (page_addr tpb p) (page_addr tpb (q - p)) flags rl = Some set_rl \<and>
    cpu_physical_memory_mask_dirty_range tpb (page_addr tpb p) (page_addr tpb (q - p)) flags rl = Some clear_rl \<and>
    counted set_rl \<and> counted clear_rl \<and>
    (\<forall>i<length (phys_dirty rl).
       phys_dirty set_rl ! i = (if p \<le> i \<and> i < q then phys_dirty rl ! i OR ucast flags else phys_dirty rl ! i) \<and>
       phys_dirty clear_rl ! i = (if p \<le> i \<and> i < q then phys_dirty rl ! i AND NOT (ucast flags) else phys_dirty rl ! i))"
  using set_range_pages [OF assms(1-3)] mask_range_pages [OF assms(1-3)] assms(3,4)
  by (simp add: counted_update_pages update_pages_nth)

theorem dirty_ranges_correct_witness:
  "\<exists>rl. cpu_physical_memory_mask_dirty_range 10 0 0x800 8
      \<lparr>phys_dirty = [0xff, 0xff, 0xff], rl_blocks = [], dirty_pages = 3\<rparr> = Some rl \<and> dirty_count rl = 1 \<and>
    dirty_pages rl = of_nat (dirty_count rl)"
proof -
  let ?rl = "\<lparr>phys_dirty = [0xff, 0xff, 0xff], rl_blocks = [], dirty_pages = 3\<rparr>"
  have "mig 0xff" by (simp add: bit_numeral_rec)
  then have "counted ?rl" "pages_fit 10 ?rl" by (simp_all add: counted_def dirty_count_def pages_fit_def)
  from dirty_ranges_correct [OF this(2) _ _ this(1), of 0 2 8]
  obtain rl where rl: "cpu_physical_memory_mask_dirty_range 10 0 0x800 8 ?rl = Some rl" "counted rl"
    by (auto simp: page_addr_def)
  moreover have "rl = update_pages (\<lambda>b. b AND NOT 8) 0 2 ?rl"
    using rl(1) mask_range_pages [of 10 ?rl 0 2 8] \<open>pages_fit 10 ?rl\<close> by (simp add: page_addr_def)
  then have "dirty_count rl = 1"
    by (simp add: numeral_2_eq_2 update_page_def dirty_count_def bit_numeral_rec)
  ultimately show ?thesis by (auto simp: counted_def)
qed



end
