(* ===== verification/Ram_Save.thy ===== *)
theory Ram_Save
  imports Memory_Ops Ram_List Qemu_File Xbzrle Page_Cache "HOL-Library.List_Lexorder" "HOL-Library.Signed_Division"
begin

text \<open>
  The sending side of the migration of guest RAM (\<open>arch_init.c\<close>). The global variables of the source
  are the fields of one record; \<open>f\<close> is the stream. Whether XBZRLE is on, the size of its cache and the
  allowed downtime, which \<open>migration.c\<close> holds, are arguments. So are the readings of the clock, the
  estimate of the remaining time, which the source computes in floating point, and the effect that
  the callbacks of a synchronisation of the dirty log have on RAM and its flags. Pages in the cache
  are their contents: each is referred to by its slot only.
\<close>

section \<open>Pages of equal bytes\<close>

definition RAM_SAVE_FLAG_COMPRESS :: u64 where "RAM_SAVE_FLAG_COMPRESS = 0x02"
definition RAM_SAVE_FLAG_MEM_SIZE :: u64 where "RAM_SAVE_FLAG_MEM_SIZE = 0x04"
definition RAM_SAVE_FLAG_PAGE :: u64 where "RAM_SAVE_FLAG_PAGE = 0x08"
definition RAM_SAVE_FLAG_EOS :: u64 where "RAM_SAVE_FLAG_EOS = 0x10"
definition RAM_SAVE_FLAG_CONTINUE :: u64 where "RAM_SAVE_FLAG_CONTINUE = 0x20"
definition RAM_SAVE_FLAG_XBZRLE :: u64 where "RAM_SAVE_FLAG_XBZRLE = 0x40"
definition ENCODING_FLAG_XBZRLE :: u8 where "ENCODING_FLAG_XBZRLE = 0x1"

text \<open>\<open>SPLAT\<close> of the portable version, and the loop over the \<open>n\<close> words from the \<open>i\<close>-th on.\<close>

definition SPLAT :: "u8 \<Rightarrow> u64" where
  "SPLAT b = ucast b * (NOT 0 div 255)"

fun dup_loop :: "u8 list \<Rightarrow> u64 \<Rightarrow> nat \<Rightarrow> nat \<Rightarrow> bool option" where
  "dup_loop page val i 0 = Some True"
| "dup_loop page val i (Suc n) =
     do { w \<leftarrow> get_long page (8 * i); if val \<noteq> w then Some False else dup_loop page val (Suc i) n }"

definition is_dup_page :: "nat \<Rightarrow> u8 list \<Rightarrow> bool option" where
  "is_dup_page tpb page =
     do { b \<leftarrow> get_byte page 0; dup_loop page (SPLAT b) 0 (2 ^ tpb div 8) }"

section \<open>The state of the source\<close>

record AccountingInfo =
  acct_dup_pages :: u64
  acct_norm_pages :: u64
  acct_iterations :: u64
  acct_xbzrle_bytes :: u64
  acct_xbzrle_pages :: u64
  acct_xbzrle_cache_miss :: u64
  acct_xbzrle_overflows :: u64

record 'd migration =
  mig_ram :: ram_state
  mig_mem :: "'d memory_state"
  acct_info :: AccountingInfo
  encoded_buf :: "u8 list option"
  current_buf :: "u8 list option"
  xb_cache :: "u8 list PageCache option"
  last_block :: "ptr option"
  last_offset :: u64
  bytes_transferred :: u64

abbreviation regions :: "'d migration \<Rightarrow> ptr \<Rightarrow> 'd MemoryRegion" where
  "regions s \<equiv> ms_heap (mig_mem s)"

definition acct_clear :: AccountingInfo where
  "acct_clear = \<lparr>acct_dup_pages = 0, acct_norm_pages = 0, acct_iterations = 0, acct_xbzrle_bytes = 0,
     acct_xbzrle_pages = 0, acct_xbzrle_cache_miss = 0, acct_xbzrle_overflows = 0\<rparr>"

definition dup_mig_bytes_transferred :: "nat \<Rightarrow> 'd migration \<Rightarrow> u64" where
  "dup_mig_bytes_transferred tpb s = acct_dup_pages (acct_info s) * TARGET_PAGE_SIZE tpb"

definition norm_mig_bytes_transferred :: "nat \<Rightarrow> 'd migration \<Rightarrow> u64" where
  "norm_mig_bytes_transferred tpb s = acct_norm_pages (acct_info s) * TARGET_PAGE_SIZE tpb"

definition ram_save_remaining :: "'d migration \<Rightarrow> u64" where
  "ram_save_remaining s = dirty_pages (ram_list (mig_ram s))"

definition ram_bytes_remaining :: "nat \<Rightarrow> 'd migration \<Rightarrow> u64" where
  "ram_bytes_remaining tpb s = ram_save_remaining s * TARGET_PAGE_SIZE tpb"

definition ram_bytes_total :: "ram_state \<Rightarrow> u64" where
  "ram_bytes_total st = fold (\<lambda>b total. total + rb_length (rb_at st b)) (rl_blocks (ram_list st)) 0"

definition xbzrle_cache_resize :: "nat \<Rightarrow> u64 \<Rightarrow> 'd migration \<Rightarrow> (u64 \<times> 'd migration) option" where
  "xbzrle_cache_resize tpb new_size s =
     (case xb_cache s of
        Some cache \<Rightarrow> do {
          (r, cache, freed) \<leftarrow> cache_resize cache (of_int (sint new_size sdiv 2 ^ tpb));
          Some (r * TARGET_PAGE_SIZE tpb, s\<lparr>xb_cache := Some cache\<rparr>)
        }
      | None \<Rightarrow> do { r \<leftarrow> pow2floor new_size; Some (r, s) })"

section \<open>Sending a page\<close>

definition save_block_hdr :: "RAMBlock \<Rightarrow> u64 \<Rightarrow> u64 \<Rightarrow> u64 \<Rightarrow> 's QEMUFile \<Rightarrow> 's QEMUFile option" where
  "save_block_hdr block offset cont flag f =
     do {
       f \<leftarrow> qemu_put_be64 (offset OR cont OR flag) f;
       if cont = 0 then do {
         f \<leftarrow> qemu_put_byte (of_nat (length (rb_idstr block))) f;
         qemu_put_buffer (rb_idstr block) f
       }
       else Some f
     }"

text \<open>The \<open>memcpy\<close> to the page that \<open>get_cached_data\<close> returned.\<close>

definition write_cached_data :: "'p PageCache \<Rightarrow> u64 \<Rightarrow> 'p \<Rightarrow> 'p PageCache option" where
  "write_cached_data cache addr page =
     do {
       pos \<leftarrow> cache_get_by_addr cache addr;
       items \<leftarrow> page_cache cache;
       Some (cache\<lparr>page_cache := Some (items[pos := (items ! pos)\<lparr>it_data := Some page\<rparr>])\<rparr>)
     }"

definition save_xbzrle_page ::
  "nat \<Rightarrow> u8 list \<Rightarrow> u64 \<Rightarrow> RAMBlock \<Rightarrow> u64 \<Rightarrow> u64 \<Rightarrow> bool \<Rightarrow> 's QEMUFile \<Rightarrow> 'd migration \<Rightarrow>
   (int \<times> 's QEMUFile \<times> 'd migration) option" where
  "save_xbzrle_page tpb current_data current_addr block offset cont last_stage f s =
     do {
       cache \<leftarrow> xb_cache s;
       cached \<leftarrow> cache_is_cached cache current_addr;
       if \<not> cached then do {
         cache \<leftarrow> (if \<not> last_stage then cache_insert cache current_addr (Some current_data) else Some cache);
         let s = s\<lparr>xb_cache := Some cache\<rparr>;
         Some (- 1, f, s\<lparr>acct_info := (acct_info s)\<lparr>acct_xbzrle_cache_miss := acct_xbzrle_cache_miss (acct_info s) + 1\<rparr>\<rparr>)
       }
       else do {
         prev_cached_page \<leftarrow> get_cached_data cache current_addr;
         prev_cached_page \<leftarrow> prev_cached_page;
         cur \<leftarrow> current_buf s;
         cur \<leftarrow> put_bytes 0 current_data cur;
         enc \<leftarrow> encoded_buf s;
         (encoded_len, enc) \<leftarrow> xbzrle_encode_buffer prev_cached_page cur (2 ^ tpb) enc (2 ^ tpb);
         let s = s\<lparr>current_buf := Some cur, encoded_buf := Some enc\<rparr>;
         if encoded_len = 0 then Some (0, f, s)
         else if encoded_len = - 1 then do {
           let s = s\<lparr>acct_info := (acct_info s)\<lparr>acct_xbzrle_overflows := acct_xbzrle_overflows (acct_info s) + 1\<rparr>\<rparr>;
           cache \<leftarrow> write_cached_data cache current_addr current_data;
           Some (- 1, f, s\<lparr>xb_cache := Some cache\<rparr>)
         }
         else do {
           cache \<leftarrow> (if \<not> last_stage then write_cached_data cache current_addr (take (2 ^ tpb) cur) else Some cache);
           f \<leftarrow> save_block_hdr block offset cont RAM_SAVE_FLAG_XBZRLE f;
           f \<leftarrow> qemu_put_byte ENCODING_FLAG_XBZRLE f;
           f \<leftarrow> qemu_put_be16 (of_int encoded_len) f;
           f \<leftarrow> qemu_put_buffer (take (nat encoded_len) enc) f;
           let bytes_sent = encoded_len + 1 + 2;
           let s = s\<lparr>xb_cache := Some cache,
                     acct_info := (acct_info s)\<lparr>acct_xbzrle_pages := acct_xbzrle_pages (acct_info s) + 1,
                       acct_xbzrle_bytes := acct_xbzrle_bytes (acct_info s) + of_int bytes_sent\<rparr>\<rparr>;
           Some (bytes_sent, f, s)
         }
       }
     }"

text \<open>The branch of \<open>ram_save_block\<close> for a dirty page, up to the test whether something was sent.\<close>

definition save_dirty_page ::
  "nat \<Rightarrow> bool \<Rightarrow> bool \<Rightarrow> bool \<Rightarrow> ptr \<Rightarrow> u64 \<Rightarrow> int \<Rightarrow> 's QEMUFile \<Rightarrow> 'd migration \<Rightarrow>
   (int \<times> 's QEMUFile \<times> 'd migration) option" where
  "save_dirty_page tpb tcg use_xbzrle last_stage block offset bytes_sent f s =
     do {
       let B = rb_at (mig_ram s) block;
       let cont = (if last_block s = Some block then RAM_SAVE_FLAG_CONTINUE else 0);
       ram \<leftarrow> memory_region_reset_dirty tpb tcg (regions s) (rb_mr B) offset (TARGET_PAGE_SIZE tpb)
                DIRTY_MEMORY_MIGRATION (mig_ram s);
       (p, ram) \<leftarrow> memory_region_get_ram_ptr tpb (regions s) (rb_mr B) ram;
       let s = s\<lparr>mig_ram := ram\<rparr>;
       page \<leftarrow> host_read (fst p, snd p + offset) (2 ^ tpb) ram;
       dup \<leftarrow> is_dup_page tpb page;
       (bytes_sent, p, f, s) \<leftarrow>
         (if dup then do {
            let s = s\<lparr>acct_info := (acct_info s)\<lparr>acct_dup_pages := acct_dup_pages (acct_info s) + 1\<rparr>\<rparr>;
            f \<leftarrow> save_block_hdr B offset cont RAM_SAVE_FLAG_COMPRESS f;
            b \<leftarrow> get_byte page 0;
            f \<leftarrow> qemu_put_byte b f;
            Some (1, Some page, f, s)
          }
          else if use_xbzrle then do {
            let current_addr = rb_offset B + offset;
            (bytes_sent, f, s) \<leftarrow> save_xbzrle_page tpb page current_addr B offset cont last_stage f s;
            p \<leftarrow> (if \<not> last_stage then do { cache \<leftarrow> xb_cache s; get_cached_data cache current_addr }
                  else Some (Some page));
            Some (bytes_sent, p, f, s)
          }
          else Some (bytes_sent, Some page, f, s));
       if bytes_sent = - 1 then do {
         f \<leftarrow> save_block_hdr B offset cont RAM_SAVE_FLAG_PAGE f;
         page \<leftarrow> p;
         f \<leftarrow> qemu_put_buffer (take (2 ^ tpb) page) f;
         Some (2 ^ tpb, f, s\<lparr>acct_info := (acct_info s)\<lparr>acct_norm_pages := acct_norm_pages (acct_info s) + 1\<rparr>\<rparr>)
       }
       else Some (bytes_sent, f, s)
     }"

section \<open>The search for a dirty page\<close>

text \<open>\<open>QLIST_NEXT\<close>, and the step of the loop to the next page or block.\<close>

definition next_block :: "ptr list \<Rightarrow> ptr \<Rightarrow> ptr option" where
  "next_block bs b = (case dropWhile (\<lambda>x. x \<noteq> b) bs of _ # c # _ \<Rightarrow> Some c | _ \<Rightarrow> None)"

definition next_page :: "nat \<Rightarrow> ram_state \<Rightarrow> ptr \<times> u64 \<Rightarrow> ptr \<times> u64" where
  "next_page tpb st = (\<lambda>(block, offset).
     let offset = offset + TARGET_PAGE_SIZE tpb in
     if offset \<ge> rb_length (rb_at st block) then
       (case next_block (rl_blocks (ram_list st)) block of
          Some b \<Rightarrow> (b, 0)
        | None \<Rightarrow> (hd (rl_blocks (ram_list st)), 0))
     else (block, offset))"

partial_function (option) ram_save_loop ::
  "nat \<Rightarrow> bool \<Rightarrow> bool \<Rightarrow> bool \<Rightarrow> ptr \<times> u64 \<Rightarrow> int \<Rightarrow> 's QEMUFile \<Rightarrow> 'd migration \<Rightarrow>
   (int \<times> (ptr \<times> u64) \<times> 's QEMUFile \<times> 'd migration) option" where
  "ram_save_loop tpb tcg use_xbzrle last_stage pos bytes_sent f s =
     do {
       d \<leftarrow> memory_region_get_dirty tpb (regions s) (rb_mr (rb_at (mig_ram s) (fst pos))) (snd pos)
              (TARGET_PAGE_SIZE tpb) DIRTY_MEMORY_MIGRATION (mig_ram s);
       r \<leftarrow> (if d then save_dirty_page tpb tcg use_xbzrle last_stage (fst pos) (snd pos) bytes_sent f s
             else Some (bytes_sent, f, s));
       if d \<and> fst r \<noteq> 0 then Some (fst r, pos, snd r)
       else
         let pos = next_page tpb (mig_ram (snd (snd r))) pos in
         if last_block s \<noteq> Some (fst pos) \<or> last_offset s \<noteq> snd pos
         then ram_save_loop tpb tcg use_xbzrle last_stage pos (fst r) (fst (snd r)) (snd (snd r))
         else Some (fst r, pos, snd r)
     }"

definition ram_save_block ::
  "nat \<Rightarrow> bool \<Rightarrow> bool \<Rightarrow> bool \<Rightarrow> 's QEMUFile \<Rightarrow> 'd migration \<Rightarrow> (int \<times> 's QEMUFile \<times> 'd migration) option" where
  "ram_save_block tpb tcg use_xbzrle last_stage f s =
     do {
       block \<leftarrow> (case last_block s of
                   Some b \<Rightarrow> Some b
                 | None \<Rightarrow> (case rl_blocks (ram_list (mig_ram s)) of [] \<Rightarrow> None | b # _ \<Rightarrow> Some b));
       (bytes_sent, pos, f, s) \<leftarrow>
         ram_save_loop tpb tcg use_xbzrle last_stage (block, last_offset s) (- 1) f s;
       Some (bytes_sent, f, s\<lparr>last_block := Some (fst pos), last_offset := snd pos\<rparr>)
     }"

section \<open>The stages\<close>

definition sort_ram_list :: "ram_state \<Rightarrow> ram_state" where
  "sort_ram_list st =
     st\<lparr>ram_list := (ram_list st)\<lparr>rl_blocks := sort_key (\<lambda>b. rb_idstr (rb_at st b)) (rl_blocks (ram_list st))\<rparr>\<rparr>"

text \<open>The buffers that are freed here are not used again before a new setup allocates them.\<close>

definition migration_end :: "bool \<Rightarrow> 'd migration \<Rightarrow> 'd migration option" where
  "migration_end use_xbzrle s =
     do {
       let s = s\<lparr>mig_mem := memory_global_dirty_log_stop (mig_mem s)\<rparr>;
       if use_xbzrle then do {
         cache \<leftarrow> xb_cache s;
         _ \<leftarrow> cache_fini cache;
         Some (s\<lparr>xb_cache := None\<rparr>)
       }
       else Some s
     }"

definition ram_migration_cancel :: "bool \<Rightarrow> 'd migration \<Rightarrow> 'd migration option" where
  "ram_migration_cancel use_xbzrle s = migration_end use_xbzrle s"

text \<open>The loop that makes sure all dirty bits of a block are set.\<close>

definition set_block_dirty :: "nat \<Rightarrow> (ptr \<Rightarrow> 'd MemoryRegion) \<Rightarrow> ptr \<Rightarrow> ram_state \<Rightarrow> ram_state option" where
  "set_block_dirty tpb mrs b st =
     for_pages tpb
       (\<lambda>addr st. do {
          d \<leftarrow> memory_region_get_dirty tpb mrs (rb_mr (rb_at st b)) addr (TARGET_PAGE_SIZE tpb)
                 DIRTY_MEMORY_MIGRATION st;
          if \<not> d then memory_region_set_dirty tpb mrs (rb_mr (rb_at st b)) addr (TARGET_PAGE_SIZE tpb) st
          else Some st
        }) (rb_length (rb_at st b)) 0 st"

text \<open>The entry of a block in the list of blocks that the stream starts with.\<close>

definition save_block_entry :: "RAMBlock \<Rightarrow> 's QEMUFile \<Rightarrow> 's QEMUFile option" where
  "save_block_entry B f =
     do {
       f \<leftarrow> qemu_put_byte (of_nat (length (rb_idstr B))) f;
       f \<leftarrow> qemu_put_buffer (rb_idstr B) f;
       qemu_put_be64 (rb_length B) f
     }"

text \<open>\<open>area\<close> is the memory that \<open>g_malloc\<close> returns for the copy of the current page.\<close>

definition ram_save_setup ::
  "nat \<Rightarrow> bool \<Rightarrow> u64 \<Rightarrow> u8 list \<Rightarrow> 's QEMUFile \<Rightarrow> 'd migration \<Rightarrow> (int \<times> 's QEMUFile \<times> 'd migration) option" where
  "ram_save_setup tpb use_xbzrle cache_size area f s =
     do {
       let s = s\<lparr>bytes_transferred := 0, last_block := None, last_offset := 0,
                 mig_ram := sort_ram_list (mig_ram s)\<rparr>;
       cache \<leftarrow> (if use_xbzrle
                then cache_init (of_int (sint cache_size sdiv 2 ^ tpb)) (ucast (TARGET_PAGE_SIZE tpb))
                else Some None);
       if use_xbzrle \<and> cache = None then Some (- 1, f, s\<lparr>xb_cache := None\<rparr>)
       else do {
         let s = (if use_xbzrle
                  then s\<lparr>xb_cache := cache, encoded_buf := Some (replicate (2 ^ tpb) 0),
                         current_buf := Some area, acct_info := acct_clear\<rparr>
                  else s);
         ram \<leftarrow> foldM (set_block_dirty tpb (regions s)) (rl_blocks (ram_list (mig_ram s))) (mig_ram s);
         let s = s\<lparr>mig_ram := ram, mig_mem := memory_global_dirty_log_start (mig_mem s)\<rparr>;
         f \<leftarrow> qemu_put_be64 (ram_bytes_total ram OR RAM_SAVE_FLAG_MEM_SIZE) f;
         f \<leftarrow> foldM (\<lambda>b. save_block_entry (rb_at ram b)) (rl_blocks (ram_list ram)) f;
         f \<leftarrow> qemu_put_be64 RAM_SAVE_FLAG_EOS f;
         Some (0, f, s)
       }
     }"

text \<open>
  The loop of \<open>ram_save_iterate\<close>: \<open>now i\<close> is the clock when it is read in round \<open>i\<close>. The result has
  the value of the last call of \<open>qemu_file_rate_limit\<close>.
\<close>

definition MAX_WAIT :: u64 where
  "MAX_WAIT = 50"

partial_function (option) save_iterate_loop ::
  "nat \<Rightarrow> bool \<Rightarrow> bool \<Rightarrow> (nat \<Rightarrow> u64) \<Rightarrow> u64 \<Rightarrow> nat \<Rightarrow> 's QEMUFile \<Rightarrow> 'd migration \<Rightarrow>
   (int \<times> 's QEMUFile \<times> 'd migration) option" where
  "save_iterate_loop tpb tcg use_xbzrle now start i f s =
     (if qemu_file_rate_limit f = 0 then do {
        r \<leftarrow> ram_save_block tpb tcg use_xbzrle False f s;
        let (bytes_sent, f, s) = r;
        if bytes_sent < 0 then Some (0, f, s)
        else
          let s = s\<lparr>bytes_transferred := bytes_transferred s + of_int bytes_sent,
                    acct_info := (acct_info s)\<lparr>acct_iterations := acct_iterations (acct_info s) + 1\<rparr>\<rparr> in
          if i AND 63 = 0 \<and> (now i - start) div 1000000 > MAX_WAIT then Some (0, f, s)
          else save_iterate_loop tpb tcg use_xbzrle now start (i + 1) f s
      }
      else Some (qemu_file_rate_limit f, f, s))"

text \<open>
  \<open>log_sync\<close> is what the callbacks called by a synchronisation of the dirty log do, and
  \<open>estimate remaining sent elapsed\<close> is the time estimated for the remaining bytes at the bandwidth
  of this round.
\<close>

definition sync_dirty ::
  "ptr \<Rightarrow> (ram_state \<Rightarrow> ram_state) \<Rightarrow> 'd migration \<Rightarrow> 'd migration option" where
  "sync_dirty system_memory log_sync s =
     do {
       mem \<leftarrow> memory_global_sync_dirty_bitmap system_memory (mig_mem s);
       Some (s\<lparr>mig_mem := mem, mig_ram := log_sync (mig_ram s)\<rparr>)
     }"

definition ram_save_iterate ::
  "nat \<Rightarrow> bool \<Rightarrow> bool \<Rightarrow> (nat \<Rightarrow> u64) \<Rightarrow> u64 \<Rightarrow> u64 \<Rightarrow> (u64 \<Rightarrow> u64 \<Rightarrow> u64 \<Rightarrow> u64) \<Rightarrow> u64 \<Rightarrow> ptr \<Rightarrow>
   (ram_state \<Rightarrow> ram_state) \<Rightarrow> 's QEMUFile \<Rightarrow> 'd migration \<Rightarrow> (int \<times> 's QEMUFile \<times> 'd migration) option" where
  "ram_save_iterate tpb tcg use_xbzrle now start end_time estimate max_downtime system_memory log_sync f s =
     do {
       let bytes_transferred_last = bytes_transferred s;
       (ret, f, s) \<leftarrow> save_iterate_loop tpb tcg use_xbzrle now start 0 f s;
       if ret < 0 then Some (ret, f, s)
       else do {
         f \<leftarrow> qemu_put_be64 RAM_SAVE_FLAG_EOS f;
         let sent = bytes_transferred s - bytes_transferred_last;
         let expected_time = estimate (ram_bytes_remaining tpb s) sent (end_time - start);
         if expected_time \<le> max_downtime then do {
           s \<leftarrow> sync_dirty system_memory log_sync s;
           let expected_time = estimate (ram_bytes_remaining tpb s) sent (end_time - start);
           Some (of_bool (expected_time \<le> max_downtime), f, s)
         }
         else Some (0, f, s)
       }
     }"

partial_function (option) save_complete_loop ::
  "nat \<Rightarrow> bool \<Rightarrow> bool \<Rightarrow> 's QEMUFile \<Rightarrow> 'd migration \<Rightarrow> ('s QEMUFile \<times> 'd migration) option" where
  "save_complete_loop tpb tcg use_xbzrle f s =
     do {
       r \<leftarrow> ram_save_block tpb tcg use_xbzrle True f s;
       let (bytes_sent, f, s) = r;
       if bytes_sent < 0 then Some (f, s)
       else save_complete_loop tpb tcg use_xbzrle f
              (s\<lparr>bytes_transferred := bytes_transferred s + of_int bytes_sent\<rparr>)
     }"

definition ram_save_complete ::
  "nat \<Rightarrow> bool \<Rightarrow> bool \<Rightarrow> ptr \<Rightarrow> (ram_state \<Rightarrow> ram_state) \<Rightarrow> 's QEMUFile \<Rightarrow> 'd migration \<Rightarrow>
   (int \<times> 's QEMUFile \<times> 'd migration) option" where
  "ram_save_complete tpb tcg use_xbzrle system_memory log_sync f s =
     do {
       s \<leftarrow> sync_dirty system_memory log_sync s;
       (f, s) \<leftarrow> save_complete_loop tpb tcg use_xbzrle f s;
       let s = s\<lparr>mig_mem := memory_global_dirty_log_stop (mig_mem s)\<rparr>;
       f \<leftarrow> qemu_put_be64 RAM_SAVE_FLAG_EOS f;
       Some (0, f, s)
     }"

end
