(* ===== verification/Ram_Load.thy ===== *)
theory Ram_Load
  imports Ram_Save
begin

text \<open>
  The receiving side of the migration of guest RAM (\<open>arch_init.c\<close>): \<open>ram_load\<close> and the functions it
  calls. The static variable \<open>block\<close> of \<open>host_from_stream_offset\<close> and the buffer \<open>XBZRLE.decoded_buf\<close>
  are fields of the state. Memory that the source does not initialise, the array for a block's name
  and the buffer for an encoded page, is an argument.
\<close>

record 'd incoming =
  in_ram_state :: ram_state
  in_regions :: "ptr \<Rightarrow> 'd MemoryRegion"
  cur_block :: "ptr option"
  decoded_buf :: "u8 list option"

text \<open>
  Reading a name: \<open>stk\<close> is what the array holds before. The result is the string up to its
  terminating zero, which is what \<open>strncmp\<close> compares.
\<close>

definition get_idstr :: "u8 list \<Rightarrow> 's QEMUFile \<Rightarrow> (u8 list \<times> 's QEMUFile) option" where
  "get_idstr stk f =
     do {
       (len, f) \<leftarrow> qemu_get_byte f;
       (bs, f) \<leftarrow> qemu_get_buffer (unat len) f;
       Some (takeWhile (\<lambda>b. b \<noteq> 0) (take (unat len) (bs @ drop (length bs) stk)), f)
     }"

definition find_idstr :: "u8 list \<Rightarrow> ram_state \<Rightarrow> ptr option" where
  "find_idstr i st = find (\<lambda>b. rb_idstr (rb_at st b) = i) (rl_blocks (ram_list st))"

definition host_from_stream_offset ::
  "nat \<Rightarrow> u8 list \<Rightarrow> u64 \<Rightarrow> u64 \<Rightarrow> 's QEMUFile \<Rightarrow> 'd incoming \<Rightarrow>
   (host_ptr option \<times> 's QEMUFile \<times> 'd incoming) option" where
  "host_from_stream_offset tpb stk offset flags f s =
     (if flags AND RAM_SAVE_FLAG_CONTINUE \<noteq> 0 then
        (case cur_block s of
           None \<Rightarrow> Some (None, f, s)
         | Some block \<Rightarrow> do {
             (p, ram) \<leftarrow> memory_region_get_ram_ptr tpb (in_regions s) (rb_mr (rb_at (in_ram_state s) block)) (in_ram_state s);
             Some (Some (fst p, snd p + offset), f, s\<lparr>in_ram_state := ram\<rparr>)
           })
      else do {
        (i, f) \<leftarrow> get_idstr stk f;
        let s = s\<lparr>cur_block := find_idstr i (in_ram_state s)\<rparr>;
        (case cur_block s of
           None \<Rightarrow> Some (None, f, s)
         | Some block \<Rightarrow> do {
             (p, ram) \<leftarrow> memory_region_get_ram_ptr tpb (in_regions s) (rb_mr (rb_at (in_ram_state s) block)) (in_ram_state s);
             Some (Some (fst p, snd p + offset), f, s\<lparr>in_ram_state := ram\<rparr>)
           })
      })"

definition load_xbzrle ::
  "nat \<Rightarrow> u8 list \<Rightarrow> host_ptr \<Rightarrow> 's QEMUFile \<Rightarrow> 'd incoming \<Rightarrow> (int \<times> 's QEMUFile \<times> 'd incoming) option" where
  "load_xbzrle tpb area host f s =
     do {
       let buf = (case decoded_buf s of Some b \<Rightarrow> b | None \<Rightarrow> area);
       let s = s\<lparr>decoded_buf := Some buf\<rparr>;
       (xh_flags, f) \<leftarrow> qemu_get_byte f;
       (xh_len, f) \<leftarrow> qemu_get_be16 f;
       if xh_flags \<noteq> ENCODING_FLAG_XBZRLE then Some (- 1, f, s)
       else if unat xh_len > 2 ^ tpb then Some (- 1, f, s)
       else do {
         (bs, f) \<leftarrow> qemu_get_buffer (unat xh_len) f;
         buf \<leftarrow> put_bytes 0 bs buf;
         let s = s\<lparr>decoded_buf := Some buf\<rparr>;
         let mem = rb_host (rb_at (in_ram_state s) (fst host));
         let off = unat (snd host);
         (ret, dst) \<leftarrow> xbzrle_decode_buffer buf (unat xh_len) (take (2 ^ tpb) (drop off mem)) (2 ^ tpb);
         let st = in_ram_state s;
         let s = s\<lparr>in_ram_state := st\<lparr>rb_at := (rb_at st)(fst host := (rb_at st (fst host))\<lparr>rb_host :=
                     take off mem @ dst @ drop (off + 2 ^ tpb) mem\<rparr>)\<rparr>\<rparr>;
         if ret = - 1 then Some (- 1, f, s)
         else do { c_assert (ret \<le> 2 ^ tpb); Some (0, f, s) }
       }
     }"

text \<open>The list of blocks that a stream starts with: each must be known and have the stated length.\<close>

partial_function (option) load_block_list ::
  "u8 list \<Rightarrow> u64 \<Rightarrow> ram_state \<Rightarrow> 's QEMUFile \<Rightarrow> (int \<times> 's QEMUFile) option" where
  "load_block_list stk remaining st f =
     (if remaining \<noteq> 0 then do {
        r \<leftarrow> get_idstr stk f;
        q \<leftarrow> qemu_get_be64 (snd r);
        (case find_idstr (fst r) st of
           None \<Rightarrow> Some (- EINVAL, snd q)
         | Some b \<Rightarrow>
             if rb_length (rb_at st b) \<noteq> fst q then Some (- EINVAL, snd q)
             else load_block_list stk (remaining - fst q) st (snd q))
      }
      else Some (0, f))"

text \<open>
  One round of the loop: whether the function returns, and the value that it has or will have. A
  jump to \<open>done\<close> returns, too.
\<close>

definition load_step ::
  "nat \<Rightarrow> bool \<Rightarrow> u8 list \<Rightarrow> u8 list \<Rightarrow> 's QEMUFile \<Rightarrow> 'd incoming \<Rightarrow> ((bool \<times> int) \<times> 's QEMUFile \<times> 'd incoming) option" where
  "load_step tpb use_xbzrle stk area f s =
     do {
       (addr, f) \<leftarrow> qemu_get_be64 f;
       let flags = addr AND NOT (TARGET_PAGE_MASK tpb);
       let addr = addr AND TARGET_PAGE_MASK tpb;
       (ret, f) \<leftarrow> (if flags AND RAM_SAVE_FLAG_MEM_SIZE \<noteq> 0
                   then load_block_list stk addr (in_ram_state s) f else Some (0, f));
       if ret \<noteq> 0 then Some ((True, ret), f, s)
       else do {
         (fin, ret, f, s) \<leftarrow>
           (if flags AND RAM_SAVE_FLAG_COMPRESS \<noteq> 0 then do {
              (host, f, s) \<leftarrow> host_from_stream_offset tpb stk addr flags f s;
              (case host of
                 None \<Rightarrow> Some (True, - EINVAL, f, s)
               | Some host \<Rightarrow> do {
                   (ch, f) \<leftarrow> qemu_get_byte f;
                   ram \<leftarrow> host_write host (replicate (2 ^ tpb) ch) (in_ram_state s);
                   Some (False, 0, f, s\<lparr>in_ram_state := ram\<rparr>)
                 })
            }
            else if flags AND RAM_SAVE_FLAG_PAGE \<noteq> 0 then do {
              (host, f, s) \<leftarrow> host_from_stream_offset tpb stk addr flags f s;
              (case host of
                 None \<Rightarrow> Some (True, - EINVAL, f, s)
               | Some host \<Rightarrow> do {
                   (bs, f) \<leftarrow> qemu_get_buffer (2 ^ tpb) f;
                   ram \<leftarrow> host_write host bs (in_ram_state s);
                   Some (False, 0, f, s\<lparr>in_ram_state := ram\<rparr>)
                 })
            }
            else if flags AND RAM_SAVE_FLAG_XBZRLE \<noteq> 0 then
              if \<not> use_xbzrle then Some (True, - EINVAL, f, s)
              else do {
                (host, f, s) \<leftarrow> host_from_stream_offset tpb stk addr flags f s;
                (case host of
                   None \<Rightarrow> Some (True, - EINVAL, f, s)
                 | Some host \<Rightarrow> do {
                     (rc, f, s) \<leftarrow> load_xbzrle tpb area host f s;
                     Some (rc < 0, if rc < 0 then - EINVAL else 0, f, s)
                   })
              }
            else Some (False, 0, f, s));
         if fin then Some ((True, ret), f, s)
         else if qemu_file_get_error f \<noteq> 0 then Some ((True, qemu_file_get_error f), f, s)
         else Some ((flags AND RAM_SAVE_FLAG_EOS \<noteq> 0, 0), f, s)
       }
     }"

partial_function (option) load_loop ::
  "nat \<Rightarrow> bool \<Rightarrow> u8 list \<Rightarrow> u8 list \<Rightarrow> 's QEMUFile \<Rightarrow> 'd incoming \<Rightarrow> (int \<times> 's QEMUFile \<times> 'd incoming) option" where
  "load_loop tpb use_xbzrle stk area f s =
     do {
       r \<leftarrow> load_step tpb use_xbzrle stk area f s;
       if fst (fst r) then Some (snd (fst r), snd r)
       else load_loop tpb use_xbzrle stk area (fst (snd r)) (snd (snd r))
     }"

definition ram_load ::
  "nat \<Rightarrow> bool \<Rightarrow> u8 list \<Rightarrow> u8 list \<Rightarrow> int \<Rightarrow> 's QEMUFile \<Rightarrow> 'd incoming \<Rightarrow> (int \<times> 's QEMUFile \<times> 'd incoming) option" where
  "ram_load tpb use_xbzrle stk area version_id f s =
     (if version_id < 4 \<or> version_id > 4 then Some (- EINVAL, f, s)
      else load_loop tpb use_xbzrle stk area f s)"

end
