(* ===== verification/Ram_Messages.thy ===== *)
theory Ram_Messages
  imports Ram_Load Ram_Alloc
begin

text \<open>
  What the two sides of the migration of RAM say to each other: the page messages, their encoding,
  what a message does to the memory of the receiver, and that \<open>ram_load\<close> does it.
\<close>

section \<open>Pages and their memory regions\<close>

definition get_page :: "nat \<Rightarrow> ram_state \<Rightarrow> ptr \<Rightarrow> nat \<Rightarrow> u8 list" where
  "get_page tpb st b k = take (2 ^ tpb) (drop (k * 2 ^ tpb) (rb_host (rb_at st b)))"

definition set_page :: "nat \<Rightarrow> ptr \<Rightarrow> nat \<Rightarrow> u8 list \<Rightarrow> ram_state \<Rightarrow> ram_state" where
  "set_page tpb b k page st =
     (let h = rb_host (rb_at st b) in
      st\<lparr>rb_at := (rb_at st)(b := (rb_at st b)\<lparr>rb_host := take (k * 2 ^ tpb) h @ page @ drop (Suc k * 2 ^ tpb) h\<rparr>)\<rparr>)"

definition ram_mapped :: "(ptr \<Rightarrow> 'd MemoryRegion) \<Rightarrow> ram_state \<Rightarrow> bool" where
  "ram_mapped mrs st \<longleftrightarrow>
     (\<forall>b\<in>set (rl_blocks (ram_list st)).
        mr_alias (mrs (rb_mr (rb_at st b))) = None \<and> mr_terminates (mrs (rb_mr (rb_at st b))) \<and>
        mr_ram_addr (mrs (rb_mr (rb_at st b))) = rb_offset (rb_at st b))"

lemma set_page_simps [simp]:
  "ram_list (set_page tpb b k page st) = ram_list st"
  "rb_mr (rb_at (set_page tpb b k page st) c) = rb_mr (rb_at st c)"
  "rb_offset (rb_at (set_page tpb b k page st) c) = rb_offset (rb_at st c)"
  "rb_length (rb_at (set_page tpb b k page st) c) = rb_length (rb_at st c)"
  "rb_idstr (rb_at (set_page tpb b k page st) c) = rb_idstr (rb_at st c)"
  "first_page tpb' (rb_at (set_page tpb b k page st) c) = first_page tpb' (rb_at st c)"
  "num_pages tpb' (rb_at (set_page tpb b k page st) c) = num_pages tpb' (rb_at st c)"
  by (simp_all add: set_page_def Let_def first_page_def num_pages_def)

lemma page_in_block:
  assumes "ram_ok tpb st" and "b \<in> set (rl_blocks (ram_list st))" and "k < num_pages tpb (rb_at st b)"
  shows "Suc k * 2 ^ tpb \<le> length (rb_host (rb_at st b))" and "length (get_page tpb st b k) = 2 ^ tpb"
    and "unat (page_addr tpb k) = k * 2 ^ tpb"
    and "page_addr tpb k < rb_length (rb_at st b)"
    and "rb_offset (rb_at st b) + page_addr tpb k = page_addr tpb (first_page tpb (rb_at st b) + k)"
    and "first_page tpb (rb_at st b) + k < length (phys_dirty (ram_list st))"
proof -
  note B = ram_ok_block [OF assms(1,2)]
  have le: "Suc k * 2 ^ tpb \<le> num_pages tpb (rb_at st b) * 2 ^ tpb"
    using assms(3) by (intro mult_le_mono1) simp
  then show l: "Suc k * 2 ^ tpb \<le> length (rb_host (rb_at st b))" using B(9) by simp
  have p: "0 < (2 :: nat) ^ tpb" by simp
  have s: "Suc k * 2 ^ tpb = 2 ^ tpb + k * 2 ^ tpb" by simp
  show "length (get_page tpb st b k) = 2 ^ tpb" using l s by (simp add: get_page_def)
  have "num_pages tpb (rb_at st b) * 2 ^ tpb < 2 ^ 64" using B(3) unat_lt64 [of "rb_length (rb_at st b)"] by simp
  then have "k * 2 ^ tpb < 2 ^ 64" using le s p by linarith
  then show u: "unat (page_addr tpb k) = k * 2 ^ tpb" by (rule unat_page_addr)
  show "page_addr tpb k < rb_length (rb_at st b)" using u B(3) assms(3) by (simp add: word_less_nat_alt)
  have "(first_page tpb (rb_at st b) + k) * 2 ^ tpb \<le> end_page tpb (rb_at st b) * 2 ^ tpb"
    using assms(3) by (intro mult_le_mono1) simp
  then have "(first_page tpb (rb_at st b) + k) * 2 ^ tpb < 2 ^ 64" using B(6) p by linarith
  then show "rb_offset (rb_at st b) + page_addr tpb k = page_addr tpb (first_page tpb (rb_at st b) + k)"
    using page_addr_add [OF B(1)] B(7) by metis
  show "first_page tpb (rb_at st b) + k < length (phys_dirty (ram_list st))"
    using B(5) assms(3) by linarith
qed

lemma slice_before: "i + n \<le> a \<Longrightarrow> a \<le> length h \<Longrightarrow> take n (drop i (take a h @ xs)) = take n (drop i h)"
  by (rule nth_equalityI) (auto simp: nth_append)

lemma get_set_page:
  assumes "ram_ok tpb st" and "b \<in> set (rl_blocks (ram_list st))" and "k < num_pages tpb (rb_at st b)"
    and "length page = 2 ^ tpb"
  shows "get_page tpb (set_page tpb b k page st) c j =
    (if c = b \<and> j = k then page else get_page tpb st c j)"
proof -
  let ?h = "rb_host (rb_at st b)" and ?P = "2 ^ tpb :: nat"
  have l: "Suc k * ?P \<le> length ?h" by (rule page_in_block(1) [OF assms(1-3)])
  consider "c \<noteq> b" | "c = b" "j = k" | "c = b" "j < k" | "c = b" "k < j" by fastforce
  then show ?thesis
  proof cases
    case 1
    then show ?thesis by (simp add: get_page_def set_page_def Let_def)
  next
    case 2
    then show ?thesis using l assms(4) by (simp add: get_page_def set_page_def Let_def)
  next
    case 3
    have "Suc j * ?P \<le> k * ?P" using 3 by (intro mult_le_mono1) simp
    then have "j * ?P + ?P \<le> k * ?P" "k * ?P \<le> length ?h" using l by auto
    then show ?thesis using 3 slice_before [of "j * ?P" ?P "k * ?P" ?h] by (simp add: get_page_def set_page_def Let_def)
  next
    case 4
    have "Suc k * ?P \<le> j * ?P" using 4 by (intro mult_le_mono1) simp
    then show ?thesis using 4 l assms(4) by (simp add: get_page_def set_page_def Let_def)
  qed
qed

lemma set_page_ok:
  assumes "ram_ok tpb st" and "b \<in> set (rl_blocks (ram_list st))" and "k < num_pages tpb (rb_at st b)"
    and "length page = 2 ^ tpb"
  shows "ram_ok tpb (set_page tpb b k page st)"
proof -
  have "length (rb_host (rb_at (set_page tpb b k page st) c)) = length (rb_host (rb_at st c))" for c
    using page_in_block(1) [OF assms(1-3)] assms(4) by (simp add: set_page_def Let_def)
  then have "block_ok tpb n (rb_at (set_page tpb b k page st) c) = block_ok tpb n (rb_at st c)"
    "apart tpb (rb_at (set_page tpb b k page st) c) (rb_at (set_page tpb b k page st) d) =
     apart tpb (rb_at st c) (rb_at st d)" for c d n
    by (simp_all add: block_ok_def apart_def)
  then show ?thesis using assms(1) by (simp add: ram_ok_def)
qed

lemma ram_mapped_simps [simp]:
  "ram_mapped mrs (set_page tpb b k page st) = ram_mapped mrs st"
  "b \<in> set (rl_blocks (ram_list st)) \<Longrightarrow> distinct (rl_blocks (ram_list st)) \<Longrightarrow>
   ram_mapped mrs (to_front b st) = ram_mapped mrs st"
  by (simp_all add: ram_mapped_def)

lemma get_page_to_front [simp]: "get_page tpb (to_front b st) c k = get_page tpb st c k"
  by (simp add: get_page_def)

text \<open>The pointer to the memory of a block.\<close>

lemma region_ram_ptr:
  assumes "ram_ok tpb st" and "ram_mapped mrs st" and "b \<in> set (rl_blocks (ram_list st))"
  shows "memory_region_get_ram_ptr tpb mrs (rb_mr (rb_at st b)) st = Some ((b, 0), to_front b st)"
proof -
  note B = ram_ok_block [OF assms(1,3)]
  have "first_page tpb (rb_at st b) * 2 ^ tpb < 2 ^ 64" using B(2) unat_lt64 by metis
  then have "rb_offset (rb_at st b) AND TARGET_PAGE_MASK tpb = rb_offset (rb_at st b)"
    using mask_page_addr [OF B(1)] B(7) by metis
  moreover have "in_block st (rb_offset (rb_at st b)) b"
    using B(3,4) by (simp add: word_less_nat_alt)
  ultimately show ?thesis
    using assms get_ram_ptr_block [OF assms(1,3)]
    by (subst memory_region_get_ram_ptr.simps) (simp add: ram_mapped_def)
qed

lemma host_read_page:
  assumes "ram_ok tpb st" and "b \<in> set (rl_blocks (ram_list st))" and "k < num_pages tpb (rb_at st b)"
  shows "host_read (b, page_addr tpb k) (2 ^ tpb) st = Some (get_page tpb st b k)"
  using page_in_block [OF assms] by (simp add: host_read_def get_bytes_def get_page_def add.commute)

lemma host_write_page:
  assumes "ram_ok tpb st" and "b \<in> set (rl_blocks (ram_list st))" and "k < num_pages tpb (rb_at st b)"
    and "length page = 2 ^ tpb"
  shows "host_write (b, page_addr tpb k) page st = Some (set_page tpb b k page st)"
proof -
  have "0 < length page" using assms(4) by simp
  then show ?thesis
    using page_in_block [OF assms(1-3)] assms(4)
    by (simp add: host_write_def put_bytes_eq set_page_def Let_def add.commute)
qed

section \<open>Messages\<close>

datatype payload = Fill u8 | Raw "u8 list" | Delta "u8 list"

text \<open>
  A message has the name of the block, unless the block is that of the message before, the number of
  the page in it, and what becomes of the page.
\<close>

datatype page_msg = Page_Msg (msg_id: "u8 list option") (msg_page: nat) (msg_load: payload)

fun load_flag :: "payload \<Rightarrow> u64" where
  "load_flag (Fill b) = RAM_SAVE_FLAG_COMPRESS"
| "load_flag (Raw p) = RAM_SAVE_FLAG_PAGE"
| "load_flag (Delta e) = RAM_SAVE_FLAG_XBZRLE"

definition cont_flag :: "u8 list option \<Rightarrow> u64" where
  "cont_flag i = (if i = None then RAM_SAVE_FLAG_CONTINUE else 0)"

definition enc_be64 :: "u64 \<Rightarrow> u8 list" where
  "enc_be64 v = rev (le_bytes 8 v)"

fun enc_id :: "u8 list option \<Rightarrow> u8 list" where
  "enc_id None = []"
| "enc_id (Some i) = of_nat (length i) # i"

definition enc_len :: "nat \<Rightarrow> u8 list" where
  "enc_len n = [byte_of 8 (of_nat n :: u32), ucast (of_nat n :: u32)]"

fun enc_payload :: "payload \<Rightarrow> u8 list" where
  "enc_payload (Fill b) = [b]"
| "enc_payload (Raw p) = p"
| "enc_payload (Delta e) = ENCODING_FLAG_XBZRLE # enc_len (length e) @ e"

definition enc_msg :: "nat \<Rightarrow> page_msg \<Rightarrow> u8 list" where
  "enc_msg tpb m =
     enc_be64 (page_addr tpb (msg_page m) OR cont_flag (msg_id m) OR load_flag (msg_load m)) @
     enc_id (msg_id m) @ enc_payload (msg_load m)"

definition enc_eos :: "u8 list" where
  "enc_eos = enc_be64 RAM_SAVE_FLAG_EOS"

text \<open>What a payload makes of a page.\<close>

fun new_page :: "nat \<Rightarrow> payload \<Rightarrow> u8 list \<Rightarrow> u8 list \<Rightarrow> bool" where
  "new_page tpb (Fill b) old new \<longleftrightarrow> new = replicate (2 ^ tpb) b"
| "new_page tpb (Raw p) old new \<longleftrightarrow> new = p \<and> length p = 2 ^ tpb"
| "new_page tpb (Delta e) old new \<longleftrightarrow> length e \<le> 2 ^ tpb \<and> length new = 2 ^ tpb \<and>
     (\<forall>src. take (length e) src = e \<longrightarrow>
        (\<exists>q\<le>2 ^ tpb. xbzrle_decode_buffer src (length e) old (2 ^ tpb) = Some (int q, new)))"

lemma length_new_page: "new_page tpb p old new \<Longrightarrow> length new = 2 ^ tpb"
  by (cases p) auto

text \<open>The header word, and what the receiver gets out of it.\<close>

lemma header_word:
  assumes "7 \<le> tpb" and "tpb < 64" and "k * 2 ^ tpb < 2 ^ 64" and "unat w < 2 ^ 7"
  shows "(page_addr tpb k OR w) AND NOT (TARGET_PAGE_MASK tpb) = w"
    and "(page_addr tpb k OR w) AND TARGET_PAGE_MASK tpb = page_addr tpb k"
proof -
  have "unat w < 2 ^ tpb" using assms(1,4) power_increasing [of 7 tpb "2 :: nat"] by simp
  then have w: "drop_bit tpb w = 0" using unat_drop_page [of tpb w] by (simp add: unat_eq_zero)
  have pa: "page_addr tpb k = push_bit tpb (of_nat k)"
    by (simp add: page_addr_def push_bit_eq_mult)
  have wb: "\<not> bit w n" if "tpb \<le> n" for n
  proof -
    have "bit (drop_bit tpb w) (n - tpb) = bit w n" using that by (simp add: bit_drop_bit_eq)
    then show ?thesis by (simp add: w)
  qed
  have wb': "bit w n \<Longrightarrow> n < tpb" for n using wb leI by blast
  have mb: "bit (TARGET_PAGE_MASK tpb) n \<longleftrightarrow> n < 64 \<and> tpb \<le> n" for n
    using assms(2) by (auto simp: TARGET_PAGE_MASK_def TARGET_PAGE_SIZE_def push_bit_of_1
      mask_eq_exp_minus_1 [symmetric] bit_simps)
  show "(page_addr tpb k OR w) AND NOT (TARGET_PAGE_MASK tpb) = w"
    by (rule bit_word_eqI) (auto simp: pa bit_simps mb not_le dest: wb')
  show "(page_addr tpb k OR w) AND TARGET_PAGE_MASK tpb = page_addr tpb k"
    by (rule bit_word_eqI) (auto simp: pa bit_simps mb dest: wb')
qed

section \<open>The receiver\<close>

text \<open>
  The names of the blocks are short, have no zero bytes and differ.
\<close>

definition names_ok :: "ram_state \<Rightarrow> bool" where
  "names_ok st \<longleftrightarrow>
     (\<forall>b\<in>set (rl_blocks (ram_list st)). length (rb_idstr (rb_at st b)) < 256 \<and> 0 \<notin> set (rb_idstr (rb_at st b))) \<and>
     (\<forall>b\<in>set (rl_blocks (ram_list st)). \<forall>c\<in>set (rl_blocks (ram_list st)).
        rb_idstr (rb_at st b) = rb_idstr (rb_at st c) \<longrightarrow> b = c)"

definition in_ok :: "nat \<Rightarrow> 'd incoming \<Rightarrow> bool" where
  "in_ok tpb s \<longleftrightarrow>
     ram_ok tpb (in_ram_state s) \<and> ram_mapped (in_regions s) (in_ram_state s) \<and> names_ok (in_ram_state s) \<and>
     (\<forall>b. cur_block s = Some b \<longrightarrow> b \<in> set (rl_blocks (ram_list (in_ram_state s)))) \<and>
     (\<forall>buf. decoded_buf s = Some buf \<longrightarrow> length buf = 2 ^ tpb)"

definition msg_block :: "page_msg \<Rightarrow> 'd incoming \<Rightarrow> ptr option" where
  "msg_block m s = (case msg_id m of None \<Rightarrow> cur_block s | Some i \<Rightarrow> find_idstr i (in_ram_state s))"

text \<open>A message is received: the block becomes the current one, and its page becomes the new one.\<close>

definition delivers :: "nat \<Rightarrow> page_msg \<Rightarrow> 'd incoming \<Rightarrow> 'd incoming \<Rightarrow> bool" where
  "delivers tpb m s s' \<longleftrightarrow>
     (\<exists>b page. msg_block m s = Some b \<and> b \<in> set (rl_blocks (ram_list (in_ram_state s))) \<and>
        msg_page m < num_pages tpb (rb_at (in_ram_state s) b) \<and>
        new_page tpb (msg_load m) (get_page tpb (in_ram_state s) b (msg_page m)) page \<and>
        in_ram_state s' = set_page tpb b (msg_page m) page (to_front b (in_ram_state s)) \<and>
        in_regions s' = in_regions s \<and> cur_block s' = Some b \<and>
        (decoded_buf s' = decoded_buf s \<or> (\<exists>buf. decoded_buf s' = Some buf \<and> length buf = 2 ^ tpb)))"

lemma find_idstr_block:
  assumes "names_ok st" and "b \<in> set (rl_blocks (ram_list st))"
  shows "find_idstr (rb_idstr (rb_at st b)) st = Some b"
  unfolding find_idstr_def
  by (rule find_unique [OF assms(2)]) (use assms in \<open>auto simp: names_ok_def\<close>)

lemma find_idstr_Some:
  "find_idstr i st = Some b \<Longrightarrow> b \<in> set (rl_blocks (ram_list st)) \<and> rb_idstr (rb_at st b) = i"
  by (auto simp: find_idstr_def find_Some_iff)

lemma names_ok_simps [simp]:
  "names_ok (set_page tpb b k page st) = names_ok st"
  "b \<in> set (rl_blocks (ram_list st)) \<Longrightarrow> distinct (rl_blocks (ram_list st)) \<Longrightarrow> names_ok (to_front b st) = names_ok st"
  by (simp_all add: names_ok_def)

lemma delivers_ok:
  assumes "in_ok tpb s" and "delivers tpb m s s'"
  shows "in_ok tpb s'"
proof -
  obtain b page where d: "b \<in> set (rl_blocks (ram_list (in_ram_state s)))"
    "msg_page m < num_pages tpb (rb_at (in_ram_state s) b)"
    "new_page tpb (msg_load m) (get_page tpb (in_ram_state s) b (msg_page m)) page"
    "in_ram_state s' = set_page tpb b (msg_page m) page (to_front b (in_ram_state s))"
    "in_regions s' = in_regions s" "cur_block s' = Some b"
    "decoded_buf s' = decoded_buf s \<or> (\<exists>buf. decoded_buf s' = Some buf \<and> length buf = 2 ^ tpb)"
    using assms(2) unfolding delivers_def by blast
  have dis: "distinct (rl_blocks (ram_list (in_ram_state s)))" and ok: "ram_ok tpb (in_ram_state s)"
    using assms(1) by (simp_all add: in_ok_def ram_ok_def)
  have "ram_ok tpb (in_ram_state s')"
    unfolding d(4) by (rule set_page_ok [OF to_front_ok [OF ok d(1)]]) (use d(1,2) length_new_page [OF d(3)] dis in auto)
  then show ?thesis using assms(1) d(1,4-7) dis by (auto simp: in_ok_def)
qed

context byte_source
begin

lemma be64_read:
  assumes "reading get f" and "unread rest f = enc_be64 v @ post"
  obtains f' where "qemu_get_be64 f = Some (v, f')" and "reading get f'" and "unread rest f' = post"
  using consumesD [OF consumes_be64 assms(1) assms(2) [unfolded enc_be64_def]] by blast

lemma idstr_read:
  assumes "reading get f" and "unread rest f = enc_id (Some i) @ post" and "length i < 256" and "0 \<notin> set i"
  obtains f' where "get_idstr stk f = Some (i, f')" and "reading get f'" and "unread rest f' = post"
proof -
  obtain f1 where f1: "qemu_get_byte f = Some (of_nat (length i), f1)" "reading get f1" "unread rest f1 = i @ post"
    by (rule consumesD [OF consumes_byte assms(1), of "of_nat (length i)" "i @ post"]) (use assms(2) in auto)
  obtain f2 where f2: "qemu_get_buffer (length i) f1 = Some (i, f2)" "reading get f2" "unread rest f2 = post"
    by (rule consumesD [OF consumes_buffer f1(2,3)])
  have "unat (of_nat (length i) :: u8) = length i" using assms(3) by (simp add: unat_of_nat)
  moreover have "takeWhile (\<lambda>b. b \<noteq> 0) i = i" using assms(4) by (auto simp: takeWhile_eq_all_conv)
  ultimately have "get_idstr stk f = Some (i, f2)"
    using f1(1) f2(1) by (simp add: get_idstr_def)
  then show thesis using that f2(2,3) by blast
qed

text \<open>The receiver finds the place in memory that a message is about.\<close>

lemma host_read_from_stream:
  assumes ok: "in_ok tpb s" and r: "reading get f" "unread rest f = enc_id (msg_id m) @ post"
    and b: "msg_block m s = Some b" and len: "\<And>i. msg_id m = Some i \<Longrightarrow> length i < 256 \<and> 0 \<notin> set i"
    and fl: "flags AND RAM_SAVE_FLAG_CONTINUE \<noteq> 0 \<longleftrightarrow> msg_id m = None"
  obtains f' where "host_from_stream_offset tpb stk offset flags f s =
      Some (Some (b, offset), f', s\<lparr>cur_block := Some b, in_ram_state := to_front b (in_ram_state s)\<rparr>)"
    and "reading get f'" and "unread rest f' = post"
proof -
  have bin: "b \<in> set (rl_blocks (ram_list (in_ram_state s)))"
    using ok b find_idstr_Some by (auto simp: in_ok_def msg_block_def split: option.splits)
  note p = region_ram_ptr [OF _ _ bin, of tpb "in_regions s"]
  show thesis
  proof (cases "msg_id m")
    case None
    then have "host_from_stream_offset tpb stk offset flags f s =
        Some (Some (b, offset), f, s\<lparr>in_ram_state := to_front b (in_ram_state s)\<rparr>)" "cur_block s = Some b"
      using fl b p ok by (simp_all add: host_from_stream_offset_def msg_block_def in_ok_def)
    then show thesis using that [of f] r None by simp
  next
    case (Some i)
    obtain f' where f': "get_idstr stk f = Some (i, f')" "reading get f'" "unread rest f' = post"
      using idstr_read [OF r(1)] r(2) len [OF Some] Some by metis
    have "host_from_stream_offset tpb stk offset flags f s =
        Some (Some (b, offset), f', s\<lparr>cur_block := Some b, in_ram_state := to_front b (in_ram_state s)\<rparr>)"
      using Some fl b p ok f'(1) by (simp add: host_from_stream_offset_def msg_block_def in_ok_def)
    then show thesis using that f' by blast
  qed
qed

end

lemmas ram_save_flags = RAM_SAVE_FLAG_COMPRESS_def RAM_SAVE_FLAG_MEM_SIZE_def RAM_SAVE_FLAG_PAGE_def
  RAM_SAVE_FLAG_EOS_def RAM_SAVE_FLAG_CONTINUE_def RAM_SAVE_FLAG_XBZRLE_def

text \<open>The flags in the header of a message.\<close>

lemma header_flags:
  defines "w \<equiv> \<lambda>i p. cont_flag i OR load_flag p"
  shows "unat (w i p) < 2 ^ 7" and "w i p AND RAM_SAVE_FLAG_MEM_SIZE = 0" and "w i p AND RAM_SAVE_FLAG_EOS = 0"
    and "w i p AND RAM_SAVE_FLAG_CONTINUE \<noteq> 0 \<longleftrightarrow> i = None"
    and "w i p AND RAM_SAVE_FLAG_COMPRESS \<noteq> 0 \<longleftrightarrow> (\<exists>b. p = Fill b)"
    and "w i p AND RAM_SAVE_FLAG_PAGE \<noteq> 0 \<longleftrightarrow> (\<exists>q. p = Raw q)"
    and "w i p AND RAM_SAVE_FLAG_XBZRLE \<noteq> 0 \<longleftrightarrow> (\<exists>e. p = Delta e)"
  by (cases p; cases i; simp add: w_def cont_flag_def ram_save_flags)+

lemma be16_len:
  assumes "n < 2 ^ 16"
  shows "unat (push_bit 8 (ucast (byte_of 8 (of_nat n :: u32) :: u8)) OR ucast (ucast (of_nat n :: u32) :: u8) :: u32) = n"
proof -
  have "unat (take_bit 16 (of_nat n :: u32)) = take_bit 16 (unat (of_nat n :: u32))"
    by (rule unsigned_take_bit_eq)
  also have "unat (of_nat n :: u32) = n" using assms by (simp add: unat_of_nat)
  finally show ?thesis using assms by (simp add: be16_bytes take_bit_nat_eq_self)
qed

lemma put_prefix:
  assumes "length bs \<le> length mem"
  shows "\<exists>mem'. put_bytes 0 bs mem = Some mem' \<and> length mem' = length mem \<and> take (length bs) mem' = bs"
  using assms by (cases "bs = []") (auto simp: put_bytes_eq)

context byte_source
begin

lemma load_xbzrle_delta:
  assumes ok: "ram_ok tpb (in_ram_state s)" "b \<in> set (rl_blocks (ram_list (in_ram_state s)))"
      "k < num_pages tpb (rb_at (in_ram_state s) b)"
    and r: "reading get f" "unread rest f = enc_payload (Delta e) @ post" and tpb: "tpb < 16"
    and new: "new_page tpb (Delta e) (get_page tpb (in_ram_state s) b k) page"
    and buf: "\<forall>buf. decoded_buf s = Some buf \<longrightarrow> length buf = 2 ^ tpb" "length area = 2 ^ tpb"
  shows "\<exists>f' buf. load_xbzrle tpb area (b, page_addr tpb k) f s =
      Some (0, f', s\<lparr>decoded_buf := Some buf, in_ram_state := set_page tpb b k page (in_ram_state s)\<rparr>) \<and>
    reading get f' \<and> unread rest f' = post \<and> length buf = 2 ^ tpb"
proof -
  let ?n = "length e" and ?st = "in_ram_state s"
  obtain f1 where f1: "qemu_get_byte f = Some (ENCODING_FLAG_XBZRLE, f1)" "reading get f1"
    "unread rest f1 = enc_len ?n @ e @ post"
    by (rule consumesD [OF consumes_byte r(1), of ENCODING_FLAG_XBZRLE "enc_len ?n @ e @ post"]) (use r(2) in auto)
  let ?l = "push_bit 8 (ucast (byte_of 8 (of_nat ?n :: u32) :: u8)) OR ucast (ucast (of_nat ?n :: u32) :: u8) :: u32"
  obtain f2 where f2: "qemu_get_be16 f1 = Some (?l, f2)" "reading get f2" "unread rest f2 = e @ post"
    by (rule consumesD [OF consumes_be16 f1(2) f1(3) [unfolded enc_len_def]])
  obtain f3 where f3: "qemu_get_buffer ?n f2 = Some (e, f3)" "reading get f3" "unread rest f3 = post"
    by (rule consumesD [OF consumes_buffer f2(2,3)])
  have n: "?n \<le> 2 ^ tpb" using new by simp
  have "(2 :: nat) ^ tpb < 2 ^ 16" using tpb by (rule power_strict_increasing) simp
  then have l: "unat ?l = ?n" using n by (intro be16_len) linarith
  define b0 where "b0 = (case decoded_buf s of Some x \<Rightarrow> x | None \<Rightarrow> area)"
  have "length b0 = 2 ^ tpb" using buf by (simp add: b0_def split: option.split)
  then obtain b1 where b1: "put_bytes 0 e b0 = Some b1" "length b1 = 2 ^ tpb" "take ?n b1 = e"
    using put_prefix [of e b0] n by auto
  obtain q where q: "q \<le> 2 ^ tpb"
    "xbzrle_decode_buffer b1 ?n (get_page tpb ?st b k) (2 ^ tpb) = Some (int q, page)"
    using new b1(3) by auto
  let ?h = "rb_host (rb_at ?st b)"
  have pg: "take (2 ^ tpb) (drop (unat (page_addr tpb k)) ?h) = get_page tpb ?st b k"
    using page_in_block(3) [OF ok] by (simp add: get_page_def)
  have hst: "take (unat (page_addr tpb k)) ?h @ page @ drop (unat (page_addr tpb k) + 2 ^ tpb) ?h =
      rb_host (rb_at (set_page tpb b k page ?st) b)"
    using page_in_block(3) [OF ok] by (simp add: set_page_def Let_def add.commute)
  have st: "?st\<lparr>rb_at := (rb_at ?st)(b := (rb_at ?st b)\<lparr>rb_host := rb_host (rb_at (set_page tpb b k page ?st) b)\<rparr>)\<rparr> =
      set_page tpb b k page ?st"
    by (simp add: set_page_def Let_def)
  have "load_xbzrle tpb area (b, page_addr tpb k) f s =
      Some (0, f3, s\<lparr>decoded_buf := Some b1, in_ram_state := set_page tpb b k page ?st\<rparr>)"
    unfolding load_xbzrle_def Let_def b0_def [symmetric]
    using f1(1) f2(1) f3(1) n b1(1) q by (simp add: l pg hst st)
  then show ?thesis using f3 b1(2) by blast
qed

text \<open>What a message needs to be received, and one round of the loop of \<open>ram_load\<close> on it.\<close>

end

definition receivable :: "nat \<Rightarrow> bool \<Rightarrow> page_msg \<Rightarrow> 'd incoming \<Rightarrow> ptr \<Rightarrow> u8 list \<Rightarrow> bool" where
  "receivable tpb use_xbzrle m s b page \<longleftrightarrow>
     msg_block m s = Some b \<and> msg_page m < num_pages tpb (rb_at (in_ram_state s) b) \<and>
     (\<forall>i. msg_id m = Some i \<longrightarrow> length i < 256 \<and> 0 \<notin> set i) \<and>
     ((\<exists>e. msg_load m = Delta e) \<longrightarrow> use_xbzrle) \<and>
     new_page tpb (msg_load m) (get_page tpb (in_ram_state s) b (msg_page m)) page"

context byte_source
begin

lemma load_step_msg:
  assumes ok: "in_ok tpb s" and tpb: "7 \<le> tpb" "tpb < 16" and area: "length area = 2 ^ tpb"
    and rec: "receivable tpb use_xbzrle m s b page"
    and r: "reading get f" "unread rest f = enc_msg tpb m @ post"
  shows "\<exists>f' s'. load_step tpb use_xbzrle stk area f s = Some ((False, 0), f', s') \<and>
    reading get f' \<and> unread rest f' = post \<and> delivers tpb m s s'"
proof -
  let ?k = "msg_page m" and ?p = "msg_load m" and ?st = "in_ram_state s"
  have b: "msg_block m s = Some b" "?k < num_pages tpb (rb_at ?st b)"
    and new: "new_page tpb ?p (get_page tpb ?st b ?k) page" using rec by (auto simp: receivable_def)
  have bin: "b \<in> set (rl_blocks (ram_list ?st))"
    using ok b(1) find_idstr_Some by (auto simp: in_ok_def msg_block_def split: option.splits)
  have rok: "ram_ok tpb ?st" and dis: "distinct (rl_blocks (ram_list ?st))"
    using ok by (simp_all add: in_ok_def ram_ok_def)
  define w where "w = cont_flag (msg_id m) OR load_flag ?p"
  note hf = header_flags [of "msg_id m" ?p, folded w_def]
  have k: "?k * 2 ^ tpb < 2 ^ 64" using page_in_block(3) [OF rok bin b(2)] unat_lt64 [of "page_addr tpb ?k"] by simp
  note hw = header_word [OF tpb(1) _ k hf(1)]
  obtain f1 where f1: "qemu_get_be64 f = Some (page_addr tpb ?k OR w, f1)" "reading get f1"
    "unread rest f1 = enc_id (msg_id m) @ enc_payload ?p @ post"
    by (rule be64_read [OF r(1), of "page_addr tpb ?k OR w"]) (use r(2) in \<open>simp_all add: enc_msg_def w_def or.assoc\<close>)
  let ?s1 = "s\<lparr>cur_block := Some b, in_ram_state := to_front b ?st\<rparr>"
  obtain f2 where f2: "host_from_stream_offset tpb stk (page_addr tpb ?k) w f1 s =
      Some (Some (b, page_addr tpb ?k), f2, ?s1)" "reading get f2" "unread rest f2 = enc_payload ?p @ post"
    by (rule host_read_from_stream [OF ok f1(2,3) b(1)]) (use rec hf(4) in \<open>auto simp: receivable_def\<close>)
  have ok1: "ram_ok tpb (to_front b ?st)" "b \<in> set (rl_blocks (ram_list (to_front b ?st)))"
    using to_front_ok [OF rok bin] bin dis by simp_all
  note wr = host_write_page [OF ok1, of ?k]
  define s2 where "s2 = ?s1\<lparr>in_ram_state := set_page tpb b ?k page (to_front b ?st)\<rparr>"
  have dl: "delivers tpb m s (s2\<lparr>decoded_buf := d\<rparr>)"
    if "d = decoded_buf s \<or> (\<exists>buf. d = Some buf \<and> length buf = 2 ^ tpb)" for d
    unfolding delivers_def using b bin new that
    by (intro exI [of _ b] exI [of _ page]) (simp add: s2_def)
  have err: "reading get g \<Longrightarrow> qemu_file_get_error g = 0" for g
    by (simp add: reading_def qemu_file_get_error_def)
  have "\<exists>f' d. load_step tpb use_xbzrle stk area f s = Some ((False, 0), f', s2\<lparr>decoded_buf := d\<rparr>) \<and>
      reading get f' \<and> unread rest f' = post \<and> (d = decoded_buf s \<or> (\<exists>buf. d = Some buf \<and> length buf = 2 ^ tpb))"
  proof (cases ?p)
    case (Fill c)
    obtain f3 where f3: "qemu_get_byte f2 = Some (c, f3)" "reading get f3" "unread rest f3 = post"
      by (rule consumesD [OF consumes_byte f2(2), of c post]) (use f2(3) Fill in auto)
    have "load_step tpb use_xbzrle stk area f s = Some ((False, 0), f3, s2)"
      unfolding load_step_def using f1(1) f2(1) f3 hf new Fill tpb wr b(2) err [OF f3(2)]
      by (simp add: hw s2_def Let_def)
    then show ?thesis using f3 by (intro exI [of _ f3] exI [of _ "decoded_buf s"]) (simp add: s2_def)
  next
    case (Raw q)
    obtain f3 where f3: "qemu_get_buffer (2 ^ tpb) f2 = Some (q, f3)" "reading get f3" "unread rest f3 = post"
      using consumesD [OF consumes_buffer f2(2), of q post] f2(3) Raw new by auto
    have "load_step tpb use_xbzrle stk area f s = Some ((False, 0), f3, s2)"
      unfolding load_step_def using f1(1) f2(1) f3 hf new Raw tpb wr b(2) err [OF f3(2)]
      by (simp add: hw s2_def Let_def)
    then show ?thesis using f3 by (intro exI [of _ f3] exI [of _ "decoded_buf s"]) (simp add: s2_def)
  next
    case (Delta e)
    obtain f3 buf where f3: "load_xbzrle tpb area (b, page_addr tpb ?k) f2 ?s1 =
        Some (0, f3, ?s1\<lparr>decoded_buf := Some buf, in_ram_state := set_page tpb b ?k page (to_front b ?st)\<rparr>)"
      "reading get f3" "unread rest f3 = post" "length buf = 2 ^ tpb"
      using load_xbzrle_delta [of tpb ?s1 b ?k f2 e post page area] ok1 b(2) f2(2,3) tpb(2) new Delta ok area
      by (auto simp: in_ok_def)
    have "use_xbzrle" using rec Delta by (auto simp: receivable_def)
    then have "load_step tpb use_xbzrle stk area f s = Some ((False, 0), f3, s2\<lparr>decoded_buf := Some buf\<rparr>)"
      unfolding load_step_def using f1(1) f2(1) f3 hf Delta tpb err [OF f3(2)]
      by (simp add: hw s2_def Let_def)
    then show ?thesis using f3 by blast
  qed
  then show ?thesis using dl by blast
qed

end

section \<open>Sequences of messages\<close>

text \<open>
  A receiver in state \<open>s\<close> can receive the messages one after the other, and ends in a state with
  \<open>Q\<close>.
\<close>

fun accepts :: "nat \<Rightarrow> bool \<Rightarrow> page_msg list \<Rightarrow> 'd incoming \<Rightarrow> ('d incoming \<Rightarrow> bool) \<Rightarrow> bool" where
  "accepts tpb use_xbzrle [] s Q \<longleftrightarrow> Q s"
| "accepts tpb use_xbzrle (m # ms) s Q \<longleftrightarrow>
     (\<exists>b page. receivable tpb use_xbzrle m s b page) \<and>
     (\<forall>s'. delivers tpb m s s' \<longrightarrow> accepts tpb use_xbzrle ms s' Q)"

lemma accepts_append:
  "accepts tpb ux (xs @ ys) s Q \<longleftrightarrow> accepts tpb ux xs s (\<lambda>s. accepts tpb ux ys s Q)"
  by (induction xs arbitrary: s) auto

lemma accepts_mono: "accepts tpb ux ms s Q \<Longrightarrow> (\<And>s. Q s \<Longrightarrow> R s) \<Longrightarrow> accepts tpb ux ms s R"
  by (induction ms arbitrary: s) auto

definition enc_msgs :: "nat \<Rightarrow> page_msg list \<Rightarrow> u8 list" where
  "enc_msgs tpb ms = concat (map (enc_msg tpb) ms)"

lemma enc_msgs_simps [simp]:
  "enc_msgs tpb [] = []" "enc_msgs tpb (m # ms) = enc_msg tpb m @ enc_msgs tpb ms"
  "enc_msgs tpb (xs @ ys) = enc_msgs tpb xs @ enc_msgs tpb ys"
  by (simp_all add: enc_msgs_def)

lemma eos_word:
  assumes "7 \<le> tpb" and "tpb < 64"
  shows "RAM_SAVE_FLAG_EOS AND NOT (TARGET_PAGE_MASK tpb) = RAM_SAVE_FLAG_EOS"
  using header_word(1) [OF assms, of 0 RAM_SAVE_FLAG_EOS] by (simp add: page_addr_def RAM_SAVE_FLAG_EOS_def)

context byte_source
begin

lemma load_step_eos:
  assumes "reading get f" and "unread rest f = enc_eos @ post" and "7 \<le> tpb" and "tpb < 64"
  shows "\<exists>f'. load_step tpb use_xbzrle stk area f s = Some ((True, 0), f', s) \<and> reading get f' \<and> unread rest f' = post"
proof -
  obtain f' where f': "qemu_get_be64 f = Some (RAM_SAVE_FLAG_EOS, f')" "reading get f'" "unread rest f' = post"
    using be64_read [OF assms(1)] assms(2) unfolding enc_eos_def by blast
  have "load_step tpb use_xbzrle stk area f s = Some ((True, 0), f', s)"
    unfolding load_step_def using f'(1,2) eos_word [OF assms(3,4)]
    by (simp add: Let_def reading_def qemu_file_get_error_def) (simp add: ram_save_flags)
  then show ?thesis using f' by blast
qed

lemma load_loop_msgs:
  assumes tpb: "7 \<le> tpb" "tpb < 16" and area: "length area = 2 ^ tpb"
  shows "in_ok tpb s \<Longrightarrow> accepts tpb use_xbzrle ms s Q \<Longrightarrow> reading get f \<Longrightarrow>
    unread rest f = enc_msgs tpb ms @ enc_eos @ post \<Longrightarrow>
    \<exists>f' s'. load_loop tpb use_xbzrle stk area f s = Some (0, f', s') \<and> reading get f' \<and> unread rest f' = post \<and>
      in_ok tpb s' \<and> Q s'"
proof (induction ms arbitrary: f s)
  case Nil
  then obtain f' where "load_step tpb use_xbzrle stk area f s = Some ((True, 0), f', s)" "reading get f'"
    "unread rest f' = post"
    using load_step_eos [of f post tpb use_xbzrle stk area s] tpb by auto
  then show ?case using Nil by (subst load_loop.simps) simp
next
  case (Cons m ms)
  obtain b page where rc: "receivable tpb use_xbzrle m s b page" using Cons.prems(2) by auto
  obtain f1 s1 where st: "load_step tpb use_xbzrle stk area f s = Some ((False, 0), f1, s1)"
    "reading get f1" "unread rest f1 = enc_msgs tpb ms @ enc_eos @ post" "delivers tpb m s s1"
    using load_step_msg [OF Cons.prems(1) tpb area rc Cons.prems(3), of "enc_msgs tpb ms @ enc_eos @ post" stk]
      Cons.prems(4) by auto
  have "load_loop tpb use_xbzrle stk area f s = load_loop tpb use_xbzrle stk area f1 s1"
    using st(1) by (subst load_loop.simps) simp
  then show ?case
    using Cons.IH [OF delivers_ok [OF Cons.prems(1) st(4)] _ st(2,3)] Cons.prems(2) st(4) by auto
qed

lemma ram_load_msgs:
  assumes "7 \<le> tpb" and "tpb < 16" and "length area = 2 ^ tpb" and "in_ok tpb s"
    and "accepts tpb use_xbzrle ms s Q" and "reading get f" and "unread rest f = enc_msgs tpb ms @ enc_eos @ post"
  obtains f' s' where "ram_load tpb use_xbzrle stk area 4 f s = Some (0, f', s')" and "reading get f'"
    and "unread rest f' = post" and "in_ok tpb s'" and "Q s'"
  using load_loop_msgs [OF assms(1-7), of stk] by (auto simp: ram_load_def)

end

section \<open>The list of blocks\<close>

definition enc_entry :: "RAMBlock \<Rightarrow> u8 list" where
  "enc_entry B = enc_id (Some (rb_idstr B)) @ enc_be64 (rb_length B)"

definition enc_setup :: "ram_state \<Rightarrow> u8 list" where
  "enc_setup st =
     enc_be64 (ram_bytes_total st OR RAM_SAVE_FLAG_MEM_SIZE) @
     concat (map (\<lambda>b. enc_entry (rb_at st b)) (rl_blocks (ram_list st))) @ enc_eos"

text \<open>The blocks of the sender are known to the receiver, with the same lengths.\<close>

definition same_layout :: "ram_state \<Rightarrow> ram_state \<Rightarrow> bool" where
  "same_layout src dst \<longleftrightarrow>
     (\<forall>b\<in>set (rl_blocks (ram_list src)). \<exists>c. find_idstr (rb_idstr (rb_at src b)) dst = Some c \<and>
        rb_length (rb_at dst c) = rb_length (rb_at src b))"

definition pages_total :: "nat \<Rightarrow> ram_state \<Rightarrow> ptr list \<Rightarrow> nat" where
  "pages_total tpb st bs = sum_list (map (\<lambda>b. num_pages tpb (rb_at st b)) bs)"

lemma pages_total_le:
  assumes "ram_ok tpb st" and "distinct bs" and "set bs \<subseteq> set (rl_blocks (ram_list st))"
  shows "pages_total tpb st bs \<le> length (phys_dirty (ram_list st))"
proof -
  let ?I = "\<lambda>b. {first_page tpb (rb_at st b)..<end_page tpb (rb_at st b)}"
  have dj: "?I b \<inter> ?I c = {}" if "b \<in> set bs" "c \<in> set bs" "b \<noteq> c" for b c
  proof -
    have "b \<in> set (rl_blocks (ram_list st))" "c \<in> set (rl_blocks (ram_list st))" using assms(3) that by auto
    then have "apart tpb (rb_at st b) (rb_at st c)" using assms(1) that(3) unfolding ram_ok_def by blast
    then show ?thesis unfolding apart_def by auto
  qed
  have "pages_total tpb st bs = sum (\<lambda>b. num_pages tpb (rb_at st b)) (set bs)"
    using assms(2) by (simp add: pages_total_def sum_list_distinct_conv_sum_set)
  also have "\<dots> = sum (\<lambda>b. card (?I b)) (set bs)" by simp
  also have "\<dots> = card (\<Union> (?I ` set bs))"
    using dj by (intro card_UN_disjoint [symmetric]) auto
  also have "\<dots> \<le> card {0..<length (phys_dirty (ram_list st))}"
  proof (intro card_mono UN_least)
    show "?I b \<subseteq> {0..<length (phys_dirty (ram_list st))}" if "b \<in> set bs" for b
      using ram_ok_block(5) [OF assms(1), of b] assms(3) that by auto
  qed simp
  finally show ?thesis by simp
qed

lemma total_pages:
  assumes "ram_ok tpb st" and "set bs \<subseteq> set (rl_blocks (ram_list st))"
  shows "fold (\<lambda>b total. total + rb_length (rb_at st b)) bs (page_addr tpb n) = page_addr tpb (n + pages_total tpb st bs)"
  using assms(2)
proof (induction bs arbitrary: n)
  case (Cons b bs)
  then have "rb_length (rb_at st b) = page_addr tpb (num_pages tpb (rb_at st b))"
    using ram_ok_block(8) [OF assms(1)] by simp
  then have "page_addr tpb n + rb_length (rb_at st b) = page_addr tpb (n + num_pages tpb (rb_at st b))"
    by (simp add: page_addr_def algebra_simps)
  then show ?case using Cons by (simp add: pages_total_def add.assoc)
qed (simp add: pages_total_def)

lemma idstr_same_layout:
  assumes "same_layout src dst" and "b \<in> set (rl_blocks (ram_list src))"
  obtains c where "find_idstr (rb_idstr (rb_at src b)) dst = Some c"
    and "rb_length (rb_at dst c) = rb_length (rb_at src b)"
  using assms unfolding same_layout_def by blast

lemma page_addr_diff: "page_addr tpb (m + n) - page_addr tpb m = page_addr tpb n"
  by (simp add: page_addr_def algebra_simps)

lemma page_addr_pos: "0 < n \<Longrightarrow> n * 2 ^ tpb < 2 ^ 64 \<Longrightarrow> page_addr tpb n \<noteq> 0"
  using unat_page_addr [of n tpb] by force

text \<open>The total that is left before an entry is not zero, and the entry is subtracted from it.\<close>

lemma blocks_total:
  assumes "ram_ok tpb src" and "distinct (b # bs)" and "set (b # bs) \<subseteq> set (rl_blocks (ram_list src))"
  shows "page_addr tpb (pages_total tpb src (b # bs)) \<noteq> 0"
    and "page_addr tpb (pages_total tpb src (b # bs)) - rb_length (rb_at src b) = page_addr tpb (pages_total tpb src bs)"
proof -
  have b: "b \<in> set (rl_blocks (ram_list src))" using assms(3) by simp
  show "page_addr tpb (pages_total tpb src (b # bs)) \<noteq> 0"
  proof (rule page_addr_pos)
    show "0 < pages_total tpb src (b # bs)"
      using ram_ok_block(4) [OF assms(1) b] by (simp add: pages_total_def)
    have "Suc (length (phys_dirty (ram_list src))) * 2 ^ tpb \<le> 2 ^ 64"
      using assms(1) by (simp add: ram_ok_def pages_fit_def)
    moreover have "pages_total tpb src (b # bs) * 2 ^ tpb < Suc (length (phys_dirty (ram_list src))) * 2 ^ tpb"
      using pages_total_le [OF assms] by (intro mult_strict_right_mono) auto
    ultimately show "pages_total tpb src (b # bs) * 2 ^ tpb < 2 ^ 64" by linarith
  qed
  show "page_addr tpb (pages_total tpb src (b # bs)) - rb_length (rb_at src b) = page_addr tpb (pages_total tpb src bs)"
    unfolding ram_ok_block(8) [OF assms(1) b] by (simp add: pages_total_def page_addr_diff)
qed

context byte_source
begin

lemma load_block_list_entries:
  assumes "same_layout src dst" and "ram_ok tpb src" and "names_ok src"
  shows "distinct bs \<Longrightarrow> set bs \<subseteq> set (rl_blocks (ram_list src)) \<Longrightarrow> reading get f \<Longrightarrow>
    unread rest f = concat (map (\<lambda>b. enc_entry (rb_at src b)) bs) @ post \<Longrightarrow>
    \<exists>f'. load_block_list stk (page_addr tpb (pages_total tpb src bs)) dst f = Some (0, f') \<and>
      reading get f' \<and> unread rest f' = post"
proof (induction bs arbitrary: f)
  case Nil
  then show ?case by (subst load_block_list.simps) (simp add: pages_total_def page_addr_def)
next
  case (Cons b bs)
  let ?B = "rb_at src b" and ?post = "concat (map (\<lambda>b. enc_entry (rb_at src b)) bs) @ post"
  have b: "b \<in> set (rl_blocks (ram_list src))" using Cons.prems by simp
  note T = blocks_total [OF assms(2) Cons.prems(1,2)]
  obtain c where c: "find_idstr (rb_idstr ?B) dst = Some c" "rb_length (rb_at dst c) = rb_length ?B"
    using idstr_same_layout [OF assms(1) b] .
  obtain f1 where f1: "get_idstr stk f = Some (rb_idstr ?B, f1)" "reading get f1"
    "unread rest f1 = enc_be64 (rb_length ?B) @ ?post"
    by (rule idstr_read [OF Cons.prems(3), of "rb_idstr ?B" "enc_be64 (rb_length ?B) @ ?post"])
      (use Cons.prems(4) assms(3) b in \<open>auto simp: enc_entry_def names_ok_def\<close>)
  obtain f2 where f2: "qemu_get_be64 f1 = Some (rb_length ?B, f2)" "reading get f2" "unread rest f2 = ?post"
    using be64_read [OF f1(2,3)] by blast
  have "load_block_list stk (page_addr tpb (pages_total tpb src (b # bs))) dst f =
      load_block_list stk (page_addr tpb (pages_total tpb src bs)) dst f2"
    using f1(1) f2(1) c T by (subst load_block_list.simps) simp
  then show ?case using Cons.IH [OF _ _ f2(2,3)] Cons.prems(1,2) by simp
qed

text \<open>The header of the list of blocks.\<close>

lemma setup_header:
  assumes "7 \<le> tpb" and "tpb < 64" and "ram_ok tpb src" and "reading get f" and "unread rest f = enc_setup src @ post"
  obtains f1 W where "qemu_get_be64 f = Some (W, f1)" and "reading get f1"
    and "unread rest f1 = concat (map (\<lambda>b. enc_entry (rb_at src b)) (rl_blocks (ram_list src))) @ enc_eos @ post"
    and "W AND NOT (TARGET_PAGE_MASK tpb) = RAM_SAVE_FLAG_MEM_SIZE"
    and "W AND TARGET_PAGE_MASK tpb = page_addr tpb (pages_total tpb src (rl_blocks (ram_list src)))"
proof -
  define bs where "bs = rl_blocks (ram_list src)"
  have bs: "distinct bs" "set bs \<subseteq> set (rl_blocks (ram_list src))" using assms(3) by (auto simp: bs_def ram_ok_def)
  have total: "ram_bytes_total src = page_addr tpb (pages_total tpb src bs)"
    using total_pages [OF assms(3) bs(2), of 0] by (simp add: ram_bytes_total_def bs_def page_addr_def)
  have "Suc (length (phys_dirty (ram_list src))) * 2 ^ tpb \<le> 2 ^ 64"
    using assms(3) by (simp add: ram_ok_def pages_fit_def)
  moreover have "pages_total tpb src bs * 2 ^ tpb < Suc (length (phys_dirty (ram_list src))) * 2 ^ tpb"
    using pages_total_le [OF assms(3) bs] by (intro mult_strict_right_mono) auto
  ultimately have "pages_total tpb src bs * 2 ^ tpb < 2 ^ 64" by linarith
  note hw = header_word [OF assms(1,2) this, of RAM_SAVE_FLAG_MEM_SIZE]
  have un: "unread rest f = enc_be64 (ram_bytes_total src OR RAM_SAVE_FLAG_MEM_SIZE) @
      concat (map (\<lambda>b. enc_entry (rb_at src b)) bs) @ enc_eos @ post"
    using assms(5) by (simp add: enc_setup_def bs_def)
  obtain f1 where f1: "qemu_get_be64 f = Some (ram_bytes_total src OR RAM_SAVE_FLAG_MEM_SIZE, f1)" "reading get f1"
    "unread rest f1 = concat (map (\<lambda>b. enc_entry (rb_at src b)) bs) @ enc_eos @ post"
    using be64_read [OF assms(4) un] by blast
  show ?thesis
    by (rule that [OF f1(1,2)]) (use f1(3) hw total in \<open>simp_all add: bs_def RAM_SAVE_FLAG_MEM_SIZE_def\<close>)
qed

lemma load_step_setup:
  assumes "7 \<le> tpb" and "tpb < 64" and "same_layout src (in_ram_state s)" and "ram_ok tpb src" and "names_ok src"
    and "reading get f" and "unread rest f = enc_setup src @ post"
  obtains f' where "load_step tpb use_xbzrle stk area f s = Some ((False, 0), f', s)" and "reading get f'"
    and "unread rest f' = enc_eos @ post"
proof -
  obtain f1 W where f1: "qemu_get_be64 f = Some (W, f1)" "reading get f1"
    "unread rest f1 = concat (map (\<lambda>b. enc_entry (rb_at src b)) (rl_blocks (ram_list src))) @ enc_eos @ post"
    and hw: "W AND NOT (TARGET_PAGE_MASK tpb) = RAM_SAVE_FLAG_MEM_SIZE"
      "W AND TARGET_PAGE_MASK tpb = page_addr tpb (pages_total tpb src (rl_blocks (ram_list src)))"
    by (rule setup_header [OF assms(1,2,4,6,7)])
  have bs: "distinct (rl_blocks (ram_list src))" using assms(4) by (simp add: ram_ok_def)
  obtain f2 where f2: "load_block_list stk (page_addr tpb (pages_total tpb src (rl_blocks (ram_list src)))) (in_ram_state s) f1 =
      Some (0, f2)" "reading get f2" "unread rest f2 = enc_eos @ post"
    using load_block_list_entries [OF assms(3-5) bs subset_refl f1(2,3)] by auto
  have fl: "RAM_SAVE_FLAG_MEM_SIZE AND RAM_SAVE_FLAG_MEM_SIZE \<noteq> 0" "unat RAM_SAVE_FLAG_MEM_SIZE < 2 ^ 7"
    "RAM_SAVE_FLAG_MEM_SIZE AND RAM_SAVE_FLAG_COMPRESS = 0" "RAM_SAVE_FLAG_MEM_SIZE AND RAM_SAVE_FLAG_PAGE = 0"
    "RAM_SAVE_FLAG_MEM_SIZE AND RAM_SAVE_FLAG_XBZRLE = 0" "RAM_SAVE_FLAG_MEM_SIZE AND RAM_SAVE_FLAG_EOS = 0"
    by (simp_all add: ram_save_flags)
  have "load_step tpb use_xbzrle stk area f s = Some ((False, 0), f2, s)"
    unfolding load_step_def using f1(1) f2(1,2) hw fl
    by (simp add: Let_def reading_def qemu_file_get_error_def)
  then show ?thesis using f2(2,3) that by blast
qed

lemma ram_load_setup:
  assumes "7 \<le> tpb" and "tpb < 64" and "same_layout src (in_ram_state s)" and "ram_ok tpb src" and "names_ok src"
    and "reading get f" and "unread rest f = enc_setup src @ post"
  obtains f' where "ram_load tpb use_xbzrle stk area 4 f s = Some (0, f', s)" and "reading get f'"
    and "unread rest f' = post"
proof -
  obtain f1 where f1: "load_step tpb use_xbzrle stk area f s = Some ((False, 0), f1, s)" "reading get f1"
    "unread rest f1 = enc_eos @ post"
    using load_step_setup [OF assms] .
  obtain f2 where f2: "load_step tpb use_xbzrle stk area f1 s = Some ((True, 0), f2, s)" "reading get f2"
    "unread rest f2 = post"
    using load_step_eos [OF f1(2,3) assms(1,2)] by blast
  have "load_loop tpb use_xbzrle stk area f s = Some (0, f2, s)"
    using f1(1) f2(1) by (subst load_loop.simps, simp) (subst load_loop.simps, simp)
  then show ?thesis using f2(2,3) that by (simp add: ram_load_def)
qed

end

end
