(* ===== verification/Ram_Sender.thy ===== *)
theory Ram_Sender
  imports Ram_Messages
begin

text \<open>
  The sending side of the migration of RAM, page by page: a dirty page becomes one message, or none
  if the receiver has it already, and the memory of the receiver then agrees in this page.
\<close>

section \<open>Pages of equal bytes\<close>

lemma SPLAT_bytes: "SPLAT b = le_val (replicate 8 b)"
proof -
  have "le_val (replicate 8 b) = (of_int (bytes_int (replicate 8 b)) :: u64)" by (rule le_val_of_int)
  also have "\<dots> = of_int (uint b) * 0x0101010101010101"
    by (simp add: numeral_eq_Suc algebra_simps)
  finally show ?thesis by (simp add: SPLAT_def)
qed

lemma dup_loop_iff:
  assumes "8 * (i + n) \<le> length page"
  shows "dup_loop page (SPLAT b) i n = Some (\<forall>j. 8 * i \<le> j \<and> j < 8 * (i + n) \<longrightarrow> page ! j = b)"
  using assms
proof (induction n arbitrary: i)
  case (Suc n)
  let ?w = "take 8 (drop (8 * i) page)"
  have w: "get_long page (8 * i) = Some (le_val ?w)" "length ?w = 8"
    using Suc.prems by (simp_all add: get_long_in)
  have eq: "SPLAT b = le_val ?w \<longleftrightarrow> ?w = replicate 8 b"
    unfolding SPLAT_bytes using le_val_inj8 [of "replicate 8 b" ?w] w(2) by auto
  have "?w = replicate 8 b \<longleftrightarrow> (\<forall>j. 8 * i \<le> j \<and> j < 8 * Suc i \<longrightarrow> page ! j = b)"
  proof
    assume *: "?w = replicate 8 b"
    show "\<forall>j. 8 * i \<le> j \<and> j < 8 * Suc i \<longrightarrow> page ! j = b"
    proof (intro allI impI)
      fix j assume j: "8 * i \<le> j \<and> j < 8 * Suc i"
      then have j8: "j - 8 * i < 8" by auto
      then have "?w ! (j - 8 * i) = page ! j" using Suc.prems j by simp
      then show "page ! j = b" using * j8 by simp
    qed
  next
    assume "\<forall>j. 8 * i \<le> j \<and> j < 8 * Suc i \<longrightarrow> page ! j = b"
    then show "?w = replicate 8 b" using Suc.prems by (intro nth_equalityI) auto
  qed
  moreover have "(\<forall>j. 8 * i \<le> j \<and> j < 8 * (i + Suc n) \<longrightarrow> page ! j = b) \<longleftrightarrow>
      (\<forall>j. 8 * i \<le> j \<and> j < 8 * Suc i \<longrightarrow> page ! j = b) \<and>
      (\<forall>j. 8 * Suc i \<le> j \<and> j < 8 * (Suc i + n) \<longrightarrow> page ! j = b)"
    by (auto simp: not_le) (metis not_le)+
  ultimately show ?case
    using Suc.IH [of "Suc i"] Suc.prems w(1) eq by simp
qed auto

lemma is_dup_page_iff:
  assumes "length page = 2 ^ tpb" and "3 \<le> tpb"
  shows "is_dup_page tpb page = Some (\<exists>b. page = replicate (2 ^ tpb) b)"
proof -
  have "(2 :: nat) ^ (3 + (tpb - 3)) = 2 ^ 3 * 2 ^ (tpb - 3)" by (rule power_add)
  then have "(2 :: nat) ^ tpb = 8 * 2 ^ (tpb - 3)" using assms(2) by simp
  then have n: "8 * (2 ^ tpb div 8) = (2 :: nat) ^ tpb" by simp
  have "0 < length page" using assms(1) by simp
  then have "is_dup_page tpb page = Some (\<forall>j<2 ^ tpb. page ! j = page ! 0)"
    using dup_loop_iff [of 0 "2 ^ tpb div 8" page "page ! 0"] n assms(1)
    by (simp add: is_dup_page_def get_byte_def)
  moreover have "(\<forall>j<2 ^ tpb. page ! j = page ! 0) \<longleftrightarrow> (\<exists>b. page = replicate (2 ^ tpb) b)"
    using assms(1) by (auto simp: list_eq_iff_nth_eq)
  ultimately show ?thesis by simp
qed

section \<open>The dirty flag of a page\<close>

definition page_no :: "nat \<Rightarrow> ram_state \<Rightarrow> ptr \<Rightarrow> nat \<Rightarrow> nat" where
  "page_no tpb st b k = first_page tpb (rb_at st b) + k"

definition dirty :: "nat \<Rightarrow> ram_state \<Rightarrow> ptr \<Rightarrow> nat \<Rightarrow> bool" where
  "dirty tpb st b k = mig (phys_dirty (ram_list st) ! page_no tpb st b k)"

definition clean_page :: "nat \<Rightarrow> ptr \<Rightarrow> nat \<Rightarrow> ram_state \<Rightarrow> ram_state" where
  "clean_page tpb b k st =
     st\<lparr>ram_list := update_page (\<lambda>x. x AND NOT 8) (page_no tpb st b k) (ram_list st)\<rparr>"

text \<open>A page of a block that there is.\<close>

definition is_page :: "nat \<Rightarrow> ram_state \<Rightarrow> ptr \<Rightarrow> nat \<Rightarrow> bool" where
  "is_page tpb st b k \<longleftrightarrow> b \<in> set (rl_blocks (ram_list st)) \<and> k < num_pages tpb (rb_at st b)"

lemma page_no_less:
  assumes "ram_ok tpb st" and "is_page tpb st b k"
  shows "page_no tpb st b k < length (phys_dirty (ram_list st))"
  using page_in_block(6) [OF assms(1)] assms(2) by (simp add: is_page_def page_no_def)

lemma page_no_inject:
  assumes "ram_ok tpb st" and "is_page tpb st b k" and "is_page tpb st c j"
  shows "page_no tpb st b k = page_no tpb st c j \<longleftrightarrow> b = c \<and> k = j"
proof -
  have "b \<noteq> c \<Longrightarrow> apart tpb (rb_at st b) (rb_at st c)" using assms by (auto simp: ram_ok_def is_page_def)
  then show ?thesis using assms(2,3) by (cases "b = c") (auto simp: is_page_def page_no_def apart_def)
qed

lemma clean_page_simps [simp]:
  "rb_at (clean_page tpb b k st) = rb_at st"
  "rl_blocks (ram_list (clean_page tpb b k st)) = rl_blocks (ram_list st)"
  "length (phys_dirty (ram_list (clean_page tpb b k st))) = length (phys_dirty (ram_list st))"
  "get_page tpb' (clean_page tpb b k st) c j = get_page tpb' st c j"
  "ram_ok tpb' (clean_page tpb b k st) = ram_ok tpb' st"
  "ram_mapped mrs (clean_page tpb b k st) = ram_mapped mrs st"
  "names_ok (clean_page tpb b k st) = names_ok st"
  "is_page tpb' (clean_page tpb b k st) c j = is_page tpb' st c j"
  "page_no tpb' (clean_page tpb b k st) c j = page_no tpb' st c j"
  by (simp_all add: clean_page_def get_page_def ram_ok_def ram_mapped_def names_ok_def is_page_def page_no_def)

lemma to_front_page [simp]:
  "page_no tpb (to_front b st) c j = page_no tpb st c j"
  "dirty tpb (to_front b st) c j = dirty tpb st c j"
  "b \<in> set (rl_blocks (ram_list st)) \<Longrightarrow> distinct (rl_blocks (ram_list st)) \<Longrightarrow>
   is_page tpb (to_front b st) c j = is_page tpb st c j"
  "dirty_count (ram_list (to_front b st)) = dirty_count (ram_list st)"
  by (simp_all add: page_no_def dirty_def is_page_def dirty_count_def)

lemma mig_8: "\<not> mig (x AND - 9)"
proof -
  have "\<not> bit (- 9 :: u8) 3" by simp
  then show ?thesis by (simp add: bit_and_iff)
qed

lemma migration_flag: "2 ^ DIRTY_MEMORY_MIGRATION = MIGRATION_DIRTY_FLAG"
  by (simp add: DIRTY_MEMORY_MIGRATION_def MIGRATION_DIRTY_FLAG_def)

lemma dirty_clean_page:
  assumes "ram_ok tpb st" and "is_page tpb st b k" and "is_page tpb st c j"
  shows "dirty tpb (clean_page tpb b k st) c j \<longleftrightarrow> dirty tpb st c j \<and> (c, j) \<noteq> (b, k)"
  using page_no_inject [OF assms(1,3,2)] page_no_less [OF assms(1,2)] page_no_less [OF assms(1,3)]
  unfolding dirty_def clean_page_simps
  by (auto simp: clean_page_def update_page_def nth_list_update mig_8)

lemma dirty_count_clean_page:
  assumes "ram_ok tpb st" and "is_page tpb st b k" and "dirty tpb st b k"
  shows "Suc (dirty_count (ram_list (clean_page tpb b k st))) = dirty_count (ram_list st)"
  using length_filter_update [OF page_no_less [OF assms(1,2)], of mig "phys_dirty (ram_list st) ! page_no tpb st b k AND NOT 8"]
    assms(3)
  by (simp add: dirty_count_def clean_page_def update_page_def dirty_def mig_8)

lemma get_dirty_region:
  assumes "ram_ok tpb st" and "ram_mapped mrs st" and "is_page tpb st b k"
  shows "memory_region_get_dirty tpb mrs (rb_mr (rb_at st b)) (page_addr tpb k) (TARGET_PAGE_SIZE tpb)
    DIRTY_MEMORY_MIGRATION st = Some (dirty tpb st b k)"
proof -
  have b: "b \<in> set (rl_blocks (ram_list st))" "k < num_pages tpb (rb_at st b)" using assms(3) by (simp_all add: is_page_def)
  have fit: "pages_fit tpb (ram_list st)" using assms(1) by (simp add: ram_ok_def)
  note g = get_dirty_page [OF fit page_no_less [OF assms(1,3)], of MIGRATION_DIRTY_FLAG]
  show ?thesis
    using assms(2) b page_in_block(5) [OF assms(1) b] g
    by (simp add: memory_region_get_dirty_def ram_mapped_def migration_flag page_no_def dirty_def mig_flag)
qed

lemma reset_dirty_region:
  assumes "ram_ok tpb st" and "ram_mapped mrs st" and "is_page tpb st b k"
  shows "memory_region_reset_dirty tpb tcg mrs (rb_mr (rb_at st b)) (page_addr tpb k) (TARGET_PAGE_SIZE tpb)
    DIRTY_MEMORY_MIGRATION st = Some (clean_page tpb b k st)"
proof -
  define p where "p = page_no tpb st b k"
  have b: "b \<in> set (rl_blocks (ram_list st))" "k < num_pages tpb (rb_at st b)" using assms(3) by (simp_all add: is_page_def)
  have fit: "pages_fit tpb (ram_list st)" using assms(1) by (simp add: ram_ok_def)
  note p = page_no_less [OF assms(1,3), folded p_def]
  note d = pages_fitD [OF fit p]
  have one: "page_addr tpb (Suc p) - page_addr tpb p = page_addr tpb (Suc p - p)"
    using page_addr_diff [of tpb p 1] by simp
  have nz: "page_addr tpb (Suc p) \<noteq> page_addr tpb p" using page_addr_inject [OF d(3,2)] by simp
  have m: "cpu_physical_memory_mask_dirty_range tpb (page_addr tpb p) (page_addr tpb (Suc p - p))
      (push_bit DIRTY_MEMORY_MIGRATION 1) (ram_list st) = Some (update_page (\<lambda>x. x AND NOT 8) p (ram_list st))"
    using mask_range_pages [OF fit, of p "Suc p" "push_bit DIRTY_MEMORY_MIGRATION 1"] p
    by (simp add: DIRTY_MEMORY_MIGRATION_def update_pages_def)
  have pos: "0 < (2 :: nat) ^ tpb" by simp
  have u: "unat (page_addr tpb p) = p * 2 ^ tpb" "unat (page_addr tpb (Suc p) - 1) = p * 2 ^ tpb + (2 ^ tpb - 1)"
    using unat_page_addr [OF d(2)] unat_page_addr [OF d(3)] pos unat_minus_one [of "page_addr tpb (Suc p)"]
      page_addr_pos [OF _ d(3)] by auto
  have "p * 2 ^ tpb div 2 ^ tpb = p" "(p * 2 ^ tpb + (2 ^ tpb - 1)) div 2 ^ tpb = (p :: nat)"
    using div_mult_self3 [of "2 ^ tpb" p "2 ^ tpb - 1"] by simp_all
  then have "in_block st (page_addr tpb p) b" "in_block st (page_addr tpb (Suc p) - 1) b"
    unfolding in_block_iff [OF assms(1) b(1)] u using b(2) by (simp_all add: p_def page_no_def)
  then have tlb: "tlb_reset_dirty_range_all (page_addr tpb p) (page_addr tpb (Suc p)) (clean_page tpb b k st) = Some ()"
    using find_block [OF assms(1) b(1)]
    by (simp add: tlb_reset_dirty_range_all_def qemu_safe_ram_ptr_def)
  show ?thesis
    using assms(2) b page_in_block(5) [OF assms(1) b] m tlb nz d(1)
      mask_page_addr [OF d(1,2)] align_page_addr [OF d(1,4)]
    by (simp add: memory_region_reset_dirty_def ram_mapped_def cpu_physical_memory_reset_dirty_def Let_def
      page_no_def [symmetric] p_def [symmetric] page_addr_next one clean_page_def)
qed

section \<open>The cache\<close>

lemma write_cached_data_map:
  assumes "cache_inv c" and "cache_map c a = Some q"
  shows "\<exists>c'. write_cached_data c a p = Some c' \<and> cache_inv c' \<and>
    cache_map c' = (\<lambda>b. if b = a then Some p else cache_map c b)"
proof -
  let ?i = "slot c a"
  let ?it = "(items_of c ! ?i)\<lparr>it_data := Some p\<rparr>"
  let ?c = "c\<lparr>num_items := num_items c, max_item_age := max_item_age c, page_cache := Some ((items_of c)[?i := ?it])\<rparr>"
  note pos = inv_pos(1) [OF assms(1), of a] inv_pos(2) [OF assms(1)] inv_slot [OF assms(1), of a]
  have old: "it_addr (items_of c ! ?i) = a" "it_data (items_of c ! ?i) = Some q"
    using assms(2) by (auto simp: cache_map_def split: if_splits)
  have ok: "item_ok c ?i (items_of c ! ?i)" using assms(1) pos(3) by (simp add: cache_inv_def)
  then have a: "a \<noteq> - 1" using old by (auto simp: item_ok_def)
  have "cache_inv ?c"
    by (rule inv_set_item [OF assms(1) pos(3)]) (use ok old in \<open>auto simp: item_ok_def g_free_def\<close>)
  moreover have "cache_map ?c b = (if b = a then Some p else cache_map c b)" for b
  proof -
    have "b \<noteq> a \<Longrightarrow> slot c b = ?i \<Longrightarrow> cache_map c b = None" using old by (auto simp: cache_map_def)
    then show ?thesis
      using map_set_item [OF assms(1) a, of ?it ?i ?c b] old by auto
  qed
  ultimately show ?thesis using pos by (auto simp: write_cached_data_def)
qed

definition cached :: "'d migration \<Rightarrow> u64 \<Rightarrow> u8 list option" where
  "cached s a = (case xb_cache s of None \<Rightarrow> None | Some c \<Rightarrow> cache_map c a)"

definition cache_ok :: "nat \<Rightarrow> 'd migration \<Rightarrow> bool" where
  "cache_ok tpb s \<longleftrightarrow>
     (\<exists>c. xb_cache s = Some c \<and> cache_inv c) \<and> (\<forall>a p. cached s a = Some p \<longrightarrow> length p = 2 ^ tpb) \<and>
     (\<exists>enc. encoded_buf s = Some enc \<and> length enc = 2 ^ tpb) \<and>
     (\<exists>cur. current_buf s = Some cur \<and> length cur = 2 ^ tpb)"

lemma cache_okI:
  assumes "xb_cache s = Some c" and "cache_inv c" and "\<And>a p. cache_map c a = Some p \<Longrightarrow> length p = 2 ^ tpb"
    and "encoded_buf s = Some enc" and "length enc = 2 ^ tpb" and "current_buf s = Some cur" and "length cur = 2 ^ tpb"
  shows "cache_ok tpb s"
  unfolding cache_ok_def cached_def assms(1) option.case using assms by blast

lemma cache_okE:
  assumes "cache_ok tpb s"
  obtains c enc cur where "xb_cache s = Some c" and "cache_inv c"
    and "\<And>a p. cache_map c a = Some p \<Longrightarrow> length p = 2 ^ tpb"
    and "encoded_buf s = Some enc" and "length enc = 2 ^ tpb" and "current_buf s = Some cur" and "length cur = 2 ^ tpb"
  using assms unfolding cache_ok_def cached_def by (metis option.case(2))

text \<open>What sending a page does not change.\<close>

definition same_place :: "'d migration \<Rightarrow> 'd migration \<Rightarrow> bool" where
  "same_place s s' \<longleftrightarrow> mig_mem s' = mig_mem s \<and> last_block s' = last_block s \<and> last_offset s' = last_offset s"

text \<open>The pages in the cache stay, or go, or become the page that is sent.\<close>

definition cache_step :: "bool \<Rightarrow> u64 \<Rightarrow> u8 list \<Rightarrow> 'd migration \<Rightarrow> 'd migration \<Rightarrow> bool" where
  "cache_step last_stage a page s s' \<longleftrightarrow>
     (\<forall>x p. cached s' x = Some p \<longrightarrow> (if x = a then p = page \<or> last_stage \<and> cached s a = Some p else cached s x = Some p)) \<and>
     (\<not> last_stage \<longrightarrow> cached s' a = Some page)"

text \<open>A delta that turns the page in the cache into the new one.\<close>

definition is_delta :: "nat \<Rightarrow> u8 list \<Rightarrow> u8 list \<Rightarrow> u8 list \<Rightarrow> bool" where
  "is_delta tpb e old page \<longleftrightarrow>
     e \<noteq> [] \<and> (\<forall>x. length x = 2 ^ tpb \<longrightarrow> new_page tpb (Delta e) x (merge old page x))"

lemma xbzrle_page_delta:
  assumes "length old = 2 ^ tpb" and "length page = 2 ^ tpb" and "length enc = 2 ^ tpb" and "3 \<le> tpb" and "tpb < 14"
  obtains r enc' where "xbzrle_encode_buffer old page (2 ^ tpb) enc (2 ^ tpb) = Some (r, enc')"
    and "length enc' = 2 ^ tpb"
    and "r = - 1 \<or> r = 0 \<and> old = page \<or>
      0 < r \<and> r \<le> 2 ^ tpb \<and> is_delta tpb (take (nat r) enc') old page"
proof -
  have "(2 :: nat) ^ (3 + (tpb - 3)) = 2 ^ 3 * 2 ^ (tpb - 3)" by (rule power_add)
  then have "(2 :: nat) ^ tpb mod 8 = 0" using assms(4) by simp
  moreover have "(2 :: nat) ^ tpb \<le> 0x3fff" using power_increasing [of tpb 13 "2 :: nat"] assms(5) by simp
  ultimately obtain r enc' where r: "xbzrle_encode_buffer old page (2 ^ tpb) enc (2 ^ tpb) = Some (r, enc')"
    "length enc' = length enc"
    "r = - 1 \<or> 0 \<le> r \<and> r \<le> int (2 ^ tpb) \<and> (r = 0 \<longrightarrow> old = page) \<and>
     (\<forall>src x. take (nat r) src = take (nat r) enc' \<longrightarrow> nat r \<le> length src \<longrightarrow> length x = 2 ^ tpb \<longrightarrow>
        (\<exists>q\<le>2 ^ tpb. xbzrle_decode_buffer src (nat r) x (2 ^ tpb) = Some (int q, merge old page x)))"
    using xbzrle_delta [OF assms(1,2), of "2 ^ tpb" enc] assms(3) by auto
  have "is_delta tpb (take (nat r) enc') old page" if pos: "0 < r" and ne: "r \<noteq> - 1"
  proof -
    have le: "r \<le> int (2 ^ tpb)" using r(3) ne by blast
    then have len: "length (take (nat r) enc') = nat r" using r(2) assms(3) by simp
    have lsrc: "nat r \<le> length src" if "take (nat r) src = take (nat r) enc'" for src :: "u8 list"
      using arg_cong [OF that, of length] len by simp
    have "take (nat r) enc' \<noteq> []" using len pos by auto
    then show ?thesis
      unfolding is_delta_def new_page.simps len using r(3) ne le lsrc
      by (auto simp: length_merge nat_le_iff)
  qed
  then show ?thesis using that [OF r(1)] r(2,3) assms(3) by fastforce
qed

section \<open>Headers and deltas in the stream\<close>

context byte_sink
begin

lemma emits_be64_enc: "emits put out good (qemu_put_be64 v) (enc_be64 v)"
  by (simp add: enc_be64_def emits_be64)

lemma emits_hdr:
  "emits put out good (save_block_hdr B off cont flag)
     (enc_be64 (off OR cont OR flag) @ enc_id (if cont = 0 then Some (rb_idstr B) else None))"
proof (cases "cont = 0")
  case True
  then show ?thesis
    using emits_bind [OF emits_be64_enc [of "off OR flag"] emits_bind [OF emits_byte [of "of_nat (length (rb_idstr B))"]
        emits_buffer [of "rb_idstr B"]]]
    by (simp add: save_block_hdr_def [abs_def])
next
  case False
  then show ?thesis
    using emits_bind [OF emits_be64_enc [of "off OR cont OR flag"] emits_Some]
    by (simp add: save_block_hdr_def [abs_def])
qed

lemma emits_delta:
  assumes "0 \<le> r" and "length enc = 2 ^ tpb" and "r \<le> 2 ^ tpb"
  shows "emits put out good
    (\<lambda>f. do {
       f \<leftarrow> save_block_hdr B off cont RAM_SAVE_FLAG_XBZRLE f;
       f \<leftarrow> qemu_put_byte ENCODING_FLAG_XBZRLE f;
       f \<leftarrow> qemu_put_be16 (of_int r) f;
       qemu_put_buffer (take (nat r) enc) f
     })
    (enc_be64 (off OR cont OR RAM_SAVE_FLAG_XBZRLE) @ enc_id (if cont = 0 then Some (rb_idstr B) else None) @
     enc_payload (Delta (take (nat r) enc)))"
proof -
  have "length (take (nat r) enc) = nat r" "(of_int r :: u32) = of_nat (nat r)"
    using assms by (simp_all add: nat_le_iff)
  then show ?thesis
    using emits_bind [OF emits_hdr [of B off cont RAM_SAVE_FLAG_XBZRLE] emits_bind [OF emits_byte [of ENCODING_FLAG_XBZRLE]
        emits_bind [OF emits_be16 [of "of_int r"] emits_buffer [of "take (nat r) enc"]]]]
    by (simp add: enc_len_def)
qed

lemma put_bytes_all: "length bs = length cur \<Longrightarrow> put_bytes 0 bs cur = Some bs"
  using put_bytes_eq [of bs 0 cur] by (cases bs; cases cur) auto

text \<open>The three outcomes of \<open>save_xbzrle_page\<close>: nothing to send, nothing sent yet, and a delta sent.\<close>

lemma save_xbzrle_page_miss:
  assumes "cache_ok tpb s" and "length page = 2 ^ tpb" and "a \<noteq> - 1" and "cached s a = None"
  shows "\<exists>s'. save_xbzrle_page tpb page a B off cont last_stage f s = Some (- 1, f, s') \<and>
    cache_ok tpb s' \<and> same_place s s' \<and> mig_ram s' = mig_ram s \<and> cache_step last_stage a page s s'"
proof -
  obtain c enc cur where c: "xb_cache s = Some c" "cache_inv c" and len: "\<And>a p. cache_map c a = Some p \<Longrightarrow> length p = 2 ^ tpb"
    and buf: "encoded_buf s = Some enc" "length enc = 2 ^ tpb" "current_buf s = Some cur" "length cur = 2 ^ tpb"
    using cache_okE [OF assms(1)] by blast
  have n: "cache_map c a = None" using assms(4) c(1) by (simp add: cached_def)
  have isc: "cache_is_cached c a = Some False" using pc.is_cached [OF c(2) assms(3)] n by simp
  show ?thesis
  proof (cases last_stage)
    case True
    have "cache_step last_stage a page s (s\<lparr>xb_cache := Some c, acct_info := acct\<rparr>)" for acct
      using True n c(1) by (simp add: cache_step_def cached_def)
    moreover have "cache_ok tpb (s\<lparr>xb_cache := Some c, acct_info := acct\<rparr>)" for acct
      by (rule cache_okI [OF _ c(2) len _ buf(2) _ buf(4)]) (simp_all add: buf)
    ultimately show ?thesis using True c(1) isc by (simp add: save_xbzrle_page_def same_place_def Let_def)
  next
    case False
    obtain c' where c': "cache_insert c a (Some page) = Some c'" "cache_inv c'" "cache_map c' a = Some page"
      "\<forall>b. b \<noteq> a \<longrightarrow> cache_map c' b = cache_map c b \<or> cache_map c' b = None"
      using pc.insert [OF c(2) assms(3), of page] by blast
    have st: "if x = a then p = page else cache_map c x = Some p" if "cache_map c' x = Some p" for x p
      using c'(3) spec [OF c'(4), of x] that by auto
    have l: "length p = 2 ^ tpb" if "cache_map c' x = Some p" for x p
      by (cases "x = a") (use st [OF that] len [of x p] assms(2) in simp_all)
    have "cache_ok tpb (s\<lparr>xb_cache := Some c', acct_info := acct\<rparr>)" for acct
      by (rule cache_okI [OF _ c'(2) l _ buf(2) _ buf(4)]) (simp_all add: buf)
    moreover have "cache_step last_stage a page s (s\<lparr>xb_cache := Some c', acct_info := acct\<rparr>)" for acct
    proof -
      have "cached (s\<lparr>xb_cache := Some c', acct_info := acct\<rparr>) = cache_map c'" "cached s = cache_map c"
        using c(1) by (simp_all add: cached_def fun_eq_iff)
      then show ?thesis
        unfolding cache_step_def using c'(3) by (auto dest!: st split: if_splits)
    qed
    ultimately show ?thesis
      using False c(1) isc c'(1) by (simp add: save_xbzrle_page_def same_place_def Let_def)
  qed
qed

lemma save_xbzrle_page_hit:
  assumes ok: "cache_ok tpb s" and page: "length page = 2 ^ tpb" and a: "a \<noteq> - 1" and old: "cached s a = Some old"
    and tpb: "3 \<le> tpb" "tpb < 14" and w: "writing put out good f"
  shows "\<exists>r f' s' bs. save_xbzrle_page tpb page a B off cont last_stage f s = Some (r, f', s') \<and>
    cache_ok tpb s' \<and> same_place s s' \<and> mig_ram s' = mig_ram s \<and> cache_step last_stage a page s s' \<and>
    writing put out good f' \<and> written out f' = written out f @ bs \<and> close_func f' = close_func f \<and>
    (r = 0 \<and> bs = [] \<and> old = page \<or> r = - 1 \<and> bs = [] \<or>
     0 < r \<and> (\<exists>e. is_delta tpb e old page \<and>
       bs = enc_be64 (off OR cont OR RAM_SAVE_FLAG_XBZRLE) @ enc_id (if cont = 0 then Some (rb_idstr B) else None) @
         enc_payload (Delta e)))"
proof -
  obtain c enc cur where c0: "xb_cache s = Some c" "cache_inv c" and len: "\<And>a p. cache_map c a = Some p \<Longrightarrow> length p = 2 ^ tpb"
    and c1: "encoded_buf s = Some enc" "length enc = 2 ^ tpb" "current_buf s = Some cur" "length cur = 2 ^ tpb"
    using cache_okE [OF ok] by blast
  note c = c0 c1
  have cm: "cache_map c a = Some old" using old c(1) by (simp add: cached_def)
  have isc: "cache_is_cached c a = Some True" "get_cached_data c a = Some (Some old)"
    using pc.is_cached [OF c(2) a] pc.get_data [OF c(2) cm] cm by simp_all
  have lold: "length old = 2 ^ tpb" using len [OF cm] .
  have cp: "put_bytes 0 page cur = Some page" using page c(6) by (intro put_bytes_all) simp
  obtain r enc' where r: "xbzrle_encode_buffer old page (2 ^ tpb) enc (2 ^ tpb) = Some (r, enc')" "length enc' = 2 ^ tpb"
    "r = - 1 \<or> r = 0 \<and> old = page \<or> 0 < r \<and> r \<le> 2 ^ tpb \<and> is_delta tpb (take (nat r) enc') old page"
    using xbzrle_page_delta [OF lold page c(4) tpb] by blast
  obtain c' where c': "write_cached_data c a page = Some c'" "cache_inv c'"
    "cache_map c' = (\<lambda>b. if b = a then Some page else cache_map c b)"
    using write_cached_data_map [OF c(2) cm] by blast
  have l: "cache_map c' x = Some p \<Longrightarrow> length p = 2 ^ tpb" for x p
    using len [of x p] page by (auto simp: c'(3) split: if_splits)
  have new: "cache_ok tpb s' \<and> cache_step last_stage a page s s'"
    if "xb_cache s' = Some c'" "encoded_buf s' = Some enc'" "current_buf s' = Some page" for s'
    using cache_okI [OF that(1) c'(2) l that(2) r(2) that(3) page] c'(3) c(1) that(1) by (auto simp: cache_step_def cached_def)
  have kept: "cache_ok tpb s' \<and> cache_step last_stage a page s s'"
    if "xb_cache s' = Some c" "encoded_buf s' = Some enc'" "current_buf s' = Some page" "last_stage \<or> old = page"
    for s'
    using cache_okI [OF that(1) c(2) len that(2) r(2) that(3) page] cm c(1) that(1,4) by (auto simp: cache_step_def cached_def)
  note run = save_xbzrle_page_def [of tpb page a B off cont last_stage f s] c(1,3,5) isc cp r(1) Let_def same_place_def
  from r(3) show ?thesis
  proof (elim disjE conjE)
    assume "r = - 1"
    then show ?thesis using c'(1) w by (auto simp: run intro!: new [THEN conjunct1] new [THEN conjunct2])
  next
    assume r0: "r = 0" "old = page"
    define s' where "s' = s\<lparr>current_buf := Some page, encoded_buf := Some enc'\<rparr>"
    have "save_xbzrle_page tpb page a B off cont last_stage f s = Some (0, f, s')"
      using r0(1) by (simp add: run s'_def)
    moreover have "cache_ok tpb s' \<and> cache_step last_stage a page s s'" by (rule kept) (simp_all add: s'_def c(1) r0(2))
    ultimately show ?thesis using w r0(2) by (auto simp: s'_def same_place_def)
  next
    assume p: "0 < r" "r \<le> 2 ^ tpb" "is_delta tpb (take (nat r) enc') old page"
    obtain f' where f': "do {
       f \<leftarrow> save_block_hdr B off cont RAM_SAVE_FLAG_XBZRLE f;
       f \<leftarrow> qemu_put_byte ENCODING_FLAG_XBZRLE f;
       f \<leftarrow> qemu_put_be16 (of_int r) f;
       qemu_put_buffer (take (nat r) enc') f
     } = Some f'" "writing put out good f'" "close_func f' = close_func f"
      "written out f' = written out f @ enc_be64 (off OR cont OR RAM_SAVE_FLAG_XBZRLE) @
         enc_id (if cont = 0 then Some (rb_idstr B) else None) @ enc_payload (Delta (take (nat r) enc'))"
      using emitsD [OF emits_delta [OF _ r(2) p(2), of B off cont] w] p(1) by auto
    obtain g1 g2 g3 where g: "save_block_hdr B off cont RAM_SAVE_FLAG_XBZRLE f = Some g1"
      "qemu_put_byte ENCODING_FLAG_XBZRLE g1 = Some g2" "qemu_put_be16 (of_int r) g2 = Some g3"
      "qemu_put_buffer (take (nat r) enc') g3 = Some f'"
      using f'(1) by (auto simp: bind_eq_Some_conv)
    obtain s' where s': "save_xbzrle_page tpb page a B off cont last_stage f s = Some (r + 1 + 2, f', s')"
      "same_place s s'" "mig_ram s' = mig_ram s" "encoded_buf s' = Some enc'" "current_buf s' = Some page"
      "xb_cache s' = Some (if last_stage then c else c')"
      unfolding run(1) using c'(1) p(1) g by (cases last_stage) (simp_all add: run(2-) page)
    moreover have "cache_ok tpb s' \<and> cache_step last_stage a page s s'"
      using new [OF _ s'(4,5)] kept [OF _ s'(4,5)] s'(6) by (cases last_stage) simp_all
    moreover have "0 < r + 1 + 2" using p(1) by simp
    ultimately show ?thesis using f'(2-4) p(3) by blast
  qed
qed

end

section \<open>Sending a page\<close>

definition is_dup :: "nat \<Rightarrow> u8 list \<Rightarrow> bool" where
  "is_dup tpb page \<longleftrightarrow> (\<exists>c. page = replicate (2 ^ tpb) c)"

abbreviation cache_key :: "nat \<Rightarrow> ram_state \<Rightarrow> ptr \<Rightarrow> nat \<Rightarrow> u64" where
  "cache_key tpb st b k \<equiv> page_addr tpb (page_no tpb st b k)"

text \<open>No page to be sent that is in the cache consists of equal bytes.\<close>

definition xb_safe :: "nat \<Rightarrow> 'd migration \<Rightarrow> bool" where
  "xb_safe tpb s \<longleftrightarrow>
     (\<forall>b k. is_page tpb (mig_ram s) b k \<longrightarrow> dirty tpb (mig_ram s) b k \<longrightarrow>
        cached s (cache_key tpb (mig_ram s) b k) \<noteq> None \<longrightarrow> \<not> is_dup tpb (get_page tpb (mig_ram s) b k))"

definition src_ok :: "nat \<Rightarrow> bool \<Rightarrow> 'd migration \<Rightarrow> bool" where
  "src_ok tpb use_xbzrle s \<longleftrightarrow>
     ram_ok tpb (mig_ram s) \<and> ram_mapped (regions s) (mig_ram s) \<and> names_ok (mig_ram s) \<and>
     (use_xbzrle \<longrightarrow> cache_ok tpb s \<and> xb_safe tpb s)"

text \<open>What may be sent for a page.\<close>

definition conveys :: "nat \<Rightarrow> bool \<Rightarrow> u8 list option \<Rightarrow> u8 list \<Rightarrow> payload \<Rightarrow> bool" where
  "conveys tpb use_xbzrle old page load \<longleftrightarrow>
     (\<exists>c. load = Fill c \<and> page = replicate (2 ^ tpb) c) \<or> load = Raw page \<or>
     use_xbzrle \<and> (\<exists>e q. load = Delta e \<and> old = Some q \<and> is_delta tpb e q page)"

definition page_id :: "'d migration \<Rightarrow> ptr \<Rightarrow> u8 list option" where
  "page_id s b = (if last_block s = Some b then None else Some (rb_idstr (rb_at (mig_ram s) b)))"

lemma cont_flag_id:
  "(if last_block s = Some b then RAM_SAVE_FLAG_CONTINUE else 0) = cont_flag (page_id s b)"
  "(if cont_flag (page_id s b) = 0 then Some (rb_idstr (rb_at (mig_ram s) b)) else None) = page_id s b"
  by (simp_all add: cont_flag_def page_id_def RAM_SAVE_FLAG_CONTINUE_def)

lemma key_not_minus_one:
  assumes "ram_ok tpb st" and "is_page tpb st b k" and "1 \<le> tpb"
  shows "cache_key tpb st b k \<noteq> - 1"
proof
  have fit: "pages_fit tpb (ram_list st)" using assms(1) by (simp add: ram_ok_def)
  let ?p = "page_no tpb st b k"
  assume "page_addr tpb ?p = - 1"
  then have "unat (page_addr tpb ?p) = 2 ^ 64 - 1" by (simp add: unsigned_minus_1_eq_mask mask_eq_exp_minus_1)
  moreover have "unat (page_addr tpb ?p) = ?p * 2 ^ tpb"
    by (rule unat_page_addr) (rule pages_fitD(2) [OF fit page_no_less [OF assms(1,2)]])
  moreover have "even (?p * 2 ^ tpb)" using assms(3) by simp
  ultimately show False by simp
qed

text \<open>The keys of different pages differ.\<close>

lemma key_inject:
  assumes "ram_ok tpb st" and "is_page tpb st b k" and "is_page tpb st c j"
  shows "cache_key tpb st b k = cache_key tpb st c j \<longleftrightarrow> b = c \<and> k = j"
proof -
  have fit: "pages_fit tpb (ram_list st)" using assms(1) by (simp add: ram_ok_def)
  have "page_no tpb st b k * 2 ^ tpb < 2 ^ 64" "page_no tpb st c j * 2 ^ tpb < 2 ^ 64"
    using pages_fitD(2) [OF fit page_no_less [OF assms(1)]] assms(2,3) by blast+
  then show ?thesis using page_addr_inject page_no_inject [OF assms] by blast
qed

text \<open>The part of \<open>save_dirty_page\<close> before something is sent.\<close>

definition send_page ::
  "nat \<Rightarrow> bool \<Rightarrow> bool \<Rightarrow> ptr \<Rightarrow> nat \<Rightarrow> u8 list \<Rightarrow> int \<Rightarrow> 's QEMUFile \<Rightarrow> 'd migration \<Rightarrow>
   (int \<times> 's QEMUFile \<times> 'd migration) option" where
  "send_page tpb use_xbzrle last_stage b k page bytes_sent f s =
     do {
       let B = rb_at (mig_ram s) b;
       let cont = cont_flag (page_id s b);
       (bytes_sent, p, f, s) \<leftarrow>
         (if is_dup tpb page then do {
            let s = s\<lparr>acct_info := (acct_info s)\<lparr>acct_dup_pages := acct_dup_pages (acct_info s) + 1\<rparr>\<rparr>;
            f \<leftarrow> save_block_hdr B (page_addr tpb k) cont RAM_SAVE_FLAG_COMPRESS f;
            f \<leftarrow> qemu_put_byte (hd page) f;
            Some (1, Some page, f, s)
          }
          else if use_xbzrle then do {
            let a = cache_key tpb (mig_ram s) b k;
            (bytes_sent, f, s) \<leftarrow> save_xbzrle_page tpb page a B (page_addr tpb k) cont last_stage f s;
            p \<leftarrow> (if \<not> last_stage then do { cache \<leftarrow> xb_cache s; get_cached_data cache a } else Some (Some page));
            Some (bytes_sent, p, f, s)
          }
          else Some (bytes_sent, Some page, f, s));
       if bytes_sent = - 1 then do {
         f \<leftarrow> save_block_hdr B (page_addr tpb k) cont RAM_SAVE_FLAG_PAGE f;
         page \<leftarrow> p;
         f \<leftarrow> qemu_put_buffer (take (2 ^ tpb) page) f;
         Some (2 ^ tpb, f, s\<lparr>acct_info := (acct_info s)\<lparr>acct_norm_pages := acct_norm_pages (acct_info s) + 1\<rparr>\<rparr>)
       }
       else Some (bytes_sent, f, s)
     }"

abbreviation after_page :: "nat \<Rightarrow> ptr \<Rightarrow> nat \<Rightarrow> 'd migration \<Rightarrow> 'd migration" where
  "after_page tpb b k s \<equiv> s\<lparr>mig_ram := to_front b (clean_page tpb b k (mig_ram s))\<rparr>"

lemma save_dirty_page_eq:
  assumes "ram_ok tpb (mig_ram s)" and "ram_mapped (regions s) (mig_ram s)" and "is_page tpb (mig_ram s) b k" and "3 \<le> tpb"
  shows "save_dirty_page tpb tcg use_xbzrle last_stage b (page_addr tpb k) bytes_sent f s =
    send_page tpb use_xbzrle last_stage b k (get_page tpb (mig_ram s) b k) bytes_sent f (after_page tpb b k s)"
proof -
  let ?st = "mig_ram s" and ?page = "get_page tpb (mig_ram s) b k"
  have b: "b \<in> set (rl_blocks (ram_list ?st))" "k < num_pages tpb (rb_at ?st b)" using assms(3) by (simp_all add: is_page_def)
  have d: "distinct (rl_blocks (ram_list ?st))" using assms(1) by (simp add: ram_ok_def)
  have len: "length ?page = 2 ^ tpb" by (rule page_in_block(2) [OF assms(1) b])
  then have ne: "0 < length ?page" by simp
  have ptr: "memory_region_get_ram_ptr tpb (regions s) (rb_mr (rb_at ?st b)) (clean_page tpb b k ?st) =
      Some ((b, 0), to_front b (clean_page tpb b k ?st))"
    using region_ram_ptr [of tpb "clean_page tpb b k ?st" "regions s" b] assms(1,2) b(1) by simp
  have rd: "host_read (b, page_addr tpb k) (2 ^ tpb) (to_front b (clean_page tpb b k ?st)) = Some ?page"
    using host_read_page [of tpb "to_front b (clean_page tpb b k ?st)" b k] to_front_ok [of tpb "clean_page tpb b k ?st" b]
      assms(1) b d by simp
  have key: "rb_offset (rb_at ?st b) + page_addr tpb k = cache_key tpb ?st b k"
    using page_in_block(5) [OF assms(1) b] by (simp add: page_no_def)
  have hd: "get_byte ?page 0 = Some (hd ?page)" using ne by (simp add: get_byte_def hd_conv_nth)
  show ?thesis
    unfolding save_dirty_page_def send_page_def Let_def
    using reset_dirty_region [OF assms(1-3)] ptr rd is_dup_page_iff [OF len assms(4)] hd key cont_flag_id(1) [of s b]
    by (simp add: is_dup_def page_id_def cong: if_cong)
qed

text \<open>
  The outcome of sending a page: the bytes of the messages are in the stream, and the pages in the
  cache stay, go, or become the page sent.
\<close>

definition page_sent ::
  "nat \<Rightarrow> bool \<Rightarrow> bool \<Rightarrow> ptr \<Rightarrow> nat \<Rightarrow> u8 list \<Rightarrow> 'd migration \<Rightarrow> int \<Rightarrow> 'd migration \<Rightarrow> page_msg list \<Rightarrow> bool" where
  "page_sent tpb use_xbzrle last_stage b k page s r s' ms \<longleftrightarrow>
     (let a = cache_key tpb (mig_ram s) b k in
      mig_ram s' = mig_ram s \<and> same_place s s' \<and> (use_xbzrle \<longrightarrow> cache_ok tpb s') \<and>
      (use_xbzrle \<longrightarrow> (\<forall>x p. cached s' x = Some p \<longrightarrow> (if x = a then p = page \<or> last_stage else cached s x = Some p))) \<and>
      (r = 0 \<and> ms = [] \<and> use_xbzrle \<and> cached s a = Some page \<or>
       0 < r \<and> (\<exists>load. ms = [Page_Msg (page_id s b) k load] \<and> conveys tpb use_xbzrle (cached s a) page load)))"

context byte_sink
begin

lemma emits_msg:
  assumes "emits put out good g (enc_payload load)" and "i = page_id s b"
  shows "emits put out good
    (\<lambda>f. save_block_hdr (rb_at (mig_ram s) b) (page_addr tpb k) (cont_flag i) (load_flag load) f \<bind> g)
    (enc_msgs tpb [Page_Msg i k load])"
  using emits_bind [OF emits_hdr [of "rb_at (mig_ram s) b" "page_addr tpb k" "cont_flag i" "load_flag load"] assms(1)]
  by (simp add: enc_msg_def cont_flag_id(2) assms(2))

lemma put_page:
  assumes "writing put out good f" and "length page = 2 ^ tpb"
  obtains f1 f' where "save_block_hdr (rb_at (mig_ram s) b) (page_addr tpb k) (cont_flag (page_id s b)) RAM_SAVE_FLAG_PAGE f = Some f1"
    and "qemu_put_buffer page f1 = Some f'" and "writing put out good f'"
    and "written out f' = written out f @ enc_msgs tpb [Page_Msg (page_id s b) k (Raw page)]"
    and "close_func f' = close_func f"
proof -
  have "emits put out good (qemu_put_buffer page) (enc_payload (Raw page))" by (simp add: emits_buffer)
  then obtain f' where f': "save_block_hdr (rb_at (mig_ram s) b) (page_addr tpb k) (cont_flag (page_id s b)) RAM_SAVE_FLAG_PAGE f \<bind>
      qemu_put_buffer page = Some f'" "writing put out good f'"
    "written out f' = written out f @ enc_msgs tpb [Page_Msg (page_id s b) k (Raw page)]" "close_func f' = close_func f"
    using emitsD [OF emits_msg [OF _ refl, of "qemu_put_buffer page" "Raw page" s b tpb k] assms(1)] by auto
  then show ?thesis using that by (auto simp: bind_eq_Some_conv)
qed

lemma save_xbzrle_page_spec:
  assumes ok: "cache_ok tpb s" and page: "length page = 2 ^ tpb" and a: "a \<noteq> - 1"
    and tpb: "3 \<le> tpb" "tpb < 14" and w: "writing put out good f"
  shows "\<exists>r f' s' ms. save_xbzrle_page tpb page a (rb_at (mig_ram s) b) (page_addr tpb k) (cont_flag (page_id s b)) last_stage f s =
      Some (r, f', s') \<and> cache_ok tpb s' \<and> same_place s s' \<and> mig_ram s' = mig_ram s \<and> cache_step last_stage a page s s' \<and>
    writing put out good f' \<and> written out f' = written out f @ enc_msgs tpb ms \<and> close_func f' = close_func f \<and>
    (r = 0 \<and> ms = [] \<and> cached s a = Some page \<or> r = - 1 \<and> ms = [] \<or>
     0 < r \<and> (\<exists>e old. cached s a = Some old \<and> is_delta tpb e old page \<and> ms = [Page_Msg (page_id s b) k (Delta e)]))"
proof (cases "cached s a")
  case None
  then show ?thesis
    using save_xbzrle_page_miss [OF ok page a, of "rb_at (mig_ram s) b" "page_addr tpb k" "cont_flag (page_id s b)" last_stage f] w
    by (auto intro!: exI [of _ "[]"])
next
  case (Some old)
  obtain r f' s' bs where r: "save_xbzrle_page tpb page a (rb_at (mig_ram s) b) (page_addr tpb k) (cont_flag (page_id s b))
      last_stage f s = Some (r, f', s')"
    "cache_ok tpb s'" "same_place s s'" "mig_ram s' = mig_ram s" "cache_step last_stage a page s s'"
    "writing put out good f'" "written out f' = written out f @ bs" "close_func f' = close_func f"
    "r = 0 \<and> bs = [] \<and> old = page \<or> r = - 1 \<and> bs = [] \<or>
     0 < r \<and> (\<exists>e. is_delta tpb e old page \<and>
       bs = enc_be64 (page_addr tpb k OR cont_flag (page_id s b) OR RAM_SAVE_FLAG_XBZRLE) @
         enc_id (page_id s b) @ enc_payload (Delta e))"
    using save_xbzrle_page_hit [OF ok page a Some tpb w, of "rb_at (mig_ram s) b" "page_addr tpb k" "cont_flag (page_id s b)" last_stage]
    unfolding cont_flag_id(2) by blast
  obtain ms where "bs = enc_msgs tpb ms"
    "r = 0 \<and> ms = [] \<and> old = page \<or> r = - 1 \<and> ms = [] \<or>
     0 < r \<and> (\<exists>e. is_delta tpb e old page \<and> ms = [Page_Msg (page_id s b) k (Delta e)])"
  proof (cases "0 < r")
    case True
    then obtain e where "is_delta tpb e old page" "bs = enc_msgs tpb [Page_Msg (page_id s b) k (Delta e)]"
      using r(9) by (auto simp: enc_msg_def)
    then show ?thesis using that True by blast
  next
    case False
    then show ?thesis using that [of "[]"] r(9) by auto
  qed
  then show ?thesis using r(1-8) Some by auto
qed

lemma send_page_xbzrle:
  assumes "length page = 2 ^ tpb" and "3 \<le> tpb" and "tpb < 14" and w: "writing put out good f"
    and "cache_ok tpb s" and "cache_key tpb (mig_ram s) b k \<noteq> - 1" and dup: "\<not> is_dup tpb page"
  shows "\<exists>r f' s' ms. send_page tpb True last_stage b k page bytes_sent f s = Some (r, f', s') \<and>
    writing put out good f' \<and> written out f' = written out f @ enc_msgs tpb ms \<and> close_func f' = close_func f \<and>
    page_sent tpb True last_stage b k page s r s' ms"
proof -
  let ?a = "cache_key tpb (mig_ram s) b k" and ?B = "rb_at (mig_ram s) b" and ?c = "cont_flag (page_id s b)"
  obtain r f1 s1 ms where all: "save_xbzrle_page tpb page ?a ?B (page_addr tpb k) ?c last_stage f s = Some (r, f1, s1) \<and>
    cache_ok tpb s1 \<and> same_place s s1 \<and> mig_ram s1 = mig_ram s \<and> cache_step last_stage ?a page s s1 \<and>
    writing put out good f1 \<and> written out f1 = written out f @ enc_msgs tpb ms \<and> close_func f1 = close_func f \<and>
    (r = 0 \<and> ms = [] \<and> cached s ?a = Some page \<or> r = - 1 \<and> ms = [] \<or>
     0 < r \<and> (\<exists>e old. cached s ?a = Some old \<and> is_delta tpb e old page \<and> ms = [Page_Msg (page_id s b) k (Delta e)]))"
    using save_xbzrle_page_spec [OF assms(5,1,6,2-4), of b k last_stage] by (elim exE)
  then have r: "save_xbzrle_page tpb page ?a ?B (page_addr tpb k) ?c last_stage f s = Some (r, f1, s1)"
    and s1: "cache_ok tpb s1" "same_place s s1" "mig_ram s1 = mig_ram s" "cache_step last_stage ?a page s s1"
    and f1: "writing put out good f1" "written out f1 = written out f @ enc_msgs tpb ms" "close_func f1 = close_func f"
    by - (elim conjE, assumption)+
  note res = all [THEN conjunct2, THEN conjunct2, THEN conjunct2, THEN conjunct2, THEN conjunct2, THEN conjunct2,
    THEN conjunct2, THEN conjunct2]
  have sent: "page_sent tpb True last_stage b k page s q s1 l \<longleftrightarrow>
      q = 0 \<and> l = [] \<and> cached s ?a = Some page \<or>
      0 < q \<and> (\<exists>load. l = [Page_Msg (page_id s b) k load] \<and> conveys tpb True (cached s ?a) page load)" for q l
    using s1 by (auto simp: page_sent_def cache_step_def Let_def)
  obtain c where c: "xb_cache s1 = Some c" "cache_inv c" using s1(1) by (auto simp: cache_ok_def)
  have get: "\<not> last_stage \<Longrightarrow> get_cached_data c ?a = Some (Some page)"
    using s1(4) c pc.get_data [OF c(2)] by (simp add: cache_step_def cached_def)
  show ?thesis
  proof (cases "r = - 1")
    case True
    obtain g1 f2 where g: "save_block_hdr ?B (page_addr tpb k) ?c RAM_SAVE_FLAG_PAGE f1 = Some g1"
      "qemu_put_buffer page g1 = Some f2" "writing put out good f2"
      "written out f2 = written out f1 @ enc_msgs tpb [Page_Msg (page_id s b) k (Raw page)]"
      "close_func f2 = close_func f1"
      using put_page [OF f1(1) assms(1)] by blast
    have "send_page tpb True last_stage b k page bytes_sent f s =
        Some (2 ^ tpb, f2, s1\<lparr>acct_info := (acct_info s1)\<lparr>acct_norm_pages := acct_norm_pages (acct_info s1) + 1\<rparr>\<rparr>)"
      unfolding send_page_def Let_def using dup r True c(1) get g(1,2) assms(1) by simp
    moreover have "page_sent tpb True last_stage b k page s (2 ^ tpb) s1 [Page_Msg (page_id s b) k (Raw page)]"
      using sent by (simp add: conveys_def)
    then have "page_sent tpb True last_stage b k page s (2 ^ tpb) (s1\<lparr>acct_info := i\<rparr>) [Page_Msg (page_id s b) k (Raw page)]" for i
      by (simp add: page_sent_def same_place_def cache_ok_def cached_def)
    moreover have "ms = []" using res True by auto
    then have "written out f2 = written out f @ enc_msgs tpb [Page_Msg (page_id s b) k (Raw page)]"
      using g(4) f1(2) by simp
    ultimately show ?thesis using g(3,5) f1(3) by metis
  next
    case False
    have "send_page tpb True last_stage b k page bytes_sent f s = Some (r, f1, s1)"
      unfolding send_page_def Let_def using dup r False c(1) get by simp
    moreover have "page_sent tpb True last_stage b k page s r s1 ms"
      using sent res False by (auto simp: conveys_def)
    ultimately show ?thesis using f1 by blast
  qed
qed

lemma send_page_spec:
  assumes len: "length page = 2 ^ tpb" and tpb: "3 \<le> tpb" "tpb < 14" and w: "writing put out good f"
    and bs: "bytes_sent = - 1 \<or> use_xbzrle" and ck: "use_xbzrle \<Longrightarrow> cache_ok tpb s"
    and key: "cache_key tpb (mig_ram s) b k \<noteq> - 1"
    and safe: "use_xbzrle \<Longrightarrow> is_dup tpb page \<Longrightarrow> cached s (cache_key tpb (mig_ram s) b k) = None"
  shows "\<exists>r f' s' ms. send_page tpb use_xbzrle last_stage b k page bytes_sent f s = Some (r, f', s') \<and>
    writing put out good f' \<and> written out f' = written out f @ enc_msgs tpb ms \<and> close_func f' = close_func f \<and>
    page_sent tpb use_xbzrle last_stage b k page s r s' ms"
proof -
  let ?a = "cache_key tpb (mig_ram s) b k" and ?B = "rb_at (mig_ram s) b" and ?c = "cont_flag (page_id s b)"
  have pos: "(2 :: int) ^ tpb \<noteq> - 1" "0 < (2 :: int) ^ tpb"
    using zero_less_power [of "2 :: int" tpb] by linarith+
  have upd: "page_sent tpb use_xbzrle last_stage b k page s r (s'\<lparr>acct_info := i\<rparr>) ms \<longleftrightarrow>
      page_sent tpb use_xbzrle last_stage b k page s r s' ms" for r s' i ms
    by (simp add: page_sent_def same_place_def cache_ok_def cached_def)
  obtain g1 f1 where g: "save_block_hdr ?B (page_addr tpb k) ?c RAM_SAVE_FLAG_PAGE f = Some g1"
    "qemu_put_buffer page g1 = Some f1" "writing put out good f1"
    "written out f1 = written out f @ enc_msgs tpb [Page_Msg (page_id s b) k (Raw page)]"
    "close_func f1 = close_func f"
    using put_page [OF w len] by blast
  consider (dup) "is_dup tpb page" | (plain) "\<not> is_dup tpb page" "\<not> use_xbzrle" | (xb) "\<not> is_dup tpb page" use_xbzrle
    by blast
  then show ?thesis
  proof cases
    case dup
    then obtain c where c: "page = replicate (2 ^ tpb) c" "hd page = c" by (auto simp: is_dup_def)
    have "emits put out good (qemu_put_byte c) (enc_payload (Fill c))" by (simp add: emits_byte)
    then obtain f2 where f2': "save_block_hdr ?B (page_addr tpb k) ?c RAM_SAVE_FLAG_COMPRESS f \<bind> qemu_put_byte c = Some f2"
      "writing put out good f2"
      "written out f2 = written out f @ enc_msgs tpb [Page_Msg (page_id s b) k (Fill c)]" "close_func f2 = close_func f"
      using emitsD [OF emits_msg [OF _ refl, of "qemu_put_byte c" "Fill c" s b tpb k] w] by auto
    then obtain g2 where f2: "save_block_hdr ?B (page_addr tpb k) ?c RAM_SAVE_FLAG_COMPRESS f = Some g2"
      "qemu_put_byte c g2 = Some f2" by (auto simp: bind_eq_Some_conv)
    have "page_sent tpb use_xbzrle last_stage b k page s 1 s [Page_Msg (page_id s b) k (Fill c)]"
      using c dup safe ck by (auto simp: page_sent_def conveys_def same_place_def Let_def)
    moreover have "send_page tpb use_xbzrle last_stage b k page bytes_sent f s =
        Some (1, f2, s\<lparr>acct_info := (acct_info s)\<lparr>acct_dup_pages := acct_dup_pages (acct_info s) + 1\<rparr>\<rparr>)"
      unfolding send_page_def Let_def using dup f2(1,2) c(2) by simp
    ultimately show ?thesis using f2'(2-4) upd by blast
  next
    case plain
    then have "page_sent tpb use_xbzrle last_stage b k page s (2 ^ tpb) s [Page_Msg (page_id s b) k (Raw page)]"
      using pos(2) by (auto simp: page_sent_def conveys_def same_place_def Let_def)
    moreover have "send_page tpb use_xbzrle last_stage b k page bytes_sent f s =
        Some (2 ^ tpb, f1, s\<lparr>acct_info := (acct_info s)\<lparr>acct_norm_pages := acct_norm_pages (acct_info s) + 1\<rparr>\<rparr>)"
      unfolding send_page_def Let_def using plain bs g(1,2) len by simp
    ultimately show ?thesis using g(3-5) upd by blast
  next
    case xb
    then show ?thesis using send_page_xbzrle [OF len tpb w ck key] by auto
  qed
qed

end

end
