(* ===== verification/Ram_Sync.thy ===== *)
theory Ram_Sync
  imports Ram_Sender
begin

text \<open>
  How far the memory of the receiver follows that of the sender, and that every page that is sent
  keeps it so.
\<close>

section \<open>The relation\<close>

definition peer :: "ram_state \<Rightarrow> 'd incoming \<Rightarrow> ptr \<Rightarrow> ptr option" where
  "peer st r b = find_idstr (rb_idstr (rb_at st b)) (in_ram_state r)"

text \<open>
  The blocks of the sender have counterparts of the same length. In pages that are not dirty the
  receiver's memory is the sender's, except in the pages of \<open>H\<close>, which were written since the
  dirty log was read the last time; a page in the cache is that of the receiver. In the last stage,
  where the cache is not updated any more, this holds for the pages that are still to be sent.
\<close>

definition sync :: "nat \<Rightarrow> bool \<Rightarrow> bool \<Rightarrow> (ptr \<times> nat) set \<Rightarrow> 'd migration \<Rightarrow> 'd incoming \<Rightarrow> bool" where
  "sync tpb use_xbzrle last_stage H s r \<longleftrightarrow>
     in_ok tpb r \<and> same_layout (mig_ram s) (in_ram_state r) \<and>
     (\<forall>b. last_block s = Some b \<longrightarrow> cur_block r = peer (mig_ram s) r b) \<and>
     (\<forall>b k c. is_page tpb (mig_ram s) b k \<longrightarrow> peer (mig_ram s) r b = Some c \<longrightarrow>
        (\<not> dirty tpb (mig_ram s) b k \<longrightarrow> (b, k) \<notin> H \<longrightarrow> get_page tpb (in_ram_state r) c k = get_page tpb (mig_ram s) b k) \<and>
        (use_xbzrle \<longrightarrow> \<not> last_stage \<or> dirty tpb (mig_ram s) b k \<longrightarrow>
           (\<forall>p. cached s (cache_key tpb (mig_ram s) b k) = Some p \<longrightarrow> get_page tpb (in_ram_state r) c k = p)))"

lemma syncD:
  assumes "sync tpb use_xbzrle last_stage H s r"
  shows "in_ok tpb r" and "same_layout (mig_ram s) (in_ram_state r)"
    and "last_block s = Some b \<Longrightarrow> cur_block r = peer (mig_ram s) r b"
    and "is_page tpb (mig_ram s) b k \<Longrightarrow> peer (mig_ram s) r b = Some c \<Longrightarrow> \<not> dirty tpb (mig_ram s) b k \<Longrightarrow>
      (b, k) \<notin> H \<Longrightarrow> get_page tpb (in_ram_state r) c k = get_page tpb (mig_ram s) b k"
    and "is_page tpb (mig_ram s) b k \<Longrightarrow> peer (mig_ram s) r b = Some c \<Longrightarrow> use_xbzrle \<Longrightarrow>
      \<not> last_stage \<or> dirty tpb (mig_ram s) b k \<Longrightarrow> cached s (cache_key tpb (mig_ram s) b k) = Some p \<Longrightarrow>
      get_page tpb (in_ram_state r) c k = p"
  using assms unfolding sync_def by blast+

lemma syncI:
  assumes "in_ok tpb r" and "same_layout (mig_ram s) (in_ram_state r)"
    and "\<And>b. last_block s = Some b \<Longrightarrow> cur_block r = peer (mig_ram s) r b"
    and "\<And>b k c. is_page tpb (mig_ram s) b k \<Longrightarrow> peer (mig_ram s) r b = Some c \<Longrightarrow> \<not> dirty tpb (mig_ram s) b k \<Longrightarrow>
      (b, k) \<notin> H \<Longrightarrow> get_page tpb (in_ram_state r) c k = get_page tpb (mig_ram s) b k"
    and "\<And>b k c p. is_page tpb (mig_ram s) b k \<Longrightarrow> peer (mig_ram s) r b = Some c \<Longrightarrow> use_xbzrle \<Longrightarrow>
      \<not> last_stage \<or> dirty tpb (mig_ram s) b k \<Longrightarrow> cached s (cache_key tpb (mig_ram s) b k) = Some p \<Longrightarrow>
      get_page tpb (in_ram_state r) c k = p"
  shows "sync tpb use_xbzrle last_stage H s r"
  using assms unfolding sync_def by blast

lemma sync_last_stage: "sync tpb use_xbzrle False H s r \<Longrightarrow> sync tpb use_xbzrle last_stage H s r"
  by (simp add: sync_def)

text \<open>When no page is dirty, all pages agree.\<close>

definition same_ram :: "nat \<Rightarrow> ram_state \<Rightarrow> ram_state \<Rightarrow> bool" where
  "same_ram tpb st dst \<longleftrightarrow>
     (\<forall>b\<in>set (rl_blocks (ram_list st)). \<exists>c\<in>set (rl_blocks (ram_list dst)).
        rb_idstr (rb_at dst c) = rb_idstr (rb_at st b) \<and> rb_host (rb_at dst c) = rb_host (rb_at st b))"

lemma pages_eq:
  assumes "length xs = n * m" and "length ys = n * m" and "0 < (m :: nat)"
    and "\<And>k. k < n \<Longrightarrow> take m (drop (k * m) xs) = take m (drop (k * m) ys)"
  shows "xs = ys"
proof (rule nth_equalityI)
  fix i assume "i < length xs"
  then have i: "i < n * m" using assms(1) by simp
  let ?k = "i div m" and ?j = "i mod m"
  have k: "?k < n" using i assms(3) by (simp add: div_less_iff_less_mult)
  have j: "?j < m" using assms(3) by simp
  have e: "?k * m + ?j = i" by simp
  have "take m (drop (?k * m) xs) ! ?j = take m (drop (?k * m) ys) ! ?j" using assms(4) [OF k] by simp
  moreover have "drop (?k * m) zs ! ?j = zs ! i" if "length zs = n * m" for zs :: "'a list"
  proof -
    have "?k * m \<le> length zs" using i that e by (metis le_add1 less_imp_le order_trans)
    then show ?thesis using nth_drop [of "?k * m" zs ?j] unfolding e by blast
  qed
  ultimately show "xs ! i = ys ! i" using j assms(1,2) by simp
qed (use assms in simp)

lemma peer_block:
  assumes "same_layout st (in_ram_state r)" and "b \<in> set (rl_blocks (ram_list st))"
  obtains c where "peer st r b = Some c" and "c \<in> set (rl_blocks (ram_list (in_ram_state r)))"
    and "rb_idstr (rb_at (in_ram_state r) c) = rb_idstr (rb_at st b)"
    and "rb_length (rb_at (in_ram_state r) c) = rb_length (rb_at st b)"
proof -
  obtain c where c: "find_idstr (rb_idstr (rb_at st b)) (in_ram_state r) = Some c"
    "rb_length (rb_at (in_ram_state r) c) = rb_length (rb_at st b)"
    using idstr_same_layout [OF assms] .
  then show ?thesis using find_idstr_Some [OF c(1)] that by (simp add: peer_def)
qed

lemma sync_same_ram:
  assumes "sync tpb use_xbzrle last_stage {} s r" and ok: "ram_ok tpb (mig_ram s)"
    and "\<And>b k. is_page tpb (mig_ram s) b k \<Longrightarrow> \<not> dirty tpb (mig_ram s) b k"
  shows "same_ram tpb (mig_ram s) (in_ram_state r)"
  unfolding same_ram_def
proof
  note S = syncD [OF assms(1)]
  fix b assume b: "b \<in> set (rl_blocks (ram_list (mig_ram s)))"
  obtain c where c: "peer (mig_ram s) r b = Some c" "c \<in> set (rl_blocks (ram_list (in_ram_state r)))"
    "rb_idstr (rb_at (in_ram_state r) c) = rb_idstr (rb_at (mig_ram s) b)"
    "rb_length (rb_at (in_ram_state r) c) = rb_length (rb_at (mig_ram s) b)"
    using peer_block [OF S(2) b] .
  have okr: "ram_ok tpb (in_ram_state r)" using S(1) by (simp add: in_ok_def)
  have n: "num_pages tpb (rb_at (in_ram_state r) c) = num_pages tpb (rb_at (mig_ram s) b)" using c(4) by (simp add: num_pages_def)
  have "rb_host (rb_at (in_ram_state r) c) = rb_host (rb_at (mig_ram s) b)"
  proof (rule pages_eq [OF ram_ok_block(9) [OF okr c(2)]])
    fix k assume k: "k < num_pages tpb (rb_at (in_ram_state r) c)"
    then have "is_page tpb (mig_ram s) b k" using b n by (simp add: is_page_def)
    then show "take (2 ^ tpb) (drop (k * 2 ^ tpb) (rb_host (rb_at (in_ram_state r) c))) =
        take (2 ^ tpb) (drop (k * 2 ^ tpb) (rb_host (rb_at (mig_ram s) b)))"
      using S(4) [OF _ c(1)] assms(3) by (simp add: get_page_def)
  qed (use ram_ok_block(9) [OF ok b] n in simp_all)
  then show "\<exists>c\<in>set (rl_blocks (ram_list (in_ram_state r))). rb_idstr (rb_at (in_ram_state r) c) = rb_idstr (rb_at (mig_ram s) b) \<and>
      rb_host (rb_at (in_ram_state r) c) = rb_host (rb_at (mig_ram s) b)"
    using c(2,3) by blast
qed

section \<open>Receiving a page\<close>

lemma new_page_unique: "new_page tpb l old n1 \<Longrightarrow> new_page tpb l old n2 \<Longrightarrow> n1 = n2"
proof (cases l)
  case (Delta e)
  have dec: "\<exists>q. xbzrle_decode_buffer e (length e) old (2 ^ tpb) = Some (q, n)" if "new_page tpb (Delta e) old n" for n
    using that by (auto dest!: spec [of _ e])
  assume "new_page tpb l old n1" "new_page tpb l old n2"
  then show ?thesis using dec [of n1] dec [of n2] Delta by auto
qed auto

lemma find_idstr_moved:
  assumes "names_ok st" and "names_ok st'" and "set (rl_blocks (ram_list st')) = set (rl_blocks (ram_list st))"
    and "\<And>b. rb_idstr (rb_at st' b) = rb_idstr (rb_at st b)"
  shows "find_idstr i st' = find_idstr i st"
proof (cases "\<exists>b\<in>set (rl_blocks (ram_list st)). rb_idstr (rb_at st b) = i")
  case True
  then obtain b where b: "b \<in> set (rl_blocks (ram_list st))" "rb_idstr (rb_at st b) = i" by blast
  then show ?thesis
    using find_idstr_block [OF assms(1) b(1)] find_idstr_block [OF assms(2), of b] assms(3,4) by simp
next
  case False
  then have "find_idstr i st' = None" "find_idstr i st = None"
    using find_idstr_Some [of i st] find_idstr_Some [of i st'] assms(3,4)
    by (metis option.exhaust)+
  then show ?thesis by simp
qed

lemma delivers_page:
  assumes ok: "in_ok tpb r" and d: "delivers tpb m r r'" and c: "msg_block m r = Some c"
    and new: "new_page tpb (msg_load m) (get_page tpb (in_ram_state r) c (msg_page m)) page"
  shows "in_ok tpb r'" and "find_idstr i (in_ram_state r') = find_idstr i (in_ram_state r)"
    and "rb_length (rb_at (in_ram_state r') x) = rb_length (rb_at (in_ram_state r) x)" and "cur_block r' = Some c"
    and "get_page tpb (in_ram_state r') x j =
      (if x = c \<and> j = msg_page m then page else get_page tpb (in_ram_state r) x j)"
proof -
  show ok': "in_ok tpb r'" by (rule delivers_ok [OF ok d])
  obtain page' where p: "c \<in> set (rl_blocks (ram_list (in_ram_state r)))"
    "msg_page m < num_pages tpb (rb_at (in_ram_state r) c)"
    "new_page tpb (msg_load m) (get_page tpb (in_ram_state r) c (msg_page m)) page'"
    "in_ram_state r' = set_page tpb c (msg_page m) page' (to_front c (in_ram_state r))" "cur_block r' = Some c"
    using d c unfolding delivers_def by force
  have e: "page' = page" by (rule new_page_unique [OF p(3) new])
  have rok: "ram_ok tpb (in_ram_state r)" and dis: "distinct (rl_blocks (ram_list (in_ram_state r)))"
    using ok by (simp_all add: in_ok_def ram_ok_def)
  show "find_idstr i (in_ram_state r') = find_idstr i (in_ram_state r)"
    by (rule find_idstr_moved) (use ok ok' p(1,4) dis in \<open>simp_all add: in_ok_def\<close>)
  show "rb_length (rb_at (in_ram_state r') x) = rb_length (rb_at (in_ram_state r) x)" "cur_block r' = Some c"
    using p(4,5) by simp_all
  show "get_page tpb (in_ram_state r') x j =
      (if x = c \<and> j = msg_page m then page else get_page tpb (in_ram_state r) x j)"
    using get_set_page [OF to_front_ok [OF rok p(1)], of c "msg_page m" page x j] p(1,2,4) dis length_new_page [OF new]
    by (simp add: e)
qed

section \<open>A page that was sent\<close>

lemma sent_page_ram:
  assumes "ram_ok tpb st" and "is_page tpb st b k" and "st1 = to_front b (clean_page tpb b k st)"
  shows "is_page tpb st1 c j \<longleftrightarrow> is_page tpb st c j" and "page_no tpb st1 c j = page_no tpb st c j"
    and "get_page tpb st1 c j = get_page tpb st c j" and "rb_at st1 = rb_at st"
    and "set (rl_blocks (ram_list st1)) = set (rl_blocks (ram_list st))"
    and "is_page tpb st c j \<Longrightarrow> dirty tpb st1 c j \<longleftrightarrow> dirty tpb st c j \<and> (c, j) \<noteq> (b, k)"
    and "ram_ok tpb st1" and "ram_mapped mrs st1 \<longleftrightarrow> ram_mapped mrs st" and "names_ok st1 \<longleftrightarrow> names_ok st"
    and "same_layout st1 dst \<longleftrightarrow> same_layout st dst" and "peer st1 r c = peer st r c"
    and "dirty tpb st b k \<Longrightarrow> Suc (dirty_count (ram_list st1)) = dirty_count (ram_list st)"
proof -
  have b: "b \<in> set (rl_blocks (ram_list st))" and d: "distinct (rl_blocks (ram_list st))"
    using assms(1,2) by (simp_all add: is_page_def ram_ok_def)
  show "is_page tpb st c j \<Longrightarrow> dirty tpb st1 c j \<longleftrightarrow> dirty tpb st c j \<and> (c, j) \<noteq> (b, k)"
    using dirty_clean_page [OF assms(1,2)] assms(3) by simp
  show "ram_ok tpb st1" using to_front_ok [of tpb "clean_page tpb b k st" b] assms(1,3) b by simp
  show "dirty tpb st b k \<Longrightarrow> Suc (dirty_count (ram_list st1)) = dirty_count (ram_list st)"
    using dirty_count_clean_page [OF assms(1,2)] assms(3) by simp
qed (use assms in \<open>simp_all add: is_page_def ram_ok_def same_layout_def peer_def\<close>)

lemma page_sentD:
  assumes "page_sent tpb use_xbzrle last_stage b k page (after_page tpb b k s) n s' ms"
  shows "mig_ram s' = to_front b (clean_page tpb b k (mig_ram s))" and "mig_mem s' = mig_mem s"
    and "last_block s' = last_block s" and "last_offset s' = last_offset s" and "use_xbzrle \<Longrightarrow> cache_ok tpb s'"
    and "use_xbzrle \<Longrightarrow> cached s' x = Some p \<Longrightarrow>
      if x = cache_key tpb (mig_ram s) b k then p = page \<or> last_stage else cached s x = Some p"
    and "n = 0 \<and> ms = [] \<and> use_xbzrle \<and> cached s (cache_key tpb (mig_ram s) b k) = Some page \<or>
      0 < n \<and> (\<exists>load. ms = [Page_Msg (page_id s b) k load] \<and>
        conveys tpb use_xbzrle (cached s (cache_key tpb (mig_ram s) b k)) page load)"
proof -
  have c: "cached (after_page tpb b k s) = cached s" by (simp add: cached_def fun_eq_iff)
  have k: "cache_key tpb (mig_ram (after_page tpb b k s)) b k = cache_key tpb (mig_ram s) b k" by simp
  have i: "page_id (after_page tpb b k s) b = page_id s b" by (simp add: page_id_def)
  note D = assms [unfolded page_sent_def Let_def c k i same_place_def]
  show "use_xbzrle \<Longrightarrow> cached s' x = Some p \<Longrightarrow>
      if x = cache_key tpb (mig_ram s) b k then p = page \<or> last_stage else cached s x = Some p"
    using D by blast
qed (use assms in \<open>auto simp: page_sent_def Let_def same_place_def cached_def page_id_def\<close>)

lemma sent_src_ok:
  assumes ok: "src_ok tpb use_xbzrle s" and pg: "is_page tpb (mig_ram s) b k"
    and sent: "page_sent tpb use_xbzrle last_stage b k (get_page tpb (mig_ram s) b k) (after_page tpb b k s) r s' ms"
  shows "src_ok tpb use_xbzrle s'"
proof -
  have rok: "ram_ok tpb (mig_ram s)" using ok by (simp add: src_ok_def)
  define st1 where "st1 = to_front b (clean_page tpb b k (mig_ram s))"
  note A = sent_page_ram [OF rok pg st1_def]
  note D = page_sentD [OF sent, folded st1_def]
  have "xb_safe tpb s'" if ux: use_xbzrle
    unfolding xb_safe_def D(1) A(1,3)
  proof (intro allI impI)
    fix c j assume j: "is_page tpb (mig_ram s) c j" "dirty tpb st1 c j" "cached s' (cache_key tpb st1 c j) \<noteq> None"
    then have cj: "dirty tpb (mig_ram s) c j" "(c, j) \<noteq> (b, k)" using A(6) by simp_all
    then have "cache_key tpb (mig_ram s) c j \<noteq> cache_key tpb (mig_ram s) b k" using key_inject [OF rok j(1) pg] by auto
    then have "cached s (cache_key tpb (mig_ram s) c j) \<noteq> None"
      using D(6) [OF ux, of "cache_key tpb (mig_ram s) c j"] j(3) A(2) by auto
    then show "\<not> is_dup tpb (get_page tpb (mig_ram s) c j)"
      using ok ux j(1) cj(1) by (auto simp: src_ok_def xb_safe_def)
  qed
  then show ?thesis
    using ok A(7,9) D(5) by (simp add: src_ok_def D(1,2) A(8))
qed

lemma sync_received:
  assumes ok: "src_ok tpb use_xbzrle s" and pg: "is_page tpb (mig_ram s) b k"
    and sent: "page_sent tpb use_xbzrle last_stage b k page (after_page tpb b k s) n s' ms"
    and page: "page = get_page tpb (mig_ram s) b k"
    and sy: "sync tpb use_xbzrle last_stage H s r" and c: "peer (mig_ram s) r b = Some c"
    and r': "in_ok tpb r'" "\<And>i. find_idstr i (in_ram_state r') = find_idstr i (in_ram_state r)"
      "\<And>x. rb_length (rb_at (in_ram_state r') x) = rb_length (rb_at (in_ram_state r) x)"
      "\<And>x j. get_page tpb (in_ram_state r') x j = (if x = c \<and> j = k then page else get_page tpb (in_ram_state r) x j)"
      "\<And>d. lb = Some d \<Longrightarrow> cur_block r' = peer (mig_ram s) r d"
  shows "sync tpb use_xbzrle last_stage H (s'\<lparr>last_block := lb\<rparr>) r'"
proof (rule syncI)
  define st1 where "st1 = to_front b (clean_page tpb b k (mig_ram s))"
  have rok: "ram_ok tpb (mig_ram s)" using ok by (simp add: src_ok_def)
  note A = sent_page_ram [OF rok pg st1_def] and S = syncD [OF sy]
  have b: "b \<in> set (rl_blocks (ram_list (mig_ram s)))" using pg by (simp add: is_page_def)
  note D = page_sentD [OF sent, folded st1_def]
  note s' = D(1-3) and ca = D(6)
  have pe: "peer st1 r' d = peer (mig_ram s) r d" for d using r'(2) A(4) by (simp add: peer_def)
  show "in_ok tpb r'" by (rule r')
  show "same_layout (mig_ram (s'\<lparr>last_block := lb\<rparr>)) (in_ram_state r')"
    using S(2) r'(2,3) A(10) [of "in_ram_state r'"] by (simp add: s' same_layout_def)
  show "cur_block r' = peer (mig_ram (s'\<lparr>last_block := lb\<rparr>)) r' d" if "last_block (s'\<lparr>last_block := lb\<rparr>) = Some d" for d
    using r'(5) that pe by (simp add: s')
  fix d j e assume j: "is_page tpb (mig_ram (s'\<lparr>last_block := lb\<rparr>)) d j" "peer (mig_ram (s'\<lparr>last_block := lb\<rparr>)) r' d = Some e"
  then have j': "is_page tpb (mig_ram s) d j" "peer (mig_ram s) r d = Some e" using A(1) pe by (simp_all add: s')
  have "d = b" if "e = c"
  proof -
    have "rb_idstr (rb_at (mig_ram s) d) = rb_idstr (rb_at (mig_ram s) b)"
      using that j'(2) c find_idstr_Some unfolding peer_def by metis
    then show ?thesis using ok j'(1) b by (auto simp: src_ok_def names_ok_def is_page_def)
  qed
  then have same: "e = c \<and> j = k \<longleftrightarrow> (d, j) = (b, k)" using c j'(2) by auto
  have gp: "get_page tpb (in_ram_state r') e j = (if (d, j) = (b, k) then page else get_page tpb (in_ram_state r) e j)"
    unfolding r'(4) same ..
  have dj: "dirty tpb st1 d j \<longleftrightarrow> dirty tpb (mig_ram s) d j \<and> (d, j) \<noteq> (b, k)" by (rule A(6) [OF j'(1)])
  show "get_page tpb (in_ram_state r') e j = get_page tpb (mig_ram (s'\<lparr>last_block := lb\<rparr>)) d j"
    if "\<not> dirty tpb (mig_ram (s'\<lparr>last_block := lb\<rparr>)) d j" "(d, j) \<notin> H"
  proof (cases "(d, j) = (b, k)")
    case False
    then show ?thesis using that S(4) [OF j'] A(3) [of d j] gp dj by (auto simp: s')
  qed (use gp A(3) [of d j] in \<open>simp add: s' page\<close>)
  show "get_page tpb (in_ram_state r') e j = p"
    if "use_xbzrle" "\<not> last_stage \<or> dirty tpb (mig_ram (s'\<lparr>last_block := lb\<rparr>)) d j"
      "cached (s'\<lparr>last_block := lb\<rparr>) (cache_key tpb (mig_ram (s'\<lparr>last_block := lb\<rparr>)) d j) = Some p" for p
  proof -
    have "cached s' (cache_key tpb (mig_ram s) d j) = Some p" using that(3) A(2) by (simp add: cached_def s')
    note x = ca [OF that(1) this]
    have dd: "\<not> last_stage \<or> dirty tpb st1 d j" using that(2) by (simp add: s')
    show ?thesis
    proof (cases "(d, j) = (b, k)")
      case True
      then show ?thesis using x dd dj gp by simp
    next
      case False
      then have "cached s (cache_key tpb (mig_ram s) d j) = Some p" using x key_inject [OF rok j'(1) pg] by auto
      then show ?thesis using S(5) [OF j' that(1)] dd dj False gp by auto
    qed
  qed
qed

lemma sync_page:
  assumes ok: "src_ok tpb use_xbzrle s" and pg: "is_page tpb (mig_ram s) b k" and dt: "dirty tpb (mig_ram s) b k"
    and sent: "page_sent tpb use_xbzrle last_stage b k page (after_page tpb b k s) n s' ms"
    and page_def: "page = get_page tpb (mig_ram s) b k"
    and sy: "sync tpb use_xbzrle last_stage H s r"
  shows "accepts tpb use_xbzrle ms r (sync tpb use_xbzrle last_stage H (if ms = [] then s' else s'\<lparr>last_block := Some b\<rparr>))"
proof -
  let ?a = "cache_key tpb (mig_ram s) b k" and ?dst = "in_ram_state r"
  have rok: "ram_ok tpb (mig_ram s)" using ok by (simp add: src_ok_def)
  note S = syncD [OF sy]
  have b: "b \<in> set (rl_blocks (ram_list (mig_ram s)))" using pg by (simp add: is_page_def)
  note D = page_sentD [OF sent]
  obtain c where c: "peer (mig_ram s) r b = Some c" "c \<in> set (rl_blocks (ram_list ?dst))"
    "rb_length (rb_at ?dst c) = rb_length (rb_at (mig_ram s) b)"
    using peer_block [OF S(2) b] by blast
  from D(7) show ?thesis
  proof (elim disjE conjE exE)
    assume m: "ms = []" and p: "use_xbzrle" "cached s ?a = Some page"
    have "get_page tpb ?dst c k = page" using S(5) [OF pg c(1) p(1) _ p(2)] dt by blast
    then have "sync tpb use_xbzrle last_stage H (s'\<lparr>last_block := last_block s'\<rparr>) r"
      using S(1,3) by (intro sync_received [OF ok pg sent page_def sy c(1)]) (auto simp: D(3))
    then show ?thesis using m by simp
  next
    fix load assume m: "ms = [Page_Msg (page_id s b) k load]" and cv: "conveys tpb use_xbzrle (cached s ?a) page load"
    let ?m = "Page_Msg (page_id s b) k load"
    have len: "length page = 2 ^ tpb" "length (get_page tpb ?dst c k) = 2 ^ tpb" and n: "k < num_pages tpb (rb_at ?dst c)"
      using page_in_block(2) [OF rok b] page_in_block(2) [OF _ c(2), of tpb k] S(1) pg c(3)
      by (simp_all add: page_def is_page_def in_ok_def num_pages_def)
    have mb: "msg_block ?m r = Some c" using S(3) c(1) by (auto simp: msg_block_def page_id_def peer_def)
    have "new_page tpb load (get_page tpb ?dst c k) page"
      using cv unfolding conveys_def
    proof (elim disjE exE conjE)
      fix e q assume d: "load = Delta e" "use_xbzrle" "cached s ?a = Some q" "is_delta tpb e q page"
      have q: "get_page tpb ?dst c k = q" using S(5) [OF pg c(1) d(2) _ d(3)] dt by blast
      then show ?thesis using d(1,4) len merge_old [of q page] unfolding is_delta_def by metis
    qed (use len in simp_all)
    then have new: "new_page tpb (msg_load ?m) (get_page tpb ?dst c (msg_page ?m)) page" by simp
    have "receivable tpb use_xbzrle ?m r c page"
      using mb n new ok b cv by (auto simp: receivable_def page_id_def src_ok_def names_ok_def conveys_def)
    moreover have "sync tpb use_xbzrle last_stage H (s'\<lparr>last_block := Some b\<rparr>) r'" if d: "delivers tpb ?m r r'" for r'
      using delivers_page [OF S(1) d mb new] c(1) by (intro sync_received [OF ok pg sent page_def sy c(1)]) auto
    ultimately show ?thesis using m by auto
  qed
qed

end
