(* ===== verification/Ram_Search.thy ===== *)
theory Ram_Search
  imports Ram_Sync
begin

text \<open>
  The search of \<open>ram_save_block\<close> for a page to send. It goes round the pages of all blocks; as every
  page that is looked at closely moves its block to the head of the list, the order can change on
  the way. It ends, and says that there is nothing left to send only if that is so.
\<close>

section \<open>The round of all pages\<close>

definition block_pages :: "nat \<Rightarrow> ram_state \<Rightarrow> ptr \<Rightarrow> (ptr \<times> nat) list" where
  "block_pages tpb st b = map (Pair b) [0..<num_pages tpb (rb_at st b)]"

definition all_pages :: "nat \<Rightarrow> ram_state \<Rightarrow> (ptr \<times> nat) list" where
  "all_pages tpb st = concat (map (block_pages tpb st) (rl_blocks (ram_list st)))"

definition pos_of :: "nat \<Rightarrow> ptr \<times> nat \<Rightarrow> ptr \<times> u64" where
  "pos_of tpb = (\<lambda>(b, k). (b, page_addr tpb k))"

lemma set_all_pages: "(b, k) \<in> set (all_pages tpb st) \<longleftrightarrow> is_page tpb st b k"
  by (auto simp: all_pages_def block_pages_def is_page_def image_iff)

lemma distinct_all_pages:
  assumes "ram_ok tpb st"
  shows "distinct (all_pages tpb st)"
proof -
  have "distinct (concat (map (block_pages tpb st) bs))" if "distinct bs" for bs
    using that by (induction bs) (auto simp: block_pages_def distinct_map inj_on_def)
  then show ?thesis using assms by (simp add: all_pages_def ram_ok_def)
qed

lemma page_index:
  assumes "is_page tpb st b k"
  obtains i where "i < length (all_pages tpb st)" and "all_pages tpb st ! i = (b, k)"
  using assms unfolding set_all_pages [symmetric] in_set_conv_nth by blast

lemma page_at:
  assumes "i < length (all_pages tpb st)"
  shows "is_page tpb st (fst (all_pages tpb st ! i)) (snd (all_pages tpb st ! i))"
  using nth_mem [OF assms] set_all_pages by (metis prod.collapse)

lemma next_block_append: "b \<notin> set xs \<Longrightarrow> next_block (xs @ b # ys) b = (case ys of [] \<Rightarrow> None | c # _ \<Rightarrow> Some c)"
proof -
  assume "b \<notin> set xs"
  then have "dropWhile (\<lambda>x. x \<noteq> b) (xs @ b # ys) = b # ys" by (induction xs) auto
  then show ?thesis by (simp add: next_block_def split: list.split)
qed

lemma next_offset_page:
  assumes "ram_ok tpb st" and "is_page tpb st b k"
  shows "page_addr tpb k + TARGET_PAGE_SIZE tpb = page_addr tpb (Suc k)"
    and "page_addr tpb (Suc k) \<ge> rb_length (rb_at st b) \<longleftrightarrow> Suc k = num_pages tpb (rb_at st b)"
proof -
  have b: "b \<in> set (rl_blocks (ram_list st))" "k < num_pages tpb (rb_at st b)" using assms(2) by (simp_all add: is_page_def)
  note B = ram_ok_block [OF assms(1) b(1)]
  show "page_addr tpb k + TARGET_PAGE_SIZE tpb = page_addr tpb (Suc k)" by (rule page_addr_next [OF B(1)])
  have "Suc k * 2 ^ tpb \<le> num_pages tpb (rb_at st b) * 2 ^ tpb" using b(2) by (intro mult_le_mono1) simp
  also have "\<dots> < 2 ^ 64" using B(3) unat_lt64 by metis
  finally have "unat (page_addr tpb (Suc k)) = Suc k * 2 ^ tpb" by (rule unat_page_addr)
  then have "page_addr tpb (Suc k) \<ge> rb_length (rb_at st b) \<longleftrightarrow> num_pages tpb (rb_at st b) * 2 ^ tpb \<le> Suc k * 2 ^ tpb"
    using B(3) by (simp add: word_le_nat_alt)
  also have "\<dots> \<longleftrightarrow> num_pages tpb (rb_at st b) \<le> Suc k" unfolding mult_le_cancel2 by simp
  finally show "page_addr tpb (Suc k) \<ge> rb_length (rb_at st b) \<longleftrightarrow> Suc k = num_pages tpb (rb_at st b)" using b(2) by auto
qed

lemma next_page_round:
  assumes ok: "ram_ok tpb st" and i: "i < length (all_pages tpb st)"
  shows "next_page tpb st (pos_of tpb (all_pages tpb st ! i)) =
    pos_of tpb (all_pages tpb st ! (Suc i mod length (all_pages tpb st)))"
proof -
  obtain b k where bk: "all_pages tpb st ! i = (b, k)" by fastforce
  then have pg: "is_page tpb st b k" using page_at [OF i] by simp
  then have b: "b \<in> set (rl_blocks (ram_list st))" "k < num_pages tpb (rb_at st b)" by (simp_all add: is_page_def)
  have pos: "0 < num_pages tpb (rb_at st c)" if "c \<in> set (rl_blocks (ram_list st))" for c
    by (rule ram_ok_block(4) [OF ok that])
  obtain xs ys where sp: "rl_blocks (ram_list st) = xs @ b # ys" using b(1) by (meson split_list)
  have nb: "b \<notin> set xs" using ok sp by (simp add: ram_ok_def)
  let ?X = "concat (map (block_pages tpb st) xs)" and ?Y = "concat (map (block_pages tpb st) ys)"
  have L: "all_pages tpb st = ?X @ block_pages tpb st b @ ?Y" by (simp add: all_pages_def sp)
  have "all_pages tpb st ! (length ?X + k) = (b, k)" "length ?X + k < length (all_pages tpb st)"
    using b(2) by (simp_all add: L nth_append block_pages_def)
  then have ieq: "i = length ?X + k"
    using distinct_all_pages [OF ok] i bk nth_eq_iff_index_eq by metis
  note no = next_offset_page [OF ok pg]
  show ?thesis
  proof (cases "Suc k = num_pages tpb (rb_at st b)")
    case False
    then have "Suc i < length (all_pages tpb st)" "all_pages tpb st ! Suc i = (b, Suc k)"
      using b(2) by (simp_all add: L ieq nth_append block_pages_def)
    then show ?thesis using False no bk by (simp add: next_page_def pos_of_def)
  next
    case True
    have z: "page_addr tpb 0 = 0" by (simp add: page_addr_def)
    have h: "concat (map (block_pages tpb st) bs) ! 0 = (hd bs, 0)" if "bs \<noteq> []" "hd bs \<in> set (rl_blocks (ram_list st))" for bs
      using pos [OF that(2)] that(1) by (cases bs) (simp_all add: block_pages_def nth_append)
    show ?thesis
    proof (cases ys)
      case Nil
      then have "Suc i = length (all_pages tpb st)" using True by (simp add: L ieq block_pages_def)
      moreover have "all_pages tpb st ! 0 = (hd (rl_blocks (ram_list st)), 0)"
        unfolding all_pages_def by (rule h) (use b(1) in \<open>auto intro!: hd_in_set\<close>)
      ultimately show ?thesis
        using True no bk Nil next_block_append [OF nb, of ys] sp z by (simp add: next_page_def pos_of_def)
    next
      case (Cons c zs)
      then have c: "c \<in> set (rl_blocks (ram_list st))" using sp by simp
      have "?Y ! 0 = (c, 0)" using h [of ys] Cons c by simp
      moreover have "0 < length ?Y" using pos [OF c] Cons by (simp add: block_pages_def)
      moreover have "Suc i = length ?X + num_pages tpb (rb_at st b)" using True ieq by simp
      ultimately have "Suc i < length (all_pages tpb st)" "all_pages tpb st ! Suc i = (c, 0)"
        by (simp_all add: L nth_append block_pages_def)
      then show ?thesis
        using True no bk Cons next_block_append [OF nb, of ys] sp z by (simp add: next_page_def pos_of_def)
    qed
  qed
qed

text \<open>The number of steps from one place of the round to another, at least one.\<close>

definition steps :: "nat \<Rightarrow> nat \<Rightarrow> nat \<Rightarrow> nat" where
  "steps n i j = (if i < j then j - i else j + n - i)"

lemma steps_next:
  assumes "i < n" and "j < n"
  shows "Suc i mod n = j \<Longrightarrow> steps n i j = 1" and "Suc i mod n \<noteq> j \<Longrightarrow> steps n i j = Suc (steps n (Suc i mod n) j)"
  using assms by (cases "Suc i = n"; auto simp: steps_def)+

lemma pos_eq:
  assumes "ram_ok tpb st" and "is_page tpb st b k" and "is_page tpb st c j"
  shows "pos_of tpb (b, k) = pos_of tpb (c, j) \<longleftrightarrow> (b, k) = (c, j)"
proof -
  have "unat (page_addr tpb k) = k * 2 ^ tpb" "unat (page_addr tpb j) = j * 2 ^ tpb"
    using page_in_block(3) [OF assms(1)] assms(2,3) unfolding is_page_def by blast+
  then have "page_addr tpb k = page_addr tpb j \<longleftrightarrow> k * 2 ^ tpb = j * 2 ^ tpb" by (metis word_unat_eq_iff)
  then show ?thesis by (simp add: pos_of_def)
qed

section \<open>One call of the search\<close>

text \<open>The place where the last call stopped.\<close>

definition stands :: "nat \<Rightarrow> 'd migration \<Rightarrow> ptr \<Rightarrow> nat \<Rightarrow> bool" where
  "stands tpb s b k \<longleftrightarrow> last_block s = Some b \<and> last_offset s = page_addr tpb k \<and> is_page tpb (mig_ram s) b k"

abbreviation page_dirty :: "nat \<Rightarrow> ram_state \<Rightarrow> ptr \<times> nat \<Rightarrow> bool" where
  "page_dirty tpb st p \<equiv> dirty tpb st (fst p) (snd p)"

lemma loop_unfold:
  assumes "ram_ok tpb (mig_ram s)" and "ram_mapped (regions s) (mig_ram s)" and "is_page tpb (mig_ram s) b k"
  shows "ram_save_loop tpb tcg use_xbzrle last_stage (pos_of tpb (b, k)) bytes_sent f s =
    do {
      r \<leftarrow> (if dirty tpb (mig_ram s) b k
            then save_dirty_page tpb tcg use_xbzrle last_stage b (page_addr tpb k) bytes_sent f s
            else Some (bytes_sent, f, s));
      if dirty tpb (mig_ram s) b k \<and> fst r \<noteq> 0 then Some (fst r, pos_of tpb (b, k), snd r)
      else
        let pos = next_page tpb (mig_ram (snd (snd r))) (pos_of tpb (b, k)) in
        if last_block s \<noteq> Some (fst pos) \<or> last_offset s \<noteq> snd pos
        then ram_save_loop tpb tcg use_xbzrle last_stage pos (fst r) (fst (snd r)) (snd (snd r))
        else Some (fst r, pos, snd r)
    }"
  using get_dirty_region [OF assms]
  by (subst ram_save_loop.simps) (simp add: pos_of_def)

lemma at_last_pos:
  assumes "ram_ok tpb st" and "stands tpb s b0 k0" and "is_page tpb st b0 k0" and "is_page tpb st c j"
  shows "last_block s \<noteq> Some (fst (pos_of tpb (c, j))) \<or> last_offset s \<noteq> snd (pos_of tpb (c, j)) \<longleftrightarrow> (c, j) \<noteq> (b0, k0)"
  using pos_eq [OF assms(1,3,4)] assms(2) by (auto simp: stands_def pos_of_def)

lemma loop_walk:
  assumes ok: "ram_ok tpb (mig_ram s)" "ram_mapped (regions s) (mig_ram s)" and st: "stands tpb s b0 k0"
    and L: "L = all_pages tpb (mig_ram s)" and j: "j < length L" "L ! j = (b0, k0)"
  shows "i < length L \<Longrightarrow>
    ram_save_loop tpb tcg use_xbzrle last_stage (pos_of tpb (L ! i)) bytes_sent f s =
      Some (bytes_sent, pos_of tpb (b0, k0), f, s) \<and>
      (\<forall>d < steps (length L) i j. \<not> page_dirty tpb (mig_ram s) (L ! ((i + d) mod length L))) \<or>
    (\<exists>m<length L. page_dirty tpb (mig_ram s) (L ! m) \<and>
      ram_save_loop tpb tcg use_xbzrle last_stage (pos_of tpb (L ! i)) bytes_sent f s =
      ram_save_loop tpb tcg use_xbzrle last_stage (pos_of tpb (L ! m)) bytes_sent f s)"
proof (induction "steps (length L) i j" arbitrary: i rule: less_induct)
  case less
  let ?n = "length L" and ?i = "Suc i mod length L"
  obtain b k where bk: "L ! i = (b, k)" by fastforce
  have pg: "is_page tpb (mig_ram s) b k" using page_at [of i tpb "mig_ram s"] less.prems bk by (simp add: L)
  have i': "?i < ?n" using less.prems by (intro mod_less_divisor) linarith
  show ?case
  proof (cases "dirty tpb (mig_ram s) b k")
    case True
    then show ?thesis using less.prems bk by (intro disjI2 exI [of _ i]) simp
  next
    case False
    have nx: "next_page tpb (mig_ram s) (pos_of tpb (b, k)) = pos_of tpb (L ! ?i)"
      using next_page_round [OF ok(1), of i] less.prems bk by (simp add: L)
    obtain c l where cl: "L ! ?i = (c, l)" by fastforce
    have pg': "is_page tpb (mig_ram s) c l" using page_at [of ?i tpb "mig_ram s"] i' cl by (simp add: L)
    have pg0: "is_page tpb (mig_ram s) b0 k0" using st by (simp add: stands_def)
    note al = at_last_pos [OF ok(1) st pg0 pg']
    note un = loop_unfold [OF ok pg, of tcg use_xbzrle last_stage bytes_sent f]
    have ij: "(c, l) = (b0, k0) \<longleftrightarrow> ?i = j"
      using nth_eq_iff_index_eq [OF distinct_all_pages [OF ok(1)], of ?i j] i' j cl L by auto
    show ?thesis
    proof (cases "?i = j")
      case True
      then have "steps ?n i j = 1" by (rule steps_next(1) [OF less.prems j(1)])
      moreover have "(c, l) = (b0, k0)" using True ij by simp
      ultimately show ?thesis using un nx al cl False bk less.prems by simp
    next
      case F: False
      note sn = steps_next(2) [OF less.prems j(1) F]
      have e: "ram_save_loop tpb tcg use_xbzrle last_stage (pos_of tpb (L ! i)) bytes_sent f s =
          ram_save_loop tpb tcg use_xbzrle last_stage (pos_of tpb (L ! ?i)) bytes_sent f s"
        using un nx al cl ij F False bk by (simp add: Let_def)
      have "\<not> page_dirty tpb (mig_ram s) (L ! ((i + d) mod ?n))"
        if h: "\<forall>d < steps ?n ?i j. \<not> page_dirty tpb (mig_ram s) (L ! ((?i + d) mod ?n))" and d: "d < steps ?n i j" for d
      proof (cases d)
        case 0
        then show ?thesis using False bk less.prems by simp
      next
        case (Suc d')
        then have "\<not> page_dirty tpb (mig_ram s) (L ! ((?i + d') mod ?n))" using h d sn by simp
        moreover have "(?i + d') mod ?n = (i + d) mod ?n" using Suc by (simp add: mod_add_left_eq)
        ultimately show ?thesis by simp
      qed
      then show ?thesis using less.hyps [OF _ i'] sn unfolding e by auto
    qed
  qed
qed

text \<open>Sending only clears dirty flags and reorders the blocks.\<close>

definition ram_kept :: "nat \<Rightarrow> 'd migration \<Rightarrow> 'd migration \<Rightarrow> bool" where
  "ram_kept tpb s s' \<longleftrightarrow>
     mig_mem s' = mig_mem s \<and> rb_at (mig_ram s') = rb_at (mig_ram s) \<and>
     set (rl_blocks (ram_list (mig_ram s'))) = set (rl_blocks (ram_list (mig_ram s))) \<and>
     (\<forall>b k. is_page tpb (mig_ram s) b k \<longrightarrow> dirty tpb (mig_ram s') b k \<longrightarrow> dirty tpb (mig_ram s) b k)"

lemma ram_kept_refl [simp]: "ram_kept tpb s s"
  by (simp add: ram_kept_def)

lemma ram_kept_page: "ram_kept tpb s s' \<Longrightarrow> is_page tpb (mig_ram s') b k \<longleftrightarrow> is_page tpb (mig_ram s) b k"
  by (simp add: ram_kept_def is_page_def)

lemma ram_kept_trans: "ram_kept tpb s s' \<Longrightarrow> ram_kept tpb s' s'' \<Longrightarrow> ram_kept tpb s s''"
  unfolding ram_kept_def is_page_def by auto

text \<open>A receiver that follows the sender still does after it received the messages.\<close>

definition simulates :: "nat \<Rightarrow> bool \<Rightarrow> bool \<Rightarrow> 'd migration \<Rightarrow> 'd migration \<Rightarrow> page_msg list \<Rightarrow> bool" where
  "simulates tpb use_xbzrle last_stage s s' ms \<longleftrightarrow>
     (\<forall>H r. sync tpb use_xbzrle last_stage H s r \<longrightarrow> accepts tpb use_xbzrle ms r (sync tpb use_xbzrle last_stage H s'))"

lemma simulates_Nil [simp]: "simulates tpb use_xbzrle last_stage s s []"
  by (simp add: simulates_def)

lemma simulates_append:
  "simulates tpb use_xbzrle last_stage s s' xs \<Longrightarrow> simulates tpb use_xbzrle last_stage s' s'' ys \<Longrightarrow>
   simulates tpb use_xbzrle last_stage s s'' (xs @ ys)"
  unfolding simulates_def accepts_append by (blast intro: accepts_mono)

abbreviation to_send :: "'d migration \<Rightarrow> nat" where
  "to_send s \<equiv> dirty_count (ram_list (mig_ram s))"

lemma last_block_same: "last_block s = Some b \<Longrightarrow> s\<lparr>last_block := Some b\<rparr> = s"
  by (cases s) simp

text \<open>No page is left to be sent.\<close>

definition all_clean :: "nat \<Rightarrow> ram_state \<Rightarrow> bool" where
  "all_clean tpb st \<longleftrightarrow> (\<forall>b k. is_page tpb st b k \<longrightarrow> \<not> dirty tpb st b k)"

lemma round_clean:
  assumes "i < length L" and "L = all_pages tpb st" and "\<forall>d < steps (length L) i i. \<not> page_dirty tpb st (L ! ((i + d) mod length L))"
  shows "all_clean tpb st"
  unfolding all_clean_def
proof (intro allI impI)
  fix c l assume "is_page tpb st c l"
  then obtain q where q: "q < length L" "L ! q = (c, l)" using page_index [of tpb st c l] assms(2) by auto
  define d where "d = (if i \<le> q then q - i else q + length L - i)"
  have "d < steps (length L) i i" "(i + d) mod length L = q" using assms(1) q(1) by (auto simp: d_def steps_def)
  then show "\<not> dirty tpb st c l" using assms(3) q(2) by force
qed

text \<open>
  The outcome of a search: the place where it ends, the messages sent, and that there was nothing
  to send if the result is -1 and the search went the whole round, or less is left to be sent if
  the search was not in the middle of things (\<open>fresh\<close>).
\<close>

definition searched ::
  "nat \<Rightarrow> bool \<Rightarrow> bool \<Rightarrow> bool \<Rightarrow> bool \<Rightarrow> 'd migration \<Rightarrow> int \<Rightarrow> ptr \<times> nat \<Rightarrow> 'd migration \<Rightarrow> page_msg list \<Rightarrow> bool" where
  "searched tpb use_xbzrle last_stage fresh full s n p s' ms \<longleftrightarrow>
     is_page tpb (mig_ram s) (fst p) (snd p) \<and> src_ok tpb use_xbzrle s' \<and> ram_kept tpb s s' \<and>
     simulates tpb use_xbzrle last_stage s (s'\<lparr>last_block := Some (fst p)\<rparr>) ms \<and> to_send s' \<le> to_send s \<and>
     (if n < 0 then n = - 1 \<and> fresh \<and> s' = s \<and> (full \<longrightarrow> all_clean tpb (mig_ram s)) else fresh \<longrightarrow> to_send s' < to_send s)"

lemma searched_after:
  assumes "searched tpb use_xbzrle last_stage False full' s1 n p s' ms" and "ram_kept tpb s s1"
    and "simulates tpb use_xbzrle last_stage s s1 []" and "to_send s1 < to_send s"
  shows "searched tpb use_xbzrle last_stage fresh full s n p s' ms"
  using assms ram_kept_trans [OF assms(2), of s'] simulates_append [OF assms(3), of _ ms] ram_kept_page [OF assms(2)]
  by (auto simp: searched_def split: if_splits)

lemma next_page_in:
  assumes "ram_ok tpb st" and "is_page tpb st c l"
  obtains d e where "next_page tpb st (pos_of tpb (c, l)) = pos_of tpb (d, e)" and "is_page tpb st d e"
proof -
  let ?L = "all_pages tpb st"
  obtain i where i: "i < length ?L" "?L ! i = (c, l)" using page_index [OF assms(2)] .
  obtain d e where de: "?L ! (Suc i mod length ?L) = (d, e)" by fastforce
  have "Suc i mod length ?L < length ?L" using i(1) by (intro mod_less_divisor) linarith
  then show ?thesis
    using next_page_round [OF assms(1) i(1)] page_at [of "Suc i mod length ?L" tpb st] i(2) de that by simp
qed

context byte_sink
begin

lemma save_dirty_page_spec:
  assumes ok: "src_ok tpb use_xbzrle s" and pg: "is_page tpb (mig_ram s) b k" and dt: "dirty tpb (mig_ram s) b k"
    and bs: "bytes_sent = - 1 \<or> use_xbzrle" and tpb: "3 \<le> tpb" "tpb < 14" and w: "writing put out good f"
  obtains n f' s' ms where
    "save_dirty_page tpb tcg use_xbzrle last_stage b (page_addr tpb k) bytes_sent f s = Some (n, f', s')"
    and "writing put out good f'" and "written out f' = written out f @ enc_msgs tpb ms" and "close_func f' = close_func f"
    and "src_ok tpb use_xbzrle s'" and "ram_kept tpb s s'" and "last_block s' = last_block s"
    and "last_offset s' = last_offset s" and "Suc (to_send s') = to_send s"
    and "n = 0 \<and> ms = [] \<and> use_xbzrle \<and> cached s (cache_key tpb (mig_ram s) b k) \<noteq> None \<or> 0 < n \<and> ms \<noteq> []"
    and "simulates tpb use_xbzrle last_stage s (if ms = [] then s' else s'\<lparr>last_block := Some b\<rparr>) ms"
proof -
  have rok: "ram_ok tpb (mig_ram s)" and mp: "ram_mapped (regions s) (mig_ram s)" using ok by (simp_all add: src_ok_def)
  have b: "b \<in> set (rl_blocks (ram_list (mig_ram s)))" "k < num_pages tpb (rb_at (mig_ram s) b)"
    using pg by (simp_all add: is_page_def)
  let ?page = "get_page tpb (mig_ram s) b k" and ?s1 = "after_page tpb b k s"
  have key: "cache_key tpb (mig_ram ?s1) b k = cache_key tpb (mig_ram s) b k" "cached ?s1 = cached s"
    by (simp_all add: cached_def fun_eq_iff)
  have "cache_ok tpb ?s1" if use_xbzrle using ok that by (simp add: src_ok_def cache_ok_def cached_def)
  moreover have "cached ?s1 (cache_key tpb (mig_ram ?s1) b k) = None" if "use_xbzrle" "is_dup tpb ?page"
    using ok that pg dt unfolding key src_ok_def xb_safe_def by blast
  ultimately obtain n f' s' ms where x: "send_page tpb use_xbzrle last_stage b k ?page bytes_sent f ?s1 = Some (n, f', s')"
    "writing put out good f'" "written out f' = written out f @ enc_msgs tpb ms" "close_func f' = close_func f"
    and sent: "page_sent tpb use_xbzrle last_stage b k ?page ?s1 n s' ms"
    using send_page_spec [OF page_in_block(2) [OF rok b] tpb w bs, of ?s1 b k last_stage]
      key_not_minus_one [OF rok pg] tpb(1) unfolding key(1) by auto
  note D = page_sentD [OF sent] and A = sent_page_ram [OF rok pg D(1)]
  have "ram_kept tpb s s'" using A D(2) by (auto simp: ram_kept_def)
  moreover have "n = 0 \<and> ms = [] \<and> use_xbzrle \<and> cached s (cache_key tpb (mig_ram s) b k) \<noteq> None \<or> 0 < n \<and> ms \<noteq> []"
    using D(7) by auto
  moreover have "simulates tpb use_xbzrle last_stage s (if ms = [] then s' else s'\<lparr>last_block := Some b\<rparr>) ms"
    unfolding simulates_def using sync_page [OF ok pg dt sent refl] by blast
  ultimately show ?thesis
    using that [of n f' s' ms] x save_dirty_page_eq [OF rok mp pg tpb(1), of tcg use_xbzrle last_stage bytes_sent f]
      sent_src_ok [OF ok pg sent] D(3,4) A(12) [OF dt] by auto
qed

lemma ram_save_loop_spec:
  assumes tpb: "3 \<le> tpb" "tpb < 14"
  shows "src_ok tpb use_xbzrle s \<Longrightarrow> stands tpb s b0 k0 \<Longrightarrow> is_page tpb (mig_ram s) b k \<Longrightarrow>
    bytes_sent = - 1 \<or> use_xbzrle \<and> bytes_sent = 0 \<Longrightarrow> writing put out good f \<Longrightarrow>
    \<exists>n p f' s' ms. ram_save_loop tpb tcg use_xbzrle last_stage (pos_of tpb (b, k)) bytes_sent f s =
        Some (n, pos_of tpb p, f', s') \<and>
      writing put out good f' \<and> written out f' = written out f @ enc_msgs tpb ms \<and> close_func f' = close_func f \<and>
      searched tpb use_xbzrle last_stage (bytes_sent \<noteq> 0) ((b, k) = (b0, k0)) s n p s' ms"
proof (induction "to_send s" arbitrary: s b k bytes_sent f rule: less_induct)
  case less
  have rok: "ram_ok tpb (mig_ram s)" and mp: "ram_mapped (regions s) (mig_ram s)"
    using less.prems(1) by (simp_all add: src_ok_def)
  have pg0: "is_page tpb (mig_ram s) b0 k0" and lb: "last_block s = Some b0" using less.prems(2) by (simp_all add: stands_def)
  define L where "L = all_pages tpb (mig_ram s)"
  obtain i where i: "i < length L" "L ! i = (b, k)" using page_index [OF less.prems(3)] unfolding L_def .
  obtain j where j: "j < length L" "L ! j = (b0, k0)" using page_index [OF pg0] unfolding L_def .
  let ?loop = "\<lambda>p bs f s. ram_save_loop tpb tcg use_xbzrle last_stage (pos_of tpb p) bs f s"
  from loop_walk [OF rok mp less.prems(2) L_def j i(1), of tcg use_xbzrle last_stage bytes_sent f]
  consider (clean) "?loop (b, k) bytes_sent f s = Some (bytes_sent, pos_of tpb (b0, k0), f, s)"
      "\<forall>d < steps (length L) i j. \<not> page_dirty tpb (mig_ram s) (L ! ((i + d) mod length L))"
    | (found) m where "m < length L" "page_dirty tpb (mig_ram s) (L ! m)" "?loop (b, k) bytes_sent f s = ?loop (L ! m) bytes_sent f s"
    unfolding i(2) by blast
  then show ?case
  proof cases
    case clean
    have "all_clean tpb (mig_ram s)" if "(b, k) = (b0, k0)"
    proof -
      have "i = j" using nth_eq_iff_index_eq [OF distinct_all_pages [OF rok], of i j] i j that by (simp add: L_def)
      then show ?thesis using round_clean [OF i(1) L_def] clean(2) by simp
    qed
    then have "searched tpb use_xbzrle last_stage (bytes_sent \<noteq> 0) ((b, k) = (b0, k0)) s bytes_sent (b0, k0) s []"
      using less.prems lb pg0 by (auto simp: searched_def last_block_same)
    then show ?thesis using clean(1) less.prems(5) by force
  next
    case found
    obtain c l where cl: "L ! m = (c, l)" by fastforce
    have pg: "is_page tpb (mig_ram s) c l" using page_at [of m tpb "mig_ram s"] found(1) cl by (simp add: L_def)
    have dt: "dirty tpb (mig_ram s) c l" using found(2) cl by simp
    have bs: "bytes_sent = - 1 \<or> use_xbzrle" using less.prems(4) by blast
    obtain n f1 s1 ms where x: "save_dirty_page tpb tcg use_xbzrle last_stage c (page_addr tpb l) bytes_sent f s = Some (n, f1, s1)"
      and f1: "writing put out good f1" "written out f1 = written out f @ enc_msgs tpb ms" "close_func f1 = close_func f"
      and s1: "src_ok tpb use_xbzrle s1" "ram_kept tpb s s1" "last_block s1 = last_block s"
        "last_offset s1 = last_offset s" "Suc (to_send s1) = to_send s"
      and n: "n = 0 \<and> ms = [] \<and> use_xbzrle \<or> 0 < n \<and> ms \<noteq> []"
      and sim: "simulates tpb use_xbzrle last_stage s (if ms = [] then s1 else s1\<lparr>last_block := Some c\<rparr>) ms"
      by (rule save_dirty_page_spec [OF less.prems(1) pg dt bs tpb less.prems(5)]) blast
    note un = loop_unfold [OF rok mp pg, of tcg use_xbzrle last_stage bytes_sent f]
    show ?thesis
    proof (cases "n = 0")
      case False
      then have "?loop (b, k) bytes_sent f s = Some (n, pos_of tpb (c, l), f1, s1)"
        using found(3) cl un dt x by simp
      moreover have "searched tpb use_xbzrle last_stage (bytes_sent \<noteq> 0) ((b, k) = (b0, k0)) s n (c, l) s1 ms"
        using s1 n sim pg False by (auto simp: searched_def)
      ultimately show ?thesis using f1 by blast
    next
      case True
      then have ms: "ms = []" "use_xbzrle" using n by auto
      have rok1: "ram_ok tpb (mig_ram s1)" using s1(1) by (simp add: src_ok_def)
      note kp = ram_kept_page [OF s1(2)]
      obtain d e where nx: "next_page tpb (mig_ram s1) (pos_of tpb (c, l)) = pos_of tpb (d, e)"
        and pg1: "is_page tpb (mig_ram s1) d e"
        using next_page_in [OF rok1, of c l] pg kp by auto
      have st1: "stands tpb s1 b0 k0" using less.prems(2) s1(3,4) kp by (simp add: stands_def)
      note al = at_last_pos [OF rok1 st1 _ pg1, unfolded s1(3,4)]
      have loop: "?loop (b, k) bytes_sent f s = (if (d, e) \<noteq> (b0, k0) then ?loop (d, e) 0 f1 s1 else Some (0, pos_of tpb (d, e), f1, s1))"
        using found(3) cl un dt x True nx al st1 by (simp add: Let_def stands_def)
      have lt: "to_send s1 < to_send s" using s1(5) by simp
      have sim1: "simulates tpb use_xbzrle last_stage s s1 []" using sim ms by simp
      show ?thesis
      proof (cases "(d, e) = (b0, k0)")
        case last: True
        have "searched tpb use_xbzrle last_stage False True s1 0 (d, e) s1 []"
          using s1(1,3) lb last pg1 by (simp add: searched_def last_block_same)
        from searched_after [OF this s1(2) sim1 lt] show ?thesis using loop last f1 ms by force
      next
        case nl: False
        from less.hyps [OF lt s1(1) st1 pg1 _ f1(1), of 0] ms(2)
        obtain n2 p2 f2 s2 ms2 where r: "?loop (d, e) 0 f1 s1 = Some (n2, pos_of tpb p2, f2, s2)"
          "writing put out good f2" "written out f2 = written out f1 @ enc_msgs tpb ms2" "close_func f2 = close_func f1"
          "searched tpb use_xbzrle last_stage False ((d, e) = (b0, k0)) s1 n2 p2 s2 ms2" by auto
        have "?loop (b, k) bytes_sent f s = Some (n2, pos_of tpb p2, f2, s2)" using loop nl r(1) by auto
        moreover have "written out f2 = written out f @ enc_msgs tpb ms2" "close_func f2 = close_func f"
          using r(3,4) f1(2,3) ms(1) by simp_all
        ultimately show ?thesis using r(2) searched_after [OF r(5) s1(2) sim1 lt] by blast
      qed
    qed
  qed
qed

end

text \<open>
  The states in which \<open>ram_save_block\<close> is called: at the place where it stopped the last time or, the
  first time, at the start, with all pages dirty and nothing in the cache.
\<close>

definition ready :: "nat \<Rightarrow> bool \<Rightarrow> 'd migration \<Rightarrow> bool" where
  "ready tpb use_xbzrle s \<longleftrightarrow>
     src_ok tpb use_xbzrle s \<and>
     ((\<exists>b k. stands tpb s b k) \<or>
      last_block s = None \<and> last_offset s = 0 \<and> rl_blocks (ram_list (mig_ram s)) \<noteq> [] \<and>
      (\<forall>b k. is_page tpb (mig_ram s) b k \<longrightarrow> dirty tpb (mig_ram s) b k) \<and> (use_xbzrle \<longrightarrow> (\<forall>a. cached s a = None)))"

text \<open>What the place and the statistics have no influence on.\<close>

lemma cached_simps [simp]:
  "cached (s\<lparr>last_block := x\<rparr>) = cached s" "cached (s\<lparr>last_offset := y\<rparr>) = cached s"
  "cached (s\<lparr>bytes_transferred := n\<rparr>) = cached s" "cached (s\<lparr>acct_info := i\<rparr>) = cached s"
  "cached (s\<lparr>mig_ram := st\<rparr>) = cached s" "cached (s\<lparr>mig_mem := mem\<rparr>) = cached s"
  by (simp_all add: cached_def fun_eq_iff)

lemma src_ok_simps [simp]:
  "src_ok tpb use_xbzrle (s\<lparr>last_block := x\<rparr>) = src_ok tpb use_xbzrle s"
  "src_ok tpb use_xbzrle (s\<lparr>last_offset := y\<rparr>) = src_ok tpb use_xbzrle s"
  "src_ok tpb use_xbzrle (s\<lparr>bytes_transferred := n\<rparr>) = src_ok tpb use_xbzrle s"
  "src_ok tpb use_xbzrle (s\<lparr>acct_info := i\<rparr>) = src_ok tpb use_xbzrle s"
  by (simp_all add: src_ok_def cache_ok_def xb_safe_def)

lemma sync_simps [simp]:
  "sync tpb use_xbzrle last_stage H (s\<lparr>last_offset := y\<rparr>) = sync tpb use_xbzrle last_stage H s"
  "sync tpb use_xbzrle last_stage H (s\<lparr>bytes_transferred := n\<rparr>) = sync tpb use_xbzrle last_stage H s"
  "sync tpb use_xbzrle last_stage H (s\<lparr>acct_info := i\<rparr>) = sync tpb use_xbzrle last_stage H s"
  by (simp_all add: sync_def fun_eq_iff)

lemma ram_kept_simps [simp]:
  "ram_kept tpb s (s'\<lparr>last_block := x\<rparr>) = ram_kept tpb s s'" "ram_kept tpb s (s'\<lparr>last_offset := y\<rparr>) = ram_kept tpb s s'"
  "ram_kept tpb s (s'\<lparr>bytes_transferred := n\<rparr>) = ram_kept tpb s s'" "ram_kept tpb s (s'\<lparr>acct_info := i\<rparr>) = ram_kept tpb s s'"
  by (simp_all add: ram_kept_def)

lemma simulates_simps [simp]:
  "simulates tpb use_xbzrle last_stage s (s'\<lparr>last_offset := y\<rparr>) ms = simulates tpb use_xbzrle last_stage s s' ms"
  "simulates tpb use_xbzrle last_stage s (s'\<lparr>bytes_transferred := n\<rparr>) ms = simulates tpb use_xbzrle last_stage s s' ms"
  "simulates tpb use_xbzrle last_stage s (s'\<lparr>acct_info := i\<rparr>) ms = simulates tpb use_xbzrle last_stage s s' ms"
  by (simp_all add: simulates_def)

lemma ready_simps [simp]:
  "ready tpb use_xbzrle (s\<lparr>bytes_transferred := n\<rparr>) = ready tpb use_xbzrle s"
  "ready tpb use_xbzrle (s\<lparr>acct_info := i\<rparr>) = ready tpb use_xbzrle s"
  by (simp_all add: ready_def stands_def)

lemma ready_stands:
  assumes "src_ok tpb use_xbzrle s'" and "ram_kept tpb s s'" and "is_page tpb (mig_ram s) (fst p) (snd p)"
  shows "ready tpb use_xbzrle (s'\<lparr>last_block := Some (fst (pos_of tpb p)), last_offset := snd (pos_of tpb p)\<rparr>)"
  using assms ram_kept_page [OF assms(2)]
  by (auto simp: ready_def stands_def pos_of_def split: prod.splits)

context byte_sink
begin

lemma ram_save_block_spec:
  assumes tpb: "3 \<le> tpb" "tpb < 14" and rd: "ready tpb use_xbzrle s" and w: "writing put out good f"
  obtains n f' s' ms where "ram_save_block tpb tcg use_xbzrle last_stage f s = Some (n, f', s')"
    and "writing put out good f'" and "written out f' = written out f @ enc_msgs tpb ms" and "close_func f' = close_func f"
    and "ready tpb use_xbzrle s'" and "ram_kept tpb s s'" and "simulates tpb use_xbzrle last_stage s s' ms"
    and "if n < 0 then all_clean tpb (mig_ram s) \<and> mig_ram s' = mig_ram s else to_send s' < to_send s"
proof (cases "last_block s")
  case (Some b)
  then obtain k where st: "stands tpb s b k" using rd by (auto simp: ready_def stands_def)
  have ok: "src_ok tpb use_xbzrle s" using rd by (simp add: ready_def)
  have pg: "is_page tpb (mig_ram s) b k" and pos: "(b, last_offset s) = pos_of tpb (b, k)"
    using st by (simp_all add: stands_def pos_of_def)
  from ram_save_loop_spec [OF tpb ok st pg _ w, of "- 1" tcg last_stage]
  obtain n p f' s' ms where r: "ram_save_loop tpb tcg use_xbzrle last_stage (b, last_offset s) (- 1) f s = Some (n, pos_of tpb p, f', s')"
    "writing put out good f'" "written out f' = written out f @ enc_msgs tpb ms" "close_func f' = close_func f"
    "searched tpb use_xbzrle last_stage True True s n p s' ms"
    unfolding pos by auto
  let ?s = "s'\<lparr>last_block := Some (fst (pos_of tpb p)), last_offset := snd (pos_of tpb p)\<rparr>"
  have "fst (pos_of tpb p) = fst p" by (simp add: pos_of_def split: prod.split)
  then have "ready tpb use_xbzrle ?s" "ram_kept tpb s ?s" "simulates tpb use_xbzrle last_stage s ?s ms"
    "if n < 0 then all_clean tpb (mig_ram s) \<and> mig_ram ?s = mig_ram s else to_send ?s < to_send s"
    using r(5) ready_stands [of tpb use_xbzrle s' s p] by (auto simp: searched_def split: if_splits)
  then show ?thesis using that [of n f' ?s ms] r Some by (simp add: ram_save_block_def)
next
  case None
  then obtain b bs where bl: "rl_blocks (ram_list (mig_ram s)) = b # bs" and off: "last_offset s = 0"
    and all: "\<And>b k. is_page tpb (mig_ram s) b k \<Longrightarrow> dirty tpb (mig_ram s) b k" and nc: "use_xbzrle \<Longrightarrow> cached s a = None" for a
    using rd by (auto simp: ready_def stands_def neq_Nil_conv)
  have ok: "src_ok tpb use_xbzrle s" using rd by (simp add: ready_def)
  then have rok: "ram_ok tpb (mig_ram s)" and mp: "ram_mapped (regions s) (mig_ram s)" by (simp_all add: src_ok_def)
  have pg: "is_page tpb (mig_ram s) b 0" using ram_ok_block(4) [OF rok, of b] bl by (simp add: is_page_def)
  have pos: "(b, 0) = pos_of tpb (b, 0)" by (simp add: pos_of_def page_addr_def)
  obtain n f' s' ms where x: "save_dirty_page tpb tcg use_xbzrle last_stage b (page_addr tpb 0) (- 1) f s = Some (n, f', s')"
    and f': "writing put out good f'" "written out f' = written out f @ enc_msgs tpb ms" "close_func f' = close_func f"
    and s': "src_ok tpb use_xbzrle s'" "ram_kept tpb s s'" "Suc (to_send s') = to_send s" and n: "0 < n" "ms \<noteq> []"
    and sim: "simulates tpb use_xbzrle last_stage s (s'\<lparr>last_block := Some b\<rparr>) ms"
    by (rule save_dirty_page_spec [OF ok pg all [OF pg] _ tpb w, of "- 1" tcg last_stage]) (use nc in auto)
  have "ram_save_loop tpb tcg use_xbzrle last_stage (b, 0) (- 1) f s = Some (n, pos_of tpb (b, 0), f', s')"
    unfolding pos using loop_unfold [OF rok mp pg, of tcg use_xbzrle last_stage "- 1" f] all [OF pg] x n by simp
  then have "ram_save_block tpb tcg use_xbzrle last_stage f s = Some (n, f', s'\<lparr>last_block := Some b, last_offset := 0\<rparr>)"
    using None bl off by (simp add: ram_save_block_def pos [symmetric])
  moreover have "ready tpb use_xbzrle (s'\<lparr>last_block := Some b, last_offset := 0\<rparr>)"
    using ready_stands [OF s'(1,2), of "(b, 0)"] pg pos [symmetric] by simp
  ultimately show ?thesis using that f' s'(2,3) sim n(1) by simp
qed

end

end
