(* ===== verification/Ram_Stages.thy ===== *)
theory Ram_Stages
  imports Ram_Search
begin

text \<open>
  The stages of the migration of RAM: what \<open>ram_save_setup\<close>, \<open>ram_save_iterate\<close> and
  \<open>ram_save_complete\<close> write, that they come to an end, and that the receiver keeps following while the
  guest runs in between.
\<close>

section \<open>Changes of RAM between the stages\<close>

text \<open>
  RAM changes, and the pages that change become dirty or are entered in the dirty log \<open>H\<close> that is
  yet to be read. Reading the log is such a step, too: it makes dirty the pages that it takes from
  the log.
\<close>

definition guest_step :: "nat \<Rightarrow> (ptr \<times> nat) set \<Rightarrow> ram_state \<Rightarrow> (ptr \<times> nat) set \<Rightarrow> ram_state \<Rightarrow> bool" where
  "guest_step tpb H st H' st' \<longleftrightarrow>
     ram_ok tpb st' \<and> set (rl_blocks (ram_list st')) = set (rl_blocks (ram_list st)) \<and>
     (\<forall>b. rb_mr (rb_at st' b) = rb_mr (rb_at st b) \<and> rb_offset (rb_at st' b) = rb_offset (rb_at st b) \<and>
        rb_length (rb_at st' b) = rb_length (rb_at st b) \<and> rb_idstr (rb_at st' b) = rb_idstr (rb_at st b)) \<and>
     (\<forall>b k. is_page tpb st b k \<longrightarrow>
        (dirty tpb st b k \<longrightarrow> dirty tpb st' b k) \<and>
        ((b, k) \<in> H \<or> get_page tpb st' b k \<noteq> get_page tpb st b k \<longrightarrow> dirty tpb st' b k \<or> (b, k) \<in> H'))"

lemma guest_step_fields:
  assumes "guest_step tpb H st H' st'"
  shows "ram_ok tpb st'" and "is_page tpb st' b k \<longleftrightarrow> is_page tpb st b k" and "page_no tpb st' b k = page_no tpb st b k"
    and "rb_idstr (rb_at st' b) = rb_idstr (rb_at st b)" and "ram_mapped mrs st' \<longleftrightarrow> ram_mapped mrs st"
    and "names_ok st' \<longleftrightarrow> names_ok st" and "same_layout st' dst \<longleftrightarrow> same_layout st dst" and "peer st' r b = peer st r b"
    and "rl_blocks (ram_list st') = [] \<longleftrightarrow> rl_blocks (ram_list st) = []"
  using assms
  by (auto simp: guest_step_def is_page_def page_no_def first_page_def num_pages_def ram_mapped_def names_ok_def
    same_layout_def peer_def simp flip: set_empty)

lemma sync_guest:
  assumes "sync tpb use_xbzrle False H s r" and "guest_step tpb H (mig_ram s) H' st'"
  shows "sync tpb use_xbzrle False H' (s\<lparr>mig_ram := st'\<rparr>) r"
proof (rule syncI)
  note S = syncD [OF assms(1)] and G = guest_step_fields [OF assms(2)]
  show "in_ok tpb r" by (rule S)
  show "same_layout (mig_ram (s\<lparr>mig_ram := st'\<rparr>)) (in_ram_state r)" using S(2) G(7) by simp
  show "cur_block r = peer (mig_ram (s\<lparr>mig_ram := st'\<rparr>)) r b" if "last_block (s\<lparr>mig_ram := st'\<rparr>) = Some b" for b
    using S(3) that by (simp add: G(8))
  fix b k c assume p: "is_page tpb (mig_ram (s\<lparr>mig_ram := st'\<rparr>)) b k" "peer (mig_ram (s\<lparr>mig_ram := st'\<rparr>)) r b = Some c"
  then have q: "is_page tpb (mig_ram s) b k" "peer (mig_ram s) r b = Some c" by (simp_all add: G(2,8))
  show "get_page tpb (in_ram_state r) c k = get_page tpb (mig_ram (s\<lparr>mig_ram := st'\<rparr>)) b k"
    if "\<not> dirty tpb (mig_ram (s\<lparr>mig_ram := st'\<rparr>)) b k" "(b, k) \<notin> H'"
  proof -
    have "\<not> dirty tpb (mig_ram s) b k" "(b, k) \<notin> H" "get_page tpb st' b k = get_page tpb (mig_ram s) b k"
      using that q(1) assms(2) unfolding guest_step_def by fastforce+
    then show ?thesis using S(4) [OF q] by simp
  qed
  show "get_page tpb (in_ram_state r) c k = p"
    if "use_xbzrle" "\<not> False \<or> dirty tpb (mig_ram (s\<lparr>mig_ram := st'\<rparr>)) b k"
      "cached (s\<lparr>mig_ram := st'\<rparr>) (cache_key tpb (mig_ram (s\<lparr>mig_ram := st'\<rparr>)) b k) = Some p" for p
    using that S(5) [OF q that(1)] G(3) by simp
qed

lemma ready_guest:
  assumes "ready tpb use_xbzrle s" and "guest_step tpb H (mig_ram s) H' st'"
    and "use_xbzrle \<Longrightarrow> xb_safe tpb (s\<lparr>mig_ram := st'\<rparr>)"
  shows "ready tpb use_xbzrle (s\<lparr>mig_ram := st'\<rparr>)"
proof -
  note G = guest_step_fields [OF assms(2)]
  have "src_ok tpb use_xbzrle (s\<lparr>mig_ram := st'\<rparr>)"
    using assms(1,3) G(1,6) by (auto simp: ready_def src_ok_def G(5) cache_ok_def)
  moreover have "stands tpb (s\<lparr>mig_ram := st'\<rparr>) b k = stands tpb s b k" for b k using G(2) by (simp add: stands_def)
  moreover have "is_page tpb (mig_ram s) b k \<Longrightarrow> dirty tpb (mig_ram s) b k \<Longrightarrow> dirty tpb st' b k" for b k
    using assms(2) by (simp add: guest_step_def)
  ultimately show ?thesis using assms(1) G(2,9) by (auto simp: ready_def)
qed

section \<open>The listeners are told\<close>

text \<open>What a synchronisation of the dirty log needs, and that it changes only the trace of calls.\<close>

definition mem_ok :: "ptr \<Rightarrow> 'd memory_state \<Rightarrow> bool" where
  "mem_ok system_memory mem \<longleftrightarrow>
     (\<exists>i. memory_region_to_address_space system_memory mem = Some i \<and>
        (\<forall>fr\<in>set (fv_ranges (as_current_map (get_as i mem))).
           get64 (rsize (fr_addr fr)) \<noteq> None \<and> get64 (rstart (fr_addr fr)) \<noteq> None))"

definition mem_kept :: "'d memory_state \<Rightarrow> 'd memory_state \<Rightarrow> bool" where
  "mem_kept mem mem' \<longleftrightarrow> (\<exists>t. mem' = mem\<lparr>ms_trace := t\<rparr>)"

lemma mem_kept_refl: "mem_kept mem mem"
  unfolding mem_kept_def by (intro exI [of _ "ms_trace mem"]) simp

lemma mem_kept_trans: "mem_kept m m' \<Longrightarrow> mem_kept m' m'' \<Longrightarrow> mem_kept m m''"
  by (auto simp: mem_kept_def)

lemma listener_call_trace:
  assumes "section \<noteq> None"
  shows "\<exists>mem'. listener_call callback d section mem = Some mem' \<and> mem_kept mem mem'"
proof -
  have "\<exists>mem'. foldM (\<lambda>l s. do {
              sec \<leftarrow> section;
              Some (if memory_listener_match l sec then emit (callback (ml_self l) sec) s else s)
            }) ls mem = Some mem' \<and> mem_kept mem mem'" for ls mem
  proof (induction ls arbitrary: mem)
    case (Cons l ls)
    obtain sec where sec: "section = Some sec" using assms by blast
    let ?m = "if memory_listener_match l sec then emit (callback (ml_self l) sec) mem else mem"
    have "mem_kept mem ?m" using mem_kept_refl by (auto simp: mem_kept_def emit_def)
    then show ?case using Cons [of ?m] mem_kept_trans sec by fastforce
  qed (simp add: mem_kept_refl)
  then show ?thesis by (simp add: listener_call_def)
qed

lemma sync_dirty_bitmap_trace:
  assumes "mem_ok system_memory mem"
  obtains mem' where "memory_global_sync_dirty_bitmap system_memory mem = Some mem'" and "mem_kept mem mem'"
proof -
  obtain i where i: "memory_region_to_address_space system_memory mem = Some i"
    and rs: "\<forall>fr\<in>set (fv_ranges (as_current_map (get_as i mem))).
      get64 (rsize (fr_addr fr)) \<noteq> None \<and> get64 (rstart (fr_addr fr)) \<noteq> None"
    using assms by (auto simp: mem_ok_def)
  have "\<exists>m'. foldM (\<lambda>fr. update_region root fr Forward Log_sync) frs m = Some m' \<and> mem_kept m m'"
    if "\<forall>fr\<in>set frs. get64 (rsize (fr_addr fr)) \<noteq> None \<and> get64 (rstart (fr_addr fr)) \<noteq> None" for frs m root
    using that
  proof (induction frs arbitrary: m)
    case (Cons fr frs)
    then obtain x y where xy: "get64 (rsize (fr_addr fr)) = Some x" "get64 (rstart (fr_addr fr)) = Some y" by auto
    obtain m1 where m1: "update_region root fr Forward Log_sync m = Some m1" "mem_kept m m1"
      using listener_call_trace unfolding update_region_def xy by force
    then show ?case using Cons.IH [of m1] Cons.prems mem_kept_trans by fastforce
  qed (simp add: mem_kept_refl)
  from this [OF rs, of "as_root (get_as i mem)" mem] show ?thesis
    using that i by (auto simp: memory_global_sync_dirty_bitmap_def)
qed

lemma sync_dirty_step:
  assumes "mem_ok system_memory (mig_mem s)"
  obtains mem where "sync_dirty system_memory log_sync s = Some (s\<lparr>mig_mem := mem, mig_ram := log_sync (mig_ram s)\<rparr>)"
    and "mem_kept (mig_mem s) mem"
proof -
  obtain mem where mem: "memory_global_sync_dirty_bitmap system_memory (mig_mem s) = Some mem" "mem_kept (mig_mem s) mem"
    using sync_dirty_bitmap_trace [OF assms] .
  have "sync_dirty system_memory log_sync s = Some (s\<lparr>mig_mem := mem, mig_ram := log_sync (mig_ram s)\<rparr>)"
    using mem(1) by (simp add: sync_dirty_def)
  then show ?thesis using mem(2) by (rule that)
qed

lemma trace_simps:
  assumes "ms_heap mem = regions s"
  shows "ready tpb use_xbzrle (s\<lparr>mig_mem := mem\<rparr>) = ready tpb use_xbzrle s"
    and "sync tpb use_xbzrle last_stage H (s\<lparr>mig_mem := mem\<rparr>) = sync tpb use_xbzrle last_stage H s"
    and "xb_safe tpb (s\<lparr>mig_mem := mem\<rparr>) = xb_safe tpb s"
proof -
  show x: "xb_safe tpb (s\<lparr>mig_mem := mem\<rparr>) = xb_safe tpb s" by (simp add: xb_safe_def)
  have "src_ok tpb use_xbzrle (s\<lparr>mig_mem := mem\<rparr>) = src_ok tpb use_xbzrle s"
    using assms x by (simp add: src_ok_def cache_ok_def)
  then show "ready tpb use_xbzrle (s\<lparr>mig_mem := mem\<rparr>) = ready tpb use_xbzrle s" by (simp add: ready_def stands_def)
  show "sync tpb use_xbzrle last_stage H (s\<lparr>mig_mem := mem\<rparr>) = sync tpb use_xbzrle last_stage H s"
    by (simp add: sync_def fun_eq_iff)
qed

lemma mem_kept_mem:
  assumes "mem_kept mem mem'"
  shows "ms_heap mem' = ms_heap mem" and "mem_ok system_memory mem' = mem_ok system_memory mem"
proof -
  obtain t where t: "mem' = mem\<lparr>ms_trace := t\<rparr>" using assms by (auto simp: mem_kept_def)
  have "get_as i mem' = get_as i mem" for i by (cases i) (simp_all add: t get_as_def)
  moreover have "memory_region_to_address_space system_memory mem' = memory_region_to_address_space system_memory mem"
    by (simp add: t memory_region_to_address_space_def cong: if_cong)
  ultimately show "mem_ok system_memory mem' = mem_ok system_memory mem" by (simp add: mem_ok_def)
qed (use assms in \<open>auto simp: mem_kept_def\<close>)

section \<open>Iterating and completing\<close>

context byte_sink
begin

lemma save_iterate_loop_spec:
  assumes tpb: "3 \<le> tpb" "tpb < 14"
  shows "ready tpb use_xbzrle s \<Longrightarrow> writing put out good f \<Longrightarrow>
    \<exists>ret f' s' ms. save_iterate_loop tpb tcg use_xbzrle now start i f s = Some (ret, f', s') \<and>
      writing put out good f' \<and> written out f' = written out f @ enc_msgs tpb ms \<and> close_func f' = close_func f \<and>
      ready tpb use_xbzrle s' \<and> ram_kept tpb s s' \<and> simulates tpb use_xbzrle False s s' ms"
proof (induction "to_send s" arbitrary: i f s rule: less_induct)
  case less
  show ?case
  proof (cases "qemu_file_rate_limit f = 0")
    case False
    then show ?thesis using less.prems by (subst save_iterate_loop.simps) (force intro!: exI [of _ "[]"])
  next
    case True
    obtain n f1 s1 ms where b: "ram_save_block tpb tcg use_xbzrle False f s = Some (n, f1, s1)"
      and f1: "writing put out good f1" "written out f1 = written out f @ enc_msgs tpb ms" "close_func f1 = close_func f"
      and s1: "ready tpb use_xbzrle s1" "ram_kept tpb s s1" "simulates tpb use_xbzrle False s s1 ms"
        "if n < 0 then all_clean tpb (mig_ram s) \<and> mig_ram s1 = mig_ram s else to_send s1 < to_send s"
      by (rule ram_save_block_spec [OF tpb less.prems, of tcg False])
    define s2 where "s2 = s1\<lparr>bytes_transferred := bytes_transferred s1 + of_int n,
      acct_info := (acct_info s1)\<lparr>acct_iterations := acct_iterations (acct_info s1) + 1\<rparr>\<rparr>"
    have s2: "ready tpb use_xbzrle s2" "ram_kept tpb s s2" "simulates tpb use_xbzrle False s s2 ms" "to_send s2 = to_send s1"
      using s1 by (simp_all add: s2_def)
    have un: "save_iterate_loop tpb tcg use_xbzrle now start i f s =
      (if n < 0 then Some (0, f1, s1)
       else if i AND 63 = 0 \<and> (now i - start) div 1000000 > MAX_WAIT then Some (0, f1, s2)
       else save_iterate_loop tpb tcg use_xbzrle now start (i + 1) f1 s2)"
      using True b by (subst save_iterate_loop.simps) (simp add: Let_def s2_def)
    consider (none) "n < 0" | (wait) "0 \<le> n" "i AND 63 = 0 \<and> (now i - start) div 1000000 > MAX_WAIT"
      | (more) "0 \<le> n" "\<not> (i AND 63 = 0 \<and> (now i - start) div 1000000 > MAX_WAIT)" by linarith
    then show ?thesis
    proof cases
      case none
      then show ?thesis using un f1 s1(1-3) by force
    next
      case wait
      then have "save_iterate_loop tpb tcg use_xbzrle now start i f s = Some (0, f1, s2)" using un by simp
      then show ?thesis using f1 s2 by blast
    next
      case more
      have "to_send s2 < to_send s" using s1(4) s2(4) more(1) by simp
      then obtain ret f3 s3 ms' where r: "save_iterate_loop tpb tcg use_xbzrle now start (i + 1) f1 s2 = Some (ret, f3, s3)"
        "writing put out good f3" "written out f3 = written out f1 @ enc_msgs tpb ms'" "close_func f3 = close_func f1"
        "ready tpb use_xbzrle s3" "ram_kept tpb s2 s3" "simulates tpb use_xbzrle False s2 s3 ms'"
        using less.hyps [OF _ s2(1) f1(1)] by blast
      have "written out f3 = written out f @ enc_msgs tpb (ms @ ms')" "close_func f3 = close_func f" using r(3,4) f1(2,3) by simp_all
      moreover have "save_iterate_loop tpb tcg use_xbzrle now start i f s = Some (ret, f3, s3)"
        using un more r(1) by (simp only: not_less [symmetric] if_False)
      ultimately show ?thesis using r(2,5) ram_kept_trans [OF s2(2) r(6)] simulates_append [OF s2(3) r(7)] by blast
    qed
  qed
qed

lemma save_complete_loop_spec:
  assumes tpb: "3 \<le> tpb" "tpb < 14"
  shows "ready tpb use_xbzrle s \<Longrightarrow> writing put out good f \<Longrightarrow>
    \<exists>f' s' ms. save_complete_loop tpb tcg use_xbzrle f s = Some (f', s') \<and>
      writing put out good f' \<and> written out f' = written out f @ enc_msgs tpb ms \<and> close_func f' = close_func f \<and>
      ready tpb use_xbzrle s' \<and> ram_kept tpb s s' \<and> simulates tpb use_xbzrle True s s' ms \<and> all_clean tpb (mig_ram s')"
proof (induction "to_send s" arbitrary: f s rule: less_induct)
  case less
  obtain n f1 s1 ms where b: "ram_save_block tpb tcg use_xbzrle True f s = Some (n, f1, s1)"
    and f1: "writing put out good f1" "written out f1 = written out f @ enc_msgs tpb ms" "close_func f1 = close_func f"
    and s1: "ready tpb use_xbzrle s1" "ram_kept tpb s s1" "simulates tpb use_xbzrle True s s1 ms"
      "if n < 0 then all_clean tpb (mig_ram s) \<and> mig_ram s1 = mig_ram s else to_send s1 < to_send s"
    by (rule ram_save_block_spec [OF tpb less.prems, of tcg True])
  define s2 where "s2 = s1\<lparr>bytes_transferred := bytes_transferred s1 + of_int n\<rparr>"
  have s2: "ready tpb use_xbzrle s2" "ram_kept tpb s s2" "simulates tpb use_xbzrle True s s2 ms" "to_send s2 = to_send s1"
    using s1 by (simp_all add: s2_def)
  have un: "save_complete_loop tpb tcg use_xbzrle f s =
    (if n < 0 then Some (f1, s1) else save_complete_loop tpb tcg use_xbzrle f1 s2)"
    using b by (subst save_complete_loop.simps) (simp add: Let_def s2_def)
  show ?case
  proof (cases "n < 0")
    case True
    then show ?thesis using un f1 s1 by force
  next
    case False
    have "to_send s2 < to_send s" using s1(4) s2(4) False by simp
    then obtain f3 s3 ms' where r: "save_complete_loop tpb tcg use_xbzrle f1 s2 = Some (f3, s3)"
      "writing put out good f3" "written out f3 = written out f1 @ enc_msgs tpb ms'" "close_func f3 = close_func f1"
      "ready tpb use_xbzrle s3" "ram_kept tpb s2 s3" "simulates tpb use_xbzrle True s2 s3 ms'" "all_clean tpb (mig_ram s3)"
      using less.hyps [OF _ s2(1) f1(1)] by blast
    have "written out f3 = written out f @ enc_msgs tpb (ms @ ms')" "close_func f3 = close_func f" using r(3,4) f1(2,3) by simp_all
    moreover have "save_complete_loop tpb tcg use_xbzrle f s = Some (f3, s3)" using un False r(1) by simp
    ultimately show ?thesis using r(2,5,8) ram_kept_trans [OF s2(2) r(6)] simulates_append [OF s2(3) r(7)] by blast
  qed
qed

text \<open>
  An iteration: unless the stream reports an error, a section of messages and its end mark are
  written. The dirty log is read at its end or not.
\<close>

lemma ram_save_iterate_spec:
  assumes tpb: "3 \<le> tpb" "tpb < 14" and rd: "ready tpb use_xbzrle s" and w: "writing put out good f"
    and mem: "mem_ok system_memory (mig_mem s)"
    and log: "\<And>st. ram_ok tpb st \<Longrightarrow> guest_step tpb H st H (log_sync st)"
  obtains ret f' s' where
    "ram_save_iterate tpb tcg use_xbzrle now start end_time estimate max_downtime system_memory log_sync f s = Some (ret, f', s')"
    and "0 \<le> ret \<Longrightarrow> writing put out good f' \<and> close_func f' = close_func f \<and> mem_kept (mig_mem s) (mig_mem s') \<and>
      ((use_xbzrle \<longrightarrow> xb_safe tpb s') \<longrightarrow> ready tpb use_xbzrle s') \<and>
      (\<exists>ms. written out f' = written out f @ enc_msgs tpb ms @ enc_eos \<and>
        (\<forall>r. sync tpb use_xbzrle False H s r \<longrightarrow> accepts tpb use_xbzrle ms r (sync tpb use_xbzrle False H s')))"
proof -
  obtain ret f1 s1 ms where l: "save_iterate_loop tpb tcg use_xbzrle now start 0 f s = Some (ret, f1, s1)"
    and f1: "writing put out good f1" "written out f1 = written out f @ enc_msgs tpb ms" "close_func f1 = close_func f"
    and s1: "ready tpb use_xbzrle s1" "ram_kept tpb s s1" "simulates tpb use_xbzrle False s s1 ms"
    using save_iterate_loop_spec [OF tpb rd w, of tcg now start 0] by blast
  obtain f2 where f2: "qemu_put_be64 RAM_SAVE_FLAG_EOS f1 = Some f2" "writing put out good f2"
    "written out f2 = written out f1 @ enc_eos" "close_func f2 = close_func f1"
    using emitsD [OF emits_be64_enc f1(1), of RAM_SAVE_FLAG_EOS] by (auto simp: enc_eos_def)
  have mem1: "mig_mem s1 = mig_mem s" using s1(2) by (simp add: ram_kept_def)
  obtain m where m: "sync_dirty system_memory log_sync s1 = Some (s1\<lparr>mig_mem := m, mig_ram := log_sync (mig_ram s1)\<rparr>)"
    "mem_kept (mig_mem s1) m"
    by (rule sync_dirty_step [of system_memory s1 log_sync]) (use mem mem1 in auto)
  let ?s2 = "s1\<lparr>mig_mem := m, mig_ram := log_sync (mig_ram s1)\<rparr>"
  have e: "?s2 = (s1\<lparr>mig_ram := log_sync (mig_ram s1)\<rparr>)\<lparr>mig_mem := m\<rparr>" by simp
  have hp: "ms_heap m = regions (s1\<lparr>mig_ram := log_sync (mig_ram s1)\<rparr>)" using mem_kept_mem(1) [OF m(2)] by simp
  have g: "guest_step tpb H (mig_ram s1) H (log_sync (mig_ram s1))"
    using log s1(1) by (simp add: ready_def src_ok_def)
  have rd2: "ready tpb use_xbzrle ?s2" if "use_xbzrle \<longrightarrow> xb_safe tpb ?s2"
    unfolding e trace_simps(1) [OF hp] using ready_guest [OF s1(1) g] that unfolding e trace_simps(3) [OF hp] by blast
  have sy2: "sync tpb use_xbzrle False H s1 r \<Longrightarrow> sync tpb use_xbzrle False H ?s2 r" for r
    unfolding e trace_simps(2) [OF hp] by (rule sync_guest [OF _ g])
  have sim: "sync tpb use_xbzrle False H s r \<Longrightarrow> accepts tpb use_xbzrle ms r (sync tpb use_xbzrle False H s1)"
    "sync tpb use_xbzrle False H s r \<Longrightarrow> accepts tpb use_xbzrle ms r (sync tpb use_xbzrle False H ?s2)" for r
    using s1(3) sy2 by (auto simp: simulates_def intro: accepts_mono)
  have "\<exists>ret' s'. ram_save_iterate tpb tcg use_xbzrle now start end_time estimate max_downtime system_memory log_sync f s =
      Some (ret', if ret < 0 then f1 else f2, s') \<and> (0 \<le> ret' \<longrightarrow> \<not> ret < 0) \<and> (\<not> ret < 0 \<longrightarrow> s' = s1 \<or> s' = ?s2)"
    unfolding ram_save_iterate_def Let_def using l f2(1) m(1) by simp
  then obtain ret' s' where r: "ram_save_iterate tpb tcg use_xbzrle now start end_time estimate max_downtime system_memory log_sync f s =
      Some (ret', if ret < 0 then f1 else f2, s')" "0 \<le> ret' \<longrightarrow> \<not> ret < 0" "\<not> ret < 0 \<longrightarrow> s' = s1 \<or> s' = ?s2" by blast
  show ?thesis
  proof (rule that [OF r(1)])
    assume "0 \<le> ret'"
    then have c: "\<not> ret < 0" "s' = s1 \<or> s' = ?s2" using r(2,3) by auto
    moreover have "mem_kept (mig_mem s) (mig_mem s')" using c(2) m(2) mem1 mem_kept_refl by auto
    moreover have "(use_xbzrle \<longrightarrow> xb_safe tpb s') \<longrightarrow> ready tpb use_xbzrle s'" using c(2) rd2 s1(1) by blast
    moreover have "written out f2 = written out f @ enc_msgs tpb ms @ enc_eos" using f2(3) f1(2) by simp
    moreover have "\<forall>r. sync tpb use_xbzrle False H s r \<longrightarrow> accepts tpb use_xbzrle ms r (sync tpb use_xbzrle False H s')"
      using c(2) sim by blast
    ultimately show "writing put out good (if ret < 0 then f1 else f2) \<and> close_func (if ret < 0 then f1 else f2) = close_func f \<and>
      mem_kept (mig_mem s) (mig_mem s') \<and> ((use_xbzrle \<longrightarrow> xb_safe tpb s') \<longrightarrow> ready tpb use_xbzrle s') \<and>
      (\<exists>ms. written out (if ret < 0 then f1 else f2) = written out f @ enc_msgs tpb ms @ enc_eos \<and>
        (\<forall>r. sync tpb use_xbzrle False H s r \<longrightarrow> accepts tpb use_xbzrle ms r (sync tpb use_xbzrle False H s')))"
      using f2(2,4) f1(3) by auto
  qed
qed

text \<open>The end: the log is read, all that is dirty is sent, and then the receiver has the same memory.\<close>

lemma ram_save_complete_spec:
  assumes tpb: "3 \<le> tpb" "tpb < 14" and rd: "ready tpb use_xbzrle s" and w: "writing put out good f"
    and mem: "mem_ok system_memory (mig_mem s)" and log: "guest_step tpb H (mig_ram s) {} (log_sync (mig_ram s))"
    and safe: "use_xbzrle \<Longrightarrow> xb_safe tpb (s\<lparr>mig_ram := log_sync (mig_ram s)\<rparr>)"
  obtains f' s' ms where "ram_save_complete tpb tcg use_xbzrle system_memory log_sync f s = Some (0, f', s')"
    and "writing put out good f'" and "written out f' = written out f @ enc_msgs tpb ms @ enc_eos" and "close_func f' = close_func f"
    and "all_clean tpb (mig_ram s')" and "rb_at (mig_ram s') = rb_at (log_sync (mig_ram s))"
    and "\<And>r. sync tpb use_xbzrle False H s r \<Longrightarrow> accepts tpb use_xbzrle ms r (\<lambda>r. same_ram tpb (mig_ram s') (in_ram_state r))"
proof -
  obtain m where m: "sync_dirty system_memory log_sync s = Some (s\<lparr>mig_mem := m, mig_ram := log_sync (mig_ram s)\<rparr>)"
    "mem_kept (mig_mem s) m"
    by (rule sync_dirty_step [OF mem])
  define s1 where "s1 = s\<lparr>mig_mem := m, mig_ram := log_sync (mig_ram s)\<rparr>"
  have e: "s1 = (s\<lparr>mig_ram := log_sync (mig_ram s)\<rparr>)\<lparr>mig_mem := m\<rparr>" by (simp add: s1_def)
  have hp: "ms_heap m = regions (s\<lparr>mig_ram := log_sync (mig_ram s)\<rparr>)" using mem_kept_mem(1) [OF m(2)] by simp
  have rd1: "ready tpb use_xbzrle s1" unfolding e trace_simps(1) [OF hp] by (rule ready_guest [OF rd log safe])
  have sy1: "sync tpb use_xbzrle False H s r \<Longrightarrow> sync tpb use_xbzrle True {} s1 r" for r
    unfolding e trace_simps(2) [OF hp] using sync_guest [OF _ log] sync_last_stage by blast
  obtain f1 s2 ms where l: "save_complete_loop tpb tcg use_xbzrle f s1 = Some (f1, s2)"
    and f1: "writing put out good f1" "written out f1 = written out f @ enc_msgs tpb ms" "close_func f1 = close_func f"
    and s2: "ready tpb use_xbzrle s2" "ram_kept tpb s1 s2" "simulates tpb use_xbzrle True s1 s2 ms" "all_clean tpb (mig_ram s2)"
    using save_complete_loop_spec [OF tpb rd1 w, of tcg] by blast
  obtain f2 where f2: "qemu_put_be64 RAM_SAVE_FLAG_EOS f1 = Some f2" "writing put out good f2"
    "written out f2 = written out f1 @ enc_eos" "close_func f2 = close_func f1"
    using emitsD [OF emits_be64_enc f1(1), of RAM_SAVE_FLAG_EOS] by (auto simp: enc_eos_def)
  define s3 where "s3 = s2\<lparr>mig_mem := memory_global_dirty_log_stop (mig_mem s2)\<rparr>"
  have ok: "ram_ok tpb (mig_ram s2)" using s2(1) by (simp add: ready_def src_ok_def)
  have "accepts tpb use_xbzrle ms r (\<lambda>r. same_ram tpb (mig_ram s3) (in_ram_state r))"
    if "sync tpb use_xbzrle False H s r" for r
  proof -
    have "accepts tpb use_xbzrle ms r (sync tpb use_xbzrle True {} s2)" using s2(3) sy1 [OF that] by (simp add: simulates_def)
    then show ?thesis
      by (rule accepts_mono) (use sync_same_ram [OF _ ok] s2(4) in \<open>simp add: s3_def all_clean_def\<close>)
  qed
  moreover have "ram_save_complete tpb tcg use_xbzrle system_memory log_sync f s = Some (0, f2, s3)"
    unfolding ram_save_complete_def using m(1) l f2(1) by (simp add: s1_def [symmetric] s3_def)
  ultimately show ?thesis
    using that [of f2 s3 ms] f2 f1 s2(2,4) by (simp add: s3_def ram_kept_def s1_def)
qed

end

end
