(* ===== verification/Ram_Setup.thy ===== *)
theory Ram_Setup
  imports Ram_Stages
begin

text \<open>
  The start of the migration of RAM: all pages are made dirty, the cache is empty, and the list of
  blocks is written.
\<close>

section \<open>Making pages dirty\<close>

lemma foldM_rel:
  assumes step: "\<And>x s. x \<in> set xs \<Longrightarrow> I s \<Longrightarrow> \<exists>s'. f x s = Some s' \<and> R s s' \<and> P x s'"
    and inv: "\<And>s s'. I s \<Longrightarrow> R s s' \<Longrightarrow> I s'" and refl: "\<And>s. R s s"
    and trans: "\<And>s s' s''. R s s' \<Longrightarrow> R s' s'' \<Longrightarrow> R s s''"
    and keep: "\<And>x s s'. x \<in> set xs \<Longrightarrow> I s \<Longrightarrow> P x s \<Longrightarrow> R s s' \<Longrightarrow> P x s'" and s: "I s"
  shows "\<exists>s'. foldM f xs s = Some s' \<and> R s s' \<and> (\<forall>x\<in>set xs. P x s')"
  using step keep s
proof (induction xs arbitrary: s)
  case Nil
  show ?case using refl by simp
next
  case (Cons x xs)
  obtain s1 where s1: "f x s = Some s1" "R s s1" "P x s1" using Cons.prems(1) [of x s] Cons.prems(3) by auto
  have i1: "I s1" by (rule inv [OF Cons.prems(3) s1(2)])
  have "\<exists>s2. foldM f xs s1 = Some s2 \<and> R s1 s2 \<and> (\<forall>x\<in>set xs. P x s2)"
  proof (rule Cons.IH [OF _ _ i1])
    show "\<exists>s'. f y t = Some s' \<and> R t s' \<and> P y s'" if "y \<in> set xs" "I t" for y t
      using Cons.prems(1) [of y t] that by simp
    show "P y t'" if "y \<in> set xs" "I t" "P y t" "R t t'" for y t t'
      using Cons.prems(2) [of y t t'] that by simp
  qed
  then obtain s2 where s2: "foldM f xs s1 = Some s2" "R s1 s2" "\<forall>x\<in>set xs. P x s2" by blast
  have "P x s2" using Cons.prems(2) [of x s1 s2] i1 s1(3) s2(2) by simp
  then show ?case using s1(1) s2 trans [OF s1(2) s2(2)] by simp
qed

definition marked :: "nat \<Rightarrow> ram_state \<Rightarrow> ram_state \<Rightarrow> bool" where
  "marked tpb st st' \<longleftrightarrow>
     rb_at st' = rb_at st \<and> rl_blocks (ram_list st') = rl_blocks (ram_list st) \<and>
     length (phys_dirty (ram_list st')) = length (phys_dirty (ram_list st)) \<and>
     (\<forall>p<length (phys_dirty (ram_list st)). mig (phys_dirty (ram_list st) ! p) \<longrightarrow> mig (phys_dirty (ram_list st') ! p))"

lemma marked_refl: "marked tpb st st"
  by (simp add: marked_def)

lemma marked_trans: "marked tpb st st' \<Longrightarrow> marked tpb st' st'' \<Longrightarrow> marked tpb st st''"
  by (simp add: marked_def)

lemma marked_ok:
  assumes "marked tpb st st'"
  shows "ram_ok tpb st' = ram_ok tpb st" and "ram_mapped mrs st' = ram_mapped mrs st" and "names_ok st' = names_ok st"
    and "is_page tpb st' b k = is_page tpb st b k"
    and "ram_ok tpb st \<Longrightarrow> is_page tpb st b k \<Longrightarrow> dirty tpb st b k \<Longrightarrow> dirty tpb st' b k"
proof -
  show "ram_ok tpb st \<Longrightarrow> is_page tpb st b k \<Longrightarrow> dirty tpb st b k \<Longrightarrow> dirty tpb st' b k"
    using assms page_no_less [of tpb st b k] by (simp add: marked_def dirty_def page_no_def)
qed (use assms in \<open>simp_all add: marked_def ram_ok_def pages_fit_def ram_mapped_def names_ok_def is_page_def\<close>)

lemma set_dirty_page:
  assumes "ram_ok tpb st" and "ram_mapped mrs st" and "is_page tpb st b k"
  shows "\<exists>st'. memory_region_set_dirty tpb mrs (rb_mr (rb_at st b)) (page_addr tpb k) (TARGET_PAGE_SIZE tpb) st = Some st' \<and>
    marked tpb st st' \<and> dirty tpb st' b k"
proof -
  define p where "p = page_no tpb st b k"
  have b: "b \<in> set (rl_blocks (ram_list st))" "k < num_pages tpb (rb_at st b)" using assms(3) by (simp_all add: is_page_def)
  have fit: "pages_fit tpb (ram_list st)" using assms(1) by (simp add: ram_ok_def)
  note p = page_no_less [OF assms(1,3), folded p_def]
  have one: "page_addr tpb (Suc p - p) = TARGET_PAGE_SIZE tpb"
    by (simp add: page_addr_def TARGET_PAGE_SIZE_def push_bit_eq_mult)
  have "cpu_physical_memory_set_dirty_range tpb (page_addr tpb p) (TARGET_PAGE_SIZE tpb) (- 1) (ram_list st) =
      Some (update_page (\<lambda>x. x OR ucast (- 1 :: u32)) p (ram_list st))"
    using set_range_pages [OF fit, of p "Suc p" "- 1", unfolded one] p by (simp add: update_pages_def)
  moreover have "mr_terminates (mrs (rb_mr (rb_at st b)))" "mr_ram_addr (mrs (rb_mr (rb_at st b))) + page_addr tpb k = page_addr tpb p"
    using assms(2) b page_in_block(5) [OF assms(1) b] by (simp_all add: ram_mapped_def p_def page_no_def)
  ultimately have "memory_region_set_dirty tpb mrs (rb_mr (rb_at st b)) (page_addr tpb k) (TARGET_PAGE_SIZE tpb) st =
      Some (st\<lparr>ram_list := update_page (\<lambda>x. x OR ucast (- 1 :: u32)) p (ram_list st)\<rparr>)"
    by (simp add: memory_region_set_dirty_def)
  moreover have "mig (x OR ucast (- 1 :: u32))" for x :: u8 by (simp add: bit_simps)
  ultimately show ?thesis
    using p by (auto simp: marked_def update_page_def nth_list_update dirty_def page_no_def p_def)
qed

lemma set_block_dirty_spec:
  assumes ok: "ram_ok tpb st" "ram_mapped mrs st" and b: "b \<in> set (rl_blocks (ram_list st))"
  shows "\<exists>st'. set_block_dirty tpb mrs b st = Some st' \<and> marked tpb st st' \<and>
    (\<forall>k<num_pages tpb (rb_at st b). dirty tpb st' b k)"
proof -
  note B = ram_ok_block [OF ok(1) b]
  let ?n = "num_pages tpb (rb_at st b)"
  have lt: "?n * 2 ^ tpb < 2 ^ 64" using B(3) unat_lt64 [of "rb_length (rb_at st b)"] by simp
  let ?body = "\<lambda>addr st. do {
          d \<leftarrow> memory_region_get_dirty tpb mrs (rb_mr (rb_at st b)) addr (TARGET_PAGE_SIZE tpb) DIRTY_MEMORY_MIGRATION st;
          if \<not> d then memory_region_set_dirty tpb mrs (rb_mr (rb_at st b)) addr (TARGET_PAGE_SIZE tpb) st
          else Some st }"
  have "\<exists>st'. foldM (\<lambda>k. ?body (page_addr tpb k)) [0..<?n] st = Some st' \<and> marked tpb st st' \<and>
      (\<forall>k\<in>set [0..<?n]. dirty tpb st' b k)"
  proof (rule foldM_rel [where I = "\<lambda>s. marked tpb st s"])
    fix k s assume k: "k \<in> set [0..<?n]" and m: "marked tpb st s"
    have s: "ram_ok tpb s" "ram_mapped mrs s" "is_page tpb s b k" using marked_ok [OF m] ok b k by (auto simp: is_page_def)
    show "\<exists>s'. ?body (page_addr tpb k) s = Some s' \<and> marked tpb s s' \<and> dirty tpb s' b k"
      using get_dirty_region [OF s] set_dirty_page [OF s] marked_refl by (cases "dirty tpb s b k") auto
  next
    fix k s s' assume k: "k \<in> set [0..<?n]" and m: "marked tpb st s" "dirty tpb s b k" "marked tpb s s'"
    show "dirty tpb s' b k" using marked_ok [OF m(3)] marked_ok [OF m(1)] m(2) ok b k by (simp add: is_page_def)
  qed (auto simp: marked_refl intro: marked_trans)
  moreover have "page_addr tpb 0 = 0" by (simp add: page_addr_def)
  ultimately show ?thesis
    unfolding set_block_dirty_def using for_pages_foldM [OF B(1) lt, of 0 ?body st] B(8) by auto
qed

lemma set_all_dirty:
  assumes ok: "ram_ok tpb st" "ram_mapped mrs st"
  obtains st' where "foldM (set_block_dirty tpb mrs) (rl_blocks (ram_list st)) st = Some st'" and "marked tpb st st'"
    and "\<And>b k. is_page tpb st b k \<Longrightarrow> dirty tpb st' b k"
proof -
  have "\<exists>st'. foldM (set_block_dirty tpb mrs) (rl_blocks (ram_list st)) st = Some st' \<and> marked tpb st st' \<and>
      (\<forall>b\<in>set (rl_blocks (ram_list st)). \<forall>k<num_pages tpb (rb_at st b). dirty tpb st' b k)"
  proof (rule foldM_rel [where I = "\<lambda>s. marked tpb st s"])
    fix b s assume b: "b \<in> set (rl_blocks (ram_list st))" and m: "marked tpb st s"
    have "ram_ok tpb s" "ram_mapped mrs s" using ok by (simp_all add: marked_ok(1,2) [OF m])
    moreover have "b \<in> set (rl_blocks (ram_list s))" "rb_at s = rb_at st" using m b by (simp_all add: marked_def)
    ultimately show "\<exists>s'. set_block_dirty tpb mrs b s = Some s' \<and> marked tpb s s' \<and> (\<forall>k<num_pages tpb (rb_at st b). dirty tpb s' b k)"
      using set_block_dirty_spec [of tpb s mrs b] by simp
  next
    fix b s s' assume b: "b \<in> set (rl_blocks (ram_list st))" and m: "marked tpb st s" "marked tpb s s'"
      and d: "\<forall>k<num_pages tpb (rb_at st b). dirty tpb s b k"
    show "\<forall>k<num_pages tpb (rb_at st b). dirty tpb s' b k"
      using marked_ok [OF m(2)] marked_ok [OF m(1)] d ok b by (simp add: is_page_def)
  qed (auto simp: marked_refl intro: marked_trans)
  then show ?thesis using that by (auto simp: is_page_def)
qed

section \<open>The setup\<close>

lemma sorted_ok:
  shows "ram_ok tpb (sort_ram_list st) = ram_ok tpb st" and "ram_mapped mrs (sort_ram_list st) = ram_mapped mrs st"
    and "names_ok (sort_ram_list st) = names_ok st" and "rb_at (sort_ram_list st) = rb_at st"
    and "set (rl_blocks (ram_list (sort_ram_list st))) = set (rl_blocks (ram_list st))"
    and "rl_blocks (ram_list (sort_ram_list st)) = [] \<longleftrightarrow> rl_blocks (ram_list st) = []"
  by (simp_all add: sort_ram_list_def ram_ok_def ram_mapped_def names_ok_def pages_fit_def flip: set_empty)

lemma empty_cache:
  assumes "2 ^ tpb \<le> sint (cache_size :: u64)" and "tpb < 32"
  obtains c :: "u8 list PageCache" where "cache_init (of_int (sint cache_size sdiv 2 ^ tpb)) (ucast (TARGET_PAGE_SIZE tpb)) = Some (Some c)"
    and "cache_inv c" and "\<And>a. cache_map c a = None"
proof -
  let ?n = "sint cache_size sdiv 2 ^ tpb"
  have p: "(0 :: int) < 2 ^ tpb" by simp
  have pos: "0 < sint cache_size" using assms(1) p by linarith
  then have n: "?n = sint cache_size div 2 ^ tpb" by (simp add: signed_divide_int_def)
  have "1 \<le> sint cache_size div 2 ^ tpb" using assms(1) p pos_imp_zdiv_pos_iff [OF p, of "sint cache_size"] by linarith
  moreover have "sint cache_size div 2 ^ tpb \<le> sint cache_size" using zdiv_mono2 [of "sint cache_size" 1 "2 ^ tpb"] pos by simp
  ultimately have r: "1 \<le> ?n" "?n < 2 ^ 63" using n sint64_range [of cache_size] by linarith+
  then have "sint (of_int ?n :: u64) = ?n" by (simp add: signed_of_int signed_take_bit_int_eq_self)
  moreover have "unat (ucast (TARGET_PAGE_SIZE tpb) :: u32) = 2 ^ tpb"
    using unat_page_size [of tpb] assms(2) by (simp add: unsigned_ucast_eq take_bit_nat_eq_self)
  then have "ucast (TARGET_PAGE_SIZE tpb) \<noteq> (0 :: u32)" using zero_less_power [of "2 :: nat" tpb] by (metis less_irrefl unat_0 zero_less_numeral)
  ultimately obtain c :: "u8 list PageCache" where c: "cache_init (of_int ?n) (ucast (TARGET_PAGE_SIZE tpb)) = Some (Some c)" "cache_inv c"
    "items_of c = replicate (unat (max_num_items c)) \<lparr>it_addr = - 1, it_age = 0, it_data = None\<rparr>"
    using cache_init_map [of "of_int ?n" "ucast (TARGET_PAGE_SIZE tpb)"] r(1) by auto
  have "cache_map c a = None" for a
    using c(3) inv_slot [OF c(2), of a] by (simp add: cache_map_def)
  then show ?thesis using that c by blast
qed

text \<open>What the setup needs.\<close>

definition can_start :: "nat \<Rightarrow> bool \<Rightarrow> u64 \<Rightarrow> u8 list \<Rightarrow> 'd migration \<Rightarrow> bool" where
  "can_start tpb use_xbzrle cache_size area s \<longleftrightarrow>
     ram_ok tpb (mig_ram s) \<and> ram_mapped (regions s) (mig_ram s) \<and> names_ok (mig_ram s) \<and>
     rl_blocks (ram_list (mig_ram s)) \<noteq> [] \<and> length area = 2 ^ tpb \<and> (use_xbzrle \<longrightarrow> 2 ^ tpb \<le> sint cache_size)"

lemma fold_emit_heap: "ms_heap (fold (\<lambda>l. emit (cb (ml_self l))) ls m) = ms_heap m"
  by (induction ls arbitrary: m) (simp_all add: emit_def)

lemma global_log_trace: "ms_heap (memory_global_dirty_log_start mem) = ms_heap mem"
  by (simp add: memory_global_dirty_log_start_def listener_call_global_def fold_emit_heap)

text \<open>After the setup, a receiver that has the same blocks follows, as there is nothing it has to have.\<close>

lemma sync_start:
  assumes "in_ok tpb r" and "same_layout (mig_ram s) (in_ram_state r)" and "last_block s = None"
    and "\<And>b k. is_page tpb (mig_ram s) b k \<Longrightarrow> dirty tpb (mig_ram s) b k" and "use_xbzrle \<Longrightarrow> \<forall>a. cached s a = None"
  shows "sync tpb use_xbzrle False H s r"
  using assms by (auto simp: sync_def)

context byte_sink
begin

lemma emits_entry: "emits put out good (save_block_entry B) (enc_entry B)"
  using emits_bind [OF emits_byte [of "of_nat (length (rb_idstr B))"] emits_bind [OF emits_buffer [of "rb_idstr B"] emits_be64_enc [of "rb_length B"]]]
  by (simp add: save_block_entry_def [abs_def] enc_entry_def)

lemma emits_entries: "emits put out good (foldM (\<lambda>b. save_block_entry (g b)) bs) (concat (map (\<lambda>b. enc_entry (g b)) bs))"
proof (induction bs)
  case Nil
  then show ?case by (simp add: emits_def)
next
  case (Cons b bs)
  from emits_bind [OF emits_entry [of "g b"] Cons] show ?case by (simp add: emits_def)
qed

lemma emits_setup:
  "emits put out good
    (\<lambda>f. do {
       f \<leftarrow> qemu_put_be64 (ram_bytes_total st OR RAM_SAVE_FLAG_MEM_SIZE) f;
       f \<leftarrow> foldM (\<lambda>b. save_block_entry (rb_at st b)) (rl_blocks (ram_list st)) f;
       qemu_put_be64 RAM_SAVE_FLAG_EOS f
     }) (enc_setup st)"
  unfolding enc_setup_def enc_eos_def
  by (intro emits_bind emits_be64_enc emits_entries)

lemma ram_save_setup_spec:
  assumes tpb: "3 \<le> tpb" "tpb < 14" and cs: "can_start tpb use_xbzrle cache_size area s" and w: "writing put out good f"
  obtains f' s' where "ram_save_setup tpb use_xbzrle cache_size area f s = Some (0, f', s')"
    and "writing put out good f'" and "written out f' = written out f @ enc_setup (mig_ram s')" and "close_func f' = close_func f"
    and "ready tpb use_xbzrle s'" and "rb_at (mig_ram s') = rb_at (mig_ram s)"
    and "set (rl_blocks (ram_list (mig_ram s'))) = set (rl_blocks (ram_list (mig_ram s)))"
    and "mig_mem s' = memory_global_dirty_log_start (mig_mem s)"
    and "\<And>H r. in_ok tpb r \<Longrightarrow> same_layout (mig_ram s') (in_ram_state r) \<Longrightarrow> sync tpb use_xbzrle False H s' r"
proof -
  note C = cs [unfolded can_start_def]
  define st where "st = sort_ram_list (mig_ram s)"
  have st: "ram_ok tpb st" "ram_mapped (regions s) st" "names_ok st" "rb_at st = rb_at (mig_ram s)"
    "set (rl_blocks (ram_list st)) = set (rl_blocks (ram_list (mig_ram s)))" "rl_blocks (ram_list st) \<noteq> []"
    using C by (simp_all add: st_def sorted_ok)
  obtain st' where st': "foldM (set_block_dirty tpb (regions s)) (rl_blocks (ram_list st)) st = Some st'"
    and m: "marked tpb st st'" and all: "\<And>b k. is_page tpb st b k \<Longrightarrow> dirty tpb st' b k"
    using set_all_dirty [OF st(1,2)] by blast
  note M = marked_ok [OF m]
  obtain cache :: "u8 list PageCache option" where cache: "(if use_xbzrle then cache_init (of_int (sint cache_size sdiv 2 ^ tpb)) (ucast (TARGET_PAGE_SIZE tpb))
      else Some None) = Some cache" and cok: "use_xbzrle \<Longrightarrow> \<exists>c. cache = Some c \<and> cache_inv c \<and> (\<forall>a. cache_map c a = None)"
  proof (cases use_xbzrle)
    case True
    have "2 ^ tpb \<le> sint cache_size" "tpb < 32" using C True tpb(2) by auto
    then obtain c :: "u8 list PageCache" where "cache_init (of_int (sint cache_size sdiv 2 ^ tpb)) (ucast (TARGET_PAGE_SIZE tpb)) = Some (Some c)"
      "cache_inv c" "\<And>a. cache_map c a = None" using empty_cache by blast
    then show ?thesis using that [of "Some c"] True by simp
  qed (use that in simp)
  let ?s0 = "s\<lparr>bytes_transferred := 0, last_block := None, last_offset := 0, mig_ram := st\<rparr>"
  define s1 where "s1 = (if use_xbzrle then ?s0\<lparr>xb_cache := cache, encoded_buf := Some (replicate (2 ^ tpb) 0),
      current_buf := Some area, acct_info := acct_clear\<rparr> else ?s0)"
  define s' where "s' = s1\<lparr>mig_ram := st', mig_mem := memory_global_dirty_log_start (mig_mem s1)\<rparr>"
  have s': "mig_ram s' = st'" "mig_mem s' = memory_global_dirty_log_start (mig_mem s)" "last_block s' = None" "last_offset s' = 0"
    "regions s1 = regions s" "mig_ram s1 = st"
    by (simp_all add: s'_def s1_def)
  obtain g where g: "do {
       f \<leftarrow> qemu_put_be64 (ram_bytes_total st' OR RAM_SAVE_FLAG_MEM_SIZE) f;
       f \<leftarrow> foldM (\<lambda>b. save_block_entry (rb_at st' b)) (rl_blocks (ram_list st')) f;
       qemu_put_be64 RAM_SAVE_FLAG_EOS f
     } = Some g" "writing put out good g" "written out g = written out f @ enc_setup st'" "close_func g = close_func f"
    using emitsD [OF emits_setup w] by blast
  have run: "ram_save_setup tpb use_xbzrle cache_size area f s = Some (0, g, s')"
  proof -
    obtain g1 g2 where "qemu_put_be64 (ram_bytes_total st' OR RAM_SAVE_FLAG_MEM_SIZE) f = Some g1"
      "foldM (\<lambda>b. save_block_entry (rb_at st' b)) (rl_blocks (ram_list st')) g1 = Some g2"
      "qemu_put_be64 RAM_SAVE_FLAG_EOS g2 = Some g" using g(1) by (auto simp: bind_eq_Some_conv)
    then show ?thesis
      unfolding ram_save_setup_def Let_def using cache cok st'
      by (cases use_xbzrle) (auto simp: s'_def s1_def st_def)
  qed
  have cd: "cached s' a = None" if use_xbzrle for a using cok [OF that] that by (auto simp: cached_def s'_def s1_def)
  have "cache_ok tpb s'" if use_xbzrle
    using cok [OF that] that C cd [OF that] by (auto simp: cache_ok_def s'_def s1_def)
  then have "src_ok tpb use_xbzrle s'"
    using st M cd by (simp add: src_ok_def s' global_log_trace xb_safe_def M(2))
  moreover have "rl_blocks (ram_list st') \<noteq> []" using st(6) m by (simp add: marked_def)
  ultimately have "ready tpb use_xbzrle s'" using all cd M(4) by (simp add: ready_def s')
  moreover have "sync tpb use_xbzrle False H s' r" if "in_ok tpb r" "same_layout (mig_ram s') (in_ram_state r)" for H r
    by (rule sync_start [OF that s'(3)]) (use all M(4) cd s'(1) in auto)
  ultimately show ?thesis
    using that [OF run g(2)] g(3,4) s'(1,2) st(4,5) m by (simp add: marked_def)
qed

end

end
