(* ===== verification/Migration.thy ===== *)
theory Migration
  imports Ram_Setup
begin

text \<open>
  The migration of RAM from end to end: the sender runs through its stages while the guest goes on,
  the stream is stored in a file, and the receiver loads it.
\<close>

section \<open>A run of the sender\<close>

text \<open>
  The states between setup and completion, with the number of sections written: RAM changes, or
  an iteration is done. Where XBZRLE is used, no page that is in the cache and has to be sent may
  consist of equal bytes.
\<close>

inductive phase ::
  "nat \<Rightarrow> bool \<Rightarrow> bool \<Rightarrow> ptr \<Rightarrow> 's QEMUFile \<Rightarrow> 'd migration \<Rightarrow> nat \<Rightarrow> 's QEMUFile \<Rightarrow> 'd migration \<Rightarrow> (ptr \<times> nat) set \<Rightarrow> bool"
  for tpb tcg use_xbzrle system_memory f0 s0 where
  start: "phase tpb tcg use_xbzrle system_memory f0 s0 0 f0 s0 {}"
| guest: "phase tpb tcg use_xbzrle system_memory f0 s0 n f s H \<Longrightarrow> guest_step tpb H (mig_ram s) H' st' \<Longrightarrow>
    (use_xbzrle \<longrightarrow> xb_safe tpb (s\<lparr>mig_ram := st'\<rparr>)) \<Longrightarrow>
    phase tpb tcg use_xbzrle system_memory f0 s0 n f (s\<lparr>mig_ram := st'\<rparr>) H'"
| iterate: "phase tpb tcg use_xbzrle system_memory f0 s0 n f s H \<Longrightarrow>
    (\<forall>st. ram_ok tpb st \<longrightarrow> guest_step tpb H st H (log_sync st)) \<Longrightarrow>
    ram_save_iterate tpb tcg use_xbzrle now start_time end_time estimate max_downtime system_memory log_sync f s = Some (ret, f', s') \<Longrightarrow>
    0 \<le> ret \<Longrightarrow> (use_xbzrle \<longrightarrow> xb_safe tpb s') \<Longrightarrow>
    phase tpb tcg use_xbzrle system_memory f0 s0 (Suc n) f' s' H"

definition enc_sections :: "nat \<Rightarrow> page_msg list list \<Rightarrow> u8 list" where
  "enc_sections tpb secs = concat (map (\<lambda>ms. enc_msgs tpb ms @ enc_eos) secs)"

lemma enc_sections_simps [simp]:
  "enc_sections tpb [] = []" "enc_sections tpb (ms # secs) = enc_msgs tpb ms @ enc_eos @ enc_sections tpb secs"
  "enc_sections tpb (xs @ ys) = enc_sections tpb xs @ enc_sections tpb ys"
  by (simp_all add: enc_sections_def)

context byte_sink
begin

lemma phase_spec:
  assumes tpb: "3 \<le> tpb" "tpb < 14" and rd: "ready tpb use_xbzrle s0" and w: "writing put out good f0"
    and mem: "mem_ok system_memory (mig_mem s0)" and ph: "phase tpb tcg use_xbzrle system_memory f0 s0 n f s H"
  shows "writing put out good f \<and> close_func f = close_func f0 \<and> ready tpb use_xbzrle s \<and> mem_ok system_memory (mig_mem s) \<and>
    (\<exists>secs. length secs = n \<and> written out f = written out f0 @ enc_sections tpb secs \<and>
      (\<forall>r. sync tpb use_xbzrle False {} s0 r \<longrightarrow> accepts tpb use_xbzrle (concat secs) r (sync tpb use_xbzrle False H s)))"
  using ph
proof induction
  case start
  then show ?case using rd w mem by (auto intro!: exI [of _ "[]"])
next
  case (guest n f s H H' st')
  then obtain secs where secs: "length secs = n" "written out f = written out f0 @ enc_sections tpb secs"
    "\<forall>r. sync tpb use_xbzrle False {} s0 r \<longrightarrow> accepts tpb use_xbzrle (concat secs) r (sync tpb use_xbzrle False H s)" by blast
  have "accepts tpb use_xbzrle (concat secs) r (sync tpb use_xbzrle False H' (s\<lparr>mig_ram := st'\<rparr>))"
    if "sync tpb use_xbzrle False {} s0 r" for r
    by (rule accepts_mono [OF secs(3) [rule_format, OF that]]) (rule sync_guest [OF _ guest.hyps(2)])
  moreover have "ready tpb use_xbzrle (s\<lparr>mig_ram := st'\<rparr>)"
    by (rule ready_guest [OF _ guest.hyps(2)]) (use guest.IH guest.hyps(3) in blast)+
  ultimately show ?case using guest.IH secs(1,2) by auto
next
  case (iterate n f s H log_sync now start_time end_time estimate max_downtime ret f' s')
  then obtain secs where secs: "length secs = n" "written out f = written out f0 @ enc_sections tpb secs"
    "\<forall>r. sync tpb use_xbzrle False {} s0 r \<longrightarrow> accepts tpb use_xbzrle (concat secs) r (sync tpb use_xbzrle False H s)" by blast
  obtain ms where ms: "writing put out good f'" "close_func f' = close_func f" "mem_kept (mig_mem s) (mig_mem s')"
    "ready tpb use_xbzrle s'" "written out f' = written out f @ enc_msgs tpb ms @ enc_eos"
    "\<forall>r. sync tpb use_xbzrle False H s r \<longrightarrow> accepts tpb use_xbzrle ms r (sync tpb use_xbzrle False H s')"
    by (rule ram_save_iterate_spec [OF tpb, of use_xbzrle s f system_memory H log_sync tcg now start_time end_time estimate max_downtime])
      (use iterate in auto)
  have "\<forall>r. sync tpb use_xbzrle False {} s0 r \<longrightarrow>
      accepts tpb use_xbzrle (concat (secs @ [ms])) r (sync tpb use_xbzrle False H s')"
    using secs(3) ms(6) by (auto simp: accepts_append intro: accepts_mono)
  then show ?case
    using ms(1-5) iterate.IH secs(1,2) mem_kept_mem(2) [OF ms(3)] by (auto intro!: exI [of _ "secs @ [ms]"])
qed

end

section \<open>The receiver\<close>

text \<open>The loading of a number of sections.\<close>

primrec ram_loads ::
  "nat \<Rightarrow> bool \<Rightarrow> u8 list \<Rightarrow> u8 list \<Rightarrow> nat \<Rightarrow> 's QEMUFile \<Rightarrow> 'd incoming \<Rightarrow> ('s QEMUFile \<times> 'd incoming) option" where
  "ram_loads tpb use_xbzrle stk area 0 f r = Some (f, r)"
| "ram_loads tpb use_xbzrle stk area (Suc n) f r =
     do {
       (ret, f, r) \<leftarrow> ram_load tpb use_xbzrle stk area 4 f r;
       c_assert (ret = 0);
       ram_loads tpb use_xbzrle stk area n f r
     }"

context byte_source
begin

lemma ram_loads_sections:
  assumes "7 \<le> tpb" and "tpb < 16" and "length area = 2 ^ tpb"
  shows "in_ok tpb r \<Longrightarrow> accepts tpb use_xbzrle (concat secs) r Q \<Longrightarrow> reading get f \<Longrightarrow>
    unread rest f = enc_sections tpb secs @ post \<Longrightarrow>
    \<exists>f' r'. ram_loads tpb use_xbzrle stk area (length secs) f r = Some (f', r') \<and> reading get f' \<and> unread rest f' = post \<and>
      in_ok tpb r' \<and> Q r'"
proof (induction secs arbitrary: f r)
  case (Cons ms secs)
  obtain f1 r1 where 1: "ram_load tpb use_xbzrle stk area 4 f r = Some (0, f1, r1)" "reading get f1"
    "unread rest f1 = enc_sections tpb secs @ post" "in_ok tpb r1" "accepts tpb use_xbzrle (concat secs) r1 Q"
    by (rule ram_load_msgs [OF assms Cons.prems(1) _ Cons.prems(3), of use_xbzrle ms "\<lambda>r. accepts tpb use_xbzrle (concat secs) r Q"
        "enc_sections tpb secs @ post" stk])
      (use Cons.prems(2,4) in \<open>simp_all add: accepts_append\<close>)
  then show ?case using Cons.IH [OF 1(4,5,2,3)] by simp
qed simp

end

section \<open>From end to end\<close>

lemma log_start_mem_ok: "mem_ok system_memory (memory_global_dirty_log_start mem) = mem_ok system_memory mem"
proof -
  have f: "\<exists>t. fold (\<lambda>l. emit (cb (ml_self l))) ls m = m\<lparr>ms_trace := t\<rparr>" for cb ls and m :: "'a memory_state"
  proof (induction ls arbitrary: m)
    case Nil
    show ?case by (intro exI [of _ "ms_trace m"]) simp
  next
    case (Cons l ls)
    then show ?case using Cons [of "emit (cb (ml_self l)) m"] by (auto simp: emit_def)
  qed
  obtain t where t: "memory_global_dirty_log_start mem = mem\<lparr>global_dirty_log := True, ms_trace := t\<rparr>"
    using f unfolding memory_global_dirty_log_start_def listener_call_global_def by force
  have "get_as i (memory_global_dirty_log_start mem) = get_as i mem" for i by (cases i) (simp_all add: t get_as_def)
  moreover have "memory_region_to_address_space system_memory (memory_global_dirty_log_start mem) =
      memory_region_to_address_space system_memory mem"
    by (simp add: t memory_region_to_address_space_def cong: if_cong)
  ultimately show ?thesis by (simp add: mem_ok_def)
qed

lemma setup_to_file:
  assumes "7 \<le> tpb" and "tpb < 14" and "can_start tpb use_xbzrle cache_size area s0" and "mem_ok system_memory (mig_mem s0)"
    and "qemu_fopen (Some fp) ''wb'' = Some f0" and "file_bytes fp = []" and "file_room fp = None"
  obtains f1 s1 where "ram_save_setup tpb use_xbzrle cache_size area f0 s0 = Some (0, f1, s1)"
    and "writing file_put_buffer file_bytes (\<lambda>s. file_room s = None) f1" and "written file_bytes f1 = enc_setup (mig_ram s1)"
    and "close_func f1 = Some stdio_fclose" and "ready tpb use_xbzrle s1" and "mem_ok system_memory (mig_mem s1)"
    and "same_layout (mig_ram s1) = same_layout (mig_ram s0)"
    and "\<And>H r. in_ok tpb r \<Longrightarrow> same_layout (mig_ram s0) (in_ram_state r) \<Longrightarrow> sync tpb use_xbzrle False H s1 r"
proof -
  note o = open_writing [OF assms(5-7)]
  obtain f1 s1 where x: "ram_save_setup tpb use_xbzrle cache_size area f0 s0 = Some (0, f1, s1)"
    "writing file_put_buffer file_bytes (\<lambda>s. file_room s = None) f1" "written file_bytes f1 = written file_bytes f0 @ enc_setup (mig_ram s1)"
    "close_func f1 = close_func f0" "ready tpb use_xbzrle s1" "rb_at (mig_ram s1) = rb_at (mig_ram s0)"
    "set (rl_blocks (ram_list (mig_ram s1))) = set (rl_blocks (ram_list (mig_ram s0)))"
    "mig_mem s1 = memory_global_dirty_log_start (mig_mem s0)"
    and sy: "\<And>H r. in_ok tpb r \<Longrightarrow> same_layout (mig_ram s1) (in_ram_state r) \<Longrightarrow> sync tpb use_xbzrle False H s1 r"
    by (rule file_sink.ram_save_setup_spec [OF _ assms(2,3) o(1)]) (use assms(1) in auto)
  have l: "same_layout (mig_ram s1) = same_layout (mig_ram s0)" using x(6,7) by (simp add: same_layout_def fun_eq_iff)
  show ?thesis
    by (rule that [OF x(1,2)]) (use x sy l o assms(4) in \<open>simp_all add: log_start_mem_ok\<close>)
qed

lemma load_from_file:
  assumes tpb: "7 \<le> tpb" "tpb < 16" and mem: "length mem = 2 ^ tpb" and r: "in_ok tpb r" "same_layout st (in_ram_state r)"
    and st: "ram_ok tpb st" "names_ok st"
    and f: "writing file_put_buffer file_bytes (\<lambda>s. file_room s = None) f" "close_func f = Some stdio_fclose"
      "written file_bytes f = enc_setup st @ enc_sections tpb secs"
    and acc: "accepts tpb use_xbzrle (concat secs) r Q"
  shows "\<exists>fp g g' r'. qemu_fclose f = (0, fp) \<and> qemu_fopen (Some fp) ''rb'' = Some g \<and>
    ram_loads tpb use_xbzrle stk mem (Suc (length secs)) g r = Some (g', r') \<and> Q r'"
proof -
  obtain fp where fp: "qemu_fclose f = (0, fp)" "file_bytes fp = enc_setup st @ enc_sections tpb secs"
    using close_written [OF f(1,2)] f(3) by auto
  obtain g where g: "qemu_fopen (Some fp) ''rb'' = Some g" by (simp add: qemu_fopen_def)
  note o = open_reading [OF g]
  have un: "unread bytes_from g = enc_setup st @ enc_sections tpb secs @ []" using o(2) fp(2) by simp
  obtain g1 where g1: "ram_load tpb use_xbzrle stk mem 4 g r = Some (0, g1, r)" "reading file_get_buffer g1"
    "unread bytes_from g1 = enc_sections tpb secs @ []"
    by (rule file_source.ram_load_setup [OF tpb(1) _ r(2) st o(1) un]) (use tpb in auto)
  obtain g2 r2 where "ram_loads tpb use_xbzrle stk mem (length secs) g1 r = Some (g2, r2)" "Q r2"
    using file_source.ram_loads_sections [OF tpb mem r(1) acc g1(2,3)] by blast
  then show ?thesis using fp(1) g g1(1) by auto
qed

lemma complete_and_load:
  assumes tpb: "7 \<le> tpb" "tpb < 14"
    and f1: "writing file_put_buffer file_bytes (\<lambda>s. file_room s = None) f1" "written file_bytes f1 = enc_setup (mig_ram s1)"
      "close_func f1 = Some stdio_fclose"
    and s1: "ready tpb use_xbzrle s1" "mem_ok system_memory (mig_mem s1)" "sync tpb use_xbzrle False {} s1 r"
    and mem: "length mem = 2 ^ tpb" and ph: "phase tpb tcg use_xbzrle system_memory f1 s1 n f2 s2 H"
    and lg: "guest_step tpb H (mig_ram s2) {} (log_sync (mig_ram s2))"
    and sf: "use_xbzrle \<longrightarrow> xb_safe tpb (s2\<lparr>mig_ram := log_sync (mig_ram s2)\<rparr>)"
  shows "\<exists>f3 s3 fp' g g' r'. ram_save_complete tpb tcg use_xbzrle system_memory log_sync f2 s2 = Some (0, f3, s3) \<and>
    all_clean tpb (mig_ram s3) \<and> rb_at (mig_ram s3) = rb_at (log_sync (mig_ram s2)) \<and>
    qemu_fclose f3 = (0, fp') \<and> qemu_fopen (Some fp') ''rb'' = Some g \<and>
    ram_loads tpb use_xbzrle stk mem (n + 2) g r = Some (g', r') \<and> same_ram tpb (mig_ram s3) (in_ram_state r')"
proof -
  have t3: "3 \<le> tpb" using tpb(1) by simp
  from file_sink.phase_spec [OF t3 tpb(2) s1(1) f1(1) s1(2) ph]
  obtain secs where f2: "writing file_put_buffer file_bytes (\<lambda>s. file_room s = None) f2" "close_func f2 = close_func f1"
    and s2: "ready tpb use_xbzrle s2" "mem_ok system_memory (mig_mem s2)"
    and secs: "length secs = n" "written file_bytes f2 = written file_bytes f1 @ enc_sections tpb secs"
      "accepts tpb use_xbzrle (concat secs) r (sync tpb use_xbzrle False H s2)"
    using s1(3) by blast
  obtain f3 s3 ms where x: "ram_save_complete tpb tcg use_xbzrle system_memory log_sync f2 s2 = Some (0, f3, s3)"
    "writing file_put_buffer file_bytes (\<lambda>s. file_room s = None) f3"
    "written file_bytes f3 = written file_bytes f2 @ enc_msgs tpb ms @ enc_eos" "close_func f3 = close_func f2"
    "all_clean tpb (mig_ram s3)" "rb_at (mig_ram s3) = rb_at (log_sync (mig_ram s2))"
    and acc: "\<And>r. sync tpb use_xbzrle False H s2 r \<Longrightarrow>
      accepts tpb use_xbzrle ms r (\<lambda>r. same_ram tpb (mig_ram s3) (in_ram_state r))"
    by (rule file_sink.ram_save_complete_spec [where log_sync = log_sync, OF t3 tpb(2) s2(1) f2(1) s2(2) lg]) (use sf in auto)
  have "accepts tpb use_xbzrle (concat (secs @ [ms])) r (\<lambda>r. same_ram tpb (mig_ram s3) (in_ram_state r))"
    using accepts_mono [OF secs(3) acc] by (simp add: accepts_append)
  moreover have "written file_bytes f3 = enc_setup (mig_ram s1) @ enc_sections tpb (secs @ [ms])"
    using x(3) secs(2) f1(2) by simp
  moreover have "close_func f3 = Some stdio_fclose" using x(4) f2(2) f1(3) by simp
  moreover have "in_ok tpb r" "same_layout (mig_ram s1) (in_ram_state r)" using syncD(1,2) [OF s1(3)] .
  moreover have "ram_ok tpb (mig_ram s1)" "names_ok (mig_ram s1)" using s1(1) by (simp_all add: ready_def src_ok_def)
  ultimately show ?thesis
    using load_from_file [of tpb mem r "mig_ram s1" f3 "secs @ [ms]" use_xbzrle _ stk] x(1,2,5,6) tpb mem secs(1) by force
qed

text \<open>
  C2. The migration of RAM is correct. The setup succeeds, and after any number of iterations with
  any changes of RAM in between, as long as each changed page is marked dirty or entered in the dirty
  log, the completion ends with no page left to be sent, and when the stream is closed and the
  receiver loads all its sections, each is accepted and in the end the receiver's blocks have the
  contents that the sender's have. Pages are sent as they are, as a byte if all their bytes are
  equal, or, with XBZRLE, as differences to the page sent last; in this case it is assumed that no
  page that is still in the cache turns into one of equal bytes, since \<open>ram_save_block\<close> then leaves
  the old page in the cache.
\<close>

theorem migration_correct:
  fixes s0 :: "'d migration" and r :: "'d incoming"
  assumes "7 \<le> tpb" and "tpb < 14" and "can_start tpb use_xbzrle cache_size area s0" and "mem_ok system_memory (mig_mem s0)"
    and "qemu_fopen (Some fp) ''wb'' = Some f0" and "file_bytes fp = []" and "file_room fp = None"
    and "in_ok tpb r" and "same_layout (mig_ram s0) (in_ram_state r)" and "length mem = 2 ^ tpb"
  shows "\<exists>f1 s1. ram_save_setup tpb use_xbzrle cache_size area f0 s0 = Some (0, f1, s1) \<and> ready tpb use_xbzrle s1 \<and>
    (\<forall>n f2 s2 H log_sync. phase tpb tcg use_xbzrle system_memory f1 s1 n f2 s2 H \<longrightarrow>
       guest_step tpb H (mig_ram s2) {} (log_sync (mig_ram s2)) \<longrightarrow>
       (use_xbzrle \<longrightarrow> xb_safe tpb (s2\<lparr>mig_ram := log_sync (mig_ram s2)\<rparr>)) \<longrightarrow>
       (\<exists>f3 s3 fp' g g' r'. ram_save_complete tpb tcg use_xbzrle system_memory log_sync f2 s2 = Some (0, f3, s3) \<and>
          all_clean tpb (mig_ram s3) \<and> rb_at (mig_ram s3) = rb_at (log_sync (mig_ram s2)) \<and>
          qemu_fclose f3 = (0, fp') \<and> qemu_fopen (Some fp') ''rb'' = Some g \<and>
          ram_loads tpb use_xbzrle stk mem (n + 2) g r = Some (g', r') \<and>
          same_ram tpb (mig_ram s3) (in_ram_state r')))"
proof -
  obtain f1 s1 where S: "ram_save_setup tpb use_xbzrle cache_size area f0 s0 = Some (0, f1, s1)"
    "writing file_put_buffer file_bytes (\<lambda>s. file_room s = None) f1" "written file_bytes f1 = enc_setup (mig_ram s1)"
    "close_func f1 = Some stdio_fclose" "ready tpb use_xbzrle s1" "mem_ok system_memory (mig_mem s1)"
    "same_layout (mig_ram s1) = same_layout (mig_ram s0)"
    and sy: "\<And>H r. in_ok tpb r \<Longrightarrow> same_layout (mig_ram s0) (in_ram_state r) \<Longrightarrow> sync tpb use_xbzrle False H s1 r"
    using setup_to_file [OF assms(1-7)] by blast
  show ?thesis
    using S(1,5) complete_and_load [OF assms(1,2) S(2-6) sy [OF assms(8,9)] assms(10)] by blast
qed

text \<open>A machine with one block of one page, and one that waits for it.\<close>

definition demo_ram :: "u8 \<Rightarrow> ram_state" where
  "demo_ram c =
     \<lparr>ram_list = \<lparr>phys_dirty = [0], rl_blocks = [1], dirty_pages = 0\<rparr>,
      rb_at = (\<lambda>_. \<lparr>rb_mr = 7, rb_host = replicate 1024 c, rb_offset = 0, rb_length = 1024, rb_flags = 0,
                 rb_idstr = [0x70, 0x63]\<rparr>)\<rparr>"

definition demo_mem :: "unit memory_state" where
  "demo_mem = sample_state\<lparr>ms_heap := (\<lambda>_. blank_region\<lparr>mr_terminates := True\<rparr>)\<rparr>"

definition demo_source :: "unit migration" where
  "demo_source =
     \<lparr>mig_ram = demo_ram 5, mig_mem = demo_mem, acct_info = acct_clear, encoded_buf = None, current_buf = None,
      xb_cache = None, last_block = None, last_offset = 0, bytes_transferred = 0\<rparr>"

definition demo_receiver :: "unit incoming" where
  "demo_receiver =
     \<lparr>in_ram_state = demo_ram 0, in_regions = (\<lambda>_. blank_region\<lparr>mr_terminates := True\<rparr>), cur_block = None,
      decoded_buf = None\<rparr>"

lemma demo_ram_ok: "ram_ok 10 (demo_ram c)"
  by (simp add: demo_ram_def ram_ok_def pages_fit_def block_ok_def first_page_def num_pages_def page_addr_def)

lemma demo_facts:
  "can_start 10 use_xbzrle 1024 (replicate 1024 0) demo_source" "mem_ok 0 (mig_mem demo_source)" "in_ok 10 demo_receiver"
  "same_layout (mig_ram demo_source) (in_ram_state demo_receiver)"
  using demo_ram_ok [of 5] demo_ram_ok [of 0]
  by (simp_all add: can_start_def demo_source_def demo_receiver_def in_ok_def ram_mapped_def names_ok_def demo_ram_def demo_mem_def
    blank_region_def mem_ok_def memory_region_to_address_space_def parent_root.simps sample_state_def empty_as_def flatview_init_def
    get_as_def same_layout_def find_idstr_def)

theorem migration_correct_witness:
  "\<exists>f1 s1 f3 s3 fp' g g' r'.
     ram_save_setup 10 True 1024 (replicate 1024 0)
       (the (qemu_fopen (Some \<lparr>file_bytes = [], file_pos = 0, file_room = None\<rparr>) ''wb'')) demo_source = Some (0, f1, s1) \<and>
     ram_save_complete 10 True True 0 (\<lambda>st. st) f1 s1 = Some (0, f3, s3) \<and>
     qemu_fclose f3 = (0, fp') \<and> qemu_fopen (Some fp') ''rb'' = Some g \<and>
     ram_loads 10 True [] (replicate 1024 0) 2 g demo_receiver = Some (g', r') \<and>
     same_ram 10 (mig_ram s3) (in_ram_state r')"
proof -
  let ?fp = "\<lparr>file_bytes = [], file_pos = 0, file_room = None\<rparr>"
  let ?f0 = "the (qemu_fopen (Some ?fp) ''wb'')"
  have f0: "qemu_fopen (Some ?fp) ''wb'' = Some ?f0" by (simp add: qemu_fopen_def)
  from migration_correct [where tcg = True and stk = "[]" and mem = "replicate 1024 0" and use_xbzrle = True,
    OF _ _ demo_facts(1,2) f0 _ _ demo_facts(3,4)]
  obtain f1 s1 where s: "ram_save_setup 10 True 1024 (replicate 1024 0) ?f0 demo_source = Some (0, f1, s1)"
    and r: "ready 10 True s1"
    and c: "\<And>n f2 s2 H log_sync. phase 10 True True 0 f1 s1 n f2 s2 H \<Longrightarrow>
       guest_step 10 H (mig_ram s2) {} (log_sync (mig_ram s2)) \<Longrightarrow>
       xb_safe 10 (s2\<lparr>mig_ram := log_sync (mig_ram s2)\<rparr>) \<Longrightarrow>
       \<exists>f3 s3 fp' g g' r'. ram_save_complete 10 True True 0 log_sync f2 s2 = Some (0, f3, s3) \<and>
          qemu_fclose f3 = (0, fp') \<and> qemu_fopen (Some fp') ''rb'' = Some g \<and>
          ram_loads 10 True [] (replicate 1024 0) (n + 2) g demo_receiver = Some (g', r') \<and>
          same_ram 10 (mig_ram s3) (in_ram_state r')"
    by fastforce
  have g: "guest_step 10 {} (mig_ram s1) {} (mig_ram s1)" and x: "xb_safe 10 (s1\<lparr>mig_ram := mig_ram s1\<rparr>)"
    using r by (simp_all add: guest_step_def ready_def src_ok_def)
  from c [where log_sync = "\<lambda>st. st", OF phase.start g x] show ?thesis
    using s unfolding add_0 by blast
qed

end
