(* ===== verification/Migration_Limits.thy ===== *)
theory Migration_Limits
  imports Migration
begin

text \<open>
  The edges of the migration of RAM: device writes are seen by it, streams that do not fit are
  rejected, and what goes wrong with offsets beyond a block and with XBZRLE.
\<close>

section \<open>Device writes\<close>

lemma set_flags_result:
  assumes "cpu_physical_memory_set_dirty_flags tpb addr flags rl = Some rl'"
  shows "rl_blocks rl' = rl_blocks rl" and "unat (drop_bit tpb addr) < length (phys_dirty rl)"
    and "phys_dirty rl' = (phys_dirty rl)[unat (drop_bit tpb addr) :=
      ucast (ucast (phys_dirty rl ! unat (drop_bit tpb addr)) OR flags)]"
  using assms
  by (auto simp: cpu_physical_memory_set_dirty_flags_def Let_def get_byte_def put_byte_def bind_eq_Some_conv split: if_splits)

text \<open>Bytes written inside a page change this page only.\<close>

lemma write_in_page:
  fixes P :: nat
  assumes "p div P = (p + length bs - 1) div P" and "bs \<noteq> []" and "0 < P" and "p + length bs \<le> length h" and "k \<noteq> p div P"
  shows "take P (drop (k * P) (take p h @ bs @ drop (p + length bs) h)) = take P (drop (k * P) h)"
proof (rule nth_equalityI)
  let ?h = "take p h @ bs @ drop (p + length bs) h"
  have len: "length ?h = length h" using assms(4) by simp
  then show "length (take P (drop (k * P) ?h)) = length (take P (drop (k * P) h))" by (simp only: length_take length_drop)
  fix j assume "j < length (take P (drop (k * P) ?h))"
  then have j: "j < P" "k * P + j < length h" unfolding length_take length_drop len by auto
  have k: "(k * P + j) div P = k" using j(1) assms(3) by simp
  have "k * P + j < p \<or> p + length bs \<le> k * P + j"
  proof (rule ccontr)
    assume "\<not> ?thesis"
    then have "p \<le> k * P + j" "k * P + j \<le> p + length bs - 1" by auto
    then have "p div P \<le> k" "k \<le> p div P" using div_le_mono k assms(1) by metis+
    then show False using assms(5) by simp
  qed
  then have "?h ! (k * P + j) = h ! (k * P + j)" using j(2) assms(4) by (auto simp: nth_append)
  moreover have "take P (drop (k * P) xs) ! j = xs ! (k * P + j)" if "length xs = length h" for xs using j that by simp
  ultimately show "take P (drop (k * P) ?h) ! j = take P (drop (k * P) h) ! j" using len by metis
qed

text \<open>The part of the write before the flags are changed.\<close>

lemma rw_in_page:
  assumes "ram_ok tpb st" and "bs \<noteq> []" and "unat a div 2 ^ tpb = (unat a + length bs - 1) div 2 ^ tpb"
    and "qemu_get_ram_ptr a st = Some (p, st1)" and "host_write p bs st1 = Some st2"
  obtains b k where "is_page tpb st b k" and "page_no tpb st b k = unat a div 2 ^ tpb" and "ram_ok tpb st2"
    and "set (rl_blocks (ram_list st2)) = set (rl_blocks (ram_list st))"
    and "phys_dirty (ram_list st2) = phys_dirty (ram_list st)"
    and "\<And>c. rb_at st2 c = (rb_at st c)\<lparr>rb_host := rb_host (rb_at st2 c)\<rparr>"
    and "\<And>c j. (c, j) \<noteq> (b, k) \<Longrightarrow> get_page tpb st2 c j = get_page tpb st c j"
proof -
  obtain b where f: "find (in_block st a) (rl_blocks (ram_list st)) = Some b"
    using assms(4) by (auto simp: qemu_get_ram_ptr_def bind_eq_Some_conv)
  then have b: "b \<in> set (rl_blocks (ram_list st))" "in_block st a b" by (auto simp: find_Some_iff)
  note B = ram_ok_block [OF assms(1) b(1)] and I = b(2) [unfolded in_block_iff [OF assms(1) b(1)]]
  define o1 where "o1 = unat (a - rb_offset (rb_at st b))"
  define k where "k = unat a div 2 ^ tpb - first_page tpb (rb_at st b)"
  have "unat (rb_offset (rb_at st b)) \<le> unat a"
    using I B(2) div_times_less_eq_dividend [of "unat a" "2 ^ tpb"] mult_le_mono1 le_trans by metis
  then have o1: "unat a = first_page tpb (rb_at st b) * 2 ^ tpb + o1"
    unfolding o1_def using B(2) by (simp add: unat_sub word_le_nat_alt)
  have d: "(unat a + x) div 2 ^ tpb = first_page tpb (rb_at st b) + (o1 + x) div 2 ^ tpb" for x
    unfolding o1 add.assoc by (simp add: div_mult_self3)
  have l: "unat a + length bs - 1 = unat a + (length bs - 1)" "o1 + length bs - 1 = o1 + (length bs - 1)"
    using assms(2) by (cases bs; simp)+
  have k: "k = o1 div 2 ^ tpb" "o1 div 2 ^ tpb = (o1 + length bs - 1) div 2 ^ tpb"
    using assms(3) d [of 0] d [of "length bs - 1"] unfolding k_def l by (simp_all only: add_0_right add_left_cancel diff_add_inverse)
  obtain h where h: "put_bytes o1 bs (rb_host (rb_at st b)) = Some h"
    and st2: "st2 = (to_front b st)\<lparr>rb_at := (rb_at st)(b := (rb_at st b)\<lparr>rb_host := h\<rparr>)\<rparr>"
    using assms(4,5) get_ram_ptr_block [OF assms(1) b] by (auto simp: host_write_def bind_eq_Some_conv o1_def)
  have hb: "o1 + length bs \<le> length (rb_host (rb_at st b))"
    "h = take o1 (rb_host (rb_at st b)) @ bs @ drop (o1 + length bs) (rb_host (rb_at st b))"
    using h assms(2) by (auto simp: put_bytes_eq split: if_splits)
  have len: "length h = length (rb_host (rb_at st b))" using hb by simp
  have dis: "distinct (rl_blocks (ram_list st))" using assms(1) by (simp add: ram_ok_def)
  show ?thesis
  proof (rule that [of b k])
    show "is_page tpb st b k" using b(1) I by (auto simp: is_page_def k_def)
    show "page_no tpb st b k = unat a div 2 ^ tpb" using I by (simp add: page_no_def k_def)
    show "ram_ok tpb st2"
      using to_front_ok [OF assms(1) b(1)] len unfolding st2 ram_ok_def block_ok_def apart_def first_page_def num_pages_def by simp
    show "set (rl_blocks (ram_list st2)) = set (rl_blocks (ram_list st))" using b(1) dis by (simp add: st2)
    show "phys_dirty (ram_list st2) = phys_dirty (ram_list st)" by (simp add: st2)
    show "rb_at st2 c = (rb_at st c)\<lparr>rb_host := rb_host (rb_at st2 c)\<rparr>" for c by (simp add: st2)
    show "get_page tpb st2 c j = get_page tpb st c j" if "(c, j) \<noteq> (b, k)" for c j
      using that write_in_page [OF k(2) assms(2) _ hb(1), of j] by (auto simp: get_page_def st2 hb(2) k(1))
  qed
qed

text \<open>Setting flags is a step that leaves the page of the address dirty.\<close>

lemma guest_step_trans:
  "guest_step tpb {} st1 {} st2 \<Longrightarrow> guest_step tpb {} st2 {} st3 \<Longrightarrow> guest_step tpb {} st1 {} st3"
  using guest_step_fields(2) [of tpb "{}" st1 "{}" st2] unfolding guest_step_def by (metis empty_iff)

lemma set_flags_step:
  assumes "ram_ok tpb st" and "cpu_physical_memory_set_dirty_flags tpb a flags (ram_list st) = Some rl" and "bit flags 3"
    and "page_no tpb st b k = unat a div 2 ^ tpb"
  shows "guest_step tpb {} st {} (st\<lparr>ram_list := rl\<rparr>)" and "dirty tpb (st\<lparr>ram_list := rl\<rparr>) b k"
proof -
  have i: "unat (drop_bit tpb a) = page_no tpb st b k" by (simp only: assms(4) unat_drop_bit_eq) (simp add: drop_bit_eq_div)
  note F = set_flags_result [OF assms(2), unfolded i]
  have pn: "page_no tpb (st\<lparr>ram_list := rl\<rparr>) c j = page_no tpb st c j" for c j by (simp add: page_no_def)
  have m: "mig (ucast (ucast x OR flags :: u32))" for x :: u8 using assms(3) by (simp add: bit_simps)
  have d: "dirty tpb st c j \<Longrightarrow> dirty tpb (st\<lparr>ram_list := rl\<rparr>) c j" for c j
    using F(2) m unfolding dirty_def pn by (auto simp: F(3) nth_list_update)
  show "dirty tpb (st\<lparr>ram_list := rl\<rparr>) b k" using F(2) m unfolding dirty_def pn by (simp add: F(3))
  have "ram_ok tpb (st\<lparr>ram_list := rl\<rparr>)" using assms(1) F(1,3) by (simp add: ram_ok_def pages_fit_def)
  then show "guest_step tpb {} st {} (st\<lparr>ram_list := rl\<rparr>)"
    using d F(1) by (auto simp: guest_step_def get_page_def)
qed

text \<open>
  C5. A write to RAM by a device is noticed by the migration. The part of a write that
  \<open>cpu_physical_memory_rw\<close> does in one page keeps RAM well-formed, leaves no page clean that
  was to be sent, and each page whose contents it changes is to be sent afterwards. This is
  what the migration needs of the guest. The same is assumed of the invalidation of translated
  code, which is a parameter.
\<close>

theorem device_write_seen:
  assumes ok: "ram_ok tpb st" and bs: "bs \<noteq> []" "unat addr1 div 2 ^ tpb = (unat addr1 + length bs - 1) div 2 ^ tpb"
    and tb: "\<And>a e st. ram_ok tpb st \<Longrightarrow> guest_step tpb {} st {} (tb_invalidate a e st)"
    and run: "cpu_physical_memory_rw_ram tpb tb_invalidate addr1 bs st = Some st'"
  shows "guest_step tpb H st H st'"
proof -
  obtain p st1 st2 where g: "qemu_get_ram_ptr addr1 st = Some (p, st1)" and w: "host_write p bs st1 = Some st2"
    using run by (auto simp: cpu_physical_memory_rw_ram_def bind_eq_Some_conv)
  obtain b k where b: "is_page tpb st b k" "page_no tpb st b k = unat addr1 div 2 ^ tpb" "ram_ok tpb st2"
    and s: "set (rl_blocks (ram_list st2)) = set (rl_blocks (ram_list st))" "phys_dirty (ram_list st2) = phys_dirty (ram_list st)"
      "\<And>c. rb_at st2 c = (rb_at st c)\<lparr>rb_host := rb_host (rb_at st2 c)\<rparr>"
    and pg: "\<And>c j. (c, j) \<noteq> (b, k) \<Longrightarrow> get_page tpb st2 c j = get_page tpb st c j"
    by (rule rw_in_page [OF ok bs g w]) blast
  have fp: "rb_mr (rb_at st2 c) = rb_mr (rb_at st c)" "rb_offset (rb_at st2 c) = rb_offset (rb_at st c)"
    "rb_length (rb_at st2 c) = rb_length (rb_at st c)" "rb_idstr (rb_at st2 c) = rb_idstr (rb_at st c)" for c
    by (subst s(3), simp)+
  have pn: "page_no tpb st2 c j = page_no tpb st c j" "is_page tpb st2 c j = is_page tpb st c j"
    "dirty tpb st2 c j = dirty tpb st c j" for c j
    by (simp_all add: page_no_def is_page_def first_page_def num_pages_def dirty_def fp s(1,2))
  have i: "unat (drop_bit tpb addr1) = page_no tpb st b k" by (simp only: b(2) unat_drop_bit_eq) (simp add: drop_bit_eq_div)
  note R = run [unfolded cpu_physical_memory_rw_ram_def, simplified g, simplified, unfolded w, simplified]
  have "guest_step tpb {} st2 {} st' \<and> dirty tpb st' b k"
  proof (cases "phys_dirty (ram_list st) ! page_no tpb st b k = 0xff")
    case True
    then have "st' = st2" "dirty tpb st2 b k"
      using R by (auto simp: cpu_physical_memory_is_dirty_def cpu_physical_memory_get_dirty_flags_def get_byte_def i s(2)
        bind_eq_Some_conv dirty_def pn split: if_splits)
    then show ?thesis using b(3) by (simp add: guest_step_def)
  next
    case False
    define st3 where "st3 = tb_invalidate addr1 (addr1 + of_nat (length bs)) st2"
    obtain rl where rl: "st' = st3\<lparr>ram_list := rl\<rparr>"
      "cpu_physical_memory_set_dirty_flags tpb addr1 (0xff AND NOT CODE_DIRTY_FLAG) (ram_list st3) = Some rl"
      using R False by (auto simp: cpu_physical_memory_is_dirty_def cpu_physical_memory_get_dirty_flags_def get_byte_def i s(2)
        bind_eq_Some_conv st3_def Let_def split: if_splits)
    have G: "guest_step tpb {} st2 {} st3" using tb [OF b(3)] by (simp add: st3_def)
    have "page_no tpb st3 b k = unat addr1 div 2 ^ tpb" "ram_ok tpb st3" using guest_step_fields(1,3) [OF G] pn b(2) by auto
    then show ?thesis
      using set_flags_step [OF _ rl(2)] guest_step_trans [OF G] rl(1) by (simp add: bit_simps CODE_DIRTY_FLAG_def)
  qed
  moreover have "get_page tpb st2 c j = get_page tpb st c j \<or> (c, j) = (b, k)" for c j using pg by blast
  ultimately show ?thesis unfolding guest_step_def using fp s(1) pn by fastforce
qed

theorem device_write_seen_witness:
  "\<exists>st'. cpu_physical_memory_rw_ram 10 (\<lambda>_ _ st. st) 0 [1, 2] (demo_ram 0) = Some st' \<and>
     guest_step 10 {} (demo_ram 0) {} st' \<and> dirty 10 st' 1 0"
proof -
  have "map_option (\<lambda>st'. get_byte (rb_host (rb_at st' 1)) 0) (cpu_physical_memory_rw_ram 10 (\<lambda>_ _ st. st) 0 [1, 2] (demo_ram 0)) =
      Some (Some 1)"
    by code_simp
  then obtain st' where st': "cpu_physical_memory_rw_ram 10 (\<lambda>_ _ st. st) 0 [1, 2] (demo_ram 0) = Some st'"
    "get_byte (rb_host (rb_at st' 1)) 0 = Some 1" by blast
  have g: "guest_step 10 {} (demo_ram 0) {} st'"
    by (rule device_write_seen [OF demo_ram_ok _ _ _ st'(1)]) (simp_all add: guest_step_def)
  have "get_page 10 st' 1 0 ! 0 = 1" using st'(2) by (simp add: get_page_def get_byte_def split: if_splits)
  moreover have "get_page 10 (demo_ram 0) 1 0 ! 0 = 0" by (simp add: get_page_def demo_ram_def)
  ultimately have "get_page 10 st' 1 0 \<noteq> get_page 10 (demo_ram 0) 1 0" by auto
  moreover have "is_page 10 (demo_ram 0) 1 0" by (simp add: is_page_def demo_ram_def num_pages_def)
  ultimately show ?thesis using g st'(1) unfolding guest_step_def by blast
qed

section \<open>Streams that do not fit\<close>

text \<open>
  A message whose header can be read: its page has an address, and the name has the form that the
  receiver expects.
\<close>

definition readable_msg :: "nat \<Rightarrow> page_msg \<Rightarrow> bool" where
  "readable_msg tpb m \<longleftrightarrow> msg_page m * 2 ^ tpb < 2 ^ 64 \<and> (\<forall>i. msg_id m = Some i \<longrightarrow> length i < 256 \<and> 0 \<notin> set i)"

text \<open>The receiver cannot take a message: it has no such block, or a difference comes without XBZRLE.\<close>

definition refuses :: "bool \<Rightarrow> page_msg \<Rightarrow> 'd incoming \<Rightarrow> bool" where
  "refuses use_xbzrle m r \<longleftrightarrow> msg_block m r = None \<or> \<not> use_xbzrle \<and> (\<exists>e. msg_load m = Delta e)"

context byte_source
begin

lemma load_loop_prefix:
  assumes tpb: "7 \<le> tpb" "tpb < 16" and area: "length area = 2 ^ tpb"
  shows "in_ok tpb s \<Longrightarrow> accepts tpb use_xbzrle ms s Q \<Longrightarrow> reading get f \<Longrightarrow> unread rest f = enc_msgs tpb ms @ post \<Longrightarrow>
    \<exists>f' s'. load_loop tpb use_xbzrle stk area f s = load_loop tpb use_xbzrle stk area f' s' \<and> reading get f' \<and>
      unread rest f' = post \<and> in_ok tpb s' \<and> Q s'"
proof (induction ms arbitrary: f s)
  case (Cons m ms)
  obtain b page where rc: "receivable tpb use_xbzrle m s b page" using Cons.prems(2) by auto
  obtain f1 s1 where st: "load_step tpb use_xbzrle stk area f s = Some ((False, 0), f1, s1)"
    "reading get f1" "unread rest f1 = enc_msgs tpb ms @ post" "delivers tpb m s s1"
    using load_step_msg [OF Cons.prems(1) tpb area rc Cons.prems(3), of "enc_msgs tpb ms @ post" stk] Cons.prems(4) by auto
  have "load_loop tpb use_xbzrle stk area f s = load_loop tpb use_xbzrle stk area f1 s1"
    using st(1) by (subst load_loop.simps) simp
  then show ?case using Cons.IH [OF delivers_ok [OF Cons.prems(1) st(4)] _ st(2,3)] Cons.prems(2) st(4) by auto
qed auto

text \<open>The header of a message.\<close>

lemma header_read:
  assumes tpb: "7 \<le> tpb" "tpb < 16" and m: "readable_msg tpb m" and r: "reading get f" "unread rest f = enc_msg tpb m @ post"
  obtains f1 W w where "qemu_get_be64 f = Some (W, f1)" and "reading get f1"
    and "unread rest f1 = enc_id (msg_id m) @ enc_payload (msg_load m) @ post"
    and "W AND NOT (TARGET_PAGE_MASK tpb) = w" and "W AND TARGET_PAGE_MASK tpb = page_addr tpb (msg_page m)"
    and "w AND RAM_SAVE_FLAG_MEM_SIZE = 0" and "w AND RAM_SAVE_FLAG_CONTINUE \<noteq> 0 \<longleftrightarrow> msg_id m = None"
    and "w AND RAM_SAVE_FLAG_COMPRESS \<noteq> 0 \<longleftrightarrow> (\<exists>b. msg_load m = Fill b)"
    and "w AND RAM_SAVE_FLAG_PAGE \<noteq> 0 \<longleftrightarrow> (\<exists>q. msg_load m = Raw q)"
    and "w AND RAM_SAVE_FLAG_XBZRLE \<noteq> 0 \<longleftrightarrow> (\<exists>e. msg_load m = Delta e)"
proof -
  define w where "w = cont_flag (msg_id m) OR load_flag (msg_load m)"
  note hf = header_flags [of "msg_id m" "msg_load m", folded w_def]
  obtain f1 where f1: "qemu_get_be64 f = Some (page_addr tpb (msg_page m) OR w, f1)"
    "reading get f1" "unread rest f1 = enc_id (msg_id m) @ enc_payload (msg_load m) @ post"
    by (rule be64_read [OF r(1)]) (use r(2) in \<open>simp_all add: enc_msg_def w_def or.assoc\<close>)
  have k: "msg_page m * 2 ^ tpb < 2 ^ 64" using m by (simp add: readable_msg_def)
  show ?thesis
    by (rule that [OF f1 header_word [OF tpb(1) _ k hf(1)]]) (use tpb(2) hf in auto)
qed

text \<open>The block of a message is not there.\<close>

lemma host_not_in_stream:
  assumes m: "readable_msg tpb m" and r: "reading get f" "unread rest f = enc_id (msg_id m) @ post" and none: "msg_block m s = None"
    and fl: "flags AND RAM_SAVE_FLAG_CONTINUE \<noteq> 0 \<longleftrightarrow> msg_id m = None"
  shows "\<exists>f' s'. host_from_stream_offset tpb stk offset flags f s = Some (None, f', s') \<and> in_ram_state s' = in_ram_state s"
proof (cases "msg_id m")
  case None
  then show ?thesis using none fl by (simp add: host_from_stream_offset_def msg_block_def)
next
  case (Some i)
  obtain f' where "get_idstr stk f = Some (i, f')"
    using idstr_read [OF r(1)] r(2) m Some unfolding readable_msg_def by metis
  then show ?thesis using none fl Some by (simp add: host_from_stream_offset_def msg_block_def)
qed

lemma load_step_refused:
  assumes "7 \<le> tpb" and "tpb < 16" and m: "readable_msg tpb m" and "reading get f" and "unread rest f = enc_msg tpb m @ post"
    and "refuses use_xbzrle m s"
  shows "\<exists>f' s'. load_step tpb use_xbzrle stk area f s = Some ((True, - EINVAL), f', s') \<and> in_ram_state s' = in_ram_state s"
proof -
  obtain f1 W w where f1: "qemu_get_be64 f = Some (W, f1)" "reading get f1"
    "unread rest f1 = enc_id (msg_id m) @ enc_payload (msg_load m) @ post"
    and hw: "W AND NOT (TARGET_PAGE_MASK tpb) = w" "W AND TARGET_PAGE_MASK tpb = page_addr tpb (msg_page m)"
    and hf: "w AND RAM_SAVE_FLAG_MEM_SIZE = 0" "w AND RAM_SAVE_FLAG_CONTINUE \<noteq> 0 \<longleftrightarrow> msg_id m = None"
      "w AND RAM_SAVE_FLAG_COMPRESS \<noteq> 0 \<longleftrightarrow> (\<exists>b. msg_load m = Fill b)"
      "w AND RAM_SAVE_FLAG_PAGE \<noteq> 0 \<longleftrightarrow> (\<exists>q. msg_load m = Raw q)"
      "w AND RAM_SAVE_FLAG_XBZRLE \<noteq> 0 \<longleftrightarrow> (\<exists>e. msg_load m = Delta e)"
    by (rule header_read [OF assms(1-5)])
  show ?thesis
  proof (cases "use_xbzrle \<or> (\<forall>e. msg_load m \<noteq> Delta e)")
    case True
    then have "msg_block m s = None" using assms(6) by (auto simp: refuses_def)
    then obtain f' s' where h: "host_from_stream_offset tpb stk (page_addr tpb (msg_page m)) w f1 s = Some (None, f', s')"
      "in_ram_state s' = in_ram_state s"
      using host_not_in_stream [OF m f1(2,3) _ hf(2)] by blast
    have "load_step tpb use_xbzrle stk area f s = Some ((True, - EINVAL), f', s')"
      using True h(1) f1(1) hf by (cases "msg_load m") (simp_all add: load_step_def hw Let_def)
    then show ?thesis using h(2) by blast
  next
    case False
    then show ?thesis using f1(1) hf by (auto simp: load_step_def hw Let_def)
  qed
qed

text \<open>A list of blocks that does not fit the blocks of the receiver.\<close>

lemma load_block_list_mismatch:
  assumes "ram_ok tpb src" and "names_ok src"
  shows "distinct bs \<Longrightarrow> set bs \<subseteq> set (rl_blocks (ram_list src)) \<Longrightarrow> reading get f \<Longrightarrow>
    unread rest f = concat (map (\<lambda>b. enc_entry (rb_at src b)) bs) @ post \<Longrightarrow>
    \<exists>b\<in>set bs. \<forall>c. find_idstr (rb_idstr (rb_at src b)) dst = Some c \<longrightarrow> rb_length (rb_at dst c) \<noteq> rb_length (rb_at src b) \<Longrightarrow>
    \<exists>f'. load_block_list stk (page_addr tpb (pages_total tpb src bs)) dst f = Some (- EINVAL, f')"
proof (induction bs arbitrary: f)
  case (Cons b bs)
  let ?B = "rb_at src b" and ?post = "concat (map (\<lambda>b. enc_entry (rb_at src b)) bs) @ post"
  have b: "b \<in> set (rl_blocks (ram_list src))" using Cons.prems by simp
  note T = blocks_total [OF assms(1) Cons.prems(1,2)]
  obtain f1 where f1: "get_idstr stk f = Some (rb_idstr ?B, f1)" "reading get f1"
    "unread rest f1 = enc_be64 (rb_length ?B) @ ?post"
    by (rule idstr_read [OF Cons.prems(3), of "rb_idstr ?B" "enc_be64 (rb_length ?B) @ ?post"])
      (use Cons.prems(4) assms(2) b in \<open>auto simp: enc_entry_def names_ok_def\<close>)
  obtain f2 where f2: "qemu_get_be64 f1 = Some (rb_length ?B, f2)" "reading get f2" "unread rest f2 = ?post"
    using be64_read [OF f1(2,3)] by blast
  show ?case
  proof (cases "\<exists>c. find_idstr (rb_idstr ?B) dst = Some c \<and> rb_length (rb_at dst c) = rb_length ?B")
    case True
    then have "load_block_list stk (page_addr tpb (pages_total tpb src (b # bs))) dst f =
        load_block_list stk (page_addr tpb (pages_total tpb src bs)) dst f2"
      using f1(1) f2(1) T by (subst load_block_list.simps) auto
    then show ?thesis using Cons.IH [OF _ _ f2(2,3)] Cons.prems(1,2,5) True by auto
  next
    case False
    then have "load_block_list stk (page_addr tpb (pages_total tpb src (b # bs))) dst f = Some (- EINVAL, f2)"
      using f1(1) f2(1) T by (subst load_block_list.simps) (auto split: option.splits)
    then show ?thesis by blast
  qed
qed simp

lemma load_step_mismatch:
  assumes "7 \<le> tpb" and "tpb < 64" and "\<not> same_layout src (in_ram_state s)" and "ram_ok tpb src" and "names_ok src"
    and "reading get f" and "unread rest f = enc_setup src @ post"
  shows "\<exists>f'. load_step tpb use_xbzrle stk area f s = Some ((True, - EINVAL), f', s)"
proof -
  obtain f1 W where f1: "qemu_get_be64 f = Some (W, f1)" "reading get f1"
    "unread rest f1 = concat (map (\<lambda>b. enc_entry (rb_at src b)) (rl_blocks (ram_list src))) @ enc_eos @ post"
    and hw: "W AND NOT (TARGET_PAGE_MASK tpb) = RAM_SAVE_FLAG_MEM_SIZE"
      "W AND TARGET_PAGE_MASK tpb = page_addr tpb (pages_total tpb src (rl_blocks (ram_list src)))"
    by (rule setup_header [OF assms(1,2,4,6,7)])
  have bs: "distinct (rl_blocks (ram_list src))" using assms(4) by (simp add: ram_ok_def)
  obtain f2 where "load_block_list stk (page_addr tpb (pages_total tpb src (rl_blocks (ram_list src)))) (in_ram_state s) f1 =
      Some (- EINVAL, f2)"
    using load_block_list_mismatch [OF assms(4,5) bs subset_refl f1(2,3)] assms(3) unfolding same_layout_def by blast
  then show ?thesis
    using f1(1) hw by (auto simp: load_step_def Let_def EINVAL_def RAM_SAVE_FLAG_MEM_SIZE_def)
qed

text \<open>A page beyond the end of its block is stored outside the memory of the block.\<close>

lemma load_step_beyond:
  assumes "7 \<le> tpb" and "tpb < 16" and m: "readable_msg tpb m" and "reading get f" and "unread rest f = enc_msg tpb m @ post"
    and ok: "in_ok tpb s" and b: "msg_block m s = Some b" "num_pages tpb (rb_at (in_ram_state s) b) \<le> msg_page m"
    and p: "(\<exists>c. msg_load m = Fill c) \<or> (\<exists>q. msg_load m = Raw q \<and> length q = 2 ^ tpb)"
  shows "load_step tpb use_xbzrle stk area f s = None"
proof -
  obtain f1 W w where f1: "qemu_get_be64 f = Some (W, f1)" "reading get f1"
    "unread rest f1 = enc_id (msg_id m) @ enc_payload (msg_load m) @ post"
    and hw: "W AND NOT (TARGET_PAGE_MASK tpb) = w" "W AND TARGET_PAGE_MASK tpb = page_addr tpb (msg_page m)"
    and hf: "w AND RAM_SAVE_FLAG_MEM_SIZE = 0" "w AND RAM_SAVE_FLAG_CONTINUE \<noteq> 0 \<longleftrightarrow> msg_id m = None"
      "w AND RAM_SAVE_FLAG_COMPRESS \<noteq> 0 \<longleftrightarrow> (\<exists>b. msg_load m = Fill b)"
      "w AND RAM_SAVE_FLAG_PAGE \<noteq> 0 \<longleftrightarrow> (\<exists>q. msg_load m = Raw q)"
      "w AND RAM_SAVE_FLAG_XBZRLE \<noteq> 0 \<longleftrightarrow> (\<exists>e. msg_load m = Delta e)"
    by (rule header_read [OF assms(1-5)])
  let ?s = "s\<lparr>cur_block := Some b, in_ram_state := to_front b (in_ram_state s)\<rparr>"
  obtain f2 where f2: "host_from_stream_offset tpb stk (page_addr tpb (msg_page m)) w f1 s =
      Some (Some (b, page_addr tpb (msg_page m)), f2, ?s)" "reading get f2" "unread rest f2 = enc_payload (msg_load m) @ post"
    by (rule host_read_from_stream [OF ok f1(2,3) b(1) _ hf(2)]) (use m in \<open>auto simp: readable_msg_def\<close>)
  have "b \<in> set (rl_blocks (ram_list (in_ram_state s)))"
    using ok b find_idstr_Some by (auto simp: in_ok_def msg_block_def split: option.splits)
  then have len: "length (rb_host (rb_at (in_ram_state s) b)) \<le> msg_page m * 2 ^ tpb"
    using ram_ok_block(9) [of tpb "in_ram_state s" b] ok b(2) by (simp add: in_ok_def)
  have "unat (page_addr tpb (msg_page m)) = msg_page m * 2 ^ tpb" using m unat_page_addr by (simp add: readable_msg_def)
  then have hwr: "host_write (b, page_addr tpb (msg_page m)) bs (in_ram_state ?s) = None" if "length bs = 2 ^ tpb" for bs
    using le_less_trans [OF len, of "msg_page m * 2 ^ tpb + 2 ^ tpb"] that by (auto simp: host_write_def put_bytes_eq)
  show ?thesis
  proof (cases "msg_load m")
    case (Fill c)
    obtain f3 where "qemu_get_byte f2 = Some (c, f3)"
      by (rule consumesD [OF consumes_byte f2(2), of c post]) (use f2(3) Fill in auto)
    then show ?thesis using f1(1) f2(1) hf hwr Fill by (simp add: load_step_def hw Let_def)
  next
    case (Raw q)
    then have q: "length q = 2 ^ tpb" using p by auto
    obtain f3 where "qemu_get_buffer (2 ^ tpb) f2 = Some (q, f3)"
      using consumesD [OF consumes_buffer f2(2), of q post] f2(3) Raw q by auto
    then show ?thesis using f1(1) f2(1) hf hwr [OF q] Raw by (simp add: load_step_def hw Let_def)
  qed (use p in auto)
qed

end

text \<open>
  C4. The receiver rejects what does not fit: another version of the section, a list of blocks
  that differs from its own in a name or a length, and, after any messages that it has taken, a
  page of a block that it does not know, or a difference where XBZRLE is not in use. The result
  is \<open>- EINVAL\<close>, and the contents of RAM are those that the messages before have made.
\<close>

theorem ram_load_rejects:
  assumes "7 \<le> tpb" and "tpb < 16" and "length area = 2 ^ tpb" and "in_ok tpb r" and "reading file_get_buffer f"
  shows "(version_id \<noteq> 4 \<longrightarrow> ram_load tpb use_xbzrle stk area version_id f r = Some (- EINVAL, f, r)) \<and>
    (unread bytes_from f = enc_setup src @ post \<and> ram_ok tpb src \<and> names_ok src \<and> \<not> same_layout src (in_ram_state r) \<longrightarrow>
      (\<exists>f'. ram_load tpb use_xbzrle stk area 4 f r = Some (- EINVAL, f', r))) \<and>
    (unread bytes_from f = enc_msgs tpb ms @ enc_msg tpb m @ post \<and> readable_msg tpb m \<and>
      accepts tpb use_xbzrle ms r (\<lambda>r. refuses use_xbzrle m r \<and> P (in_ram_state r)) \<longrightarrow>
      (\<exists>f' r'. ram_load tpb use_xbzrle stk area 4 f r = Some (- EINVAL, f', r') \<and> P (in_ram_state r')))"
proof (intro conjI impI; (elim conjE)?)
  show "version_id \<noteq> 4 \<Longrightarrow> ram_load tpb use_xbzrle stk area version_id f r = Some (- EINVAL, f, r)"
    by (auto simp: ram_load_def)
next
  assume a: "unread bytes_from f = enc_setup src @ post" "ram_ok tpb src" "names_ok src" "\<not> same_layout src (in_ram_state r)"
  obtain f' where "load_step tpb use_xbzrle stk area f r = Some ((True, - EINVAL), f', r)"
    using file_source.load_step_mismatch [OF assms(1) _ a(4,2,3) assms(5) a(1)] assms(2) by fastforce
  then show "\<exists>f'. ram_load tpb use_xbzrle stk area 4 f r = Some (- EINVAL, f', r)"
    unfolding ram_load_def by (subst load_loop.simps) simp
next
  assume a: "unread bytes_from f = enc_msgs tpb ms @ enc_msg tpb m @ post" "readable_msg tpb m"
    "accepts tpb use_xbzrle ms r (\<lambda>r. refuses use_xbzrle m r \<and> P (in_ram_state r))"
  obtain f1 r1 where 1: "load_loop tpb use_xbzrle stk area f r = load_loop tpb use_xbzrle stk area f1 r1"
    "reading file_get_buffer f1" "unread bytes_from f1 = enc_msg tpb m @ post" "refuses use_xbzrle m r1" "P (in_ram_state r1)"
    using file_source.load_loop_prefix [OF assms(1-4) a(3) assms(5) a(1), of stk] by blast
  obtain f2 r2 where "load_step tpb use_xbzrle stk area f1 r1 = Some ((True, - EINVAL), f2, r2)"
    "in_ram_state r2 = in_ram_state r1"
    using file_source.load_step_refused [OF assms(1,2) a(2) 1(2-4)] by blast
  then show "\<exists>f' r'. ram_load tpb use_xbzrle stk area 4 f r = Some (- EINVAL, f', r') \<and> P (in_ram_state r')"
    unfolding ram_load_def using 1(1,5) by (simp add: load_loop.simps [of _ _ _ _ f1])
qed

text \<open>The stream of a file with the given bytes.\<close>

definition demo_stream :: "u8 list \<Rightarrow> FILE QEMUFile" where
  "demo_stream bs = the (qemu_fopen (Some \<lparr>file_bytes = bs, file_pos = 0, file_room = None\<rparr>) ''rb'')"

lemma demo_stream_reads: "reading file_get_buffer (demo_stream bs)" "unread bytes_from (demo_stream bs) = bs"
  using open_reading [of "\<lparr>file_bytes = bs, file_pos = 0, file_room = None\<rparr>" "demo_stream bs"]
  by (simp_all add: demo_stream_def qemu_fopen_def)

theorem ram_load_rejects_witness:
  "ram_load 10 True [] (replicate 1024 0) 3 (demo_stream []) demo_receiver = Some (- EINVAL, demo_stream [], demo_receiver) \<and>
   (\<exists>f' r'. ram_load 10 True [] (replicate 1024 0) 4 (demo_stream (enc_msg 10 (Page_Msg (Some [0x61]) 0 (Fill 9)))) demo_receiver =
      Some (- EINVAL, f', r') \<and> in_ram_state r' = demo_ram 0)"
proof (rule conjI)
  show "ram_load 10 True [] (replicate 1024 0) 3 (demo_stream []) demo_receiver = Some (- EINVAL, demo_stream [], demo_receiver)"
    by (rule ram_load_rejects [THEN conjunct1, rule_format, OF _ _ _ demo_facts(3) demo_stream_reads(1)]) simp_all
  let ?m = "Page_Msg (Some [0x61]) 0 (Fill 9)"
  have "accepts 10 True [] demo_receiver (\<lambda>r. refuses True ?m r \<and> in_ram_state r = demo_ram 0)"
    by (simp add: refuses_def msg_block_def demo_receiver_def find_idstr_def demo_ram_def)
  then show "\<exists>f' r'. ram_load 10 True [] (replicate 1024 0) 4 (demo_stream (enc_msg 10 ?m)) demo_receiver =
      Some (- EINVAL, f', r') \<and> in_ram_state r' = demo_ram 0"
    by (intro ram_load_rejects [where ms = "[]" and m = ?m and post = "[]", THEN conjunct2, THEN conjunct2, rule_format, OF _ _ _ demo_facts(3) demo_stream_reads(1)])
      (simp_all add: demo_stream_reads readable_msg_def)
qed

text \<open>
  C31. The receiver trusts the page numbers in the stream: a page beyond the end of a block that it
  knows, sent as it is or as a byte, is written outside the memory of the block, whatever valid
  messages came before.
\<close>

theorem load_offset_unchecked:
  assumes "7 \<le> tpb" and "tpb < 16" and "length area = 2 ^ tpb" and "in_ok tpb r" and "reading file_get_buffer f"
    and "unread bytes_from f = enc_msgs tpb ms @ enc_msg tpb m @ post" and "readable_msg tpb m"
    and "(\<exists>c. msg_load m = Fill c) \<or> (\<exists>q. msg_load m = Raw q \<and> length q = 2 ^ tpb)"
    and "accepts tpb use_xbzrle ms r
      (\<lambda>r. \<exists>b. msg_block m r = Some b \<and> num_pages tpb (rb_at (in_ram_state r) b) \<le> msg_page m)"
  shows "ram_load tpb use_xbzrle stk area 4 f r = None"
proof -
  obtain f1 r1 b where 1: "load_loop tpb use_xbzrle stk area f r = load_loop tpb use_xbzrle stk area f1 r1"
    "reading file_get_buffer f1" "unread bytes_from f1 = enc_msg tpb m @ post" "in_ok tpb r1" "msg_block m r1 = Some b"
    "num_pages tpb (rb_at (in_ram_state r1) b) \<le> msg_page m"
    using file_source.load_loop_prefix [OF assms(1-4,9,5,6), of stk] by blast
  have "load_step tpb use_xbzrle stk area f1 r1 = None"
    by (rule file_source.load_step_beyond [OF assms(1,2,7) 1(2-6) assms(8)])
  then show ?thesis using 1(1) by (simp add: ram_load_def load_loop.simps [of _ _ _ _ f1])
qed

theorem load_offset_unchecked_witness:
  "ram_load 10 True [] (replicate 1024 0) 4 (demo_stream (enc_msg 10 (Page_Msg (Some [0x70, 0x63]) 1 (Fill 9)))) demo_receiver = None"
proof (rule load_offset_unchecked [OF _ _ _ demo_facts(3) demo_stream_reads(1)])
  let ?m = "Page_Msg (Some [0x70, 0x63]) 1 (Fill 9)"
  show "unread bytes_from (demo_stream (enc_msg 10 ?m)) = enc_msgs 10 [] @ enc_msg 10 ?m @ []" by (simp add: demo_stream_reads)
  show "accepts 10 True [] demo_receiver (\<lambda>r. \<exists>b. msg_block ?m r = Some b \<and>
      num_pages 10 (rb_at (in_ram_state r) b) \<le> msg_page ?m)"
    by (simp add: msg_block_def demo_receiver_def find_idstr_def demo_ram_def num_pages_def)
qed (simp_all add: readable_msg_def)

section \<open>A page that XBZRLE loses\<close>

lemma encode_same:
  assumes "length old = n" and "n mod 8 = 0" and "0 < n" and "2 \<le> dlen"
  shows "xbzrle_encode_buffer old old n dst dlen = Some (0, dst)"
proof -
  obtain j where j: "zrun_scan old old n 0 0 = Some (j, j)" "run_end (same_at old old) 0 n j"
    using zrun_scan_run [OF assms(1,1), of 0] by auto
  then have "j = n" by (auto simp: run_end_def)
  then show ?thesis using assms j(1) unfolding xbzrle_encode_buffer_def by (subst xbzrle_encode_loop.simps) simp
qed

lemma save_xbzrle_page_same:
  assumes "cache_ok tpb s" and "a \<noteq> - 1" and "cached s a = Some page" and "3 \<le> tpb"
  shows "\<exists>s'. save_xbzrle_page tpb page a B off cont last_stage f s = Some (0, f, s') \<and> mig_ram s' = mig_ram s \<and> cache_ok tpb s' \<and>
    cached s' = cached s"
proof -
  obtain c enc cur where c: "xb_cache s = Some c" "cache_inv c" and len: "\<And>a p. cache_map c a = Some p \<Longrightarrow> length p = 2 ^ tpb"
    and buf: "encoded_buf s = Some enc" "length enc = 2 ^ tpb" "current_buf s = Some cur" "length cur = 2 ^ tpb"
    using cache_okE [OF assms(1)] by blast
  have cm: "cache_map c a = Some page" using assms(3) c(1) by (simp add: cached_def)
  have isc: "cache_is_cached c a = Some True" "get_cached_data c a = Some (Some page)"
    using pc.is_cached [OF c(2) assms(2)] pc.get_data [OF c(2) cm] cm by simp_all
  have "(2 :: nat) ^ (3 + (tpb - 3)) = 2 ^ 3 * 2 ^ (tpb - 3)" by (rule power_add)
  then have m: "(2 :: nat) ^ tpb mod 8 = 0" "(2 :: nat) \<le> 2 ^ tpb" using assms(4) power_increasing [of 1 tpb "2 :: nat"] by simp_all
  have cp: "put_bytes 0 page cur = Some page" by (rule file_sink.put_bytes_all) (simp add: len [OF cm] buf(4))
  define s' where "s' = s\<lparr>current_buf := Some page, encoded_buf := Some enc\<rparr>"
  have "save_xbzrle_page tpb page a B off cont last_stage f s = Some (0, f, s')"
    using c(1) buf isc cp encode_same [OF len [OF cm] m(1) _ m(2)] by (simp add: save_xbzrle_page_def s'_def Let_def)
  moreover have "cache_ok tpb s'"
    by (rule cache_okI [OF _ c(2) len _ buf(2) _ len [OF cm]]) (simp_all add: s'_def c(1))
  moreover have "cached s' = cached s" by (simp add: s'_def cached_def fun_eq_iff)
  ultimately show ?thesis by (auto simp: s'_def)
qed

context byte_sink
begin

lemma send_page_fill:
  assumes "writing put out good f" and "3 \<le> tpb"
  obtains f' i where "send_page tpb use_xbzrle last_stage b k (replicate (2 ^ tpb) c) bytes_sent f s = Some (1, f', s\<lparr>acct_info := i\<rparr>)"
    and "written out f' = written out f @ enc_msgs tpb [Page_Msg (page_id s b) k (Fill c)]"
proof -
  have e: "emits put out good (qemu_put_byte c) (enc_payload (Fill c))" by (simp add: emits_byte)
  obtain f' where "save_block_hdr (rb_at (mig_ram s) b) (page_addr tpb k) (cont_flag (page_id s b)) RAM_SAVE_FLAG_COMPRESS f \<bind>
      qemu_put_byte c = Some f'" "writing put out good f'"
    "written out f' = written out f @ enc_msgs tpb [Page_Msg (page_id s b) k (Fill c)]"
    using emitsD [OF emits_msg [OF e refl, of s b tpb k] assms(1)] by auto
  then show thesis by (intro that) (auto simp: send_page_def Let_def is_dup_def bind_eq_Some_conv)
qed

end

text \<open>
  C30. With XBZRLE a page can be lost. When a page that is in the cache turns into one of equal bytes,
  only the byte is sent and the old contents stay in the cache. If the page then gets its old
  contents back, it is compared with the cache, nothing is sent, and it counts as clean, although
  the last thing the receiver has been told about it is the byte.
\<close>

theorem xbzrle_loses_page:
  assumes tpb: "3 \<le> tpb" and ok: "ram_ok tpb (mig_ram s)" "ram_mapped (regions s) (mig_ram s)" "cache_ok tpb s"
    and pg: "is_page tpb (mig_ram s) b k" "get_page tpb (mig_ram s) b k = replicate (2 ^ tpb) c"
    and q: "cached s (cache_key tpb (mig_ram s) b k) = Some q" "\<not> is_dup tpb q"
    and w: "writing file_put_buffer file_bytes (\<lambda>s. file_room s = None) f"
  shows "\<exists>f1 s1. save_dirty_page tpb tcg True False b (page_addr tpb k) bytes_sent f s = Some (1, f1, s1) \<and>
    written file_bytes f1 = written file_bytes f @ enc_msgs tpb [Page_Msg (page_id s b) k (Fill c)] \<and>
    mig_ram s1 = to_front b (clean_page tpb b k (mig_ram s)) \<and>
    (\<forall>st last_stage. guest_step tpb {} (mig_ram s1) {} st \<and> get_page tpb st b k = q \<longrightarrow>
      (\<exists>s2. save_dirty_page tpb tcg True last_stage b (page_addr tpb k) bytes_sent f1 (s1\<lparr>mig_ram := st\<rparr>) = Some (0, f1, s2) \<and>
         get_page tpb (mig_ram s2) b k = q \<and> \<not> dirty tpb (mig_ram s2) b k))"
proof -
  note [simp] = get_page_to_front
  have bl: "b \<in> set (rl_blocks (ram_list (mig_ram s)))" "distinct (rl_blocks (ram_list (mig_ram s)))"
    using ok(1) pg(1) by (simp_all add: is_page_def ram_ok_def)
  obtain f1 i where f1: "send_page tpb True False b k (replicate (2 ^ tpb) c) bytes_sent f (after_page tpb b k s) =
      Some (1, f1, (after_page tpb b k s)\<lparr>acct_info := i\<rparr>)"
    "written file_bytes f1 = written file_bytes f @ enc_msgs tpb [Page_Msg (page_id (after_page tpb b k s) b) k (Fill c)]"
    by (rule file_sink.send_page_fill [OF w tpb])
  define s1 where "s1 = (after_page tpb b k s)\<lparr>acct_info := i\<rparr>"
  have run1: "save_dirty_page tpb tcg True False b (page_addr tpb k) bytes_sent f s = Some (1, f1, s1)"
    by (simp add: save_dirty_page_eq [OF ok(1,2) pg(1) tpb] pg(2) f1(1) s1_def)
  have s1: "mig_ram s1 = to_front b (clean_page tpb b k (mig_ram s))" "cached s1 = cached s" "cache_ok tpb s1" "mig_mem s1 = mig_mem s"
    using ok(3) by (simp_all add: s1_def cached_def cache_ok_def fun_eq_iff)
  have later: "\<exists>s2. save_dirty_page tpb tcg True last_stage b (page_addr tpb k) bytes_sent f1 (s1\<lparr>mig_ram := st\<rparr>) = Some (0, f1, s2) \<and>
      get_page tpb (mig_ram s2) b k = q \<and> \<not> dirty tpb (mig_ram s2) b k"
    if g: "guest_step tpb {} (mig_ram s1) {} st" and st: "get_page tpb st b k = q" for st last_stage
  proof -
    note G = guest_step_fields [OF g]
    let ?s = "after_page tpb b k (s1\<lparr>mig_ram := st\<rparr>)"
    have p: "is_page tpb st b k" "page_no tpb st b k = page_no tpb (mig_ram s) b k"
      using G(2,3) pg(1) bl by (simp_all add: s1(1))
    have map: "ram_mapped (regions (s1\<lparr>mig_ram := st\<rparr>)) st" using ok(2) bl by (simp add: G(5) s1(1,4))
    have key: "cache_key tpb (mig_ram ?s) b k = cache_key tpb (mig_ram s) b k" using p(2) by simp
    have c: "cache_ok tpb ?s" "cached ?s (cache_key tpb (mig_ram ?s) b k) = Some q" "cache_key tpb (mig_ram ?s) b k \<noteq> - 1"
      using s1(2,3) q(1) key key_not_minus_one [OF ok(1) pg(1)] tpb by (simp_all add: cached_def cache_ok_def)
    obtain s2 where s2: "save_xbzrle_page tpb q (cache_key tpb (mig_ram ?s) b k) (rb_at (mig_ram ?s) b) (page_addr tpb k)
        (cont_flag (page_id ?s b)) last_stage f1 ?s = Some (0, f1, s2)" "mig_ram s2 = mig_ram ?s" "cache_ok tpb s2" "cached s2 = cached ?s"
      using save_xbzrle_page_same [OF c(1,3,2) tpb] by blast
    obtain cc where cc: "xb_cache s2 = Some cc" "cache_inv cc" using s2(3) by (auto simp: cache_ok_def)
    have "cached s2 (cache_key tpb (mig_ram ?s) b k) = Some q" by (simp only: s2(4) c(2))
    then have "get_cached_data cc (cache_key tpb (mig_ram ?s) b k) = Some (Some q)"
      by (intro pc.get_data [OF cc(2)]) (simp add: cached_def cc(1))
    then have "send_page tpb True last_stage b k q bytes_sent f1 ?s = Some (0, f1, s2)"
      unfolding send_page_def Let_def using q(2) s2(1) cc(1) by simp
    then have "save_dirty_page tpb tcg True last_stage b (page_addr tpb k) bytes_sent f1 (s1\<lparr>mig_ram := st\<rparr>) = Some (0, f1, s2)"
      using save_dirty_page_eq [of tpb "s1\<lparr>mig_ram := st\<rparr>" b k tcg True last_stage bytes_sent f1] G(1) map p(1) tpb st by simp
    moreover have "get_page tpb (mig_ram s2) b k = q" using st by (simp add: s2(2))
    moreover have "\<not> dirty tpb (mig_ram s2) b k" using dirty_clean_page [OF G(1) p(1) p(1)] by (simp add: s2(2))
    ultimately show ?thesis by blast
  qed
  have "page_id (after_page tpb b k s) b = page_id s b" by (simp add: page_id_def)
  then show ?thesis using run1 f1(2) later s1(1) by auto
qed

text \<open>A page of eight bytes, all zero, where the cache has other contents.\<close>

definition tiny_ram :: "u8 list \<Rightarrow> u8 \<Rightarrow> ram_state" where
  "tiny_ram page flags =
     \<lparr>ram_list = \<lparr>phys_dirty = [flags], rl_blocks = [1], dirty_pages = 0\<rparr>,
      rb_at = (\<lambda>_. \<lparr>rb_mr = 7, rb_host = page, rb_offset = 0, rb_length = 8, rb_flags = 0, rb_idstr = [0x70, 0x63]\<rparr>)\<rparr>"

definition tiny_source :: "unit migration" where
  "tiny_source = demo_source\<lparr>mig_ram := tiny_ram (replicate 8 0) 8, encoded_buf := Some (replicate 8 0),
     current_buf := Some (replicate 8 0),
     xb_cache := Some \<lparr>page_cache = Some [\<lparr>it_addr = 0, it_age = 0, it_data = Some [1, 2, 3, 4, 5, 6, 7, 8]\<rparr>],
       page_size = 8, max_num_items = 1, max_item_age = 0, num_items = 1\<rparr>\<rparr>"

lemma tiny_ram_ok: "length page = 8 \<Longrightarrow> ram_ok 3 (tiny_ram page flags)"
  by (simp add: tiny_ram_def ram_ok_def pages_fit_def block_ok_def first_page_def num_pages_def page_addr_def)

lemma tiny_facts:
  "ram_mapped (regions tiny_source) (mig_ram tiny_source)" "cache_ok 3 tiny_source" "is_page 3 (mig_ram tiny_source) 1 0"
  "get_page 3 (mig_ram tiny_source) 1 0 = replicate (2 ^ 3) 0"
  "cached tiny_source (cache_key 3 (mig_ram tiny_source) 1 0) = Some [1, 2, 3, 4, 5, 6, 7, 8]"
proof -
  let ?c = "\<lparr>page_cache = Some [\<lparr>it_addr = 0, it_age = 0, it_data = Some [1, 2, 3, 4, 5, 6, 7, 8 :: u8]\<rparr>],
    page_size = 8, max_num_items = 1, max_item_age = 0, num_items = 1\<rparr>"
  have inv: "cache_inv ?c"
    unfolding cache_inv_def by (auto simp: items_of_def item_ok_def slot_def pages_of_def g_free_def intro!: exI [of _ 0])
  have sl: "slot ?c a = 0" for a by (simp add: slot_def)
  have cm: "cache_map ?c a = Some p \<longleftrightarrow> a = 0 \<and> p = [1, 2, 3, 4, 5, 6, 7, 8]" for a p
    unfolding cache_map_def sl by (auto simp: items_of_def)
  show "cache_ok 3 tiny_source"
    by (rule cache_okI [OF _ inv]) (auto simp: cm tiny_source_def)
  show "cached tiny_source (cache_key 3 (mig_ram tiny_source) 1 0) = Some [1, 2, 3, 4, 5, 6, 7, 8]"
    using cm by (simp add: cached_def tiny_source_def tiny_ram_def page_no_def first_page_def page_addr_def)
qed (simp_all add: ram_mapped_def tiny_source_def tiny_ram_def demo_source_def demo_mem_def blank_region_def is_page_def num_pages_def
  get_page_def)

theorem xbzrle_loses_page_witness:
  "\<exists>f f1 s1 s2. qemu_fopen (Some \<lparr>file_bytes = [], file_pos = 0, file_room = None\<rparr>) ''wb'' = Some f \<and>
     save_dirty_page 3 True True False 1 0 (- 1) f tiny_source = Some (1, f1, s1) \<and>
     written file_bytes f1 = enc_msgs 3 [Page_Msg (Some [0x70, 0x63]) 0 (Fill 0)] \<and>
     save_dirty_page 3 True True True 1 0 (- 1) f1 (s1\<lparr>mig_ram := tiny_ram [1, 2, 3, 4, 5, 6, 7, 8] 8\<rparr>) = Some (0, f1, s2) \<and>
     get_page 3 (mig_ram s2) 1 0 = [1, 2, 3, 4, 5, 6, 7, 8] \<and> \<not> dirty 3 (mig_ram s2) 1 0"
proof -
  let ?q = "[1, 2, 3, 4, 5, 6, 7, 8] :: u8 list"
  obtain f where f: "qemu_fopen (Some \<lparr>file_bytes = [], file_pos = 0, file_room = None\<rparr>) ''wb'' = Some f" by (simp add: qemu_fopen_def)
  note o = open_writing [OF f, simplified]
  have dup: "\<not> is_dup 3 ?q"
  proof
    assume "is_dup 3 ?q"
    then obtain c where "?q = replicate 8 c" by (auto simp: is_dup_def)
    then have "?q ! 0 = c" "?q ! 1 = c" by (metis nth_replicate zero_less_numeral one_less_numeral_iff semiring_norm(76))+
    then show False by simp
  qed
  have ok: "ram_ok 3 (mig_ram tiny_source)" by (simp add: tiny_source_def tiny_ram_ok)
  from xbzrle_loses_page [OF _ ok tiny_facts dup o(1), of True "- 1"]
  obtain f1 s1 where r: "save_dirty_page 3 True True False 1 (page_addr 3 0) (- 1) f tiny_source = Some (1, f1, s1)"
    "written file_bytes f1 = written file_bytes f @ enc_msgs 3 [Page_Msg (page_id tiny_source 1) 0 (Fill 0)]"
    "mig_ram s1 = to_front 1 (clean_page 3 1 0 (mig_ram tiny_source))"
    and l: "\<And>st last_stage. guest_step 3 {} (mig_ram s1) {} st \<Longrightarrow> get_page 3 st 1 0 = ?q \<Longrightarrow>
      \<exists>s2. save_dirty_page 3 True True last_stage 1 (page_addr 3 0) (- 1) f1 (s1\<lparr>mig_ram := st\<rparr>) = Some (0, f1, s2) \<and>
         get_page 3 (mig_ram s2) 1 0 = ?q \<and> \<not> dirty 3 (mig_ram s2) 1 0"
    by auto
  have g: "guest_step 3 {} (mig_ram s1) {} (tiny_ram ?q 8)"
    using tiny_ram_ok [of ?q 8]
    by (auto simp: guest_step_def r(3) to_front_def is_page_def tiny_source_def tiny_ram_def dirty_def page_no_def first_page_def num_pages_def)
  have "get_page 3 (tiny_ram ?q 8) 1 0 = ?q" by (simp add: get_page_def tiny_ram_def)
  from l [OF g this, of True] obtain s2 where
    "save_dirty_page 3 True True True 1 (page_addr 3 0) (- 1) f1 (s1\<lparr>mig_ram := tiny_ram ?q 8\<rparr>) = Some (0, f1, s2)"
    "get_page 3 (mig_ram s2) 1 0 = ?q" "\<not> dirty 3 (mig_ram s2) 1 0" by blast
  moreover have "page_id tiny_source 1 = Some [0x70, 0x63]"
    by (simp add: page_id_def tiny_source_def demo_source_def tiny_ram_def)
  ultimately show ?thesis using f r(1,2) o(2) by (auto simp: page_addr_def)
qed

end
