(* ===== verification/Tcg_Ops.thy ===== *)
theory Tcg_Ops
  imports Bswap Bitops
begin

text \<open>
  The operations of the code generator's intermediate language (\<open>tcg/tcg-opc.h\<close>) on a 64-bit host,
  and what they do. The meaning of an operation is that of the instruction reference in
  \<open>tcg/README\<close>, with the comparisons of the interpreter \<open>tci.c\<close>; what is undefined there is \<open>None\<close>.
  A temporary of 32 bits is kept with the upper half of its register zero, as the interpreter
  writes it. Left out are \<open>nopn\<close>, the operations with two outputs, and those of 32-bit hosts.
\<close>

unbundle bit_operations_syntax

section \<open>Operations\<close>

type_synonym TCGArg = u64

datatype tcg_width = I32 | I64

text \<open>
  The operations with two inputs and with one that are folded, each with a width, which the source
  writes with \<open>CASE_OP_32_64\<close>. The 32-bit extensions only exist for 64 bits.
\<close>

datatype tcg_binop = Add | Sub | Mul | And | Or | Xor | Shl | Shr | Sar | Rotl | Rotr | Andc | Orc | Eqv | Nand | Nor

datatype tcg_unop = Bnot | Neg | Ext8s | Ext16s | Ext8u | Ext16u | Ext32s | Ext32u

datatype tcg_ldst = Ld8u | Ld8s | Ld16u | Ld16s | Ld32u | Ld32s | Ld

datatype tcg_st = St8 | St16 | St32 | St

datatype tcg_div = Div | Divu | Rem | Remu

datatype tcg_bswap = Bswap16 | Bswap32 | Bswap64

datatype tcg_qld = Qld8u | Qld8s | Qld16u | Qld16s | Qld32 | Qld32u | Qld32s | Qld64

datatype tcg_qst = Qst8 | Qst16 | Qst32 | Qst64

datatype TCGOpcode =
    INDEX_op_end | INDEX_op_nop | INDEX_op_nop1 | INDEX_op_nop2 | INDEX_op_nop3
  | INDEX_op_discard | INDEX_op_set_label | INDEX_op_call | INDEX_op_jmp | INDEX_op_br
  | INDEX_op_mov tcg_width | INDEX_op_movi tcg_width
  | INDEX_op_bin tcg_binop tcg_width | INDEX_op_un tcg_unop tcg_width
  | INDEX_op_setcond tcg_width | INDEX_op_brcond tcg_width | INDEX_op_deposit tcg_width
  | INDEX_op_ld tcg_ldst tcg_width | INDEX_op_st tcg_st tcg_width
  | INDEX_op_div tcg_div tcg_width | INDEX_op_bswap tcg_bswap tcg_width
  | INDEX_op_debug_insn_start | INDEX_op_exit_tb | INDEX_op_goto_tb
  | INDEX_op_qemu_ld tcg_qld | INDEX_op_qemu_st tcg_qst

record TCGOpDef =
  nb_oargs :: nat
  nb_iargs :: nat
  nb_cargs :: nat
  op_flags :: nat

definition TCG_OPF_BB_END :: nat where "TCG_OPF_BB_END = 0x01"
definition TCG_OPF_CALL_CLOBBER :: nat where "TCG_OPF_CALL_CLOBBER = 0x02"
definition TCG_OPF_SIDE_EFFECTS :: nat where "TCG_OPF_SIDE_EFFECTS = 0x04"
definition TCG_OPF_64BIT :: nat where "TCG_OPF_64BIT = 0x08"

abbreviation DEF :: "nat \<Rightarrow> nat \<Rightarrow> nat \<Rightarrow> nat \<Rightarrow> TCGOpDef" where
  "DEF oargs iargs cargs flags \<equiv> \<lparr>nb_oargs = oargs, nb_iargs = iargs, nb_cargs = cargs, op_flags = flags\<rparr>"

fun IMPL :: "tcg_width \<Rightarrow> nat" where
  "IMPL I32 = 0"
| "IMPL I64 = TCG_OPF_64BIT"

fun tcg_op_defs :: "TCGOpcode \<Rightarrow> TCGOpDef" where
  "tcg_op_defs INDEX_op_end = DEF 0 0 0 0"
| "tcg_op_defs INDEX_op_nop = DEF 0 0 0 0"
| "tcg_op_defs INDEX_op_nop1 = DEF 0 0 1 0"
| "tcg_op_defs INDEX_op_nop2 = DEF 0 0 2 0"
| "tcg_op_defs INDEX_op_nop3 = DEF 0 0 3 0"
| "tcg_op_defs INDEX_op_discard = DEF 1 0 0 0"
| "tcg_op_defs INDEX_op_set_label = DEF 0 0 1 0"
| "tcg_op_defs INDEX_op_call = DEF 0 1 2 TCG_OPF_SIDE_EFFECTS"
| "tcg_op_defs INDEX_op_jmp = DEF 0 1 0 (TCG_OPF_BB_END OR TCG_OPF_SIDE_EFFECTS)"
| "tcg_op_defs INDEX_op_br = DEF 0 0 1 (TCG_OPF_BB_END OR TCG_OPF_SIDE_EFFECTS)"
| "tcg_op_defs (INDEX_op_mov w) = DEF 1 1 0 (IMPL w)"
| "tcg_op_defs (INDEX_op_movi w) = DEF 1 0 1 (IMPL w)"
| "tcg_op_defs (INDEX_op_bin b w) = DEF 1 2 0 (IMPL w)"
| "tcg_op_defs (INDEX_op_un u w) = DEF 1 1 0 (IMPL w)"
| "tcg_op_defs (INDEX_op_setcond w) = DEF 1 2 1 (IMPL w)"
| "tcg_op_defs (INDEX_op_brcond w) = DEF 0 2 2 (TCG_OPF_BB_END OR TCG_OPF_SIDE_EFFECTS OR IMPL w)"
| "tcg_op_defs (INDEX_op_deposit w) = DEF 1 2 2 (IMPL w)"
| "tcg_op_defs (INDEX_op_ld l w) = DEF 1 1 1 (IMPL w)"
| "tcg_op_defs (INDEX_op_st l w) = DEF 0 2 1 (TCG_OPF_SIDE_EFFECTS OR IMPL w)"
| "tcg_op_defs (INDEX_op_div d w) = DEF 1 2 0 (IMPL w)"
| "tcg_op_defs (INDEX_op_bswap b w) = DEF 1 1 0 (IMPL w)"
| "tcg_op_defs INDEX_op_debug_insn_start = DEF 0 0 1 0"
| "tcg_op_defs INDEX_op_exit_tb = DEF 0 0 1 (TCG_OPF_BB_END OR TCG_OPF_SIDE_EFFECTS)"
| "tcg_op_defs INDEX_op_goto_tb = DEF 0 0 1 (TCG_OPF_BB_END OR TCG_OPF_SIDE_EFFECTS)"
| "tcg_op_defs (INDEX_op_qemu_ld l) = DEF 1 1 1 (TCG_OPF_CALL_CLOBBER OR TCG_OPF_SIDE_EFFECTS)"
| "tcg_op_defs (INDEX_op_qemu_st l) = DEF 0 2 1 (TCG_OPF_CALL_CLOBBER OR TCG_OPF_SIDE_EFFECTS)"

definition nb_args :: "TCGOpcode \<Rightarrow> nat" where
  "nb_args op = nb_oargs (tcg_op_defs op) + nb_iargs (tcg_op_defs op) + nb_cargs (tcg_op_defs op)"

definition TCG_CALL_PURE :: TCGArg where "TCG_CALL_PURE = 0x10"
definition TCG_CALL_CONST :: TCGArg where "TCG_CALL_CONST = 0x20"

section \<open>The machine\<close>

text \<open>
  The temporaries of a translation block: their number, how many of them are globals, which live
  across basic blocks, and which have 64 bits.
\<close>

record TCGContext =
  nb_temps :: nat
  nb_globals :: nat
  temp_local :: "nat \<Rightarrow> bool"
  temp_width :: "nat \<Rightarrow> tcg_width"

text \<open>The values of the temporaries and the memory of the host, where it is mapped.\<close>

record tcg_state =
  tregs :: "nat \<Rightarrow> u64"
  tmem :: "u64 \<Rightarrow> u8 option"

text \<open>
  What the code calls: helper functions by address, the access to guest memory by address and
  MMU index, and whether a jump to another block is linked.
\<close>

record tcg_host =
  helper :: "u64 \<Rightarrow> u64 list \<Rightarrow> tcg_state \<Rightarrow> (u64 list \<times> tcg_state) option"
  guest_ld :: "tcg_qld \<Rightarrow> u64 \<Rightarrow> u64 \<Rightarrow> tcg_state \<Rightarrow> (u64 \<times> (u64 \<Rightarrow> u8 option)) option"
  guest_st :: "tcg_qst \<Rightarrow> u64 \<Rightarrow> u64 \<Rightarrow> u64 \<Rightarrow> tcg_state \<Rightarrow> (u64 \<Rightarrow> u8 option) option"
  tb_linked :: "u64 \<Rightarrow> bool"

fun tcg_bits :: "tcg_width \<Rightarrow> nat" where
  "tcg_bits I32 = 32"
| "tcg_bits I64 = 64"

definition norm :: "tcg_width \<Rightarrow> u64 \<Rightarrow> u64" where
  "norm w v = take_bit (tcg_bits w) v"

definition rd :: "tcg_width \<Rightarrow> TCGArg \<Rightarrow> tcg_state \<Rightarrow> u64" where
  "rd w a st = norm w (tregs st (unat a))"

definition wr :: "TCGContext \<Rightarrow> TCGArg \<Rightarrow> u64 \<Rightarrow> tcg_state \<Rightarrow> tcg_state" where
  "wr s a v st = st\<lparr>tregs := (tregs st)(unat a := norm (temp_width s (unat a)) v)\<rparr>"

section \<open>Values\<close>

definition sext :: "nat \<Rightarrow> u64 \<Rightarrow> u64" where
  "sext n v = of_int (signed_take_bit (n - 1) (sint v))"

fun bin_val :: "tcg_binop \<Rightarrow> tcg_width \<Rightarrow> u64 \<Rightarrow> u64 \<Rightarrow> u64 option" where
  "bin_val Add w x y = Some (norm w (x + y))"
| "bin_val Sub w x y = Some (norm w (x - y))"
| "bin_val Mul w x y = Some (norm w (x * y))"
| "bin_val And w x y = Some (norm w (x AND y))"
| "bin_val Or w x y = Some (norm w (x OR y))"
| "bin_val Xor w x y = Some (norm w (x XOR y))"
| "bin_val Shl w x y = (if unat y < tcg_bits w then Some (norm w (push_bit (unat y) x)) else None)"
| "bin_val Shr w x y = (if unat y < tcg_bits w then Some (norm w (drop_bit (unat y) x)) else None)"
| "bin_val Sar w x y =
     (if unat y < tcg_bits w then Some (norm w (signed_drop_bit (unat y) (sext (tcg_bits w) x))) else None)"
| "bin_val Rotl w x y =
     (if unat y < tcg_bits w then Some (norm w (push_bit (unat y) x OR drop_bit (tcg_bits w - unat y) x)) else None)"
| "bin_val Rotr w x y =
     (if unat y < tcg_bits w then Some (norm w (drop_bit (unat y) x OR push_bit (tcg_bits w - unat y) x)) else None)"
| "bin_val Andc w x y = Some (norm w (x AND NOT y))"
| "bin_val Orc w x y = Some (norm w (x OR NOT y))"
| "bin_val Eqv w x y = Some (norm w (NOT (x XOR y)))"
| "bin_val Nand w x y = Some (norm w (NOT (x AND y)))"
| "bin_val Nor w x y = Some (norm w (NOT (x OR y)))"

fun un_val :: "tcg_unop \<Rightarrow> tcg_width \<Rightarrow> u64 \<Rightarrow> u64" where
  "un_val Bnot w x = norm w (NOT x)"
| "un_val Neg w x = norm w (- x)"
| "un_val Ext8s w x = norm w (sext 8 x)"
| "un_val Ext16s w x = norm w (sext 16 x)"
| "un_val Ext8u w x = norm w (take_bit 8 x)"
| "un_val Ext16u w x = norm w (take_bit 16 x)"
| "un_val Ext32s w x = norm w (sext 32 x)"
| "un_val Ext32u w x = norm w (take_bit 32 x)"

text \<open>The comparisons, by the number of the condition.\<close>

definition tci_compare32 :: "u32 \<Rightarrow> u32 \<Rightarrow> TCGArg \<Rightarrow> bool option" where
  "tci_compare32 u0 u1 condition =
     (if condition = 0 then Some (u0 = u1) else if condition = 1 then Some (u0 \<noteq> u1)
      else if condition = 2 then Some (sint u0 < sint u1) else if condition = 3 then Some (sint u0 \<ge> sint u1)
      else if condition = 4 then Some (sint u0 \<le> sint u1) else if condition = 5 then Some (sint u0 > sint u1)
      else if condition = 6 then Some (u0 < u1) else if condition = 7 then Some (u0 \<ge> u1)
      else if condition = 8 then Some (u0 \<le> u1) else if condition = 9 then Some (u0 > u1) else None)"

definition tci_compare64 :: "u64 \<Rightarrow> u64 \<Rightarrow> TCGArg \<Rightarrow> bool option" where
  "tci_compare64 u0 u1 condition =
     (if condition = 0 then Some (u0 = u1) else if condition = 1 then Some (u0 \<noteq> u1)
      else if condition = 2 then Some (sint u0 < sint u1) else if condition = 3 then Some (sint u0 \<ge> sint u1)
      else if condition = 4 then Some (sint u0 \<le> sint u1) else if condition = 5 then Some (sint u0 > sint u1)
      else if condition = 6 then Some (u0 < u1) else if condition = 7 then Some (u0 \<ge> u1)
      else if condition = 8 then Some (u0 \<le> u1) else if condition = 9 then Some (u0 > u1) else None)"

definition tcg_compare :: "tcg_width \<Rightarrow> u64 \<Rightarrow> u64 \<Rightarrow> TCGArg \<Rightarrow> bool option" where
  "tcg_compare w x y c = (case w of I32 \<Rightarrow> tci_compare32 (ucast x) (ucast y) c | I64 \<Rightarrow> tci_compare64 x y c)"

text \<open>Division; by zero and on overflow it is undefined.\<close>

definition signed_of :: "tcg_width \<Rightarrow> u64 \<Rightarrow> int" where
  "signed_of w v = sint (sext (tcg_bits w) v)"

fun div_val :: "tcg_div \<Rightarrow> tcg_width \<Rightarrow> u64 \<Rightarrow> u64 \<Rightarrow> u64 option" where
  "div_val Divu w x y = (if y = 0 then None else Some (norm w (x div y)))"
| "div_val Remu w x y = (if y = 0 then None else Some (norm w (x mod y)))"
| "div_val Div w x y =
     (if y = 0 \<or> signed_of w x = - (2 ^ (tcg_bits w - 1)) \<and> signed_of w y = - 1 then None
      else Some (norm w (of_int (sgn (signed_of w x) * sgn (signed_of w y) * (\<bar>signed_of w x\<bar> div \<bar>signed_of w y\<bar>)))))"
| "div_val Rem w x y =
     (if y = 0 \<or> signed_of w x = - (2 ^ (tcg_bits w - 1)) \<and> signed_of w y = - 1 then None
      else Some (norm w (of_int (sgn (signed_of w x) * (\<bar>signed_of w x\<bar> mod \<bar>signed_of w y\<bar>)))))"

fun bswap_val :: "tcg_bswap \<Rightarrow> u64 \<Rightarrow> u64" where
  "bswap_val Bswap16 x = ucast (bswap16 (ucast x))"
| "bswap_val Bswap32 x = ucast (bswap32 (ucast x))"
| "bswap_val Bswap64 x = bswap64 x"

text \<open>Host memory, with the lowest byte first.\<close>

fun mem_ld :: "nat \<Rightarrow> u64 \<Rightarrow> (u64 \<Rightarrow> u8 option) \<Rightarrow> u8 list option" where
  "mem_ld 0 a m = Some []"
| "mem_ld (Suc n) a m = do { b \<leftarrow> m a; bs \<leftarrow> mem_ld n (a + 1) m; Some (b # bs) }"

fun mem_st :: "u8 list \<Rightarrow> u64 \<Rightarrow> (u64 \<Rightarrow> u8 option) \<Rightarrow> (u64 \<Rightarrow> u8 option) option" where
  "mem_st [] a m = Some m"
| "mem_st (b # bs) a m = (if m a = None then None else mem_st bs (a + 1) (m(a \<mapsto> b)))"

fun ld_bytes :: "tcg_ldst \<Rightarrow> tcg_width \<Rightarrow> nat" where
  "ld_bytes Ld8u w = 1" | "ld_bytes Ld8s w = 1" | "ld_bytes Ld16u w = 2" | "ld_bytes Ld16s w = 2"
| "ld_bytes Ld32u w = 4" | "ld_bytes Ld32s w = 4" | "ld_bytes Ld w = tcg_bits w div 8"

fun ld_signed :: "tcg_ldst \<Rightarrow> bool" where
  "ld_signed Ld8s = True" | "ld_signed Ld16s = True" | "ld_signed Ld32s = True" | "ld_signed _ = False"

fun st_bytes :: "tcg_st \<Rightarrow> tcg_width \<Rightarrow> nat" where
  "st_bytes St8 w = 1" | "st_bytes St16 w = 2" | "st_bytes St32 w = 4" | "st_bytes St w = tcg_bits w div 8"

definition ld_val :: "tcg_ldst \<Rightarrow> tcg_width \<Rightarrow> u64 \<Rightarrow> (u64 \<Rightarrow> u8 option) \<Rightarrow> u64 option" where
  "ld_val l w a m =
     do {
       bs \<leftarrow> mem_ld (ld_bytes l w) a m;
       Some (if ld_signed l then sext (8 * ld_bytes l w) (le_val bs) else le_val bs)
     }"

section \<open>Execution\<close>

text \<open>
  An operation goes on with the next one, jumps to a label, or leaves the block: with a value for
  the main loop, through a jump to an address, or to a linked block.
\<close>

datatype tcg_outcome =
    Next tcg_state
  | Branch TCGArg tcg_state
  | Exit_tb TCGArg tcg_state
  | Jump TCGArg tcg_state
  | Goto_tb TCGArg tcg_state

text \<open>
  The number of arguments of a call is in the first one. Then come the outputs, the inputs, of
  which the last is the function, the flags and the number of parameters once more.
\<close>

definition call_outs :: "TCGArg \<Rightarrow> nat" where
  "call_outs a = unat (drop_bit 16 a)"

definition call_args :: "TCGArg \<Rightarrow> nat" where
  "call_args a = unat (drop_bit 16 a + (a AND 0xffff))"

definition exec_call :: "tcg_host \<Rightarrow> TCGContext \<Rightarrow> TCGArg list \<Rightarrow> tcg_state \<Rightarrow> tcg_state option" where
  "exec_call h s args st =
     (let outs = take (call_outs (args ! 0)) (tl args);
          ins = take (call_args (args ! 0) - call_outs (args ! 0)) (drop (call_outs (args ! 0)) (tl args));
          flags = args ! (call_args (args ! 0) + 1) in
      if ins = [] then None
      else do {
        (vals, st') \<leftarrow> helper h (rd I64 (last ins) st) (map (\<lambda>a. rd I64 a st) (butlast ins)) st;
        c_assert (length vals = length outs);
        let st = (if flags AND (TCG_CALL_CONST OR TCG_CALL_PURE) \<noteq> 0 then st
                  else \<lparr>tregs = (\<lambda>t. if t < nb_globals s then norm (temp_width s t) (tregs st' t) else tregs st t), tmem = tmem st'\<rparr>);
        Some (fold (\<lambda>(a, v). wr s a v) (zip outs vals) st)
      })"

definition exec_op :: "tcg_host \<Rightarrow> TCGContext \<Rightarrow> TCGOpcode \<Rightarrow> TCGArg list \<Rightarrow> tcg_state \<Rightarrow> tcg_outcome option" where
  "exec_op h s op args st =
     (if op = INDEX_op_call then
        if args \<noteq> [] \<and> length args = call_args (args ! 0) + 3 \<and> call_outs (args ! 0) \<le> call_args (args ! 0)
        then map_option Next (exec_call h s args st) else None
      else if length args \<noteq> nb_args op then None
      else
        (let d = args ! 0; x = args ! 1; y = args ! 2; set = (\<lambda>v. Some (Next (wr s d v st))) in
         case op of
           INDEX_op_mov w \<Rightarrow> set (rd w x st)
         | INDEX_op_movi w \<Rightarrow> set (norm w x)
         | INDEX_op_bin b w \<Rightarrow> bin_val b w (rd w x st) (rd w y st) \<bind> set
         | INDEX_op_un u w \<Rightarrow> set (un_val u w (rd w x st))
         | INDEX_op_setcond w \<Rightarrow> tcg_compare w (rd w x st) (rd w y st) (args ! 3) \<bind> (\<lambda>r. set (of_bool r))
         | INDEX_op_brcond w \<Rightarrow> do {
             r \<leftarrow> tcg_compare w (rd w d st) (rd w x st) y;
             Some (if r then Branch (args ! 3) st else Next st)
           }
         | INDEX_op_deposit w \<Rightarrow> do {
             v \<leftarrow> deposit64 (rd w x st) (uint (args ! 3)) (uint (args ! 4)) (rd w y st);
             c_assert (unat (args ! 3) + unat (args ! 4) \<le> tcg_bits w);
             set v
           }
         | INDEX_op_ld l w \<Rightarrow> ld_val l w (rd I64 x st + y) (tmem st) \<bind> set
         | INDEX_op_st l w \<Rightarrow> do {
             m \<leftarrow> mem_st (le_bytes (st_bytes l w) (rd w d st)) (rd I64 x st + y) (tmem st);
             Some (Next (st\<lparr>tmem := m\<rparr>))
           }
         | INDEX_op_div q w \<Rightarrow> div_val q w (rd w x st) (rd w y st) \<bind> set
         | INDEX_op_bswap b w \<Rightarrow> set (bswap_val b (rd w x st))
         | INDEX_op_qemu_ld l \<Rightarrow> do {
             (v, m) \<leftarrow> guest_ld h l (rd I64 x st) y st;
             Some (Next (wr s d v (st\<lparr>tmem := m\<rparr>)))
           }
         | INDEX_op_qemu_st l \<Rightarrow> do {
             m \<leftarrow> guest_st h l (rd I64 d st) (rd I64 x st) y st;
             Some (Next (st\<lparr>tmem := m\<rparr>))
           }
         | INDEX_op_jmp \<Rightarrow> Some (Jump (rd I64 d st) st)
         | INDEX_op_br \<Rightarrow> Some (Branch d st)
         | INDEX_op_exit_tb \<Rightarrow> Some (Exit_tb d st)
         | INDEX_op_goto_tb \<Rightarrow> Some (if tb_linked h d then Goto_tb d st else Next st)
         | _ \<Rightarrow> Some (Next st)))"

text \<open>
  A block is the buffer of operation codes and the buffer of their arguments. Each operation takes
  its arguments off the second one.
\<close>

definition args_len :: "TCGOpcode \<Rightarrow> TCGArg list \<Rightarrow> nat" where
  "args_len op args = (if op = INDEX_op_call then call_args (args ! 0) + 3 else nb_args op)"

fun decode :: "TCGOpcode list \<Rightarrow> TCGArg list \<Rightarrow> (TCGOpcode \<times> TCGArg list) list option" where
  "decode [] args = (if args = [] then Some [] else None)"
| "decode (op # ops) args =
     (if op = INDEX_op_call \<and> args = [] \<or> length args < args_len op args then None
      else map_option ((#) (op, take (args_len op args) args)) (decode ops (drop (args_len op args) args)))"

definition label_index :: "(TCGOpcode \<times> TCGArg list) list \<Rightarrow> TCGArg \<Rightarrow> nat option" where
  "label_index prog l = find (\<lambda>i. prog ! i = (INDEX_op_set_label, [l])) [0..<length prog]"

datatype tcg_result = Running nat tcg_state | Left tcg_outcome | Stuck

text \<open>A number of operations from a position on; a block that ends without leaving is stuck.\<close>

fun tcg_run :: "tcg_host \<Rightarrow> TCGContext \<Rightarrow> nat \<Rightarrow> (TCGOpcode \<times> TCGArg list) list \<Rightarrow> nat \<Rightarrow> tcg_state \<Rightarrow> tcg_result" where
  "tcg_run h s 0 prog pc st = Running pc st"
| "tcg_run h s (Suc n) prog pc st =
     (if pc < length prog then
        (case exec_op h s (fst (prog ! pc)) (snd (prog ! pc)) st of
           None \<Rightarrow> Stuck
         | Some (Next st') \<Rightarrow> tcg_run h s n prog (Suc pc) st'
         | Some (Branch l st') \<Rightarrow> (case label_index prog l of None \<Rightarrow> Stuck | Some pc' \<Rightarrow> tcg_run h s n prog pc' st')
         | Some out \<Rightarrow> Left out)
      else Stuck)"

end
