(* ===== verification/Tcg_Optimize.thy ===== *)
theory Tcg_Optimize
  imports Tcg_Ops
begin

text \<open>
  The optimiser of the intermediate code (\<open>tcg/optimize.c\<close>): propagation of constants and copies and
  folding of constant expressions. The array \<open>temps\<close> is a function from the number of a temporary;
  a use of a number beyond \<open>TCG_MAX_TEMPS\<close>, an undefined shift and a failed assertion are \<open>None\<close>.
  The new arguments are written to the buffer that the old ones are read from, behind the read
  position; here the first are returned and the second are taken off a list.
\<close>

definition TCG_MAX_TEMPS :: nat where
  "TCG_MAX_TEMPS = 512"

datatype tcg_temp_state = TCG_TEMP_UNDEF | TCG_TEMP_CONST | TCG_TEMP_COPY | TCG_TEMP_HAS_COPY | TCG_TEMP_ANY

record tcg_temp_info =
  tstate :: tcg_temp_state
  prev_copy :: nat
  next_copy :: nat
  tval :: TCGArg

type_synonym temps = "nat \<Rightarrow> tcg_temp_info"

definition set_state :: "nat \<Rightarrow> tcg_temp_state \<Rightarrow> temps \<Rightarrow> temps" where
  "set_state t st T = T(t := (T t)\<lparr>tstate := st\<rparr>)"

section \<open>Classes of copies\<close>

text \<open>The two loops of \<open>reset_temp\<close> over the copies of a temporary.\<close>

partial_function (option) first_copy :: "nat \<Rightarrow> temps \<Rightarrow> nat \<Rightarrow> nat \<Rightarrow> nat option option" where
  "first_copy ng T temp i =
     (if i = temp then Some None
      else if i \<ge> TCG_MAX_TEMPS then None
      else if i \<ge> ng then Some (Some i)
      else first_copy ng T temp (next_copy (T i)))"

partial_function (option) rebase :: "nat option \<Rightarrow> nat \<Rightarrow> nat \<Rightarrow> temps \<Rightarrow> temps option" where
  "rebase new_base temp i T =
     (if i = temp then Some T
      else if i \<ge> TCG_MAX_TEMPS then None
      else
        let T' = (case new_base of
                    None \<Rightarrow> set_state i TCG_TEMP_ANY T
                  | Some b \<Rightarrow> T(i := (T i)\<lparr>tval := of_nat b\<rparr>)) in
        rebase new_base temp (next_copy (T' i)) T')"

declare first_copy.simps [code] rebase.simps [code]

definition unlink :: "nat \<Rightarrow> temps \<Rightarrow> temps" where
  "unlink temp T =
     (let n = next_copy (T temp); T = T(n := (T n)\<lparr>prev_copy := prev_copy (T temp)\<rparr>);
          p = prev_copy (T temp); T = T(p := (T p)\<lparr>next_copy := next_copy (T temp)\<rparr>) in T)"

definition reset_temp :: "nat \<Rightarrow> nat \<Rightarrow> temps \<Rightarrow> temps option" where
  "reset_temp temp ng T =
     do {
       c_assert (temp < TCG_MAX_TEMPS);
       (T, new_base) \<leftarrow>
         (if tstate (T temp) = TCG_TEMP_HAS_COPY then do {
            new_base \<leftarrow> first_copy ng T temp (next_copy (T temp));
            let T = (case new_base of None \<Rightarrow> T | Some i \<Rightarrow> set_state i TCG_TEMP_HAS_COPY T);
            T \<leftarrow> rebase new_base temp (next_copy (T temp)) T;
            Some (unlink temp T, new_base)
          }
          else if tstate (T temp) = TCG_TEMP_COPY then
            let T = unlink temp T in Some (T, Some (unat (tval (T temp))))
          else Some (T, None));
       let T = set_state temp TCG_TEMP_ANY T;
       (case new_base of
          None \<Rightarrow> Some T
        | Some b \<Rightarrow> do {
            c_assert (b < TCG_MAX_TEMPS);
            Some (if next_copy (T b) = b then set_state b TCG_TEMP_ANY T else T)
          })
     }"

definition op_bits :: "TCGOpcode \<Rightarrow> nat" where
  "op_bits op = (if op_flags (tcg_op_defs op) AND TCG_OPF_64BIT \<noteq> 0 then 64 else 32)"

definition op_to_movi :: "TCGOpcode \<Rightarrow> TCGOpcode" where
  "op_to_movi op = (if op_bits op = 32 then INDEX_op_movi I32 else INDEX_op_movi I64)"

definition op_to_mov :: "TCGOpcode \<Rightarrow> TCGOpcode" where
  "op_to_mov op = (if op_bits op = 32 then INDEX_op_mov I32 else INDEX_op_mov I64)"

text \<open>The generation of a copy and of a constant; the arguments are returned.\<close>

definition tcg_opt_gen_mov :: "TCGContext \<Rightarrow> TCGArg \<Rightarrow> TCGArg \<Rightarrow> temps \<Rightarrow> (TCGArg list \<times> temps) option" where
  "tcg_opt_gen_mov s dst src T =
     do {
       let d = unat dst;
       let a = unat src;
       T \<leftarrow> reset_temp d (nb_globals s) T;
       c_assert (a < TCG_MAX_TEMPS);
       c_assert (tstate (T a) \<noteq> TCG_TEMP_COPY);
       T \<leftarrow> (if a \<ge> nb_globals s \<and> d \<ge> nb_globals s \<and> temp_local s a = temp_local s d then do {
               c_assert (tstate (T a) \<noteq> TCG_TEMP_CONST);
               let T = (if tstate (T a) \<noteq> TCG_TEMP_HAS_COPY
                        then T(a := (T a)\<lparr>tstate := TCG_TEMP_HAS_COPY, next_copy := a, prev_copy := a\<rparr>) else T);
               let T = T(d := (T d)\<lparr>tstate := TCG_TEMP_COPY, tval := src, next_copy := next_copy (T a), prev_copy := a\<rparr>);
               let n = next_copy (T d);
               let T = T(n := (T n)\<lparr>prev_copy := d\<rparr>);
               Some (T(a := (T a)\<lparr>next_copy := d\<rparr>))
             }
             else Some T);
       Some ([dst, src], T)
     }"

definition tcg_opt_gen_movi :: "TCGContext \<Rightarrow> TCGArg \<Rightarrow> TCGArg \<Rightarrow> temps \<Rightarrow> (TCGArg list \<times> temps) option" where
  "tcg_opt_gen_movi s dst v T =
     do {
       T \<leftarrow> reset_temp (unat dst) (nb_globals s) T;
       Some ([dst, v], T(unat dst := (T (unat dst))\<lparr>tstate := TCG_TEMP_CONST, tval := v\<rparr>))
     }"

section \<open>Folding\<close>

definition c_shl :: "tcg_width \<Rightarrow> u64 \<Rightarrow> u64 \<Rightarrow> u64 option" where
  "c_shl w x n = (if unat n < tcg_bits w then Some (norm w (push_bit (unat n) (norm w x))) else None)"

definition c_shr :: "tcg_width \<Rightarrow> u64 \<Rightarrow> u64 \<Rightarrow> u64 option" where
  "c_shr w x n = (if unat n < tcg_bits w then Some (drop_bit (unat n) (norm w x)) else None)"

fun fold_bin :: "tcg_binop \<Rightarrow> tcg_width \<Rightarrow> TCGArg \<Rightarrow> TCGArg \<Rightarrow> TCGArg option" where
  "fold_bin Add w x y = Some (x + y)"
| "fold_bin Sub w x y = Some (x - y)"
| "fold_bin Mul w x y = Some (x * y)"
| "fold_bin And w x y = Some (x AND y)"
| "fold_bin Or w x y = Some (x OR y)"
| "fold_bin Xor w x y = Some (x XOR y)"
| "fold_bin Shl w x y = c_shl w x (norm w y)"
| "fold_bin Shr w x y = c_shr w x (norm w y)"
| "fold_bin Sar w x y =
     (if unat (norm w y) < tcg_bits w then Some (signed_drop_bit (unat (norm w y)) (sext (tcg_bits w) x)) else None)"
| "fold_bin Rotr w x y = do { l \<leftarrow> c_shl w x (of_nat (tcg_bits w) - y); r \<leftarrow> c_shr w x y; Some (l OR r) }"
| "fold_bin Rotl w x y = do { l \<leftarrow> c_shl w x y; r \<leftarrow> c_shr w x (of_nat (tcg_bits w) - y); Some (l OR r) }"
| "fold_bin Andc w x y = Some (x AND NOT y)"
| "fold_bin Orc w x y = Some (x OR NOT y)"
| "fold_bin Eqv w x y = Some (NOT (x XOR y))"
| "fold_bin Nand w x y = Some (NOT (x AND y))"
| "fold_bin Nor w x y = Some (NOT (x OR y))"

fun fold_un :: "tcg_unop \<Rightarrow> TCGArg \<Rightarrow> TCGArg" where
  "fold_un Bnot x = NOT x"
| "fold_un Neg x = - x"
| "fold_un Ext8s x = sext 8 x"
| "fold_un Ext16s x = sext 16 x"
| "fold_un Ext8u x = take_bit 8 x"
| "fold_un Ext16u x = take_bit 16 x"
| "fold_un Ext32s x = sext 32 x"
| "fold_un Ext32u x = take_bit 32 x"

definition do_constant_folding_2 :: "TCGOpcode \<Rightarrow> TCGArg \<Rightarrow> TCGArg \<Rightarrow> TCGArg option" where
  "do_constant_folding_2 op x y =
     (case op of INDEX_op_bin b w \<Rightarrow> fold_bin b w x y | INDEX_op_un u w \<Rightarrow> Some (fold_un u x) | _ \<Rightarrow> None)"

definition do_constant_folding :: "TCGOpcode \<Rightarrow> TCGArg \<Rightarrow> TCGArg \<Rightarrow> TCGArg option" where
  "do_constant_folding op x y =
     do { res \<leftarrow> do_constant_folding_2 op x y; Some (if op_bits op = 32 then res AND 0xffffffff else res) }"

section \<open>One operation\<close>

definition temp_at :: "temps \<Rightarrow> TCGArg \<Rightarrow> tcg_temp_info option" where
  "temp_at T a = (if unat a < TCG_MAX_TEMPS then Some (T (unat a)) else None)"

definition copy_propagate :: "temps \<Rightarrow> TCGOpcode \<Rightarrow> TCGArg list \<Rightarrow> TCGArg list option" where
  "copy_propagate T op args =
     (if op_flags (tcg_op_defs op) AND (TCG_OPF_CALL_CLOBBER OR TCG_OPF_SIDE_EFFECTS) = 0 then do {
        c_assert (op \<noteq> INDEX_op_call);
        foldM (\<lambda>i args. do {
            c_assert (i < length args);
            t \<leftarrow> temp_at T (args ! i);
            Some (if tstate t = TCG_TEMP_COPY then args[i := tval t] else args)
          }) [nb_oargs (tcg_op_defs op)..<nb_oargs (tcg_op_defs op) + nb_iargs (tcg_op_defs op)] args
      }
      else Some args)"

definition commutative :: "TCGOpcode \<Rightarrow> bool" where
  "commutative op = (case op of INDEX_op_bin b w \<Rightarrow> b \<in> {Add, Mul, And, Or, Xor, Eqv, Nand, Nor} | _ \<Rightarrow> False)"

definition constant_second :: "temps \<Rightarrow> TCGOpcode \<Rightarrow> TCGArg list \<Rightarrow> TCGArg list option" where
  "constant_second T op args =
     (if commutative op then do {
        t \<leftarrow> temp_at T (args ! 1);
        Some (if tstate t = TCG_TEMP_CONST then args[1 := args ! 2, 2 := args ! 1] else args)
      }
      else Some args)"

text \<open>
  What an operation becomes: the new operation, its arguments and the new state of the
  temporaries.
\<close>

type_synonym folded = "TCGOpcode \<times> TCGArg list \<times> temps"

text \<open>The simplifications; \<open>Some None\<close> goes on to the folding.\<close>

definition simplify :: "TCGContext \<Rightarrow> temps \<Rightarrow> TCGOpcode \<Rightarrow> TCGArg list \<Rightarrow> folded option option" where
  "simplify s T op args =
     (let d = args ! 0; x = args ! 1; y = args ! 2;
          mov = map_option (\<lambda>(out, T). Some (op_to_mov op, out, T)) (tcg_opt_gen_mov s d x T) in
      case op of
        INDEX_op_bin b w \<Rightarrow>
          if b \<in> {Add, Sub, Shl, Shr, Sar, Rotl, Rotr} then do {
            tx \<leftarrow> temp_at T x;
            ty \<leftarrow> temp_at T y;
            td \<leftarrow> temp_at T d;
            if tstate tx = TCG_TEMP_CONST then Some None
            else if tstate ty = TCG_TEMP_CONST \<and> tval ty = 0 then
              if tstate td = TCG_TEMP_COPY \<and> tval td = x \<or> d = x then Some (Some (INDEX_op_nop, [], T)) else mov
            else Some None
          }
          else if b = Mul then do {
            ty \<leftarrow> temp_at T y;
            if tstate ty = TCG_TEMP_CONST \<and> tval ty = 0
            then map_option (\<lambda>(out, T). Some (op_to_movi op, out, T)) (tcg_opt_gen_movi s d 0 T)
            else Some None
          }
          else if b \<in> {Or, And} then
            if x = y then if x = d then Some (Some (INDEX_op_nop, [], T)) else mov
            else Some None
          else Some None
      | _ \<Rightarrow> Some None)"

definition clear_temps :: "TCGContext \<Rightarrow> temps \<Rightarrow> temps" where
  "clear_temps s T = (\<lambda>t. if t < nb_temps s then \<lparr>tstate = TCG_TEMP_UNDEF, prev_copy = 0, next_copy = 0, tval = 0\<rparr> else T t)"

definition reset_temps :: "TCGContext \<Rightarrow> nat list \<Rightarrow> temps \<Rightarrow> temps option" where
  "reset_temps s ts T = foldM (\<lambda>t T. reset_temp t (nb_globals s) T) ts T"

definition fold_rest :: "TCGContext \<Rightarrow> temps \<Rightarrow> TCGOpcode \<Rightarrow> TCGArg list \<Rightarrow> folded option" where
  "fold_rest s T op args =
     (let d = args ! 0; x = args ! 1; y = args ! 2 in
      case op of
        INDEX_op_mov w \<Rightarrow> do {
          tx \<leftarrow> temp_at T x;
          if tstate tx = TCG_TEMP_COPY \<and> tval tx = d \<or> d = x then Some (INDEX_op_nop, [], T)
          else if tstate tx \<noteq> TCG_TEMP_CONST then map_option (\<lambda>r. (op, r)) (tcg_opt_gen_mov s d x T)
          else map_option (\<lambda>r. (op_to_movi op, r)) (tcg_opt_gen_movi s d (tval tx) T)
        }
      | INDEX_op_movi w \<Rightarrow> map_option (\<lambda>r. (op, r)) (tcg_opt_gen_movi s d x T)
      | INDEX_op_un u w \<Rightarrow> do {
          tx \<leftarrow> temp_at T x;
          if tstate tx = TCG_TEMP_CONST then do {
            v \<leftarrow> do_constant_folding op (tval tx) 0;
            map_option (\<lambda>r. (op_to_movi op, r)) (tcg_opt_gen_movi s d v T)
          }
          else map_option (\<lambda>T. (op, args, T)) (reset_temp (unat d) (nb_globals s) T)
        }
      | INDEX_op_bin b w \<Rightarrow> do {
          tx \<leftarrow> temp_at T x;
          ty \<leftarrow> temp_at T y;
          if tstate tx = TCG_TEMP_CONST \<and> tstate ty = TCG_TEMP_CONST then do {
            v \<leftarrow> do_constant_folding op (tval tx) (tval ty);
            map_option (\<lambda>r. (op_to_movi op, r)) (tcg_opt_gen_movi s d v T)
          }
          else map_option (\<lambda>T. (op, args, T)) (reset_temp (unat d) (nb_globals s) T)
        }
      | INDEX_op_call \<Rightarrow> do {
          T \<leftarrow> (if args ! (call_args d + 1) AND (TCG_CALL_CONST OR TCG_CALL_PURE) = 0
               then reset_temps s [0..<nb_globals s] T else Some T);
          T \<leftarrow> reset_temps s (map unat (take (call_outs d) (tl args))) T;
          Some (op, args, T)
        }
      | _ \<Rightarrow>
          if op \<in> {INDEX_op_set_label, INDEX_op_jmp, INDEX_op_br, INDEX_op_brcond I32, INDEX_op_brcond I64}
          then Some (op, args, clear_temps s T)
          else map_option (\<lambda>T. (op, args, T)) (reset_temps s (map unat (take (nb_oargs (tcg_op_defs op)) args)) T))"

definition fold_op :: "TCGContext \<Rightarrow> temps \<Rightarrow> TCGOpcode \<Rightarrow> TCGArg list \<Rightarrow> folded option" where
  "fold_op s T op args =
     do {
       args \<leftarrow> copy_propagate T op args;
       args \<leftarrow> constant_second T op args;
       r \<leftarrow> simplify s T op args;
       (case r of Some r \<Rightarrow> Some r | None \<Rightarrow> fold_rest s T op args)
     }"

section \<open>A block\<close>

fun fold_ops :: "TCGContext \<Rightarrow> temps \<Rightarrow> TCGOpcode list \<Rightarrow> TCGArg list \<Rightarrow> (TCGOpcode list \<times> TCGArg list) option" where
  "fold_ops s T [] args = Some ([], [])"
| "fold_ops s T (op # ops) args =
     do {
       c_assert (op = INDEX_op_call \<longrightarrow> args \<noteq> []);
       c_assert (args_len op args \<le> length args);
       (op', out, T) \<leftarrow> fold_op s T op (take (args_len op args) args);
       (ops', outs) \<leftarrow> fold_ops s T ops (drop (args_len op args) args);
       Some (op' # ops', out @ outs)
     }"

definition tcg_constant_folding :: "TCGContext \<Rightarrow> temps \<Rightarrow> TCGOpcode list \<Rightarrow> TCGArg list \<Rightarrow> (TCGOpcode list \<times> TCGArg list) option" where
  "tcg_constant_folding s T ops args = fold_ops s (clear_temps s T) ops args"

definition tcg_optimize :: "TCGContext \<Rightarrow> temps \<Rightarrow> TCGOpcode list \<Rightarrow> TCGArg list \<Rightarrow> (TCGOpcode list \<times> TCGArg list) option" where
  "tcg_optimize s T ops args = tcg_constant_folding s T ops args"

end
