(* ===== verification/Tcg_Classes.thy ===== *)
theory Tcg_Classes
  imports Tcg_Optimize
begin

text \<open>
  The classes of copies that the optimiser keeps as rings of links, the invariant of the array
  \<open>temps\<close>, and that \<open>reset_temp\<close> keeps it and forgets the temporary.
\<close>

section \<open>Rings\<close>

fun chain :: "(nat \<Rightarrow> nat) \<Rightarrow> nat \<Rightarrow> nat list \<Rightarrow> nat \<Rightarrow> bool" where
  "chain f a [] z \<longleftrightarrow> f a = z"
| "chain f a (c # cs) z \<longleftrightarrow> f a = c \<and> chain f c cs z"

lemma chain_append: "chain f a (xs @ y # ys) z \<longleftrightarrow> chain f a xs y \<and> chain f y ys z"
  by (induction xs arbitrary: a) auto

lemma chain_cong: "(\<And>x. x \<in> set (a # xs) \<Longrightarrow> f x = g x) \<Longrightarrow> chain f a xs z = chain g a xs z"
  by (induction xs arbitrary: a) auto

lemma chain_last: "chain f a xs z \<Longrightarrow> f (last (a # xs)) = z"
  by (induction xs arbitrary: a) auto

lemma chain_end: "chain f a xs z \<Longrightarrow> distinct (a # xs) \<Longrightarrow> chain (f(last (a # xs) := w)) a xs w"
  by (induction xs arbitrary: a) auto

lemma chain_start: "chain f a xs z \<Longrightarrow> distinct (b # xs) \<Longrightarrow> chain (f(b := f a)) b xs z"
proof (cases xs)
  case (Cons c cs)
  assume a: "chain f a xs z" "distinct (b # xs)"
  have "chain (f(b := c)) c cs z = chain f c cs z" by (rule chain_cong) (use a Cons in auto)
  then show ?thesis using a Cons by auto
qed simp

text \<open>A ring with its links in both directions.\<close>

definition cyc :: "temps \<Rightarrow> nat list \<Rightarrow> bool" where
  "cyc T xs \<longleftrightarrow>
     (case xs of [] \<Rightarrow> False
      | x # ys \<Rightarrow> distinct xs \<and> chain (\<lambda>i. next_copy (T i)) x ys x \<and> chain (\<lambda>i. prev_copy (T i)) x (rev ys) x)"

lemma cyc_Cons:
  "cyc T (x # ys) \<longleftrightarrow> distinct (x # ys) \<and> chain (\<lambda>i. next_copy (T i)) x ys x \<and> chain (\<lambda>i. prev_copy (T i)) x (rev ys) x"
  by (simp add: cyc_def)

lemma cyc_rotate1: "cyc T (x # ys) \<Longrightarrow> cyc T (ys @ [x])"
  by (cases ys) (auto simp: cyc_Cons chain_append)

lemma cyc_rotate: "cyc T (xs @ ys) \<Longrightarrow> ys \<noteq> [] \<Longrightarrow> cyc T (ys @ xs)"
proof (induction xs arbitrary: ys)
  case (Cons x xs)
  then have "cyc T ((xs @ ys) @ [x])" using cyc_rotate1 by (metis append_Cons)
  then show ?case using Cons.IH [of "ys @ [x]"] by simp
qed simp

text \<open>Only the links of the members matter.\<close>

lemma cyc_cong:
  assumes "\<And>i. i \<in> set xs \<Longrightarrow> next_copy (T' i) = next_copy (T i) \<and> prev_copy (T' i) = prev_copy (T i)"
  shows "cyc T' xs = cyc T xs"
proof (cases xs)
  case (Cons x ys)
  have "chain (\<lambda>i. next_copy (T' i)) x ys x = chain (\<lambda>i. next_copy (T i)) x ys x"
    "chain (\<lambda>i. prev_copy (T' i)) x (rev ys) x = chain (\<lambda>i. prev_copy (T i)) x (rev ys) x"
    using assms Cons by (auto intro!: chain_cong)
  then show ?thesis by (simp add: Cons cyc_Cons)
qed (simp add: cyc_def)

lemma cyc_single: "cyc T [x] \<longleftrightarrow> next_copy (T x) = x \<and> prev_copy (T x) = x"
  by (auto simp: cyc_Cons)

lemma cyc_next: "cyc T (x # y # ys) \<Longrightarrow> next_copy (T x) = y"
  by (simp add: cyc_Cons)

lemma unlink_links:
  "next_copy (unlink t T i) = (if i = prev_copy (T t) then next_copy (T t) else next_copy (T i))"
  "prev_copy (unlink t T i) = (if i = next_copy (T t) then prev_copy (T t) else prev_copy (T i))"
  "tstate (unlink t T i) = tstate (T i)" "tval (unlink t T i) = tval (T i)"
  by (auto simp: unlink_def Let_def)

lemma cyc_unlink:
  assumes "cyc T (t # x # xs)"
  shows "cyc (unlink t T) (x # xs)"
proof -
  have d: "distinct (t # x # xs)" and nx: "next_copy (T t) = x" "chain (\<lambda>i. next_copy (T i)) x xs t"
    and pv: "chain (\<lambda>i. prev_copy (T i)) t (rev xs @ [x]) t"
    using assms by (simp_all add: cyc_Cons)
  have p: "chain (\<lambda>i. prev_copy (T i)) t (rev xs) x" "prev_copy (T x) = t" using pv by (simp_all add: chain_append)
  have l: "prev_copy (T t) = last (x # xs)" using p(1) by (cases xs rule: rev_cases) auto
  have "chain ((\<lambda>i. next_copy (T i))(last (x # xs) := x)) x xs x" using chain_end [OF nx(2)] d by simp
  then have n': "chain (\<lambda>i. next_copy (unlink t T i)) x xs x"
    by (rule chain_cong [THEN iffD1, rotated]) (auto simp: unlink_links l nx(1))
  have "chain ((\<lambda>i. prev_copy (T i))(x := prev_copy (T t))) x (rev xs) x" using chain_start [OF p(1), of x] d by simp
  then have p': "chain (\<lambda>i. prev_copy (unlink t T i)) x (rev xs) x"
    by (rule chain_cong [THEN iffD1, rotated]) (auto simp: unlink_links nx(1))
  show ?thesis using d n' p' by (simp add: cyc_Cons)
qed

section \<open>The loops\<close>

lemma rebase_chain:
  assumes "chain (\<lambda>i. next_copy (T i)) c ys t" and "t \<notin> set (c # ys)" and "distinct (c # ys)" and "\<And>i. i \<in> set (c # ys) \<Longrightarrow> i < TCG_MAX_TEMPS"
  shows "rebase (Some b) t c T = Some (\<lambda>i. if i \<in> set (c # ys) then (T i)\<lparr>tval := of_nat b\<rparr> else T i)"
  using assms
proof (induction ys arbitrary: c T)
  case Nil
  then have "rebase (Some b) t c T = rebase (Some b) t t (T(c := (T c)\<lparr>tval := of_nat b\<rparr>))"
    by (subst rebase.simps) auto
  also have "\<dots> = Some (T(c := (T c)\<lparr>tval := of_nat b\<rparr>))" by (subst rebase.simps) simp
  finally show ?case by (auto simp: fun_eq_iff)
next
  case (Cons y ys)
  let ?T = "T(c := (T c)\<lparr>tval := of_nat b\<rparr>)"
  have "c < TCG_MAX_TEMPS" using Cons.prems(4) by simp
  then have "rebase (Some b) t c T = rebase (Some b) t y ?T"
    using Cons.prems(1,2) by (subst rebase.simps) auto
  moreover have "chain (\<lambda>i. next_copy (?T i)) y ys t = chain (\<lambda>i. next_copy (T i)) y ys t" by (rule chain_cong) auto
  then have "rebase (Some b) t y ?T = Some (\<lambda>i. if i \<in> set (y # ys) then (?T i)\<lparr>tval := of_nat b\<rparr> else ?T i)"
    by (intro Cons.IH) (use Cons.prems in auto)
  moreover have "(\<lambda>i. if i \<in> set (y # ys) then (?T i)\<lparr>tval := of_nat b\<rparr> else ?T i) =
      (\<lambda>i. if i \<in> set (c # y # ys) then (T i)\<lparr>tval := of_nat b\<rparr> else T i)"
    using Cons.prems(3) by (auto simp: fun_eq_iff)
  ultimately show ?case by simp
qed

section \<open>The invariant\<close>

definition copies :: "TCGContext \<Rightarrow> temps \<Rightarrow> nat \<Rightarrow> nat set" where
  "copies s T b = {t. t < nb_temps s \<and> tstate (T t) = TCG_TEMP_COPY \<and> unat (tval (T t)) = b}"

text \<open>
  A copy belongs to a class, whose representative has a ring through exactly its copies. All of
  them are no globals and have one width.
\<close>

definition wf_temps :: "TCGContext \<Rightarrow> temps \<Rightarrow> bool" where
  "wf_temps s T \<longleftrightarrow>
     nb_temps s \<le> TCG_MAX_TEMPS \<and>
     (\<forall>t<nb_temps s. tstate (T t) = TCG_TEMP_COPY \<longrightarrow>
        nb_globals s \<le> t \<and> unat (tval (T t)) < nb_temps s \<and> tstate (T (unat (tval (T t)))) = TCG_TEMP_HAS_COPY \<and>
        temp_width s t = temp_width s (unat (tval (T t)))) \<and>
     (\<forall>b<nb_temps s. tstate (T b) = TCG_TEMP_HAS_COPY \<longrightarrow>
        nb_globals s \<le> b \<and> (\<exists>cs. cs \<noteq> [] \<and> cyc T (b # cs) \<and> set cs = copies s T b))"

text \<open>What the array says about the values of the temporaries.\<close>

definition vals :: "TCGContext \<Rightarrow> temps \<Rightarrow> (nat \<Rightarrow> u64) \<Rightarrow> bool" where
  "vals s T R \<longleftrightarrow>
     (\<forall>t<nb_temps s.
        (tstate (T t) = TCG_TEMP_CONST \<longrightarrow> R t = norm (temp_width s t) (tval (T t))) \<and>
        (tstate (T t) = TCG_TEMP_COPY \<longrightarrow> R t = R (unat (tval (T t)))))"

lemma wf_tempsD:
  assumes "wf_temps s T" and "t < nb_temps s"
  shows "t < TCG_MAX_TEMPS"
    and "tstate (T t) = TCG_TEMP_COPY \<Longrightarrow> nb_globals s \<le> t"
    and "tstate (T t) = TCG_TEMP_COPY \<Longrightarrow> unat (tval (T t)) < nb_temps s"
    and "tstate (T t) = TCG_TEMP_COPY \<Longrightarrow> tstate (T (unat (tval (T t)))) = TCG_TEMP_HAS_COPY"
    and "tstate (T t) = TCG_TEMP_COPY \<Longrightarrow> temp_width s (unat (tval (T t))) = temp_width s t"
    and "tstate (T t) = TCG_TEMP_HAS_COPY \<Longrightarrow> nb_globals s \<le> t"
  using assms by (auto simp: wf_temps_def)

lemma wf_ring:
  assumes "wf_temps s T" and "b < nb_temps s" and "tstate (T b) = TCG_TEMP_HAS_COPY"
  obtains cs where "cs \<noteq> []" and "cyc T (b # cs)" and "set cs = copies s T b"
  using assms by (auto simp: wf_temps_def)

text \<open>Entries with the same state and value, where rings of the classes are given.\<close>

lemma wf_tempsI:
  assumes "nb_temps s \<le> TCG_MAX_TEMPS"
    and "\<And>t. t < nb_temps s \<Longrightarrow> tstate (T t) = TCG_TEMP_COPY \<Longrightarrow>
      nb_globals s \<le> t \<and> unat (tval (T t)) < nb_temps s \<and> tstate (T (unat (tval (T t)))) = TCG_TEMP_HAS_COPY \<and>
      temp_width s t = temp_width s (unat (tval (T t)))"
    and "\<And>b. b < nb_temps s \<Longrightarrow> tstate (T b) = TCG_TEMP_HAS_COPY \<Longrightarrow>
      nb_globals s \<le> b \<and> (\<exists>cs. cs \<noteq> [] \<and> cyc T (b # cs) \<and> set cs = copies s T b)"
  shows "wf_temps s T"
  using assms by (simp add: wf_temps_def)

definition forgets :: "TCGContext \<Rightarrow> nat \<Rightarrow> temps \<Rightarrow> temps \<Rightarrow> bool" where
  "forgets s t T T' \<longleftrightarrow>
     wf_temps s T' \<and> tstate (T' t) = TCG_TEMP_ANY \<and>
     (\<forall>u<nb_temps s. u \<noteq> t \<longrightarrow>
        (tstate (T' u) = TCG_TEMP_CONST \<longleftrightarrow> tstate (T u) = TCG_TEMP_CONST) \<and>
        (tstate (T u) = TCG_TEMP_CONST \<longrightarrow> tval (T' u) = tval (T u)) \<and>
        (tstate (T' u) = TCG_TEMP_COPY \<longrightarrow> tstate (T u) = TCG_TEMP_COPY \<and> unat (tval (T' u)) \<noteq> t \<and>
           (\<forall>R. vals s T R \<longrightarrow> R u = R (unat (tval (T' u))))))"

lemma forgets_vals:
  assumes "forgets s t T T'" and "vals s T R"
  shows "vals s T' (R(t := v))"
  unfolding vals_def
proof (intro allI impI conjI)
  fix u assume u: "u < nb_temps s"
  show "(R(t := v)) u = norm (temp_width s u) (tval (T' u))" if "tstate (T' u) = TCG_TEMP_CONST"
    using assms u that by (cases "u = t") (auto simp: forgets_def vals_def)
  show "(R(t := v)) u = (R(t := v)) (unat (tval (T' u)))" if "tstate (T' u) = TCG_TEMP_COPY"
    using assms u that by (cases "u = t") (auto simp: forgets_def)
qed

text \<open>A temporary without copies.\<close>

lemma plain_wf:
  assumes wf: "wf_temps s T" and st: "tstate (T t) \<noteq> TCG_TEMP_HAS_COPY" "tstate (T t) \<noteq> TCG_TEMP_COPY"
    and st': "tstate (T' t) \<noteq> TCG_TEMP_HAS_COPY" "tstate (T' t) \<noteq> TCG_TEMP_COPY" and o: "\<And>u. u \<noteq> t \<Longrightarrow> T' u = T u"
  shows "wf_temps s T'"
proof (rule wf_tempsI)
  show "nb_temps s \<le> TCG_MAX_TEMPS" using wf by (simp add: wf_temps_def)
  show "nb_globals s \<le> u \<and> unat (tval (T' u)) < nb_temps s \<and> tstate (T' (unat (tval (T' u)))) = TCG_TEMP_HAS_COPY \<and>
      temp_width s u = temp_width s (unat (tval (T' u)))" if u: "u < nb_temps s" "tstate (T' u) = TCG_TEMP_COPY" for u
  proof -
    have ut: "u \<noteq> t" using u(2) st'(2) by blast
    then have "tstate (T u) = TCG_TEMP_COPY" using u(2) o [of u] by simp
    moreover from this have "unat (tval (T u)) \<noteq> t" using wf_tempsD(4) [OF wf u(1)] st(1) by auto
    ultimately show ?thesis using wf_tempsD [OF wf u(1)] ut by (simp add: o)
  qed
  have c: "copies s T' b = copies s T b" for b
  proof (rule set_eqI)
    show "u \<in> copies s T' b \<longleftrightarrow> u \<in> copies s T b" for u using st st' o [of u] by (cases "u = t") (simp_all add: copies_def)
  qed
  show "nb_globals s \<le> b \<and> (\<exists>cs. cs \<noteq> [] \<and> cyc T' (b # cs) \<and> set cs = copies s T' b)"
    if b: "b < nb_temps s" "tstate (T' b) = TCG_TEMP_HAS_COPY" for b
  proof -
    have h: "b \<noteq> t" using b(2) st'(1) by blast
    then have h: "b \<noteq> t" "tstate (T b) = TCG_TEMP_HAS_COPY" using b(2) o [of b] by simp_all
    obtain cs where cs: "cs \<noteq> []" "cyc T (b # cs)" "set cs = copies s T b" using wf_ring [OF wf b(1) h(2)] .
    have "t \<notin> set (b # cs)" using h(1) st(2) unfolding set_simps cs(3) by (auto simp: copies_def)
    then have "T' u = T u" if "u \<in> set (b # cs)" for u using that o [of u] by metis
    then have "cyc T' (b # cs)" using cyc_cong [of "b # cs" T' T] cs(2) by simp
    then show ?thesis using cs(1,3) wf_tempsD(6) [OF wf b(1) h(2)] unfolding c by blast
  qed
qed

lemma reset_plain:
  assumes wf: "wf_temps s T" and t: "t < nb_temps s" and st: "tstate (T t) \<noteq> TCG_TEMP_HAS_COPY" "tstate (T t) \<noteq> TCG_TEMP_COPY"
  shows "reset_temp t (nb_globals s) T = Some (set_state t TCG_TEMP_ANY T) \<and> forgets s t T (set_state t TCG_TEMP_ANY T)"
proof -
  let ?T = "set_state t TCG_TEMP_ANY T"
  have "wf_temps s ?T" by (rule plain_wf [OF wf st]) (simp_all add: set_state_def)
  moreover have "unat (tval (T u)) \<noteq> t" if "u < nb_temps s" "tstate (T u) = TCG_TEMP_COPY" for u
    using wf_tempsD(4) [OF wf that] st(1) by auto
  ultimately have "forgets s t T ?T" by (auto simp: forgets_def set_state_def vals_def)
  moreover have "reset_temp t (nb_globals s) T = Some ?T" using st wf_tempsD(1) [OF wf t] by (simp add: reset_temp_def)
  ultimately show ?thesis by blast
qed

text \<open>
  A temporary with copies: the others of its class form a class with the representative \<open>c\<close>, or are
  nothing any more when only \<open>c\<close> is left.
\<close>

lemma class_member:
  assumes "wf_temps s T" and "b < nb_temps s" and "tstate (T b) = TCG_TEMP_HAS_COPY" and "m \<in> insert b (copies s T b)"
  shows "m < nb_temps s" and "nb_globals s \<le> m" and "temp_width s m = temp_width s b"
    and "vals s T R \<Longrightarrow> R m = R b" and "m \<noteq> b \<Longrightarrow> tstate (T m) = TCG_TEMP_COPY"
  using assms wf_tempsD [OF assms(1), of m] by (auto simp: copies_def vals_def)

definition reclassed :: "TCGContext \<Rightarrow> temps \<Rightarrow> nat \<Rightarrow> nat \<Rightarrow> nat \<Rightarrow> nat list \<Rightarrow> temps \<Rightarrow> bool" where
  "reclassed s T b t c ys T' \<longleftrightarrow>
     b < nb_temps s \<and> tstate (T b) = TCG_TEMP_HAS_COPY \<and> (c = b \<or> t = b) \<and>
     t \<in> insert b (copies s T b) \<and> set (c # ys) = insert b (copies s T b) - {t} \<and> cyc T' (c # ys) \<and>
     tstate (T' t) = TCG_TEMP_ANY \<and> tstate (T' c) = (if ys = [] then TCG_TEMP_ANY else TCG_TEMP_HAS_COPY) \<and>
     (\<forall>u\<in>set ys. tstate (T' u) = TCG_TEMP_COPY \<and> unat (tval (T' u)) = c) \<and>
     (\<forall>u. u \<notin> insert b (copies s T b) \<longrightarrow> T' u = T u)"

lemma reclassedD:
  assumes "reclassed s T b t c ys T'"
  shows "b < nb_temps s" and "tstate (T b) = TCG_TEMP_HAS_COPY" and "c = b \<or> t = b" and "t \<in> insert b (copies s T b)"
    and "u = c \<or> u \<in> set ys \<longleftrightarrow> u \<in> insert b (copies s T b) \<and> u \<noteq> t" and "cyc T' (c # ys)" and "c \<notin> set ys"
    and "tstate (T' t) = TCG_TEMP_ANY" and "tstate (T' c) = (if ys = [] then TCG_TEMP_ANY else TCG_TEMP_HAS_COPY)"
    and "u \<in> set ys \<Longrightarrow> tstate (T' u) = TCG_TEMP_COPY" and "u \<in> set ys \<Longrightarrow> unat (tval (T' u)) = c"
    and "u \<notin> insert b (copies s T b) \<Longrightarrow> T' u = T u"
proof -
  note r = assms [unfolded reclassed_def]
  show "b < nb_temps s" "tstate (T b) = TCG_TEMP_HAS_COPY" "c = b \<or> t = b" "t \<in> insert b (copies s T b)" "cyc T' (c # ys)"
    "tstate (T' t) = TCG_TEMP_ANY" "tstate (T' c) = (if ys = [] then TCG_TEMP_ANY else TCG_TEMP_HAS_COPY)"
    "u \<in> set ys \<Longrightarrow> tstate (T' u) = TCG_TEMP_COPY" "u \<in> set ys \<Longrightarrow> unat (tval (T' u)) = c"
    "u \<notin> insert b (copies s T b) \<Longrightarrow> T' u = T u"
    using r by blast+
  show "c \<notin> set ys" using r by (simp add: cyc_Cons)
  have "set (c # ys) = insert b (copies s T b) - {t}" using r by blast
  then have "u \<in> set (c # ys) \<longleftrightarrow> u \<in> insert b (copies s T b) - {t}" by (rule arg_cong)
  then show "u = c \<or> u \<in> set ys \<longleftrightarrow> u \<in> insert b (copies s T b) \<and> u \<noteq> t" by simp
qed

text \<open>The members of the class, and the others.\<close>

lemma reclassed_cases:
  assumes "reclassed s T b t c ys T'"
  obtains (reset) "u = t" "tstate (T' u) = TCG_TEMP_ANY"
    | (base) "u = c" "u \<noteq> t" "u \<in> insert b (copies s T b)" "tstate (T' u) = (if ys = [] then TCG_TEMP_ANY else TCG_TEMP_HAS_COPY)"
    | (copy) "u \<in> set ys" "u \<noteq> t" "u \<noteq> c" "u \<in> copies s T b" "tstate (T' u) = TCG_TEMP_COPY" "unat (tval (T' u)) = c"
    | (other) "u \<noteq> t" "u \<noteq> c" "u \<notin> set ys" "u \<notin> insert b (copies s T b)" "T' u = T u"
proof -
  note r = reclassedD [OF assms]
  consider "u = t" | "u = c" | "u \<in> set ys" | "u \<notin> insert b (copies s T b)" using r(5) [of u] by blast
  then show thesis
  proof cases
    case 1
    then show thesis using reset r(8) by simp
  next
    case 2
    then show thesis using base r(5) [of u] r(9) by simp
  next
    case 3
    then have "u \<noteq> c" "u \<noteq> t" "u \<in> insert b (copies s T b)" using r(5) [of u] r(7) by auto
    moreover from this have "u \<in> copies s T b" using r(3) by auto
    ultimately show thesis using copy 3 r(10,11) by blast
  next
    case 4
    then show thesis using other r(4) r(5) [of u] r(12) by blast
  qed
qed

text \<open>A representative outside the class stays outside.\<close>

lemma other_base:
  assumes "wf_temps s T" and "b < nb_temps s" and "tstate (T b) = TCG_TEMP_HAS_COPY"
    and "u < nb_temps s" and "tstate (T u) = TCG_TEMP_COPY" and "u \<notin> insert b (copies s T b)"
  shows "unat (tval (T u)) \<notin> insert b (copies s T b)"
  using wf_tempsD(4) [OF assms(1,4,5)] assms(4-6) by (auto simp: copies_def)

lemma reclassed_copy:
  assumes wf: "wf_temps s T" and re: "reclassed s T b t c ys T'" and u: "u < nb_temps s" "tstate (T' u) = TCG_TEMP_COPY"
  shows "unat (tval (T' u)) \<noteq> t \<and> nb_globals s \<le> u \<and> unat (tval (T' u)) < nb_temps s \<and>
    tstate (T' (unat (tval (T' u)))) = TCG_TEMP_HAS_COPY \<and> temp_width s u = temp_width s (unat (tval (T' u))) \<and>
    tstate (T u) = TCG_TEMP_COPY \<and> (\<forall>R. vals s T R \<longrightarrow> R u = R (unat (tval (T' u))))"
proof -
  have b: "b < nb_temps s" "tstate (T b) = TCG_TEMP_HAS_COPY" and t: "t \<in> insert b (copies s T b)"
    and c: "c \<in> insert b (copies s T b)" "c \<noteq> t" "tstate (T' c) = (if ys = [] then TCG_TEMP_ANY else TCG_TEMP_HAS_COPY)"
    and o: "\<And>u. u \<notin> insert b (copies s T b) \<Longrightarrow> T' u = T u"
    using reclassedD [OF re] reclassedD(5) [OF re, of c] by auto
  note M = class_member [OF wf b]
  show ?thesis
    using re
  proof (cases rule: reclassed_cases [where u = u])
    case copy
    have i: "u \<in> insert b (copies s T b)" using copy(4) by simp
    have "ys \<noteq> []" "tstate (T u) = TCG_TEMP_COPY" using copy(1,4) by (auto simp: copies_def)
    moreover have "R u = R c" if "vals s T R" for R using M(4) [OF c(1) that] M(4) [OF i that] by simp
    ultimately show ?thesis using copy(6) c M(1,3) [OF c(1)] M(2,3) [OF i] by simp
  next
    case other
    then have "tstate (T u) = TCG_TEMP_COPY" using u(2) by simp
    moreover from this have "unat (tval (T u)) \<notin> insert b (copies s T b)" using other_base [OF wf b u(1)] other(4) by blast
    ultimately show ?thesis using t o [of "unat (tval (T u))"] wf_tempsD [OF wf u(1)] u(1) other(5) by (auto simp: vals_def)
  qed (use u(2) in \<open>auto split: if_splits\<close>)
qed

lemma reclassed_copies:
  assumes wf: "wf_temps s T" and re: "reclassed s T b t c ys T'" and d: "d = c \<or> d \<notin> insert b (copies s T b)"
  shows "copies s T' d = (if d = c then set ys else copies s T d)"
proof (rule set_eqI)
  fix u
  have b: "b < nb_temps s" "tstate (T b) = TCG_TEMP_HAS_COPY" and c: "c \<in> insert b (copies s T b)"
    and t: "t \<in> insert b (copies s T b)" and dc: "c \<notin> set ys"
    using reclassedD [OF re] reclassedD(5) [OF re, of c] by auto
  have kd: "d \<noteq> c \<Longrightarrow> u \<in> insert b (copies s T b) \<Longrightarrow> u \<notin> copies s T d" using d b(2) by (auto simp: copies_def)
  show "u \<in> copies s T' d \<longleftrightarrow> u \<in> (if d = c then set ys else copies s T d)"
    using re
  proof (cases rule: reclassed_cases [where u = u])
    case reset
    moreover have "t \<notin> set ys" using reclassedD(5) [OF re, of t] by auto
    ultimately show ?thesis using kd t by (auto simp: copies_def)
  next
    case base
    then show ?thesis using kd dc by (auto simp: copies_def split: if_splits)
  next
    case copy
    then show ?thesis using kd by (auto simp: copies_def)
  next
    case other
    then show ?thesis using other_base [OF wf b _ _ other(4)] c by (auto simp: copies_def)
  qed
qed

lemma reclassed_ring:
  assumes wf: "wf_temps s T" and re: "reclassed s T b t c ys T'" and d: "d < nb_temps s" "tstate (T' d) = TCG_TEMP_HAS_COPY"
  shows "nb_globals s \<le> d \<and> (\<exists>cs. cs \<noteq> [] \<and> cyc T' (d # cs) \<and> set cs = copies s T' d)"
proof -
  have b: "b < nb_temps s" "tstate (T b) = TCG_TEMP_HAS_COPY" and y: "cyc T' (c # ys)"
    and o: "\<And>u. u \<notin> insert b (copies s T b) \<Longrightarrow> T' u = T u"
    using reclassedD [OF re] by auto
  show ?thesis
    using re
  proof (cases rule: reclassed_cases [where u = d])
    case base
    then show ?thesis
      using y reclassed_copies [OF wf re, of c] class_member(2) [OF wf b base(3)] d(2) by (auto split: if_splits)
  next
    case other
    then have h: "tstate (T d) = TCG_TEMP_HAS_COPY" using d(2) by simp
    obtain cs where cs: "cs \<noteq> []" "cyc T (d # cs)" "set cs = copies s T d" using wf_ring [OF wf d(1) h] .
    have "copies s T d \<inter> insert b (copies s T b) = {}" using other(4) b(2) by (auto simp: copies_def)
    then have "u \<notin> insert b (copies s T b)" if "u \<in> set (d # cs)" for u using that other(4) unfolding set_simps cs(3) by blast
    then have "T' u = T u" if "u \<in> set (d # cs)" for u using that o by blast
    then have "cyc T' (d # cs)" using cyc_cong [of "d # cs" T' T] cs(2) by simp
    moreover have "copies s T' d = copies s T d" using reclassed_copies [OF wf re, of d] other(2,4) by simp
    ultimately show ?thesis using cs(1,3) wf_tempsD(6) [OF wf d(1) h] by blast
  next
    case reset
    then show ?thesis using d(2) by simp
  next
    case copy
    then show ?thesis using d(2) by simp
  qed
qed

lemma forgets_ring:
  assumes wf: "wf_temps s T" and re: "reclassed s T b t c ys T'"
  shows "forgets s t T T'"
proof -
  have "wf_temps s T'"
  proof (rule wf_tempsI)
    show "nb_temps s \<le> TCG_MAX_TEMPS" using wf by (simp add: wf_temps_def)
  qed (use reclassed_copy [OF wf re] reclassed_ring [OF wf re] in blast)+
  moreover have "(tstate (T' u) = TCG_TEMP_CONST \<longleftrightarrow> tstate (T u) = TCG_TEMP_CONST) \<and>
      (tstate (T u) = TCG_TEMP_CONST \<longrightarrow> tval (T' u) = tval (T u))" if "u \<noteq> t" for u
    using re reclassedD(2) [OF re] by (cases rule: reclassed_cases [where u = u]) (use that in \<open>auto simp: copies_def split: if_splits\<close>)
  moreover have "tstate (T' t) = TCG_TEMP_ANY" by (rule reclassedD(8) [OF re])
  ultimately show ?thesis unfolding forgets_def using reclassed_copy [OF wf re] by blast
qed

text \<open>The end of \<open>reset_temp\<close>: a ring with one member is no class.\<close>

definition settle :: "nat \<Rightarrow> nat \<Rightarrow> temps \<Rightarrow> temps" where
  "settle t c T = (let T = set_state t TCG_TEMP_ANY T in if next_copy (T c) = c then set_state c TCG_TEMP_ANY T else T)"

lemma settle_fields:
  "next_copy (settle t c T u) = next_copy (T u)" "prev_copy (settle t c T u) = prev_copy (T u)" "tval (settle t c T u) = tval (T u)"
  "tstate (settle t c T u) = (if u = t \<or> u = c \<and> next_copy (T c) = c then TCG_TEMP_ANY else tstate (T u))"
  by (auto simp: settle_def set_state_def Let_def)

lemma cyc_alone: "cyc T (c # ys) \<Longrightarrow> next_copy (T c) = c \<longleftrightarrow> ys = []"
  by (cases ys) (auto simp: cyc_Cons)

lemma settle_reclassed:
  assumes "b < nb_temps s" and "tstate (T b) = TCG_TEMP_HAS_COPY" and "c = b \<or> t = b" and "t \<in> insert b (copies s T b)"
    and "set (c # ys) = insert b (copies s T b) - {t}" and y: "cyc T' (c # ys)" and "tstate (T' c) = TCG_TEMP_HAS_COPY"
    and "\<And>u. u \<in> set ys \<Longrightarrow> tstate (T' u) = TCG_TEMP_COPY \<and> unat (tval (T' u)) = c"
    and "\<And>u. u \<notin> insert b (copies s T b) \<Longrightarrow> T' u = T u"
  shows "reclassed s T b t c ys (settle t c T')"
proof -
  have d: "c \<notin> set ys" "t \<noteq> c" "t \<notin> set ys" "c \<in> insert b (copies s T b)" using y assms(5) by (auto simp: cyc_Cons)
  have "cyc (settle t c T') (c # ys)" using y by (subst cyc_cong) (simp_all add: settle_fields)
  moreover have "settle t c T' u = T u" if "u \<notin> insert b (copies s T b)" for u
  proof -
    have "u \<noteq> t" "u \<noteq> c" using that assms(4) d(4) by blast+
    then show ?thesis using assms(9) [OF that] by (simp add: settle_def set_state_def Let_def)
  qed
  ultimately show ?thesis
    unfolding reclassed_def using assms(1-5) assms(7,8) d(1-3) cyc_alone [OF y] by (auto simp: settle_fields simp del: set_simps)
qed

text \<open>\<open>unlink\<close> changes only members of the ring.\<close>

lemma chain_first: "chain f a xs a \<Longrightarrow> f a \<in> set (a # xs)"
  by (cases xs) auto

lemma cyc_neighbours: "cyc T (t # ys) \<Longrightarrow> next_copy (T t) \<in> set (t # ys) \<and> prev_copy (T t) \<in> set (t # ys)"
  using chain_first [of "\<lambda>i. next_copy (T i)" t ys] chain_first [of "\<lambda>i. prev_copy (T i)" t "rev ys"] by (simp add: cyc_Cons)

lemma unlink_outside: "cyc T (t # ys) \<Longrightarrow> u \<notin> set (t # ys) \<Longrightarrow> unlink t T u = T u"
  using cyc_neighbours [of T t ys] by (auto simp: unlink_def Let_def)

lemma reset_copy:
  assumes wf: "wf_temps s T" and t: "t < nb_temps s" and st: "tstate (T t) = TCG_TEMP_COPY"
  shows "\<exists>T'. reset_temp t (nb_globals s) T = Some T' \<and> forgets s t T T'"
proof -
  define b where "b = unat (tval (T t))"
  have b: "b < nb_temps s" "tstate (T b) = TCG_TEMP_HAS_COPY" using wf_tempsD [OF wf t] st by (simp_all add: b_def)
  have tb: "t \<in> copies s T b" "t \<noteq> b" using t st b(2) by (auto simp: copies_def b_def)
  obtain cs where cs: "cyc T (b # cs)" "set cs = copies s T b" using wf_ring [OF wf b] by metis
  obtain xs zs where sp: "cs = xs @ t # zs" using tb(1) cs(2) by (metis split_list)
  have r: "cyc T (t # zs @ b # xs)" using cyc_rotate [of T "b # xs" "t # zs"] cs(1) sp by simp
  have u: "cyc (unlink t T) (zs @ b # xs)" using r cyc_unlink [of T t] by (cases "zs @ b # xs") auto
  then have y: "cyc (unlink t T) (b # xs @ zs)" using cyc_rotate [of "unlink t T" zs "b # xs"] by simp
  have d: "distinct (b # xs @ t # zs)" using cs(1) sp by (simp add: cyc_Cons)
  have k: "set (t # zs @ b # xs) = insert b (copies s T b)" using cs(2) sp by auto
  have "reclassed s T b t b (xs @ zs) (settle t b (unlink t T))"
  proof (rule settle_reclassed)
    show "cyc (unlink t T) (b # xs @ zs)" by (rule y)
    show "set (b # xs @ zs) = insert b (copies s T b) - {t}" unfolding k [symmetric] using d by auto
    show "tstate (unlink t T u) = TCG_TEMP_COPY \<and> unat (tval (unlink t T u)) = b" if "u \<in> set (xs @ zs)" for u
      using that cs(2) sp by (auto simp: unlink_links copies_def)
    show "unlink t T u = T u" if "u \<notin> insert b (copies s T b)" for u using unlink_outside [OF r] that unfolding k by blast
  qed (use tb(1) b in \<open>simp_all add: unlink_links\<close>)
  moreover have "reset_temp t (nb_globals s) T = Some (settle t b (unlink t T))"
    using st wf_tempsD(1) [OF wf t] wf_tempsD(1) [OF wf b(1)]
    by (simp add: reset_temp_def unlink_links b_def settle_def Let_def)
  ultimately show ?thesis using forgets_ring [OF wf] by blast
qed

lemma reset_base:
  assumes wf: "wf_temps s T" and t: "t < nb_temps s" and st: "tstate (T t) = TCG_TEMP_HAS_COPY"
  shows "\<exists>T'. reset_temp t (nb_globals s) T = Some T' \<and> forgets s t T T'"
proof -
  obtain c ys where y: "cyc T (t # c # ys)" and k: "set (c # ys) = copies s T t" using wf_ring [OF wf t st] by (metis list.exhaust)
  have d: "distinct (t # c # ys)" and n: "next_copy (T t) = c" "chain (\<lambda>i. next_copy (T i)) c ys t" using y by (simp_all add: cyc_Cons)
  have m: "u < nb_temps s" "nb_globals s \<le> u" "tstate (T u) = TCG_TEMP_COPY" if "u \<in> set (c # ys)" for u
  proof -
    have "u \<in> copies s T t" using that k by blast
    then show "u < nb_temps s" "nb_globals s \<le> u" "tstate (T u) = TCG_TEMP_COPY" using wf_tempsD(2) [OF wf] by (auto simp: copies_def)
  qed
  have c: "c < TCG_MAX_TEMPS" using wf_tempsD(1) [OF wf m(1)] by simp
  define U where "U = set_state c TCG_TEMP_HAS_COPY T"
  define V where "V = (\<lambda>i. if i \<in> set (c # ys) then (U i)\<lparr>tval := of_nat c\<rparr> else U i)"
  have f: "first_copy (nb_globals s) T t c = Some (Some c)" using d c m(2) [of c] by (subst first_copy.simps) auto
  have "chain (\<lambda>i. next_copy (U i)) c ys t" using n(2) by (subst chain_cong) (simp_all add: U_def set_state_def)
  then have r: "rebase (Some c) t c U = Some V"
    unfolding V_def by (rule rebase_chain) (use d m(1) wf_tempsD(1) [OF wf] in auto)
  have l: "next_copy (V u) = next_copy (T u)" "prev_copy (V u) = prev_copy (T u)" "tstate (V u) = (if u = c then TCG_TEMP_HAS_COPY else tstate (T u))"
    "tval (V u) = (if u \<in> set (c # ys) then of_nat c else tval (T u))" for u
    by (simp_all add: V_def U_def set_state_def)
  have yV: "cyc V (t # c # ys)" using y by (subst cyc_cong) (simp_all add: l)
  have "reclassed s T t t c ys (settle t c (unlink t V))"
  proof (rule settle_reclassed)
    show "cyc (unlink t V) (c # ys)" by (rule cyc_unlink [OF yV])
    show "set (c # ys) = insert t (copies s T t) - {t}" unfolding k [symmetric] using d by auto
    show "tstate (unlink t V u) = TCG_TEMP_COPY \<and> unat (tval (unlink t V u)) = c" if "u \<in> set ys" for u
      using that d m(3) [of u] c by (auto simp: unlink_links l TCG_MAX_TEMPS_def unat_of_nat)
    show "unlink t V u = T u" if "u \<notin> insert t (copies s T t)" for u
      using unlink_outside [OF yV, of u] that unfolding k [symmetric] by (simp add: V_def U_def set_state_def)
  qed (simp_all add: unlink_links l t st)
  moreover have "reset_temp t (nb_globals s) T = Some (settle t c (unlink t V))"
  proof -
    have "next_copy (U t) = c" using n(1) d by (auto simp: U_def set_state_def)
    then show ?thesis using wf_tempsD(1) [OF wf t] c by (simp add: reset_temp_def st n(1) f U_def [symmetric] r settle_def Let_def)
  qed
  ultimately show ?thesis using forgets_ring [OF wf] by blast
qed

lemma reset_temp_spec:
  assumes "wf_temps s T" and "t < nb_temps s"
  shows "\<exists>T'. reset_temp t (nb_globals s) T = Some T' \<and> forgets s t T T'"
  using reset_plain [OF assms] reset_copy [OF assms] reset_base [OF assms] by blast

section \<open>A new copy\<close>

definition link :: "nat \<Rightarrow> TCGArg \<Rightarrow> temps \<Rightarrow> temps" where
  "link d src T =
     (let a = unat src;
          T = T(d := (T d)\<lparr>tstate := TCG_TEMP_COPY, tval := src, next_copy := next_copy (T a), prev_copy := a\<rparr>);
          n = next_copy (T d);
          T = T(n := (T n)\<lparr>prev_copy := d\<rparr>)
      in T(a := (T a)\<lparr>next_copy := d\<rparr>))"

lemma link_fields:
  assumes "d \<noteq> unat src" and "next_copy (T (unat src)) \<noteq> d"
  shows "tstate (link d src T u) = (if u = d then TCG_TEMP_COPY else tstate (T u))"
    and "tval (link d src T u) = (if u = d then src else tval (T u))"
    and "next_copy (link d src T u) = (if u = unat src then d else if u = d then next_copy (T (unat src)) else next_copy (T u))"
    and "prev_copy (link d src T u) = (if u = next_copy (T (unat src)) then d else if u = d then unat src else prev_copy (T u))"
  using assms by (auto simp: link_def Let_def)

lemma cyc_link:
  assumes y: "cyc T (unat src # cs)" and d: "d \<notin> set (unat src # cs)"
  shows "cyc (link d src T) (unat src # d # cs)"
proof -
  let ?a = "unat src"
  note nb = cyc_neighbours [OF y]
  have "next_copy (T ?a) \<noteq> d" "d \<noteq> ?a" using nb d by auto
  note F = link_fields [of d src T, OF this(2,1)]
  have n: "chain (\<lambda>i. next_copy (T i)) ?a cs ?a" and p: "chain (\<lambda>i. prev_copy (T i)) ?a (rev cs) ?a"
    and dd: "distinct (?a # rev cs)" "distinct (?a # cs)" using y by (simp_all add: cyc_Cons)
  have "chain ((\<lambda>i. next_copy (T i))(d := next_copy (T ?a))) d cs ?a" using chain_start [OF n, of d] dd d by simp
  then have n': "chain (\<lambda>i. next_copy (link d src T i)) d cs ?a"
    by (rule chain_cong [THEN iffD1, rotated]) (use d dd in \<open>auto simp: F\<close>)
  have l: "last (?a # rev cs) = next_copy (T ?a)" using n by (cases cs) auto
  have "chain ((\<lambda>i. prev_copy (T i))(next_copy (T ?a) := d)) ?a (rev cs) d" using chain_end [OF p dd(1)] unfolding l .
  then have "chain (\<lambda>i. prev_copy (link d src T i)) ?a (rev cs) d"
    by (rule chain_cong [THEN iffD1, rotated]) (use d in \<open>auto simp: F\<close>)
  then show ?thesis
    using n' dd d \<open>next_copy (T ?a) \<noteq> d\<close> by (simp add: cyc_Cons chain_append F(3) [of ?a] F(4) [of d])
qed

lemma link_states:
  assumes k: "d \<notin> set (a # cs)" "a = unat src" and U: "\<And>u. u \<noteq> a \<Longrightarrow> U u = T u" "tstate (U a) = TCG_TEMP_HAS_COPY" "cyc U (a # cs)"
  shows "tstate (link d src U u) = (if u = d then TCG_TEMP_COPY else if u = a then TCG_TEMP_HAS_COPY else tstate (T u))"
    and "u \<noteq> d \<Longrightarrow> u \<noteq> a \<Longrightarrow> tval (link d src U u) = tval (T u)" and "tval (link d src U d) = src"
proof -
  have nd: "next_copy (U (unat src)) \<noteq> d" "d \<noteq> unat src" using cyc_neighbours [OF U(3)] k by auto
  note F = link_fields [of d src U, OF nd(2,1), folded k(2)]
  show "tstate (link d src U u) = (if u = d then TCG_TEMP_COPY else if u = a then TCG_TEMP_HAS_COPY else tstate (T u))"
    "u \<noteq> d \<Longrightarrow> u \<noteq> a \<Longrightarrow> tval (link d src U u) = tval (T u)" "tval (link d src U d) = src"
    using U(1,2) by (simp_all add: F)
qed

lemma link_copies:
  assumes S: "\<And>u. tstate (V u) = (if u = d then TCG_TEMP_COPY else if u = a then TCG_TEMP_HAS_COPY else tstate (T u))"
      "\<And>u. u \<noteq> d \<Longrightarrow> u \<noteq> a \<Longrightarrow> tval (V u) = tval (T u)" "tval (V d) = src"
    and t: "d < nb_temps s" "a = unat src" and st: "tstate (T d) = TCG_TEMP_ANY" "tstate (T a) \<noteq> TCG_TEMP_COPY"
  shows "copies s V b = (if b = a then insert d (copies s T a) else copies s T b)"
proof (rule set_eqI)
  fix u
  consider "u = d" | "u = a" "u \<noteq> d" | "u \<noteq> a" "u \<noteq> d" by blast
  then show "u \<in> copies s V b \<longleftrightarrow> u \<in> (if b = a then insert d (copies s T a) else copies s T b)"
    using st t(1) by cases (auto simp: copies_def S t(2) [symmetric])
qed

lemma link_vals:
  assumes S: "\<And>u. tstate (V u) = (if u = d then TCG_TEMP_COPY else if u = a then TCG_TEMP_HAS_COPY else tstate (T u))"
      "\<And>u. u \<noteq> d \<Longrightarrow> u \<noteq> a \<Longrightarrow> tval (V u) = tval (T u)" "tval (V d) = src"
    and a: "a = unat src" and v: "vals s T R" "R d = R a"
  shows "vals s V R"
  unfolding vals_def
proof (intro allI impI conjI)
  fix u assume u: "u < nb_temps s"
  show "R u = norm (temp_width s u) (tval (V u))" if "tstate (V u) = TCG_TEMP_CONST"
    using that v(1) u S(2) [of u] unfolding S(1) vals_def by (auto split: if_splits)
  show "R u = R (unat (tval (V u)))" if "tstate (V u) = TCG_TEMP_COPY"
  proof (cases "u = d")
    case False
    then show ?thesis using that v(1) u S(2) [of u] unfolding S(1) vals_def by (auto split: if_splits)
  qed (use v(2) S(3) a in simp)
qed

text \<open>The rings of the other classes stay.\<close>

lemma link_ring:
  assumes wf: "wf_temps s T" and b: "b < nb_temps s" "tstate (T b) = TCG_TEMP_HAS_COPY" "b \<noteq> a" and d: "d \<notin> set (a # cs)" "a = unat src"
    and st: "tstate (T d) = TCG_TEMP_ANY" "tstate (T a) \<noteq> TCG_TEMP_COPY"
    and U: "\<And>u. u \<noteq> a \<Longrightarrow> U u = T u" "cyc U (a # cs)" "set cs = copies s T a"
  shows "nb_globals s \<le> b \<and> (\<exists>cs. cs \<noteq> [] \<and> cyc (link d src U) (b # cs) \<and> set cs = copies s T b)"
proof -
  have n: "next_copy (U a) \<in> set (a # cs)" using cyc_neighbours [OF U(2)] by simp
  have nd: "next_copy (U (unat src)) \<noteq> d" "d \<noteq> unat src" using n d by auto
  note F = link_fields [of d src U, OF nd(2,1), folded d(2)]
  obtain bs where bs: "bs \<noteq> []" "cyc T (b # bs)" "set bs = copies s T b" using wf_ring [OF wf b(1,2)] .
  have m: "u \<noteq> d" "u \<noteq> a" "u \<notin> set (a # cs)" if "u \<in> set (b # bs)" for u
  proof -
    have "u = b \<or> u \<in> copies s T b" using that unfolding set_simps bs(3) by blast
    then show "u \<noteq> d" "u \<noteq> a" "u \<notin> set (a # cs)" using b st unfolding set_simps U(3) by (auto simp: copies_def)
  qed
  have "next_copy (link d src U u) = next_copy (T u) \<and> prev_copy (link d src U u) = prev_copy (T u)"
    if "u \<in> set (b # bs)" for u using m [OF that] U(1) [of u] n by (auto simp: F)
  then have "cyc (link d src U) (b # bs)" using cyc_cong [of "b # bs" "link d src U" T] bs(2) by simp
  then show ?thesis using bs wf_tempsD(6) [OF wf b(1,2)] by blast
qed

lemma link_wf:
  assumes wf: "wf_temps s T" and t: "d < nb_temps s" "a < nb_temps s" "a = unat src" and st: "tstate (T d) = TCG_TEMP_ANY" "tstate (T a) \<noteq> TCG_TEMP_COPY"
    and g: "nb_globals s \<le> d" "nb_globals s \<le> a" "temp_width s d = temp_width s a" and da: "d \<noteq> a"
    and U: "\<And>u. u \<noteq> a \<Longrightarrow> U u = T u" "tstate (U a) = TCG_TEMP_HAS_COPY" "cyc U (a # cs)" "set cs = copies s T a"
  shows "wf_temps s (link d src U)"
proof (rule wf_tempsI)
  have k: "d \<notin> set (a # cs)" using da st(1) unfolding set_simps U(4) by (auto simp: copies_def)
  note S = link_states [OF k t(3) U(1-3)]
  show "nb_temps s \<le> TCG_MAX_TEMPS" using wf by (simp add: wf_temps_def)
  show "nb_globals s \<le> u \<and> unat (tval (link d src U u)) < nb_temps s \<and>
      tstate (link d src U (unat (tval (link d src U u)))) = TCG_TEMP_HAS_COPY \<and>
      temp_width s u = temp_width s (unat (tval (link d src U u)))"
    if u: "u < nb_temps s" "tstate (link d src U u) = TCG_TEMP_COPY" for u
  proof (cases "u = d")
    case False
    then have "tstate (T u) = TCG_TEMP_COPY" "tval (link d src U u) = tval (T u)" using u(2) S by (auto split: if_splits)
    then show ?thesis using wf_tempsD [OF wf u(1)] st(1) by (auto simp: S)
  qed (use t g da in \<open>simp add: S\<close>)
  note C = link_copies [OF S t(1,3) st]
  show "nb_globals s \<le> b \<and> (\<exists>cs. cs \<noteq> [] \<and> cyc (link d src U) (b # cs) \<and> set cs = copies s (link d src U) b)"
    if b: "b < nb_temps s" "tstate (link d src U b) = TCG_TEMP_HAS_COPY" for b
  proof (cases "b = a")
    case True
    have "cyc (link d src U) (a # d # cs)" using cyc_link [of U src cs d] U(3) k unfolding t(3) by blast
    moreover have "set (d # cs) = copies s (link d src U) a" unfolding set_simps U(4) by (simp add: C)
    ultimately show ?thesis using True g(2) by blast
  next
    case False
    then have h: "tstate (T b) = TCG_TEMP_HAS_COPY" using b(2) by (simp add: S split: if_splits)
    then show ?thesis using link_ring [OF wf b(1) _ False k t(3) st U(1,3,4)] False by (simp add: C)
  qed
qed

text \<open>\<open>tcg_opt_gen_mov\<close> makes the destination a copy, or leaves it without a class.\<close>

lemma gen_mov_spec:
  assumes wf: "wf_temps s T" and t: "unat dst < nb_temps s" "unat src < nb_temps s" "unat dst \<noteq> unat src"
    and st: "tstate (T (unat src)) \<noteq> TCG_TEMP_COPY" and w: "temp_width s (unat dst) = temp_width s (unat src)"
    and g: "tcg_opt_gen_mov s dst src T = Some (out, T')"
  shows "out = [dst, src] \<and> wf_temps s T' \<and> (\<forall>R. vals s T R \<longrightarrow> vals s T' (R(unat dst := R (unat src))))"
proof -
  define d a where "d = unat dst" and "a = unat src"
  obtain V where V: "reset_temp d (nb_globals s) T = Some V" and f: "forgets s d T V" using reset_temp_spec [OF wf] t(1) unfolding d_def by blast
  have da: "d \<noteq> a" using t(3) by (simp only: a_def d_def not_False_eq_True)
  have fv: "vals s V (R(d := R a))" if "vals s T R" for R using forgets_vals [OF f that] .
  have wV: "wf_temps s V" "tstate (V d) = TCG_TEMP_ANY" using f by (simp_all add: forgets_def)
  have sa: "tstate (V a) \<noteq> TCG_TEMP_COPY" using f st t(2,3) by (auto simp: forgets_def a_def d_def)
  show ?thesis
  proof (cases "a \<ge> nb_globals s \<and> d \<ge> nb_globals s \<and> temp_local s a = temp_local s d")
    case True
    define U where "U = (if tstate (V a) \<noteq> TCG_TEMP_HAS_COPY
      then V(a := (V a)\<lparr>tstate := TCG_TEMP_HAS_COPY, next_copy := a, prev_copy := a\<rparr>) else V)"
    have r: "out = [dst, src]" "T' = link d src U" and nc: "tstate (V a) \<noteq> TCG_TEMP_CONST"
      using g True V by (auto simp: tcg_opt_gen_mov_def link_def Let_def U_def d_def a_def bind_eq_Some_conv c_assert_def split: if_splits)
    have U: "\<And>u. u \<noteq> a \<Longrightarrow> U u = V u" "tstate (U a) = TCG_TEMP_HAS_COPY" by (auto simp: U_def)
    obtain cs where cs: "cyc U (a # cs)" "set cs = copies s V a"
    proof (cases "tstate (V a) = TCG_TEMP_HAS_COPY")
      case True
      then show thesis using wf_ring [OF wV(1) _ True] t(2) that unfolding a_def U_def by auto
    next
      case False
      then have "copies s V a = {}" using wf_tempsD(4) [OF wV(1)] by (auto simp: copies_def)
      then show thesis using False that [of "[]"] by (simp add: U_def cyc_single)
    qed
    have "wf_temps s T'"
      unfolding r(2) by (rule link_wf [OF wV(1) _ _ a_def wV(2) sa _ _ _ _ U cs]) (use t w True in \<open>auto simp: a_def d_def\<close>)
    moreover have "vals s T' (R(d := R a))" if "vals s T R" for R
    proof -
      have "d \<notin> set (a # cs)" using t(3) wV(2) unfolding set_simps cs(2) by (auto simp: copies_def a_def d_def)
      note S = link_states [OF this a_def U cs(1), folded r(2)]
      show ?thesis by (rule link_vals [of T' d a V src]) (use S a_def fv [OF that] da in simp_all)
    qed
    ultimately show ?thesis using r(1) by (simp add: a_def d_def)
  next
    case False
    then have "out = [dst, src] \<and> T' = V" using g V by (auto simp: tcg_opt_gen_mov_def d_def a_def Let_def bind_eq_Some_conv c_assert_def split: if_splits)
    then show ?thesis using wV(1) fv by (simp add: a_def d_def)
  qed
qed

lemma gen_mov_total:
  assumes wf: "wf_temps s T" and t: "unat dst < nb_temps s" "unat src < nb_temps s" "unat dst \<noteq> unat src"
    and st: "tstate (T (unat src)) \<noteq> TCG_TEMP_COPY" "tstate (T (unat src)) \<noteq> TCG_TEMP_CONST"
  shows "\<exists>r. tcg_opt_gen_mov s dst src T = Some r"
proof -
  obtain V where V: "reset_temp (unat dst) (nb_globals s) T = Some V" "forgets s (unat dst) T V" using reset_temp_spec [OF wf t(1)] by blast
  have "unat src < TCG_MAX_TEMPS" "tstate (V (unat src)) \<noteq> TCG_TEMP_COPY" "tstate (V (unat src)) \<noteq> TCG_TEMP_CONST"
    using V(2) st t(2,3) wf_tempsD(1) [OF wf t(2)] by (auto simp: forgets_def)
  then show ?thesis using V(1) by (simp add: tcg_opt_gen_mov_def Let_def c_assert_def)
qed

lemma gen_movi_spec:
  assumes wf: "wf_temps s T" and t: "unat dst < nb_temps s"
  shows "\<exists>T'. tcg_opt_gen_movi s dst v T = Some ([dst, v], T') \<and> wf_temps s T' \<and>
    (\<forall>R. vals s T R \<longrightarrow> vals s T' (R(unat dst := norm (temp_width s (unat dst)) v)))"
proof -
  define d where "d = unat dst"
  obtain V where V: "reset_temp d (nb_globals s) T = Some V" "forgets s d T V" using reset_temp_spec [OF wf] t unfolding d_def by blast
  define U where "U = V(d := (V d)\<lparr>tstate := TCG_TEMP_CONST, tval := v\<rparr>)"
  have w: "wf_temps s V" "tstate (V d) = TCG_TEMP_ANY" using V(2) by (simp_all add: forgets_def)
  have "wf_temps s U" by (rule plain_wf [OF w(1), of d]) (use w(2) in \<open>simp_all add: U_def\<close>)
  moreover have "vals s U (R(d := norm (temp_width s d) v))" if "vals s T R" for R
    using forgets_vals [OF V(2) that, of "norm (temp_width s d) v"] by (auto simp: vals_def U_def)
  moreover have "tcg_opt_gen_movi s dst v T = Some ([dst, v], U)" using V(1) by (simp add: tcg_opt_gen_movi_def U_def d_def)
  ultimately show ?thesis by (simp add: d_def)
qed

end
