(* ===== verification/Tcg_Folding.thy ===== *)
theory Tcg_Folding
  imports Tcg_Classes
begin

text \<open>
  The values: constant folding computes what the operation computes, and the simplifications are
  laws of the operations.
\<close>

section \<open>Bits of a width\<close>

lemma norm_I64 [simp]: "norm I64 v = v"
  by (simp add: norm_def take_bit_word_eq_self)

lemma norm_norm [simp]: "norm w (norm w v) = norm w v"
  by (simp add: norm_def)

lemma norm_0 [simp]: "norm w 0 = 0"
  by (simp add: norm_def)

lemma norm_mask: "norm I32 v = v AND 0xffffffff"
  by (simp add: norm_def take_bit_eq_mask mask_eq_exp_minus_1)

lemma uint_norm: "uint (norm w v) = uint v mod 2 ^ tcg_bits w"
  by (simp only: norm_def unsigned_take_bit_eq take_bit_eq_mod [of _ "uint v"])

lemma norm_eqI: "uint x mod 2 ^ tcg_bits w = uint y mod 2 ^ tcg_bits w \<Longrightarrow> norm w x = norm w y"
  by (rule word_uint_eqI) (simp add: uint_norm)

lemma mod_mod_64: "(a mod 18446744073709551616) mod 2 ^ tcg_bits w = a mod (2 ^ tcg_bits w :: int)"
  by (cases w) (simp_all add: mod_mod_cancel)

lemma norm_arith:
  "norm w (norm w x + norm w y) = norm w (x + y)" "norm w (norm w x - norm w y) = norm w (x - y)"
  "norm w (norm w x * norm w y) = norm w (x * y)" "norm w (- norm w x) = norm w (- x)"
proof -
  show "norm w (norm w x + norm w y) = norm w (x + y)"
    by (rule norm_eqI) (simp add: uint_word_arith_bintrs take_bit_eq_mod uint_norm mod_mod_64 mod_add_eq)
  show "norm w (norm w x - norm w y) = norm w (x - y)"
    by (rule norm_eqI) (simp add: uint_word_arith_bintrs take_bit_eq_mod uint_norm mod_mod_64 mod_diff_eq)
  show "norm w (norm w x * norm w y) = norm w (x * y)"
    by (rule norm_eqI) (simp add: uint_word_arith_bintrs take_bit_eq_mod uint_norm mod_mod_64 mod_mult_eq)
  show "norm w (- norm w x) = norm w (- x)"
    by (rule norm_eqI) (simp add: uint_word_arith_bintrs take_bit_eq_mod uint_norm mod_mod_64 mod_minus_eq)
qed

lemma norm_bits:
  "norm w (x AND y) = norm w x AND norm w y" "norm w (x OR y) = norm w x OR norm w y" "norm w (x XOR y) = norm w x XOR norm w y"
  "norm w (NOT (norm w x)) = norm w (NOT x)"
  by (simp_all add: norm_def take_bit_not_take_bit)

lemma tcg_bits_cases: "tcg_bits w = 32 \<or> tcg_bits w = 64"
  by (cases w) auto

text \<open>Sign extension looks at the bits below.\<close>

lemma sext_bit: "0 < n \<Longrightarrow> n \<le> 64 \<Longrightarrow> m < 64 \<Longrightarrow> bit (sext n v) m = bit v (min m (n - 1))"
  by (simp add: sext_def bit_of_int_iff bit_signed_take_bit_iff bit_sint_iff min.commute)

lemma sext_norm: "0 < n \<Longrightarrow> n \<le> tcg_bits w \<Longrightarrow> sext n (norm w x) = sext n x"
proof (rule bit_word_eqI)
  fix m assume n: "0 < n" "n \<le> tcg_bits w" and m: "m < LENGTH(64)"
  have "min m (n - 1) < tcg_bits w" using n by linarith
  moreover have "n \<le> 64" using n(2) by (cases w) simp_all
  ultimately show "bit (sext n (norm w x)) m = bit (sext n x) m" using n(1) m by (simp add: sext_bit norm_def bit_take_bit_iff)
qed

section \<open>Folding\<close>

lemma op_bits_bin: "op_bits (INDEX_op_bin b w) = tcg_bits w" "op_bits (INDEX_op_un u w) = tcg_bits w" "op_bits (INDEX_op_mov w) = tcg_bits w"
  by (cases w; simp add: op_bits_def TCG_OPF_64BIT_def)+

lemma folded_norm: "norm w (if tcg_bits w = 32 then v AND 0xffffffff else v) = norm w v"
  by (cases w) (simp_all add: norm_mask)

lemma fold_un_val: "u \<in> {Ext32s, Ext32u} \<longrightarrow> w = I64 \<Longrightarrow> norm w (fold_un u x) = un_val u w (norm w x)"
  by (cases u; cases w) (simp_all add: norm_arith norm_bits sext_norm, simp_all add: norm_def)

lemma c_shl_val: "c_shl w x n = Some v \<Longrightarrow> unat n < tcg_bits w \<and> v = norm w (push_bit (unat n) (norm w x))"
  by (simp add: c_shl_def split: if_splits)

lemma c_shr_val: "c_shr w x n = Some v \<Longrightarrow> unat n < tcg_bits w \<and> v = drop_bit (unat n) (norm w x)"
  by (simp add: c_shr_def split: if_splits)

lemma unat_rotation: "unat n < tcg_bits w \<Longrightarrow> unat (of_nat (tcg_bits w) - n :: u64) = tcg_bits w - unat n"
  by (cases w) (simp_all add: unat_sub word_le_nat_alt)

lemma norm_count: "unat y < tcg_bits w \<Longrightarrow> norm w y = y"
proof (rule word_uint_eqI)
  assume "unat y < tcg_bits w"
  moreover have "tcg_bits w < 2 ^ tcg_bits w" by (cases w) simp_all
  ultimately have "unat y < 2 ^ tcg_bits w" by (rule less_trans)
  then have "int (unat y) < int (2 ^ tcg_bits w)" by (simp only: of_nat_less_iff)
  then have "uint y < 2 ^ tcg_bits w" by (simp only: uint_nat [symmetric] of_nat_power of_nat_numeral)
  then show "uint (norm w y) = uint y" by (simp add: uint_norm)
qed

lemma fold_bin_val:
  assumes "fold_bin b w x y = Some v"
  shows "bin_val b w (norm w x) (norm w y) = Some (norm w v)"
proof (cases b)
  case Rotl
  then show ?thesis using assms
    by (auto simp: bind_eq_Some_conv dest!: c_shl_val c_shr_val simp: norm_count unat_rotation norm_bits)
next
  case Rotr
  then show ?thesis using assms
    by (auto simp: bind_eq_Some_conv dest!: c_shl_val c_shr_val simp: norm_count unat_rotation norm_bits or.commute)
next
  case Eqv
  have "norm w (NOT (norm w x XOR norm w y)) = norm w (NOT (x XOR y))" by (metis norm_bits(3,4))
  then show ?thesis using Eqv assms by simp
next
  case Sar
  then show ?thesis using assms by (cases w) (auto simp: sext_norm split: if_splits)
qed (use assms in \<open>auto simp: norm_arith norm_bits dest!: c_shl_val c_shr_val\<close>)

lemma do_constant_folding_bin:
  "do_constant_folding (INDEX_op_bin b w) x y = Some v \<Longrightarrow> bin_val b w (norm w x) (norm w y) = Some (norm w v)"
  by (auto simp: do_constant_folding_def do_constant_folding_2_def bind_eq_Some_conv op_bits_bin fold_bin_val folded_norm)

lemma do_constant_folding_un:
  "do_constant_folding (INDEX_op_un u w) x y = Some v \<Longrightarrow> u \<in> {Ext32s, Ext32u} \<longrightarrow> w = I64 \<Longrightarrow> norm w v = un_val u w (norm w x)"
  using fold_un_val [of u w x] by (auto simp: do_constant_folding_def do_constant_folding_2_def op_bits_bin folded_norm)

text \<open>The extensions of 32 bits only look at these, whatever the width of the operand.\<close>

lemma fold_ext32: "u \<in> {Ext32s, Ext32u} \<Longrightarrow> un_val u I64 (norm w x) = fold_un u x"
  by (cases w; auto simp: sext_norm) (simp add: norm_def)

section \<open>Laws\<close>

lemma bin_val_commute: "b \<in> {Add, Mul, And, Or, Xor, Eqv, Nand, Nor} \<Longrightarrow> bin_val b w x y = bin_val b w y x"
  by (auto simp: ac_simps and.commute or.commute xor.commute)

lemma norm_sext: "norm w (sext (tcg_bits w) x) = norm w x"
proof (rule bit_word_eqI)
  show "bit (norm w (sext (tcg_bits w) x)) m = bit (norm w x) m" if "m < LENGTH(64)" for m
    using that sext_bit [of "tcg_bits w" m x] by (cases w) (auto simp: norm_def bit_take_bit_iff min_def)
qed

lemma drop_norm: "drop_bit (tcg_bits w) (norm w x) = 0" and norm_push: "norm w (push_bit (tcg_bits w) x) = 0"
  by (rule bit_word_eqI; simp add: norm_def bit_simps)+

lemma bin_val_zero:
  "b \<in> {Add, Sub, Shl, Shr, Sar, Rotl, Rotr} \<Longrightarrow> norm w x = x \<Longrightarrow> bin_val b w x 0 = Some x"
  using drop_norm [of w x] norm_sext [of w x] norm_push [of w x] tcg_bits_cases [of w] by (auto simp: norm_bits)

lemma bin_val_mul_zero: "bin_val Mul w x 0 = Some 0"
  by simp

lemma bin_val_same: "b \<in> {Or, And} \<Longrightarrow> norm w x = x \<Longrightarrow> bin_val b w x x = Some x"
  by auto

end
