(* ===== verification/Tcg_Typing.thy ===== *)
theory Tcg_Typing
  imports Tcg_Folding
begin

text \<open>
  The types of the operations, and what an operation reads and writes. The intermediate language
  has temporaries of 32 and of 64 bits, and \<open>tcg/README\<close> asks that the operands of an operation
  have its width.
\<close>

section \<open>Types\<close>

text \<open>
  The widths of the outputs and the inputs, where one is asked for: addresses of host memory have 64
  bits, guest addresses the width of the guest, and the extensions from 32 bits also take a
  temporary of that width.
\<close>

fun arg_widths :: "TCGOpcode \<Rightarrow> tcg_width option list" where
  "arg_widths INDEX_op_discard = [None]"
| "arg_widths INDEX_op_jmp = [Some I64]"
| "arg_widths (INDEX_op_mov w) = [Some w, Some w]"
| "arg_widths (INDEX_op_movi w) = [Some w]"
| "arg_widths (INDEX_op_bin b w) = [Some w, Some w, Some w]"
| "arg_widths (INDEX_op_un u w) = [Some w, if u \<in> {Ext32s, Ext32u} then None else Some w]"
| "arg_widths (INDEX_op_setcond w) = [Some w, Some w, Some w]"
| "arg_widths (INDEX_op_brcond w) = [Some w, Some w]"
| "arg_widths (INDEX_op_deposit w) = [Some w, Some w, Some w]"
| "arg_widths (INDEX_op_ld l w) = [Some w, Some I64]"
| "arg_widths (INDEX_op_st l w) = [Some w, Some I64]"
| "arg_widths (INDEX_op_div q w) = [Some w, Some w, Some w]"
| "arg_widths (INDEX_op_bswap b w) = [Some w, Some w]"
| "arg_widths (INDEX_op_qemu_ld l) = [if l = Qld64 then Some I64 else None, None]"
| "arg_widths (INDEX_op_qemu_st l) = [if l = Qst64 then Some I64 else None, None]"
| "arg_widths _ = []"

fun op_exists :: "TCGOpcode \<Rightarrow> bool" where
  "op_exists (INDEX_op_un u w) \<longleftrightarrow> (u \<in> {Ext32s, Ext32u} \<longrightarrow> w = I64)"
| "op_exists (INDEX_op_ld l w) \<longleftrightarrow> (l \<in> {Ld32u, Ld32s} \<longrightarrow> w = I64)"
| "op_exists (INDEX_op_st l w) \<longleftrightarrow> (l = St32 \<longrightarrow> w = I64)"
| "op_exists (INDEX_op_bswap b w) \<longleftrightarrow> (b = Bswap64 \<longrightarrow> w = I64)"
| "op_exists _ \<longleftrightarrow> True"

definition fits :: "TCGContext \<Rightarrow> tcg_width option \<Rightarrow> TCGArg \<Rightarrow> bool" where
  "fits s wo a \<longleftrightarrow> unat a < nb_temps s \<and> (case wo of None \<Rightarrow> True | Some w \<Rightarrow> temp_width s (unat a) = w)"

definition typed :: "TCGContext \<Rightarrow> TCGOpcode \<times> TCGArg list \<Rightarrow> bool" where
  "typed s = (\<lambda>(op, args).
     if op = INDEX_op_call then
       args \<noteq> [] \<and> length args = call_args (args ! 0) + 3 \<and> call_outs (args ! 0) \<le> call_args (args ! 0) \<and>
       list_all (fits s None) (take (call_args (args ! 0)) (tl args))
     else
       op_exists op \<and> length args = nb_args op \<and> list_all2 (fits s) (arg_widths op) (take (length (arg_widths op)) args))"

text \<open>A block: its globals are temporaries, and there are not too many temporaries.\<close>

definition tcg_typed :: "TCGContext \<Rightarrow> (TCGOpcode \<times> TCGArg list) list \<Rightarrow> bool" where
  "tcg_typed s prog \<longleftrightarrow> nb_globals s \<le> nb_temps s \<and> nb_temps s \<le> TCG_MAX_TEMPS \<and> list_all (typed s) prog"

text \<open>The temporaries of 32 bits hold values of 32 bits.\<close>

definition normed :: "TCGContext \<Rightarrow> tcg_state \<Rightarrow> bool" where
  "normed s st \<longleftrightarrow> (\<forall>t<nb_temps s. norm (temp_width s t) (tregs st t) = tregs st t)"

lemma length_arg_widths: "op \<noteq> INDEX_op_call \<Longrightarrow> length (arg_widths op) = nb_oargs (tcg_op_defs op) + nb_iargs (tcg_op_defs op)"
  by (cases op) auto

lemma nb_args_simps [simp]:
  "nb_args (INDEX_op_mov w) = 2" "nb_args (INDEX_op_movi w) = 2" "nb_args (INDEX_op_bin b w) = 3" "nb_args (INDEX_op_un u w) = 2"
  "nb_args (INDEX_op_setcond w) = 4" "nb_args (INDEX_op_brcond w) = 4" "nb_args (INDEX_op_deposit w) = 5" "nb_args (INDEX_op_ld l w) = 3"
  "nb_args (INDEX_op_st k w) = 3" "nb_args (INDEX_op_div q w) = 3" "nb_args (INDEX_op_bswap e w) = 2" "nb_args (INDEX_op_qemu_ld m) = 3"
  "nb_args (INDEX_op_qemu_st n) = 3" "nb_args INDEX_op_nop = 0" "nb_args INDEX_op_end = 0" "nb_args INDEX_op_nop1 = 1" "nb_args INDEX_op_nop2 = 2"
  "nb_args INDEX_op_nop3 = 3" "nb_args INDEX_op_discard = 1" "nb_args INDEX_op_set_label = 1" "nb_args INDEX_op_jmp = 1" "nb_args INDEX_op_br = 1"
  "nb_args INDEX_op_debug_insn_start = 1" "nb_args INDEX_op_exit_tb = 1" "nb_args INDEX_op_goto_tb = 1"
  by (simp_all add: nb_args_def)

lemma fits_Some: "fits s (Some w) a \<longleftrightarrow> unat a < nb_temps s \<and> temp_width s (unat a) = w"
  by (simp add: fits_def)

lemma typed_simps:
  "typed s (INDEX_op_nop, []) \<longleftrightarrow> True"
  "typed s (INDEX_op_mov w, [d, x]) \<longleftrightarrow> fits s (Some w) d \<and> fits s (Some w) x"
  "typed s (INDEX_op_movi w, [d, v]) \<longleftrightarrow> fits s (Some w) d"
  "typed s (INDEX_op_un u w, [d, x]) \<longleftrightarrow> op_exists (INDEX_op_un u w) \<and> fits s (Some w) d \<and> fits s (if u \<in> {Ext32s, Ext32u} then None else Some w) x"
  "typed s (INDEX_op_bin b w, [d, x, y]) \<longleftrightarrow> fits s (Some w) d \<and> fits s (Some w) x \<and> fits s (Some w) y"
  by (simp_all add: typed_def)

lemma length_2: "length xs = 2 \<longleftrightarrow> (\<exists>a b. xs = [a, b])"
  by (auto simp: numeral_2_eq_2 length_Suc_conv)

lemma length_3: "length xs = 3 \<longleftrightarrow> (\<exists>a b c. xs = [a, b, c])"
  by (auto simp: numeral_3_eq_3 length_Suc_conv)

lemma typed_args:
  "typed s (INDEX_op_mov w, args) \<Longrightarrow> \<exists>d x. args = [d, x]"
  "typed s (INDEX_op_movi w, args) \<Longrightarrow> \<exists>d v. args = [d, v]"
  "typed s (INDEX_op_un u w, args) \<Longrightarrow> \<exists>d x. args = [d, x]"
  "typed s (INDEX_op_bin b w, args) \<Longrightarrow> \<exists>d x y. args = [d, x, y]"
  by (simp_all add: typed_def length_2 length_3)

lemma typed_fits:
  assumes "typed s (op, args)" and "op \<noteq> INDEX_op_call" and "i < nb_oargs (tcg_op_defs op) + nb_iargs (tcg_op_defs op)"
  shows "i < length args" and "fits s (arg_widths op ! i) (args ! i)" and "unat (args ! i) < nb_temps s"
proof -
  show l: "i < length args" using assms by (simp add: typed_def nb_args_def)
  show f: "fits s (arg_widths op ! i) (args ! i)"
    using assms l length_arg_widths [OF assms(2)] by (auto simp: typed_def list_all2_conv_all_nth)
  show "unat (args ! i) < nb_temps s" using f by (simp add: fits_def)
qed

section \<open>Operations on states\<close>

lemma rd_fits: "fits s (Some w) a \<Longrightarrow> normed s st \<Longrightarrow> rd w a st = tregs st (unat a)"
  by (auto simp: fits_def normed_def rd_def)

lemma wr_same: "normed s st \<Longrightarrow> unat a < nb_temps s \<Longrightarrow> wr s a (tregs st (unat a)) st = st"
  by (simp add: wr_def normed_def)

lemma tregs_wr [simp]: "tregs (wr s a v st) = (tregs st)(unat a := norm (temp_width s (unat a)) v)"
  by (simp add: wr_def)

lemma normed_wr: "normed s st \<Longrightarrow> normed s (wr s a v st)"
  by (simp add: normed_def)

lemma exec_simps:
  "exec_op h s INDEX_op_nop [] st = Some (Next st)"
  "exec_op h s (INDEX_op_mov w) [d, x] st = Some (Next (wr s d (rd w x st) st))"
  "exec_op h s (INDEX_op_movi w) [d, v] st = Some (Next (wr s d (norm w v) st))"
  "exec_op h s (INDEX_op_un u w) [d, x] st = Some (Next (wr s d (un_val u w (rd w x st)) st))"
  "exec_op h s (INDEX_op_bin b w) [d, x, y] st = map_option (\<lambda>v. Next (wr s d v st)) (bin_val b w (rd w x st) (rd w y st))"
  by (simp_all add: exec_op_def map_conv_bind_option o_def)

text \<open>An operation other than a call changes its output only.\<close>

lemma exec_outputs:
  assumes "exec_op h s op args st = Some (Next st')" and "op \<noteq> INDEX_op_call"
    and "\<And>i. i < nb_oargs (tcg_op_defs op) \<Longrightarrow> t \<noteq> unat (args ! i)"
  shows "tregs st' t = tregs st t"
  using assms by (cases op) (auto simp: exec_op_def Let_def bind_eq_Some_conv split: if_splits prod.splits)

lemma fold_wr_regs: "t \<notin> set (map unat outs) \<Longrightarrow> length vs = length outs \<Longrightarrow> tregs (fold (\<lambda>(a, v). wr s a v) (zip outs vs) st) t = tregs st t"
  by (induction outs vs arbitrary: st rule: list_induct2') auto

lemma normed_fold_wr: "normed s st \<Longrightarrow> normed s (fold (\<lambda>(a, v). wr s a v) ps st)"
  by (induction ps arbitrary: st) (auto simp: normed_wr split: prod.splits)

lemma exec_call_outputs:
  assumes "exec_op h s INDEX_op_call args st = Some (Next st')" and "t \<notin> set (map unat (take (call_outs (args ! 0)) (tl args)))"
    and "args ! (call_args (args ! 0) + 1) AND (TCG_CALL_CONST OR TCG_CALL_PURE) = 0 \<Longrightarrow> nb_globals s \<le> t"
  shows "tregs st' t = tregs st t"
  using assms by (auto simp: exec_op_def exec_call_def Let_def bind_eq_Some_conv c_assert_def fold_wr_regs split: if_splits)

lemma exec_normed:
  assumes "exec_op h s op args st = Some (Next st')" and "normed s st"
  shows "normed s st'"
proof (cases "op = INDEX_op_call")
  case True
  then show ?thesis
    using assms by (auto simp: exec_op_def exec_call_def Let_def bind_eq_Some_conv c_assert_def normed_def intro!: normed_fold_wr [unfolded normed_def, rule_format] split: if_splits)
next
  case False
  then show ?thesis
    using assms by (cases op) (auto simp: exec_op_def Let_def bind_eq_Some_conv normed_wr normed_def split: if_splits prod.splits)
qed

end
