(* ===== verification/Tcg_Sound.thy ===== *)
theory Tcg_Sound
  imports Tcg_Typing
begin

text \<open>
  One step of the optimiser: what an operation becomes does the same on every state that the array
  of the temporaries describes, and the new array describes the state after it.
\<close>

section \<open>Resetting outputs\<close>

lemma reset_temps_spec:
  assumes "wf_temps s T" and "\<forall>t\<in>set ts. t < nb_temps s"
  shows "\<exists>T'. reset_temps s ts T = Some T' \<and> wf_temps s T' \<and>
    (\<forall>R R'. vals s T R \<longrightarrow> (\<forall>t. t \<notin> set ts \<longrightarrow> R' t = R t) \<longrightarrow> vals s T' R')"
  using assms
proof (induction ts arbitrary: T)
  case Nil
  have "R' = R" if "\<forall>t. t \<notin> set [] \<longrightarrow> R' t = R t" for R' R :: "nat \<Rightarrow> u64" using that by auto
  then show ?case using Nil by (auto simp: reset_temps_def)
next
  case (Cons t ts)
  obtain U where U: "reset_temp t (nb_globals s) T = Some U" "forgets s t T U" using reset_temp_spec [OF Cons.prems(1)] Cons.prems(2) by auto
  then have "wf_temps s U" by (simp add: forgets_def)
  from Cons.IH [OF this] obtain T' where T': "reset_temps s ts U = Some T'" "wf_temps s T'"
    "\<forall>R R'. vals s U R \<longrightarrow> (\<forall>t. t \<notin> set ts \<longrightarrow> R' t = R t) \<longrightarrow> vals s T' R'" using Cons.prems(2) by auto
  have "vals s T' R'" if "vals s T R" "\<forall>u. u \<notin> set (t # ts) \<longrightarrow> R' u = R u" for R R'
    using T'(3) forgets_vals [OF U(2) that(1), of "R' t"] that(2) by auto
  then show ?case using U(1) T'(1,2) by (auto simp: reset_temps_def)
qed

lemma clear_temps_spec: "nb_temps s \<le> TCG_MAX_TEMPS \<Longrightarrow> wf_temps s (clear_temps s T) \<and> vals s (clear_temps s T) R"
  by (simp add: wf_temps_def clear_temps_def vals_def)

section \<open>Soundness of one operation\<close>

definition sound :: "TCGContext \<Rightarrow> temps \<Rightarrow> TCGOpcode \<Rightarrow> TCGArg list \<Rightarrow> folded \<Rightarrow> bool" where
  "sound s T op args = (\<lambda>(op', args', T').
     wf_temps s T' \<and> typed s (op', args') \<and> length args' \<le> length args \<and>
     (\<forall>h st. vals s T (tregs st) \<longrightarrow> normed s st \<longrightarrow>
        exec_op h s op' args' st = exec_op h s op args st \<and>
        (\<forall>st'. exec_op h s op args st = Some (Next st') \<longrightarrow> vals s T' (tregs st'))))"

text \<open>The simplest cases: an operation that does nothing, a copy and a constant.\<close>

lemma sound_nop:
  assumes "wf_temps s T" and "\<And>h st. vals s T (tregs st) \<Longrightarrow> normed s st \<Longrightarrow> exec_op h s op args st = Some (Next st)"
  shows "sound s T op args (INDEX_op_nop, [], T)"
  using assms by (auto simp: sound_def typed_simps exec_simps)

lemma sound_mov:
  assumes wf: "wf_temps s T" and f: "fits s (Some w) d" "fits s (Some w) x" "d \<noteq> x" and c: "tstate (T (unat x)) \<noteq> TCG_TEMP_COPY"
    and l: "2 \<le> length args" and g: "tcg_opt_gen_mov s d x T = Some (out, T')"
    and e: "\<And>h st. vals s T (tregs st) \<Longrightarrow> normed s st \<Longrightarrow> exec_op h s op args st = Some (Next (wr s d (tregs st (unat x)) st))"
  shows "sound s T op args (INDEX_op_mov w, out, T')"
proof -
  have "unat d \<noteq> unat x" using f(3) unsigned_word_eqI by blast
  then have G: "out = [d, x]" "wf_temps s T'" "\<And>R. vals s T R \<Longrightarrow> vals s T' (R(unat d := R (unat x)))"
    using gen_mov_spec [OF wf _ _ _ c _ g] f(1,2) by (auto simp: fits_Some)
  have "norm (temp_width s (unat d)) (tregs st (unat x)) = tregs st (unat x)" if "normed s st" for st
    using f(1,2) that by (auto simp: fits_Some normed_def)
  then show ?thesis using G e f l rd_fits [OF f(2)] by (auto simp: sound_def typed_simps exec_simps)
qed

lemma sound_movi:
  assumes wf: "wf_temps s T" and f: "fits s (Some w) d" and l: "2 \<le> length args" and g: "tcg_opt_gen_movi s d v T = Some (out, T')"
    and e: "\<And>h st. vals s T (tregs st) \<Longrightarrow> normed s st \<Longrightarrow> exec_op h s op args st = Some (Next (wr s d (norm w v) st))"
  shows "sound s T op args (INDEX_op_movi w, out, T')"
proof -
  have G: "out = [d, v]" "wf_temps s T'" "\<And>R. vals s T R \<Longrightarrow> vals s T' (R(unat d := norm w v))"
    using gen_movi_spec [OF wf, of d v] f g by (auto simp: fits_Some)
  then show ?thesis using e f l by (auto simp: sound_def typed_simps exec_simps fits_Some)
qed

text \<open>An operation that stays, after which its outputs are unknown.\<close>

lemma sound_reset:
  assumes wf: "wf_temps s T" and t: "typed s (op, args)" "op \<noteq> INDEX_op_call"
    and r: "reset_temps s (map unat (take (nb_oargs (tcg_op_defs op)) args)) T = Some T'"
  shows "sound s T op args (op, args, T')"
proof -
  let ?ts = "map unat (take (nb_oargs (tcg_op_defs op)) args)"
  have b: "\<forall>t\<in>set ?ts. t < nb_temps s" using typed_fits(3) [OF t] by (auto simp: in_set_conv_nth)
  have V: "wf_temps s T'" "\<And>R R'. vals s T R \<Longrightarrow> (\<forall>t. t \<notin> set ?ts \<longrightarrow> R' t = R t) \<Longrightarrow> vals s T' R'"
    using reset_temps_spec [OF wf b] r by auto
  have o: "unat (args ! i) \<in> set ?ts" if "i < nb_oargs (tcg_op_defs op)" for i
    using that typed_fits(1) [OF t, of i] by (auto simp: set_conv_nth intro!: image_eqI exI [of _ i])
  have "tregs st' u = tregs st u" if "exec_op h s op args st = Some (Next st')" "u \<notin> set ?ts" for h st st' u
    by (rule exec_outputs [OF that(1) t(2)]) (use o that(2) in blast)
  then show ?thesis using V t(1) unfolding sound_def by blast
qed

lemma sound_clear:
  assumes "wf_temps s T" and "typed s (op, args)"
  shows "sound s T op args (op, args, clear_temps s T)"
  using assms clear_temps_spec [of s T] by (auto simp: sound_def wf_temps_def [of s T])

lemma sound_call:
  assumes wf: "wf_temps s T" and t: "typed s (INDEX_op_call, args)" and ng: "nb_globals s \<le> nb_temps s"
    and r: "fold_rest s T INDEX_op_call args = Some r"
  shows "sound s T INDEX_op_call args r"
proof -
  let ?outs = "map unat (take (call_outs (args ! 0)) (tl args))"
  let ?pure = "args ! (call_args (args ! 0) + 1) AND (TCG_CALL_CONST OR TCG_CALL_PURE) \<noteq> 0"
  define ts where "ts = (if ?pure then [] else [0..<nb_globals s]) @ ?outs"
  have app: "reset_temps s (xs @ ys) T = reset_temps s xs T \<bind> reset_temps s ys" for xs ys
    by (induction xs arbitrary: T) (auto simp: reset_temps_def split: bind_splits)
  obtain T' where T': "reset_temps s ts T = Some T'" "r = (INDEX_op_call, args, T')"
  proof (cases ?pure)
    case True
    then show thesis using r that by (auto simp: fold_rest_def ts_def Let_def bind_eq_Some_conv)
  next
    case False
    then show thesis using r that by (auto simp: fold_rest_def ts_def Let_def app bind_eq_Some_conv)
  qed
  have "set ?outs \<subseteq> {..<nb_temps s}"
    using t set_take_subset_set_take [of "call_outs (args ! 0)" "call_args (args ! 0)" "tl args"]
    by (auto simp: typed_def list_all_iff fits_def)
  then have b: "\<forall>t\<in>set ts. t < nb_temps s" using ng by (auto simp: ts_def)
  have V: "wf_temps s T'" "\<And>R R'. vals s T R \<Longrightarrow> (\<forall>t. t \<notin> set ts \<longrightarrow> R' t = R t) \<Longrightarrow> vals s T' R'"
    using reset_temps_spec [OF wf b] T'(1) by auto
  have "tregs st' u = tregs st u" if "exec_op h s INDEX_op_call args st = Some (Next st')" "u \<notin> set ts" for h st st' u
    by (rule exec_call_outputs [OF that(1)]) (use that(2) in \<open>auto simp: ts_def split: if_splits\<close>)
  then show ?thesis using V t unfolding sound_def T'(2) by blast
qed

section \<open>Propagation of copies\<close>

definition resolve :: "temps \<Rightarrow> TCGArg \<Rightarrow> TCGArg" where
  "resolve T a = (if tstate (T (unat a)) = TCG_TEMP_COPY then tval (T (unat a)) else a)"

lemma resolve_spec:
  assumes wf: "wf_temps s T" and f: "fits s wo a"
  shows "fits s wo (resolve T a)" and "tstate (T (unat (resolve T a))) \<noteq> TCG_TEMP_COPY"
    and "vals s T (tregs st) \<Longrightarrow> rd w (resolve T a) st = rd w a st"
  using wf_tempsD [OF wf, of "unat a"] f by (auto simp: resolve_def fits_def rd_def vals_def split: option.splits)

definition plain_op :: "TCGOpcode \<Rightarrow> bool" where
  "plain_op op \<longleftrightarrow> op_flags (tcg_op_defs op) AND (TCG_OPF_CALL_CLOBBER OR TCG_OPF_SIDE_EFFECTS) = 0"

definition propagated :: "temps \<Rightarrow> TCGOpcode \<Rightarrow> TCGArg list \<Rightarrow> TCGArg list" where
  "propagated T op args =
     map (\<lambda>i. if plain_op op \<and> i \<in> {nb_oargs (tcg_op_defs op)..<nb_oargs (tcg_op_defs op) + nb_iargs (tcg_op_defs op)}
              then resolve T (args ! i) else args ! i) [0..<length args]"

lemma foldM_resolve:
  assumes "distinct is" and "\<forall>i\<in>set is. i < length args \<and> unat (args ! i) < TCG_MAX_TEMPS"
  shows "foldM (\<lambda>i args. do {
            c_assert (i < length args);
            t \<leftarrow> temp_at T (args ! i);
            Some (if tstate t = TCG_TEMP_COPY then args[i := tval t] else args)
          }) is args = Some (map (\<lambda>i. if i \<in> set is then resolve T (args ! i) else args ! i) [0..<length args])"
  using assms
proof (induction "is" arbitrary: args)
  case (Cons i "is")
  let ?args = "args[i := resolve T (args ! i)]"
  have "(if tstate (T (unat (args ! i))) = TCG_TEMP_COPY then args[i := tval (T (unat (args ! i)))] else args) = ?args"
    by (simp add: resolve_def)
  moreover have "\<forall>j\<in>set is. j < length ?args \<and> unat (?args ! j) < TCG_MAX_TEMPS" using Cons.prems by (auto simp: nth_list_update)
  moreover have "map (\<lambda>j. if j \<in> set is then resolve T (?args ! j) else ?args ! j) [0..<length ?args] =
      map (\<lambda>j. if j \<in> set (i # is) then resolve T (args ! j) else args ! j) [0..<length args]"
    using Cons.prems by (auto simp: nth_list_update)
  ultimately show ?case using Cons.IH [of ?args] Cons.prems by (simp add: temp_at_def c_assert_def)
qed (simp add: map_nth)

lemma plain_not_call: "plain_op op \<Longrightarrow> op \<noteq> INDEX_op_call"
  by (auto simp: plain_op_def TCG_OPF_SIDE_EFFECTS_def TCG_OPF_CALL_CLOBBER_def)

lemma copy_propagate_spec:
  assumes wf: "wf_temps s T" and t: "typed s (op, args)"
  shows "copy_propagate T op args = Some (propagated T op args)"
proof (cases "plain_op op")
  case True
  note c = plain_not_call [OF True]
  have "unat (args ! i) < TCG_MAX_TEMPS" if "i < nb_oargs (tcg_op_defs op) + nb_iargs (tcg_op_defs op)" for i
    using wf_tempsD(1) [OF wf typed_fits(3) [OF t c that]] .
  then have "\<forall>i\<in>set [nb_oargs (tcg_op_defs op)..<nb_oargs (tcg_op_defs op) + nb_iargs (tcg_op_defs op)].
      i < length args \<and> unat (args ! i) < TCG_MAX_TEMPS" using typed_fits(1) [OF t c] by auto
  note foldM_resolve [OF distinct_upt this, of T]
  then show ?thesis using True c by (simp add: copy_propagate_def propagated_def plain_op_def [symmetric])
next
  case False
  then show ?thesis by (simp add: copy_propagate_def propagated_def plain_op_def [symmetric] map_nth)
qed

lemma propagated_typed:
  assumes wf: "wf_temps s T" and t: "typed s (op, args)"
  shows "typed s (op, propagated T op args)"
proof (cases "plain_op op")
  case True
  note c = plain_not_call [OF True]
  have "fits s (arg_widths op ! i) (propagated T op args ! i)" if "i < length (arg_widths op)" for i
    using that typed_fits(1,2) [OF t c] resolve_spec(1) [OF wf] length_arg_widths [OF c] by (auto simp: propagated_def)
  then show ?thesis using t c by (auto simp: typed_def list_all2_conv_all_nth propagated_def)
qed (use t in \<open>simp add: propagated_def map_nth\<close>)

text \<open>The operation reads the same values.\<close>

lemma propagated_exec:
  assumes wf: "wf_temps s T" and t: "typed s (op, args)" and v: "vals s T (tregs st)"
  shows "exec_op h s op (propagated T op args) st = exec_op h s op args st"
proof (cases "plain_op op")
  case True
  note c = plain_not_call [OF True]
  let ?args = "propagated T op args"
  have r: "rd w (?args ! i) st = rd w (args ! i) st"
    if "i < nb_oargs (tcg_op_defs op) + nb_iargs (tcg_op_defs op)" for i w
    using typed_fits(1,2) [OF t c that] resolve_spec(3) [OF wf _ v] that by (auto simp: propagated_def)
  have k: "?args ! i = args ! i"
    if "i < length args" "i < nb_oargs (tcg_op_defs op) \<or> nb_oargs (tcg_op_defs op) + nb_iargs (tcg_op_defs op) \<le> i" for i
    using that by (auto simp: propagated_def)
  have l: "length ?args = length args" "length args = nb_args op" using t c by (simp_all add: propagated_def typed_def)
  show ?thesis
    using True r [of 0] r [of 1] r [of 2] k [of 0] k [of 1] k [of 2] k [of 3] k [of 4] l
    by (cases op) (simp_all add: exec_op_def plain_op_def TCG_OPF_SIDE_EFFECTS_def TCG_OPF_CALL_CLOBBER_def TCG_OPF_BB_END_def
      del: length_greater_0_conv cong: if_cong)
qed (simp add: propagated_def map_nth)

section \<open>The folded operations\<close>

definition resolved :: "temps \<Rightarrow> TCGArg list \<Rightarrow> bool" where
  "resolved T ins \<longleftrightarrow> (\<forall>a\<in>set ins. tstate (T (unat a)) \<noteq> TCG_TEMP_COPY)"

lemma op_to_mov_simps [simp]:
  "op_to_mov (INDEX_op_bin b w) = INDEX_op_mov w" "op_to_movi (INDEX_op_bin b w) = INDEX_op_movi w"
  "op_to_movi (INDEX_op_un u w) = INDEX_op_movi w" "op_to_movi (INDEX_op_mov w) = INDEX_op_movi w"
  by (cases w; simp add: op_to_mov_def op_to_movi_def op_bits_bin)+

lemma temp_at_fits: "wf_temps s T \<Longrightarrow> fits s wo a \<Longrightarrow> temp_at T a = Some (T (unat a))"
  using wf_tempsD(1) by (auto simp: temp_at_def fits_def)

lemma vals_const: "vals s T R \<Longrightarrow> fits s (Some w) a \<Longrightarrow> tstate (T (unat a)) = TCG_TEMP_CONST \<Longrightarrow> R (unat a) = norm w (tval (T (unat a)))"
  by (auto simp: vals_def fits_def)

lemma sound_fold_mov:
  assumes wf: "wf_temps s T" and t: "typed s (INDEX_op_mov w, [d, x])" and c: "resolved T [x]"
    and r: "fold_rest s T (INDEX_op_mov w) [d, x] = Some r"
  shows "sound s T (INDEX_op_mov w) [d, x] r"
proof -
  have f: "fits s (Some w) d" "fits s (Some w) x" using t by (simp_all add: typed_simps)
  have e: "exec_op h s (INDEX_op_mov w) [d, x] st = Some (Next (wr s d (tregs st (unat x)) st))" if "normed s st" for h st
    using rd_fits [OF f(2) that] by (simp add: exec_simps)
  have cx: "tstate (T (unat x)) \<noteq> TCG_TEMP_COPY" using c by (simp add: resolved_def)
  have r': "(if d = x then Some (INDEX_op_nop, [], T)
      else if tstate (T (unat x)) \<noteq> TCG_TEMP_CONST then map_option (Pair (INDEX_op_mov w)) (tcg_opt_gen_mov s d x T)
      else map_option (Pair (INDEX_op_movi w)) (tcg_opt_gen_movi s d (tval (T (unat x))) T)) = Some r"
    using r cx by (simp add: fold_rest_def temp_at_fits [OF wf f(2)] cong: if_cong)
  consider "d = x" | "d \<noteq> x" "tstate (T (unat x)) \<noteq> TCG_TEMP_CONST" | "d \<noteq> x" "tstate (T (unat x)) = TCG_TEMP_CONST" by blast
  then show ?thesis
  proof cases
    case 1
    then show ?thesis using r' wf e f wr_same by (auto simp: fits_Some intro!: sound_nop)
  next
    case 2
    then obtain out T' where g: "tcg_opt_gen_mov s d x T = Some (out, T')" "r = (INDEX_op_mov w, out, T')" using r' by auto
    show ?thesis unfolding g(2) by (rule sound_mov [OF wf f 2(1) cx _ g(1)]) (simp_all add: e)
  next
    case 3
    have "exec_op h s (INDEX_op_mov w) [d, x] st = Some (Next (wr s d (norm w (tval (T (unat x)))) st))" if "vals s T (tregs st)" "normed s st" for h st
      using e [OF that(2)] vals_const [OF that(1) f(2) 3(2)] by simp
    moreover obtain out T' where g: "tcg_opt_gen_movi s d (tval (T (unat x))) T = Some (out, T')" "r = (INDEX_op_movi w, out, T')"
      using r' 3 by auto
    ultimately show ?thesis unfolding g(2) by (intro sound_movi [OF wf f(1) _ g(1)]) simp_all
  qed
qed

lemma sound_fold_movi:
  assumes "wf_temps s T" and "typed s (INDEX_op_movi w, [d, v])" and "fold_rest s T (INDEX_op_movi w) [d, v] = Some r"
  shows "sound s T (INDEX_op_movi w) [d, v] r"
  using assms by (auto simp: fold_rest_def typed_simps exec_simps intro!: sound_movi)

lemma sound_fold_un:
  assumes wf: "wf_temps s T" and t: "typed s (INDEX_op_un u w, [d, x])"
    and r: "fold_rest s T (INDEX_op_un u w) [d, x] = Some r"
  shows "sound s T (INDEX_op_un u w) [d, x] r"
proof -
  have f: "fits s (Some w) d" "fits s (if u \<in> {Ext32s, Ext32u} then None else Some w) x" and u: "u \<in> {Ext32s, Ext32u} \<longrightarrow> w = I64"
    using t by (simp_all add: typed_simps)
  have r': "(if tstate (T (unat x)) = TCG_TEMP_CONST then do {
        v \<leftarrow> do_constant_folding (INDEX_op_un u w) (tval (T (unat x))) 0;
        map_option (Pair (INDEX_op_movi w)) (tcg_opt_gen_movi s d v T) }
      else map_option (\<lambda>T. (INDEX_op_un u w, [d, x], T)) (reset_temp (unat d) (nb_globals s) T)) = Some r"
    using r by (simp add: fold_rest_def temp_at_fits [OF wf f(2)] cong: if_cong)
  show ?thesis
  proof (cases "tstate (T (unat x)) = TCG_TEMP_CONST")
    case True
    obtain v out T' where v: "do_constant_folding (INDEX_op_un u w) (tval (T (unat x))) 0 = Some v"
      and g: "tcg_opt_gen_movi s d v T = Some (out, T')" "r = (INDEX_op_movi w, out, T')"
      using r' True by (auto simp: bind_eq_Some_conv)
    have "un_val u w (rd w x st) = norm w v" if "vals s T (tregs st)" for st
    proof (cases "u \<in> {Ext32s, Ext32u}")
      case ext: True
      have "tregs st (unat x) = norm (temp_width s (unat x)) (tval (T (unat x)))" using that True f(2) by (simp add: vals_def fits_def)
      moreover have "v = fold_un u (tval (T (unat x)))"
        using v u ext by (auto simp: do_constant_folding_def do_constant_folding_2_def op_bits_bin)
      ultimately show ?thesis using u ext fold_ext32 [OF ext] by (auto simp: rd_def)
    next
      case False
      then show ?thesis using vals_const [OF that _ True] f(2) do_constant_folding_un [OF v u] by (simp add: rd_def)
    qed
    then show ?thesis unfolding g(2) by (intro sound_movi [OF wf f(1) _ g(1)]) (simp_all add: exec_simps)
  next
    case False
    then show ?thesis using r' wf t sound_reset [OF wf t] by (auto simp: reset_temps_def)
  qed
qed

lemma sound_fold_bin:
  assumes wf: "wf_temps s T" and t: "typed s (INDEX_op_bin b w, [d, x, y])"
    and r: "fold_rest s T (INDEX_op_bin b w) [d, x, y] = Some r"
  shows "sound s T (INDEX_op_bin b w) [d, x, y] r"
proof -
  have f: "fits s (Some w) d" "fits s (Some w) x" "fits s (Some w) y" using t by (simp_all add: typed_simps)
  have r': "(if tstate (T (unat x)) = TCG_TEMP_CONST \<and> tstate (T (unat y)) = TCG_TEMP_CONST then do {
        v \<leftarrow> do_constant_folding (INDEX_op_bin b w) (tval (T (unat x))) (tval (T (unat y)));
        map_option (Pair (INDEX_op_movi w)) (tcg_opt_gen_movi s d v T) }
      else map_option (\<lambda>T. (INDEX_op_bin b w, [d, x, y], T)) (reset_temp (unat d) (nb_globals s) T)) = Some r"
    using r by (simp add: fold_rest_def temp_at_fits [OF wf f(2)] temp_at_fits [OF wf f(3)] cong: if_cong)
  show ?thesis
  proof (cases "tstate (T (unat x)) = TCG_TEMP_CONST \<and> tstate (T (unat y)) = TCG_TEMP_CONST")
    case True
    obtain v out T' where v: "do_constant_folding (INDEX_op_bin b w) (tval (T (unat x))) (tval (T (unat y))) = Some v"
      and g: "tcg_opt_gen_movi s d v T = Some (out, T')" "r = (INDEX_op_movi w, out, T')"
      using r' True by (auto simp: bind_eq_Some_conv)
    have "bin_val b w (rd w x st) (rd w y st) = Some (norm w v)" if "vals s T (tregs st)" for st
      using do_constant_folding_bin [OF v] vals_const [OF that f(2)] vals_const [OF that f(3)] True by (simp add: rd_def)
    then show ?thesis unfolding g(2) by (intro sound_movi [OF wf f(1) _ g(1)]) (simp_all add: exec_simps)
  next
    case False
    then show ?thesis using r' wf t sound_reset [OF wf t] by (auto simp: reset_temps_def)
  qed
qed

text \<open>The simplifications: the operation has the value of its first input, or the value zero.\<close>

lemma sound_first:
  assumes wf: "wf_temps s T" and t: "typed s (INDEX_op_bin b w, [d, x, y])" and c: "tstate (T (unat x)) \<noteq> TCG_TEMP_COPY"
    and e: "\<And>st. vals s T (tregs st) \<Longrightarrow> normed s st \<Longrightarrow> bin_val b w (rd w x st) (rd w y st) = Some (tregs st (unat x))"
    and r: "(if same then Some (Some (INDEX_op_nop, [], T))
       else map_option (\<lambda>(out, T). Some (INDEX_op_mov w, out, T)) (tcg_opt_gen_mov s d x T)) = Some (Some r)"
    and m: "same \<longleftrightarrow> tstate (T (unat d)) = TCG_TEMP_COPY \<and> tval (T (unat d)) = x \<and> cp \<or> d = x"
  shows "sound s T (INDEX_op_bin b w) [d, x, y] r"
proof -
  have f: "fits s (Some w) d" "fits s (Some w) x" using t by (simp_all add: typed_simps)
  show ?thesis
  proof (cases same)
    case True
    have xd: "tregs st (unat x) = tregs st (unat d)" if "vals s T (tregs st)" for st
      using m True that f(1) by (auto simp: vals_def fits_def)
    have "exec_op h s (INDEX_op_bin b w) [d, x, y] st = Some (Next st)" if "vals s T (tregs st)" "normed s st" for h st
      using that e wr_same [of s st d] f(1) xd [OF that(1)] by (auto simp: exec_simps fits_def)
    then show ?thesis using True r wf by (auto intro!: sound_nop)
  next
    case False
    then obtain out T' where g: "tcg_opt_gen_mov s d x T = Some (out, T')" "r = (INDEX_op_mov w, out, T')" using r by auto
    have "d \<noteq> x" using m False by blast
    then show ?thesis unfolding g(2) by (intro sound_mov [OF wf f _ c _ g(1)]) (simp_all add: exec_simps e)
  qed
qed

lemma sound_simplify:
  assumes wf: "wf_temps s T" and t: "typed s (INDEX_op_bin b w, [d, x, y])" and c: "tstate (T (unat x)) \<noteq> TCG_TEMP_COPY"
    and r: "simplify s T (INDEX_op_bin b w) [d, x, y] = Some (Some r)"
  shows "sound s T (INDEX_op_bin b w) [d, x, y] r"
proof -
  have f: "fits s (Some w) d" "fits s (Some w) x" "fits s (Some w) y" using t by (simp_all add: typed_simps)
  have rx: "rd w x st = tregs st (unat x)" "norm w (tregs st (unat x)) = tregs st (unat x)" if "normed s st" for st
    using rd_fits [OF f(2) that] that f(2) by (auto simp: fits_def normed_def)
  have zero: "rd w y st = 0" if "vals s T (tregs st)" "tstate (T (unat y)) = TCG_TEMP_CONST" "tval (T (unat y)) = 0" for st
    using vals_const [OF that(1) f(3) that(2)] that(3) by (simp add: rd_def)
  note at = temp_at_fits [OF wf f(1)] temp_at_fits [OF wf f(2)] temp_at_fits [OF wf f(3)]
  consider "b \<in> {Add, Sub, Shl, Shr, Sar, Rotl, Rotr}" | "b = Mul" | "b \<in> {Or, And}"
    using r by (cases b) (auto simp: simplify_def)
  then show ?thesis
  proof cases
    case 1
    then have y: "tstate (T (unat y)) = TCG_TEMP_CONST" "tval (T (unat y)) = 0"
      and m: "(if tstate (T (unat d)) = TCG_TEMP_COPY \<and> tval (T (unat d)) = x \<and> True \<or> d = x then Some (Some (INDEX_op_nop, [], T))
         else map_option (\<lambda>(out, T). Some (INDEX_op_mov w, out, T)) (tcg_opt_gen_mov s d x T)) = Some (Some r)"
      using r by (auto simp: simplify_def at split: if_splits)
    have "bin_val b w (rd w x st) (rd w y st) = Some (tregs st (unat x))" if "vals s T (tregs st)" "normed s st" for st
      unfolding zero [OF that(1) y] rx(1) [OF that(2)] using bin_val_zero [OF 1 rx(2) [OF that(2)]] .
    then show ?thesis by (rule sound_first [OF wf t c _ m refl])
  next
    case 2
    then have y: "tstate (T (unat y)) = TCG_TEMP_CONST" "tval (T (unat y)) = 0"
      using r by (auto simp: simplify_def at split: if_splits)
    obtain out T' where g: "tcg_opt_gen_movi s d 0 T = Some (out, T')" "r = (INDEX_op_movi w, out, T')"
      using r 2 y by (auto simp: simplify_def at)
    show ?thesis unfolding g(2) by (rule sound_movi [OF wf f(1) _ g(1)]) (use 2 zero [OF _ y] in \<open>simp_all add: exec_simps\<close>)
  next
    case 3
    then have y: "x = y"
      and m: "(if tstate (T (unat d)) = TCG_TEMP_COPY \<and> tval (T (unat d)) = x \<and> False \<or> d = x then Some (Some (INDEX_op_nop, [], T))
         else map_option (\<lambda>(out, T). Some (INDEX_op_mov w, out, T)) (tcg_opt_gen_mov s d x T)) = Some (Some r)"
      using r by (auto simp: simplify_def at split: if_splits)
    have "bin_val b w (rd w x st) (rd w y st) = Some (tregs st (unat x))" if "vals s T (tregs st)" "normed s st" for st
      unfolding y [symmetric] rx(1) [OF that(2)] using bin_val_same [OF 3 rx(2) [OF that(2)]] .
    then show ?thesis by (rule sound_first [OF wf t c _ m refl])
  qed
qed

lemma simplify_bin: "simplify s T op args = Some (Some r) \<Longrightarrow> \<exists>b w. op = INDEX_op_bin b w"
  by (cases op) (simp_all add: simplify_def)

section \<open>Any operation\<close>

lemma plain_folded [simp]: "plain_op (INDEX_op_mov w)" "plain_op (INDEX_op_movi w)" "plain_op (INDEX_op_un u w)" "plain_op (INDEX_op_bin b w)"
  by (cases w; simp add: plain_op_def TCG_OPF_SIDE_EFFECTS_def TCG_OPF_CALL_CLOBBER_def TCG_OPF_64BIT_def)+

lemma propagated_simps:
  "propagated T (INDEX_op_mov w) [d, x] = [d, resolve T x]" "propagated T (INDEX_op_movi w) [d, v] = [d, v]"
  "propagated T (INDEX_op_un u w) [d, x] = [d, resolve T x]" "propagated T (INDEX_op_bin b w) [d, x, y] = [d, resolve T x, resolve T y]"
  by (simp_all add: propagated_def upt_rec)

lemma sound_args:
  assumes "sound s T op args' r" and "length args' = length args"
    and "\<And>h st. vals s T (tregs st) \<Longrightarrow> exec_op h s op args' st = exec_op h s op args st"
  shows "sound s T op args r"
  using assms by (auto simp: sound_def split: prod.splits)

lemma constant_second_bin:
  assumes "temp_at T x = Some (T (unat x))"
  obtains p q where "constant_second T (INDEX_op_bin b w) [d, x, y] = Some [d, p, q]"
    and "p = x \<and> q = y \<or> p = y \<and> q = x \<and> commutative (INDEX_op_bin b w)"
proof (cases "commutative (INDEX_op_bin b w) \<and> tstate (T (unat x)) = TCG_TEMP_CONST")
  case True
  then show thesis using that [of y x] assms by (simp add: constant_second_def numeral_2_eq_2)
next
  case False
  then show thesis using that [of x y] assms by (auto simp: constant_second_def)
qed

lemma fold_bin_sound:
  assumes wf: "wf_temps s T" and t: "typed s (INDEX_op_bin b w, [d, x, y])" and r: "fold_op s T (INDEX_op_bin b w) [d, x, y] = Some r"
  shows "sound s T (INDEX_op_bin b w) [d, x, y] r"
proof -
  let ?op = "INDEX_op_bin b w"
  let ?x = "resolve T x" and ?y = "resolve T y"
  have f: "fits s (Some w) d" "fits s (Some w) x" "fits s (Some w) y" using t by (simp_all add: typed_simps)
  note X = resolve_spec [OF wf f(2)] and Y = resolve_spec [OF wf f(3)]
  obtain p q where pq: "constant_second T ?op [d, ?x, ?y] = Some [d, p, q]" and c: "p = ?x \<and> q = ?y \<or> p = ?y \<and> q = ?x \<and> commutative ?op"
    using constant_second_bin [OF temp_at_fits [OF wf X(1)]] by metis
  have t': "typed s (?op, [d, p, q])" and n: "tstate (T (unat p)) \<noteq> TCG_TEMP_COPY" using c f X(1,2) Y(1,2) by (auto simp: typed_simps)
  have e: "exec_op h s ?op [d, p, q] st = exec_op h s ?op [d, x, y] st" if "vals s T (tregs st)" for h st
    using c X(3) [OF that] Y(3) [OF that] bin_val_commute [of b] by (auto simp: exec_simps commutative_def)
  obtain z where z: "simplify s T ?op [d, p, q] = Some z" "(case z of Some r \<Rightarrow> Some r | None \<Rightarrow> fold_rest s T ?op [d, p, q]) = Some r"
    using r copy_propagate_spec [OF wf t] pq by (auto simp: fold_op_def propagated_simps bind_eq_Some_conv)
  then have "sound s T ?op [d, p, q] r" using sound_simplify [OF wf t' n, of r] sound_fold_bin [OF wf t', of r] by (cases z) simp_all
  then show ?thesis by (rule sound_args) (simp_all add: e)
qed

lemma fold_other_sound:
  assumes wf: "wf_temps s T" and t: "typed s (op, args)" and ng: "nb_globals s \<le> nb_temps s" and b: "\<And>b w. op \<noteq> INDEX_op_bin b w"
    and r: "fold_op s T op args = Some r"
  shows "sound s T op args r"
proof -
  let ?args = "propagated T op args"
  note t' = propagated_typed [OF wf t]
  have r': "fold_rest s T op ?args = Some r"
    using r copy_propagate_spec [OF wf t] b by (cases op) (auto simp: fold_op_def constant_second_def commutative_def simplify_def)
  have "sound s T op ?args r"
  proof (cases op)
    case (INDEX_op_mov w)
    then obtain d x where a: "args = [d, x]" using t typed_args(1) by blast
    have "resolved T [resolve T x]" using t resolve_spec(2) [OF wf] unfolding INDEX_op_mov a by (auto simp: typed_simps resolved_def)
    then show ?thesis using sound_fold_mov [OF wf] t' r' unfolding INDEX_op_mov a propagated_simps by blast
  next
    case (INDEX_op_movi w)
    then obtain d v where "args = [d, v]" using t typed_args(2) by blast
    then show ?thesis using sound_fold_movi [OF wf] t' r' unfolding INDEX_op_movi by (auto simp: propagated_simps)
  next
    case (INDEX_op_un u w)
    then obtain d x where "args = [d, x]" using t typed_args(3) by blast
    then show ?thesis using sound_fold_un [OF wf] t' r' unfolding INDEX_op_un by (auto simp: propagated_simps)
  next
    case INDEX_op_call
    then show ?thesis using sound_call [OF wf _ ng] t' r' by blast
  qed (use r' t' b sound_reset [OF wf t'] sound_clear [OF wf t'] in \<open>auto simp: fold_rest_def split: if_splits\<close>)
  moreover have "length ?args = length args" by (simp add: propagated_def)
  ultimately show ?thesis using propagated_exec [OF wf t] by (rule sound_args)
qed

lemma fold_op_sound:
  assumes "wf_temps s T" and "typed s (op, args)" and "nb_globals s \<le> nb_temps s" and "fold_op s T op args = Some r"
  shows "sound s T op args r"
proof (cases "\<exists>b w. op = INDEX_op_bin b w")
  case True
  then show ?thesis using fold_bin_sound assms typed_args(4) by blast
next
  case False
  then show ?thesis using fold_other_sound assms by blast
qed

text \<open>Labels stay labels, and nothing else becomes one.\<close>

lemma fold_op_label:
  assumes "fold_op s T op args = Some (op', args', T')"
  shows "op = INDEX_op_set_label \<Longrightarrow> op' = op \<and> args' = args \<and> T' = clear_temps s T"
    and "op \<noteq> INDEX_op_set_label \<Longrightarrow> op' \<noteq> INDEX_op_set_label"
proof -
  show "op' = op \<and> args' = args \<and> T' = clear_temps s T" if "op = INDEX_op_set_label"
    using assms that by (auto simp: fold_op_def copy_propagate_def constant_second_def commutative_def simplify_def fold_rest_def)
  show "op' \<noteq> INDEX_op_set_label" if "op \<noteq> INDEX_op_set_label"
    using assms that by (cases op) (auto simp: fold_op_def simplify_def fold_rest_def Let_def op_to_movi_def op_to_mov_def bind_eq_Some_conv split: if_splits)
qed

end
