(* ===== verification/Tcg_Correct.thy ===== *)
theory Tcg_Correct
  imports Tcg_Sound
begin

text \<open>
  The optimiser on a translation block: the optimised block does what the block did, it is typed
  again, and the optimiser returns.
\<close>

section \<open>Blocks\<close>

text \<open>Two blocks of which the second is the optimised first.\<close>

fun folded_as :: "TCGContext \<Rightarrow> temps \<Rightarrow> (TCGOpcode \<times> TCGArg list) list \<Rightarrow> (TCGOpcode \<times> TCGArg list) list \<Rightarrow> bool" where
  "folded_as s T [] [] \<longleftrightarrow> True"
| "folded_as s T ((op, args) # ps) (q # qs) \<longleftrightarrow>
     (\<exists>T'. fold_op s T op args = Some (fst q, snd q, T') \<and> folded_as s T' ps qs)"
| "folded_as s T _ _ \<longleftrightarrow> False"

lemma typed_length: "typed s (op, args) \<Longrightarrow> op = INDEX_op_call \<and> args = [] \<longleftrightarrow> False"
  "typed s (op, args) \<Longrightarrow> args_len op (args @ rest) = length args"
  by (auto simp: typed_def args_len_def nth_append split: if_splits)

lemma decode_Cons:
  "decode (op # ops) args = Some prog \<longleftrightarrow>
     \<not> (op = INDEX_op_call \<and> args = []) \<and> args_len op args \<le> length args \<and>
     (\<exists>ps. decode ops (drop (args_len op args) args) = Some ps \<and> prog = (op, take (args_len op args) args) # ps)"
  by auto

lemma fold_ops_decode:
  assumes "wf_temps s T" and "nb_globals s \<le> nb_temps s" and "decode ops args = Some prog" and "list_all (typed s) prog"
    and "fold_ops s T ops args = Some (ops', outs)"
  shows "\<exists>prog'. decode ops' outs = Some prog' \<and> folded_as s T prog prog' \<and> list_all (typed s) prog' \<and>
    length ops' = length ops \<and> length outs \<le> length args"
  using assms
proof (induction ops arbitrary: T args prog ops' outs)
  case (Cons op ops)
  let ?n = "args_len op args"
  obtain ps where ps: "decode ops (drop ?n args) = Some ps" "prog = (op, take ?n args) # ps" "?n \<le> length args"
    using Cons.prems(3) unfolding decode_Cons by blast
  obtain op' out T' ops1 outs1 where f: "fold_op s T op (take ?n args) = Some (op', out, T')"
    "fold_ops s T' ops (drop ?n args) = Some (ops1, outs1)" "ops' = op' # ops1" "outs = out @ outs1"
    using Cons.prems(5) by (auto simp: bind_eq_Some_conv split: if_splits)
  have "typed s (op, take ?n args)" "list_all (typed s) ps" using Cons.prems(4) ps(2) by simp_all
  then have S: "wf_temps s T'" "typed s (op', out)" "length out \<le> ?n"
    using fold_op_sound [OF Cons.prems(1) _ Cons.prems(2) f(1)] ps(3) by (auto simp: sound_def)
  obtain prog1 where p: "decode ops1 outs1 = Some prog1" "folded_as s T' ps prog1" "list_all (typed s) prog1"
    "length ops1 = length ops" "length outs1 \<le> length (drop ?n args)"
    using Cons.IH [OF S(1) Cons.prems(2) ps(1) \<open>list_all (typed s) ps\<close> f(2)] by blast
  have "decode ops' outs = Some ((op', out) # prog1)"
    using typed_length [OF S(2)] p(1) by (auto simp: f(3,4) decode_Cons)
  then show ?case using p f(1) S ps(2,3) by (auto simp: f(3,4) intro!: exI [of _ "(op', out) # prog1"])
qed (auto split: if_splits)

lemma folded_length: "folded_as s T prog prog' \<Longrightarrow> length prog' = length prog"
  by (induction s T prog prog' rule: folded_as.induct) auto

text \<open>At every position there are facts that the optimiser used from there on.\<close>

lemma folded_drop:
  assumes "folded_as s T prog prog'" and "wf_temps s T" and "nb_globals s \<le> nb_temps s" and "list_all (typed s) prog"
  shows "\<exists>T'. wf_temps s T' \<and> folded_as s T' (drop n prog) (drop n prog')"
  using assms
proof (induction s T prog prog' arbitrary: n rule: folded_as.induct)
  case (2 s T op args ps q qs)
  show ?case
  proof (cases n)
    case (Suc m)
    obtain T' where T': "fold_op s T op args = Some (fst q, snd q, T')" "folded_as s T' ps qs" using 2(2) by auto
    have "wf_temps s T'" using fold_op_sound [OF 2(3) _ 2(4) T'(1)] 2(5) by (simp add: sound_def)
    then show ?thesis using 2(1) [OF T'(2)] 2 Suc by auto
  qed (use 2 in auto)
qed auto

lemma folded_labels:
  "folded_as s T prog prog' \<Longrightarrow> i < length prog \<Longrightarrow> prog' ! i = (INDEX_op_set_label, as) \<longleftrightarrow> prog ! i = (INDEX_op_set_label, as)"
proof (induction s T prog prog' arbitrary: i rule: folded_as.induct)
  case (2 s T op args ps q qs)
  then obtain T' where T': "fold_op s T op args = Some (fst q, snd q, T')" "folded_as s T' ps qs" by auto
  then show ?case
    using 2 fold_op_label [OF T'(1)] by (cases i; cases "op = INDEX_op_set_label"; cases q) auto
qed auto

lemma folded_label_index: "folded_as s T prog prog' \<Longrightarrow> label_index prog' l = label_index prog l"
  unfolding label_index_def using folded_labels folded_length
  by (intro find_cong) fastforce+

lemma label_index_SomeD: "label_index prog l = Some i \<Longrightarrow> i < length prog \<and> prog ! i = (INDEX_op_set_label, [l])"
  by (auto simp: label_index_def find_Some_iff)

lemma exec_branch: "exec_op h s op args st = Some (Branch l st') \<Longrightarrow> st' = st"
  by (cases op) (auto simp: exec_op_def Let_def bind_eq_Some_conv split: if_splits)

section \<open>Runs\<close>

text \<open>
  What the optimiser knows at a position holds there, or the position has a label, after which it
  knows nothing.
\<close>

definition knows :: "TCGContext \<Rightarrow> (TCGOpcode \<times> TCGArg list) list \<Rightarrow> nat \<Rightarrow> temps \<Rightarrow> tcg_state \<Rightarrow> bool" where
  "knows s prog pc T st \<longleftrightarrow> vals s T (tregs st) \<or> pc < length prog \<and> fst (prog ! pc) = INDEX_op_set_label"

lemma fold_op_step:
  assumes wf: "wf_temps s T" and t: "typed s (op, args)" and ng: "nb_globals s \<le> nb_temps s" and r: "fold_op s T op args = Some (op', args', T')"
    and st: "normed s st" and v: "vals s T (tregs st) \<or> op = INDEX_op_set_label"
  shows "exec_op h s op' args' st = exec_op h s op args st" and "exec_op h s op args st = Some (Next st') \<Longrightarrow> vals s T' (tregs st')"
proof -
  have S: "sound s T op args (op', args', T')" by (rule fold_op_sound [OF wf t ng r])
  have c: "vals s (clear_temps s T) (tregs st')" using clear_temps_spec wf by (simp add: wf_temps_def)
  show "exec_op h s op' args' st = exec_op h s op args st" using v S st fold_op_label(1) [OF r] by (auto simp: sound_def)
  show "vals s T' (tregs st')" if "exec_op h s op args st = Some (Next st')"
    using v S st that c fold_op_label(1) [OF r] by (auto simp: sound_def)
qed

lemma folded_run:
  assumes F: "folded_as s T0 prog prog'" "wf_temps s T0" and ng: "nb_globals s \<le> nb_temps s" and t: "list_all (typed s) prog"
    and "wf_temps s T" and "folded_as s T (drop pc prog) (drop pc prog')" and "normed s st" and "knows s prog pc T st"
  shows "tcg_run h s n prog' pc st = tcg_run h s n prog pc st"
  using assms(5-8)
proof (induction n arbitrary: pc T st)
  case (Suc n)
  note len = folded_length [OF F(1)]
  show ?case
  proof (cases "pc < length prog")
    case True
    obtain op args where oa: "prog ! pc = (op, args)" by force
    obtain op' args' where oa': "prog' ! pc = (op', args')" by force
    have "drop pc prog = (op, args) # drop (Suc pc) prog" "drop pc prog' = (op', args') # drop (Suc pc) prog'"
      using True len oa oa' by (simp_all add: Cons_nth_drop_Suc [symmetric])
    then obtain T' where f: "fold_op s T op args = Some (op', args', T')" "folded_as s T' (drop (Suc pc) prog) (drop (Suc pc) prog')"
      using Suc.prems(2) by auto
    have ty: "typed s (op, args)" using t True oa by (auto simp: list_all_length)
    have kn: "vals s T (tregs st) \<or> op = INDEX_op_set_label" using Suc.prems(4) oa by (auto simp: knows_def)
    note S = fold_op_step [OF Suc.prems(1) ty ng f(1) Suc.prems(3) kn]
    have wf': "wf_temps s T'" using fold_op_sound [OF Suc.prems(1) ty ng f(1)] by (simp add: sound_def)
    have next_eq: "tcg_run h s n prog' (Suc pc) st' = tcg_run h s n prog (Suc pc) st'" if "exec_op h s op args st = Some (Next st')" for st'
      using Suc.IH [OF wf' f(2) exec_normed [OF that Suc.prems(3)]] S(2) [OF that] by (simp add: knows_def)
    have jump_eq: "tcg_run h s n prog' i st = tcg_run h s n prog i st" if "label_index prog l = Some i" for l i
      using folded_drop [OF F ng t, of i] Suc.IH [of _ i st] Suc.prems(3) label_index_SomeD [OF that] by (auto simp: knows_def)
    show ?thesis
      using True len S(1) next_eq jump_eq exec_branch [of h s op args st] folded_label_index [OF F(1)]
      by (auto simp: oa oa' split: option.splits tcg_outcome.splits)
  qed (use len in simp)
qed simp

section \<open>The optimiser returns\<close>

text \<open>
  Folding a shift of constants is undefined for a large count, and an \<open>and\<close> or \<open>or\<close> of a temporary
  with itself fails an assertion when the temporary is constant.
\<close>

fun tame :: "TCGOpcode \<times> TCGArg list \<Rightarrow> bool" where
  "tame (INDEX_op_bin b w, args) \<longleftrightarrow> b \<notin> {Shl, Shr, Sar, Rotl, Rotr} \<and> (b \<in> {And, Or} \<longrightarrow> args ! 1 \<noteq> args ! 2)"
| "tame _ \<longleftrightarrow> True"

lemma fold_bin_total: "b \<notin> {Shl, Shr, Sar, Rotl, Rotr} \<Longrightarrow> \<exists>v. do_constant_folding (INDEX_op_bin b w) x y = Some v"
  by (cases b) (simp_all add: do_constant_folding_def do_constant_folding_2_def)

lemma fold_rest_bin_total:
  assumes wf: "wf_temps s T" and t: "typed s (INDEX_op_bin b w, [d, x, y])" and b: "b \<notin> {Shl, Shr, Sar, Rotl, Rotr}"
  shows "\<exists>r. fold_rest s T (INDEX_op_bin b w) [d, x, y] = Some r"
proof -
  have f: "unat d < nb_temps s" "fits s (Some w) x" "fits s (Some w) y" using t by (simp_all add: typed_simps fits_def)
  obtain v where v: "do_constant_folding (INDEX_op_bin b w) (tval (T (unat x))) (tval (T (unat y))) = Some v" using fold_bin_total [OF b] by blast
  obtain T1 where "tcg_opt_gen_movi s d v T = Some ([d, v], T1)" using gen_movi_spec [OF wf f(1)] by blast
  moreover obtain T2 where "reset_temp (unat d) (nb_globals s) T = Some T2" using reset_temp_spec [OF wf f(1)] by blast
  ultimately show ?thesis using v by (simp add: fold_rest_def temp_at_fits [OF wf f(2)] temp_at_fits [OF wf f(3)])
qed

lemma simplify_bin_total:
  assumes wf: "wf_temps s T" and t: "typed s (INDEX_op_bin b w, [d, x, y])" and b: "b \<notin> {Shl, Shr, Sar, Rotl, Rotr}"
    and c: "tstate (T (unat x)) \<noteq> TCG_TEMP_COPY" and e: "b \<in> {And, Or} \<Longrightarrow> x = y \<Longrightarrow> tstate (T (unat x)) \<noteq> TCG_TEMP_CONST"
  shows "\<exists>z. simplify s T (INDEX_op_bin b w) [d, x, y] = Some z"
proof -
  have f: "fits s (Some w) d" "fits s (Some w) x" "fits s (Some w) y" using t by (simp_all add: typed_simps)
  then have u: "unat d < nb_temps s" "unat x < nb_temps s" by (simp_all add: fits_def)
  have m: "\<exists>r. tcg_opt_gen_mov s d x T = Some r" if "d \<noteq> x" "tstate (T (unat x)) \<noteq> TCG_TEMP_CONST"
    using gen_mov_total [OF wf u _ c that(2)] that(1) unsigned_word_eqI by blast
  show ?thesis
    using b m e gen_movi_spec [OF wf u(1), of 0]
    by (cases b) (auto simp: simplify_def temp_at_fits [OF wf f(1)] temp_at_fits [OF wf f(2)] temp_at_fits [OF wf f(3)] split: if_splits)
qed

lemma fold_bin_op_total:
  assumes wf: "wf_temps s T" and t: "typed s (INDEX_op_bin b w, [d, x, y])" and m: "tame (INDEX_op_bin b w, [d, x, y])"
  shows "\<exists>r. fold_op s T (INDEX_op_bin b w) [d, x, y] = Some r"
proof -
  let ?op = "INDEX_op_bin b w"
  let ?x = "resolve T x" and ?y = "resolve T y"
  have f: "fits s (Some w) d" "fits s (Some w) x" "fits s (Some w) y" using t by (simp_all add: typed_simps)
  note X = resolve_spec [OF wf f(2)] and Y = resolve_spec [OF wf f(3)]
  have b: "b \<notin> {Shl, Shr, Sar, Rotl, Rotr}" and xy: "b \<in> {And, Or} \<Longrightarrow> x \<noteq> y" using m by simp_all
  have nc: "tstate (T (unat ?x)) \<noteq> TCG_TEMP_CONST" if ne: "x \<noteq> y" and eq: "?x = ?y"
  proof -
    consider "tstate (T (unat x)) = TCG_TEMP_COPY" | "tstate (T (unat y)) = TCG_TEMP_COPY" using ne eq by (auto simp: resolve_def split: if_splits)
    then show ?thesis
    proof cases
      case 1
      then show ?thesis using wf_tempsD(4) [OF wf, of "unat x"] f(2) by (simp add: resolve_def fits_def)
    next
      case 2
      then show ?thesis using wf_tempsD(4) [OF wf, of "unat y"] f(3) unfolding eq by (simp add: resolve_def fits_def)
    qed
  qed
  obtain p q where pq: "constant_second T ?op [d, ?x, ?y] = Some [d, p, q]" and c: "p = ?x \<and> q = ?y \<or> p = ?y \<and> q = ?x"
    using constant_second_bin [OF temp_at_fits [OF wf X(1)]] by metis
  have t': "typed s (?op, [d, p, q])" and n: "tstate (T (unat p)) \<noteq> TCG_TEMP_COPY" using c f X(1,2) Y(1,2) by (auto simp: typed_simps)
  have "b \<in> {And, Or} \<Longrightarrow> p = q \<Longrightarrow> tstate (T (unat p)) \<noteq> TCG_TEMP_CONST" using c nc xy by auto
  then obtain z where "simplify s T ?op [d, p, q] = Some z" using simplify_bin_total [OF wf t' b n] by blast
  then show ?thesis
    using copy_propagate_spec [OF wf t] pq fold_rest_bin_total [OF wf t' b] by (cases z) (auto simp: fold_op_def propagated_simps)
qed

lemma reset_temps_total:
  assumes "wf_temps s T" and "\<forall>t\<in>set ts. t < nb_temps s"
  obtains T' where "reset_temps s ts T = Some T'" and "wf_temps s T'"
  using reset_temps_spec [OF assms] by blast

lemma fold_call_total:
  assumes wf: "wf_temps s T" and t: "typed s (INDEX_op_call, args)" and ng: "nb_globals s \<le> nb_temps s"
  shows "\<exists>r. fold_rest s T INDEX_op_call args = Some r"
proof -
  have "set (take (call_outs (args ! 0)) (tl args)) \<subseteq> set (take (call_args (args ! 0)) (tl args))"
    using t by (intro set_take_subset_set_take) (simp add: typed_def)
  then have o: "\<forall>t\<in>set (map unat (take (call_outs (args ! 0)) (tl args))). t < nb_temps s"
    using t by (auto simp: typed_def list_all_iff fits_def)
  obtain T1 where 1: "reset_temps s [0..<nb_globals s] T = Some T1" "wf_temps s T1" using reset_temps_total [OF wf, of "[0..<nb_globals s]"] ng by auto
  obtain T2 where 2: "reset_temps s (map unat (take (call_outs (args ! 0)) (tl args))) T1 = Some T2" using reset_temps_total [OF 1(2) o] .
  obtain T3 where 3: "reset_temps s (map unat (take (call_outs (args ! 0)) (tl args))) T = Some T3" using reset_temps_total [OF wf o] .
  show ?thesis using 1(1) 2 3 by (simp add: fold_rest_def Let_def)
qed

lemma fold_mov_total:
  assumes wf: "wf_temps s T" and f: "fits s (Some w) d" "fits s (Some w) x" "tstate (T (unat x)) \<noteq> TCG_TEMP_COPY"
  shows "\<exists>r. fold_rest s T (INDEX_op_mov w) [d, x] = Some r"
proof -
  have u: "unat d < nb_temps s" "unat x < nb_temps s" using f by (simp_all add: fits_def)
  have "\<exists>r. tcg_opt_gen_mov s d x T = Some r" if "d \<noteq> x" "tstate (T (unat x)) \<noteq> TCG_TEMP_CONST"
    using gen_mov_total [OF wf u _ f(3) that(2)] that(1) unsigned_word_eqI by blast
  moreover have "\<exists>r. tcg_opt_gen_movi s d (tval (T (unat x))) T = Some r" using gen_movi_spec [OF wf u(1)] by blast
  ultimately show ?thesis by (auto simp: fold_rest_def temp_at_fits [OF wf f(2)])
qed

lemma fold_un_total:
  assumes wf: "wf_temps s T" and f: "unat d < nb_temps s" "fits s None x"
  shows "\<exists>r. fold_rest s T (INDEX_op_un u w) [d, x] = Some r"
proof -
  obtain v where v: "do_constant_folding (INDEX_op_un u w) (tval (T (unat x))) 0 = Some v"
    by (simp add: do_constant_folding_def do_constant_folding_2_def)
  moreover obtain r where "tcg_opt_gen_movi s d v T = Some r" using gen_movi_spec [OF wf f(1), of v] by blast
  moreover obtain T' where "reset_temp (unat d) (nb_globals s) T = Some T'" using reset_temp_spec [OF wf f(1)] by blast
  ultimately show ?thesis by (simp add: fold_rest_def temp_at_fits [OF wf f(2)])
qed

lemma fold_op_total:
  assumes wf: "wf_temps s T" and t: "typed s (op, args)" and ng: "nb_globals s \<le> nb_temps s" and m: "tame (op, args)"
  shows "\<exists>r. fold_op s T op args = Some r"
proof (cases "\<exists>b w. op = INDEX_op_bin b w")
  case True
  then show ?thesis using fold_bin_op_total wf t m typed_args(4) by blast
next
  case b: False
  let ?args = "propagated T op args"
  note t' = propagated_typed [OF wf t]
  have rs: "\<exists>T'. reset_temps s (map unat (take (nb_oargs (tcg_op_defs op)) ?args)) T = Some T'" if "op \<noteq> INDEX_op_call"
  proof -
    have "\<forall>t\<in>set (map unat (take (nb_oargs (tcg_op_defs op)) ?args)). t < nb_temps s" using typed_fits(3) [OF t' that] by (auto simp: in_set_conv_nth)
    from reset_temps_spec [OF wf this] show ?thesis by blast
  qed
  have "\<exists>r. fold_rest s T op ?args = Some r"
  proof (cases op)
    case (INDEX_op_mov w)
    then obtain d x where a: "args = [d, x]" using t typed_args(1) by blast
    have "fits s (Some w) d" "fits s (Some w) x" using t by (simp_all add: INDEX_op_mov a typed_simps)
    then show ?thesis using resolve_spec(1,2) [OF wf] fold_mov_total [OF wf] unfolding INDEX_op_mov a propagated_simps by blast
  next
    case (INDEX_op_movi w)
    then obtain d v where a: "args = [d, v]" using t typed_args(2) by blast
    then show ?thesis using t gen_movi_spec [OF wf, of d v] unfolding INDEX_op_movi a propagated_simps by (auto simp: fold_rest_def typed_simps fits_def)
  next
    case (INDEX_op_un u w)
    then obtain d x where a: "args = [d, x]" using t typed_args(3) by blast
    have "unat d < nb_temps s" "fits s None (resolve T x)"
      using t resolve_spec(1) [OF wf, of None x] unfolding INDEX_op_un a by (auto simp: typed_simps fits_def)
    then show ?thesis using fold_un_total [OF wf] unfolding INDEX_op_un a propagated_simps by blast
  next
    case INDEX_op_call
    then show ?thesis using fold_call_total [OF wf _ ng] t' by blast
  next
    case (INDEX_op_bin b w)
    then show ?thesis using b by blast
  qed (use rs in \<open>auto simp: fold_rest_def\<close>)
  then show ?thesis
    using copy_propagate_spec [OF wf t] b by (cases op) (auto simp: fold_op_def constant_second_def commutative_def simplify_def)
qed

lemma fold_ops_total:
  assumes "wf_temps s T" and "nb_globals s \<le> nb_temps s" and "decode ops args = Some prog" and "list_all (typed s) prog" and "list_all tame prog"
  shows "\<exists>r. fold_ops s T ops args = Some r"
  using assms
proof (induction ops arbitrary: T args prog)
  case (Cons op ops)
  let ?n = "args_len op args"
  obtain ps where ps: "decode ops (drop ?n args) = Some ps" "prog = (op, take ?n args) # ps" "?n \<le> length args" "\<not> (op = INDEX_op_call \<and> args = [])"
    using Cons.prems(3) unfolding decode_Cons by blast
  have t: "typed s (op, take ?n args)" "list_all (typed s) ps" "tame (op, take ?n args)" "list_all tame ps" using Cons.prems(4,5) ps(2) by simp_all
  obtain op' out T' where f: "fold_op s T op (take ?n args) = Some (op', out, T')"
    using fold_op_total [OF Cons.prems(1) t(1) Cons.prems(2) t(3)] by auto
  have "wf_temps s T'" using fold_op_sound [OF Cons.prems(1) t(1) Cons.prems(2) f] by (simp add: sound_def)
  then obtain r where "fold_ops s T' ops (drop ?n args) = Some r" using Cons.IH [OF _ Cons.prems(2) ps(1) t(2,4)] by blast
  then show ?case using f ps(3,4) by (cases r) auto
qed simp

lemma optimize_folded:
  assumes "decode ops args = Some prog" and "tcg_typed s prog" and "tcg_optimize s T ops args = Some (ops', args')"
  obtains prog' where "decode ops' args' = Some prog'" and "folded_as s (clear_temps s T) prog prog'" and "list_all (typed s) prog'"
    and "length args' \<le> length args" and "wf_temps s (clear_temps s T)"
  using assms fold_ops_decode [of s "clear_temps s T" ops args prog ops' args'] clear_temps_spec [of s T]
  unfolding tcg_typed_def tcg_optimize_def tcg_constant_folding_def by blast

section \<open>Properties\<close>

text \<open>An example: constants, a copy of a global and the addition of a zero.\<close>

definition ex_context :: TCGContext where
  "ex_context = \<lparr>nb_temps = 10, nb_globals = 2, temp_local = (\<lambda>_. False), temp_width = (\<lambda>t. if t < 7 then I32 else I64)\<rparr>"

definition ex_temps :: temps where
  "ex_temps = (\<lambda>_. \<lparr>tstate = TCG_TEMP_UNDEF, prev_copy = 0, next_copy = 0, tval = 0\<rparr>)"

definition ex_ops :: "TCGOpcode list" where
  "ex_ops = [INDEX_op_movi I32, INDEX_op_movi I32, INDEX_op_bin Add I32, INDEX_op_mov I32, INDEX_op_mov I32, INDEX_op_bin Add I32, INDEX_op_exit_tb]"

definition ex_args :: "TCGArg list" where
  "ex_args = [2, 5, 3, 0, 4, 2, 3, 5, 0, 6, 5, 1, 6, 3, 9]"

definition ex_prog :: "(TCGOpcode \<times> TCGArg list) list" where
  "ex_prog = [(INDEX_op_movi I32, [2, 5]), (INDEX_op_movi I32, [3, 0]), (INDEX_op_bin Add I32, [4, 2, 3]), (INDEX_op_mov I32, [5, 0]),
     (INDEX_op_mov I32, [6, 5]), (INDEX_op_bin Add I32, [1, 6, 3]), (INDEX_op_exit_tb, [9])]"

definition ex_ops' :: "TCGOpcode list" where
  "ex_ops' = [INDEX_op_movi I32, INDEX_op_movi I32, INDEX_op_movi I32, INDEX_op_mov I32, INDEX_op_mov I32, INDEX_op_mov I32, INDEX_op_exit_tb]"

definition ex_args' :: "TCGArg list" where
  "ex_args' = [2, 5, 3, 0, 4, 5, 5, 0, 6, 5, 1, 5, 9]"

lemma ex_decode: "decode ex_ops ex_args = Some ex_prog"
  by code_simp

lemma ex_typed: "tcg_typed ex_context ex_prog"
  by code_simp

lemma ex_optimize: "tcg_optimize ex_context ex_temps ex_ops ex_args = Some (ex_ops', ex_args')"
  by code_simp

lemma ex_tame: "list_all tame ex_prog"
  by code_simp

text \<open>
  C7. The optimised block does what the block did. From every state, after any number of operations,
  both have come to the same position with the same values in all temporaries and the same memory,
  have left for the same place, or are stuck.
\<close>

theorem tcg_optimize_correct:
  assumes "decode ops args = Some prog" and "tcg_typed s prog" and "tcg_optimize s T ops args = Some (ops', args')"
  shows "\<exists>prog'. decode ops' args' = Some prog' \<and>
    (\<forall>h n st. normed s st \<longrightarrow> tcg_run h s n prog' 0 st = tcg_run h s n prog 0 st)"
proof -
  obtain prog' where p: "decode ops' args' = Some prog'" "folded_as s (clear_temps s T) prog prog'" "wf_temps s (clear_temps s T)"
    using optimize_folded [OF assms] .
  have t: "nb_globals s \<le> nb_temps s" "list_all (typed s) prog" "nb_temps s \<le> TCG_MAX_TEMPS" using assms(2) by (simp_all add: tcg_typed_def)
  have "tcg_run h s n prog' 0 st = tcg_run h s n prog 0 st" if "normed s st" for h n st
    by (rule folded_run [OF p(2,3) t(1,2) p(3)]) (use p(2) that clear_temps_spec [OF t(3), of T "tregs st"] in \<open>simp_all add: knows_def\<close>)
  then show ?thesis using p(1) by blast
qed

theorem tcg_optimize_correct_witness:
  "\<exists>prog'. decode ex_ops' ex_args' = Some prog' \<and>
    (\<forall>h n st. normed ex_context st \<longrightarrow> tcg_run h ex_context n prog' 0 st = tcg_run h ex_context n ex_prog 0 st)"
  by (rule tcg_optimize_correct [OF ex_decode ex_typed ex_optimize])

text \<open>
  C8. The optimised block is typed again. It has as many operations, and not more arguments.
\<close>

theorem tcg_optimize_typed:
  assumes "decode ops args = Some prog" and "tcg_typed s prog" and "tcg_optimize s T ops args = Some (ops', args')"
  shows "\<exists>prog'. decode ops' args' = Some prog' \<and> tcg_typed s prog' \<and> length prog' = length prog \<and> length args' \<le> length args"
proof -
  obtain prog' where "decode ops' args' = Some prog'" "folded_as s (clear_temps s T) prog prog'" "list_all (typed s) prog'" "length args' \<le> length args"
    using optimize_folded [OF assms] .
  then show ?thesis using assms(2) folded_length by (auto simp: tcg_typed_def)
qed

theorem tcg_optimize_typed_witness:
  "\<exists>prog'. decode ex_ops' ex_args' = Some prog' \<and> tcg_typed ex_context prog' \<and> length prog' = length ex_prog \<and> length ex_args' \<le> length ex_args"
  by (rule tcg_optimize_typed [OF ex_decode ex_typed ex_optimize])

text \<open>
  C9. The optimiser returns on every typed block that has no shift and no rotation, and no \<open>and\<close> or
  \<open>or\<close> of a temporary with itself: its loops over the copies of a temporary end, and its assertions
  hold.
\<close>

theorem tcg_optimize_total:
  assumes "decode ops args = Some prog" and "tcg_typed s prog" and "list_all tame prog"
  shows "\<exists>ops' args'. tcg_optimize s T ops args = Some (ops', args')"
  using fold_ops_total [of s "clear_temps s T" ops args prog] clear_temps_spec [of s T] assms
  by (auto simp: tcg_typed_def tcg_optimize_def tcg_constant_folding_def)

theorem tcg_optimize_total_witness:
  "\<exists>ops' args'. tcg_optimize ex_context ex_temps ex_ops ex_args = Some (ops', args')"
  by (rule tcg_optimize_total [OF ex_decode ex_typed ex_tame])

end
