(* ===== verification/Tcg_Limits.thy ===== *)
theory Tcg_Limits
  imports Tcg_Correct
begin

text \<open>
  What the conditions of the correctness of the optimiser are for: a block on which it aborts, and
  a block with operands of different widths that it changes.
\<close>

text \<open>
  C40. An \<open>and\<close> or \<open>or\<close> of a constant with itself stops the optimiser: it makes a copy of the operand
  before it looks whether the operand is constant, and the assertion in \<open>tcg_opt_gen_mov\<close> fails.
\<close>

theorem tcg_optimize_aborts:
  assumes "fits s (Some w) d" and "fits s (Some w) x" and "d \<noteq> x" and "nb_temps s \<le> TCG_MAX_TEMPS"
    and "nb_globals s \<le> unat d" and "nb_globals s \<le> unat x" and "temp_local s (unat x) = temp_local s (unat d)" and "b \<in> {And, Or}"
  shows "tcg_optimize s T (INDEX_op_movi w # INDEX_op_bin b w # ops) ([x, v, d, x, x] @ args) = None"
proof -
  let ?bin = "INDEX_op_bin b w"
  have c: "wf_temps s (clear_temps s T)" using clear_temps_spec assms(4) by blast
  have u: "unat x < nb_temps s" "unat d < nb_temps s" "unat x < TCG_MAX_TEMPS" "unat d < TCG_MAX_TEMPS" and dx: "unat d \<noteq> unat x"
    using assms(1-4) unsigned_word_eqI by (auto simp: fits_def)
  define U where "U = (clear_temps s T)(unat x := (clear_temps s T (unat x))\<lparr>tstate := TCG_TEMP_CONST, tval := v\<rparr>)"
  have "reset_temp (unat x) (nb_globals s) (clear_temps s T) = Some (set_state (unat x) TCG_TEMP_ANY (clear_temps s T))"
    using reset_plain [OF c u(1)] u(1) by (simp add: clear_temps_def)
  then have g: "tcg_opt_gen_movi s x v (clear_temps s T) = Some ([x, v], U)" by (simp add: tcg_opt_gen_movi_def set_state_def U_def)
  have "copy_propagate (clear_temps s T) (INDEX_op_movi w) [x, v] = Some [x, v]"
    using copy_propagate_spec [OF c, of "INDEX_op_movi w" "[x, v]"] assms(2) by (simp add: typed_simps propagated_simps)
  then have first: "fold_op s (clear_temps s T) (INDEX_op_movi w) [x, v] = Some (INDEX_op_movi w, [x, v], U)"
    by (simp add: fold_op_def constant_second_def commutative_def simplify_def fold_rest_def g)
  have wfU: "wf_temps s U" by (rule plain_wf [OF c, of "unat x"]) (simp_all add: U_def clear_temps_def u(1))
  have t: "typed s (?bin, [d, x, x])" by (simp add: typed_simps assms(1,2))
  have st: "tstate (U (unat x)) = TCG_TEMP_CONST" "tstate (U (unat d)) = TCG_TEMP_UNDEF" using dx u by (simp_all add: U_def clear_temps_def)
  have "tcg_opt_gen_mov s d x U = None"
    using u dx st assms(5-7) by (simp add: tcg_opt_gen_mov_def reset_temp_def set_state_def Let_def)
  then have "simplify s U ?bin [d, x, x] = None" using assms(3,8) by (auto simp: simplify_def)
  moreover have "constant_second U ?bin [d, x, x] = Some [d, x, x]"
    using temp_at_fits [OF wfU assms(2)] by (simp add: constant_second_def numeral_2_eq_2)
  moreover have "resolve U x = x" by (simp add: resolve_def st)
  ultimately have "fold_op s U ?bin [d, x, x] = None" by (simp add: fold_op_def copy_propagate_spec [OF wfU t] propagated_simps)
  then show ?thesis using first by (simp add: tcg_optimize_def tcg_constant_folding_def args_len_def)
qed

theorem tcg_optimize_aborts_witness:
  "tcg_optimize ex_context ex_temps (INDEX_op_movi I32 # INDEX_op_bin And I32 # []) ([2, 5, 3, 2, 2] @ []) = None"
  by (rule tcg_optimize_aborts) (simp_all add: fits_def ex_context_def TCG_MAX_TEMPS_def)

text \<open>
  The block copies the 64-bit temporary 5 to 7 and its lower half to the 32-bit temporary 6, clears
  it, and copies 7 to 8.
\<close>

definition trunc_context :: TCGContext where
  "trunc_context = \<lparr>nb_temps = 10, nb_globals = 2, temp_local = (\<lambda>_. False), temp_width = (\<lambda>t. if t = 6 then I32 else I64)\<rparr>"

definition trunc_ops :: "TCGOpcode list" where
  "trunc_ops = [INDEX_op_mov I64, INDEX_op_mov I32, INDEX_op_movi I64, INDEX_op_mov I64]"

definition trunc_args :: "TCGArg list" where
  "trunc_args = [7, 5, 6, 5, 5, 0, 8, 7]"

definition trunc_args' :: "TCGArg list" where
  "trunc_args' = [7, 5, 6, 5, 5, 0, 8, 6]"

definition trunc_state :: tcg_state where
  "trunc_state = \<lparr>tregs = (\<lambda>t. if t = 5 then 0x100000000 else 0), tmem = (\<lambda>_. None)\<rparr>"

definition no_host :: tcg_host where
  "no_host = \<lparr>helper = (\<lambda>_ _ _. None), guest_ld = (\<lambda>_ _ _ _. None), guest_st = (\<lambda>_ _ _ _ _. None), tb_linked = (\<lambda>_. False)\<rparr>"

definition run_reg :: "nat \<Rightarrow> TCGArg list \<Rightarrow> u64 option" where
  "run_reg t args = do {
     prog \<leftarrow> decode trunc_ops args;
     case tcg_run no_host trunc_context 4 prog 0 trunc_state of Running pc st \<Rightarrow> Some (tregs st t) | _ \<Rightarrow> None
   }"


end
