(* ===== verification/Spec2Isabelle.thy ===== *)
theory Spec2Isabelle
  imports QPrelude Int128 Addr_Range Memory_Types Flat_View Memory_Region Memory_Render
    Sorted_Diff Memory_Topology Memory_Ops Memory_Find Memory_Sync Memory_Listeners Bitops Bitmap
    Bswap Memory_Access Host_Utils Xbzrle Page_Cache Qemu_File Ram_List Ram_Alloc Ram_Save Ram_Load
    Ram_Messages Ram_Sender Ram_Sync Ram_Search Ram_Stages Ram_Setup Migration Migration_Limits Tcg_Ops Tcg_Optimize
    Tcg_Classes Tcg_Folding Tcg_Typing Tcg_Sound Tcg_Correct Tcg_Limits
begin

text \<open>
  A verification library for QEMU 1.2.
\<close>

end
